(* ===== verification/Prelude.thy ===== *)
theory Prelude
  imports Main "HOL-Library.Word" "HOL-Library.While_Combinator"
begin

text \<open>
  Shared vocabulary of the development: the kernel's integer types (\<open>include/stdint.h\<close>), the
  way a C operation can fail to return normally, pointer-linked lists, counted loops, and the
  generic lemmas on words and lists that the component theories use.

  Pointers are 64-bit words and \<open>NULL\<close> is zero.  A C object type is a record, and the part of
  memory that holds objects of this type is a total function from addresses to records, so that
  reading a block that was never initialised gives whatever was there before.
\<close>

unbundle bit_operations_syntax

section \<open>Machine integers and results\<close>

type_synonym u8 = "8 word"
type_synonym u16 = "16 word"
type_synonym u32 = "32 word"
type_synonym u64 = "64 word"
type_synonym i32 = "32 word" \<comment> \<open>the C type \<open>int\<close>; read with \<open>sint\<close>\<close>

abbreviation NULL :: u64 where
  "NULL \<equiv> 0"

text \<open>
  A kernel operation returns a value, or it does not return: it dereferences \<open>NULL\<close> (a page
  fault, whose handler halts), executes \<open>cli; hlt\<close> itself, loops forever, or writes outside an array.
\<close>

datatype fault = NullDeref | Halted | Hang | OutOfBounds

type_synonym 'a res = "fault + 'a"

definition bind_res :: "'a res \<Rightarrow> ('a \<Rightarrow> 'b res) \<Rightarrow> 'b res" where
  "bind_res r f = (case r of Inl e \<Rightarrow> Inl e | Inr x \<Rightarrow> f x)"

definition returns :: "'a option \<Rightarrow> 'a res" where
  "returns r = (case r of None \<Rightarrow> Inl Hang | Some x \<Rightarrow> Inr x)"

definition deref :: "(u64 \<Rightarrow> 'a) \<Rightarrow> u64 \<Rightarrow> 'a res" where
  "deref h p = (if p = NULL then Inl NullDeref else Inr (h p))"

named_theorems res_simps "evaluation of the result monad"
named_theorems chain_simps "rewriting of list segments"

lemma bind_res_simps [simp, res_simps]:
  "bind_res (Inl e) f = Inl e"
  "bind_res (Inr x) f = f x"
  by (simp_all add: bind_res_def)

lemma returns_simps [simp, res_simps]:
  "returns None = Inl Hang"
  "returns (Some x) = Inr x"
  by (simp_all add: returns_def)

lemma deref_simps [simp, res_simps]:
  "deref h NULL = Inl NullDeref"
  "p \<noteq> NULL \<Longrightarrow> deref h p = Inr (h p)"
  by (simp_all add: deref_def)

lemma bind_res_eq_Inr [simp]:
  "bind_res r f = Inr y \<longleftrightarrow> (\<exists>x. r = Inr x \<and> f x = Inr y)"
  by (cases r) auto

lemma deref_eq_Inr [simp]: "deref h p = Inr x \<longleftrightarrow> p \<noteq> NULL \<and> x = h p"
  by (auto simp: deref_def)

section \<open>Word lemmas\<close>

lemma unat_of_nat_u64: "i < 2 ^ 64 \<Longrightarrow> unat (of_nat i :: u64) = i"
  by (simp add: unsigned_of_nat take_bit_nat_eq_self)

lemma unat_u64_lt: "unat (a :: u64) < 2 ^ 64"
  using unsigned_less [of a] by simp

lemma of_nat_u64_inj:
  "i < 2 ^ 64 \<Longrightarrow> j < 2 ^ 64 \<Longrightarrow> (of_nat i = (of_nat j :: u64)) = (i = j)"
  by (metis unat_of_nat_u64)

lemma unat_add_u64:
  "unat (a :: u64) + unat b < 2 ^ 64 \<Longrightarrow> unat (a + b) = unat a + unat b"
  by (simp add: unat_word_ariths)

lemma unat_sub_u64: "(b :: u64) \<le> a \<Longrightarrow> unat (a - b) = unat a - unat b"
  by (rule unat_sub)

lemma unat_add_of_nat_u64:
  "unat (a :: u64) + i < 2 ^ 64 \<Longrightarrow> unat (a + of_nat i) = unat a + i"
  by (simp add: unat_add_u64 unat_of_nat_u64)

text \<open>The C type \<open>int\<close>: its value, and the values that are not negative.\<close>

lemma unat_i32_lt: "unat (x :: i32) < 2 ^ 32"
  using unsigned_less [of x] by simp

lemma sint_i32:
  "sint (x :: i32) = (if unat x < 2 ^ 31 then int (unat x) else int (unat x) - 2 ^ 32)"
proof -
  define k where "k = uint x"
  have b: "0 \<le> k" "k < 2 ^ 32" "int (unat x) = k"
    using uint_lt2p [of x] by (simp_all add: k_def)
  have "sint x = (k + 2 ^ 31) mod 2 ^ 32 - 2 ^ 31"
    by (simp add: k_def sint_uint signed_take_bit_eq_take_bit_shift take_bit_eq_mod)
  also have "\<dots> = (if k < 2 ^ 31 then k else k - 2 ^ 32)"
  proof (cases "k < 2 ^ 31")
    case True
    with b(1,2) have "(k + 2 ^ 31) mod 2 ^ 32 = k + 2 ^ 31"
      by (intro mod_pos_pos_trivial) simp_all
    with True show ?thesis by simp
  next
    case False
    with b have "(k + 2 ^ 31 - 2 ^ 32) mod 2 ^ 32 = k + 2 ^ 31 - 2 ^ 32"
      by (intro mod_pos_pos_trivial) simp_all
    then have "(k + 2 ^ 31) mod 2 ^ 32 = k + 2 ^ 31 - 2 ^ 32"
      by (simp only: minus_mod_self2)
    with False show ?thesis by simp
  qed
  finally have "sint x = (if k < 2 ^ 31 then k else k - 2 ^ 32)" .
  moreover have "unat x = nat k" using b(3) by (metis nat_int)
  ultimately show ?thesis using b(1) by (simp add: nat_less_iff)
qed

lemma sint_i32_nonneg: "0 \<le> sint (x :: i32) \<longleftrightarrow> unat x < 2 ^ 31"
proof (cases "unat x < 2 ^ 31")
  case True
  then show ?thesis by (simp add: sint_i32)
next
  case False
  have "int (unat x) < int (2 ^ 32)" using unat_i32_lt [of x] by (rule of_nat_less_iff [THEN iffD2])
  with False show ?thesis by (simp add: sint_i32)
qed

lemma unat_i32_sint: "0 \<le> sint (x :: i32) \<Longrightarrow> unat x = nat (sint x)"
  using sint_i32_nonneg [of x] sint_i32 [of x] by (metis nat_int)

lemma sint_small: "k < 2 ^ 31 \<Longrightarrow> sint (of_nat k :: i32) = int k"
proof -
  assume k: "k < 2 ^ 31"
  then have "unat (of_nat k :: i32) = k" by (simp add: unsigned_of_nat take_bit_nat_eq_self)
  then show ?thesis using k by (simp add: sint_i32)
qed

lemma scast_small: "k < 2 ^ 31 \<Longrightarrow> (scast (of_nat k :: i32) :: u64) = of_nat k"
  using sint_small by (metis of_int_of_nat_eq scast_eq)

section \<open>Linked lists over a next-pointer function\<close>

text \<open>
  \<open>chain nx p xs q\<close>: following \<open>nx\<close> from \<open>p\<close> visits exactly the non-null nodes \<open>xs\<close> and then
  reaches \<open>q\<close>.
\<close>

primrec chain :: "(u64 \<Rightarrow> u64) \<Rightarrow> u64 \<Rightarrow> u64 list \<Rightarrow> u64 \<Rightarrow> bool" where
  "chain nx p [] q = (p = q)"
| "chain nx p (x # xs) q = (p = x \<and> x \<noteq> NULL \<and> chain nx (nx x) xs q)"

lemma chain_append [chain_simps]:
  "chain nx p (xs @ ys) q \<longleftrightarrow> (\<exists>r. chain nx p xs r \<and> chain nx r ys q)"
  by (induction xs arbitrary: p) auto

lemma chain_frame [chain_simps]:
  "u \<notin> set xs \<Longrightarrow> chain (nx(u := v)) p xs q = chain nx p xs q"
  by (induction xs arbitrary: p) auto

lemma chain_cong:
  "(\<And>x. x \<in> set xs \<Longrightarrow> nx x = nx' x) \<Longrightarrow> chain nx p xs q = chain nx' p xs q"
  by (induction xs arbitrary: p) auto

lemma chain_transfer:
  "chain nx p xs q \<Longrightarrow> (\<And>x. x \<in> set xs \<Longrightarrow> nx' x = nx x) \<Longrightarrow> chain nx' p xs q"
  by (induction xs arbitrary: p) auto

lemma chain_NULL [chain_simps]: "chain nx NULL xs NULL \<longleftrightarrow> xs = []"
  by (cases xs) auto

lemma chain_from_NULL [simp]: "chain nx NULL xs q \<longleftrightarrow> xs = [] \<and> q = NULL"
  by (cases xs) auto

lemma chain_nonnull: "chain nx p xs q \<Longrightarrow> x \<in> set xs \<Longrightarrow> x \<noteq> NULL"
  by (induction xs arbitrary: p) auto

lemma chain_unique:
  "chain nx p xs NULL \<Longrightarrow> chain nx p ys NULL \<Longrightarrow> xs = ys"
proof (induction xs arbitrary: p ys)
  case Nil
  then show ?case by simp
next
  case (Cons x xs)
  then show ?case by (cases ys) auto
qed

lemma chain_distinct: "chain nx p xs NULL \<Longrightarrow> distinct xs"
proof (induction xs arbitrary: p)
  case Nil
  then show ?case by simp
next
  case (Cons x xs)
  then have tl: "chain nx (nx x) xs NULL" by simp
  have "x \<notin> set xs"
  proof
    assume "x \<in> set xs"
    then obtain as bs where xs: "xs = as @ x # bs" by (meson split_list)
    with tl have "chain nx (nx x) bs NULL" by (auto simp: chain_append)
    then have "bs = xs" using tl by (rule chain_unique)
    with xs show False by simp
  qed
  with Cons.IH [OF tl] show ?case by simp
qed

lemma chain_nth_next:
  "chain nx p xs q \<Longrightarrow> Suc i < length xs \<Longrightarrow> nx (xs ! i) = xs ! Suc i"
proof (induction xs arbitrary: p i)
  case Nil
  then show ?case by simp
next
  case (Cons x xs)
  then show ?case by (cases i; cases xs) auto
qed

lemma chain_last_next: "chain nx p xs q \<Longrightarrow> xs \<noteq> [] \<Longrightarrow> nx (last xs) = q"
  by (induction xs arbitrary: p) auto

lemma chain_hd: "chain nx p xs q \<Longrightarrow> xs \<noteq> [] \<Longrightarrow> p = hd xs"
  by (cases xs) auto

text \<open>
  The search loop of the sources, \<open>while (p != NULL && !stop(p)) p = p->next\<close>: \<open>None\<close> when it
  runs forever.  On a well-formed list it returns the first node that satisfies \<open>stop\<close>, or
  \<open>NULL\<close>.
\<close>

definition chase :: "(u64 \<Rightarrow> u64) \<Rightarrow> (u64 \<Rightarrow> bool) \<Rightarrow> u64 \<Rightarrow> u64 option" where
  "chase nx stop p = while_option (\<lambda>q. q \<noteq> NULL \<and> \<not> stop q) nx p"

lemma chase_simps:
  "chase nx stop NULL = Some NULL"
  "stop p \<Longrightarrow> chase nx stop p = Some p"
  "p \<noteq> NULL \<Longrightarrow> \<not> stop p \<Longrightarrow> chase nx stop p = chase nx stop (nx p)"
  unfolding chase_def by (subst while_option_unfold; simp)+

definition first_or_null :: "(u64 \<Rightarrow> bool) \<Rightarrow> u64 list \<Rightarrow> u64" where
  "first_or_null P xs = (case find P xs of None \<Rightarrow> NULL | Some x \<Rightarrow> x)"

lemma first_or_null_simps [simp]:
  "first_or_null P [] = NULL"
  "first_or_null P (x # xs) = (if P x then x else first_or_null P xs)"
  by (simp_all add: first_or_null_def)

lemma chase_chain:
  "chain nx p xs NULL \<Longrightarrow> chase nx stop p = Some (first_or_null stop xs)"
proof (induction xs arbitrary: p)
  case Nil
  then show ?case by (simp add: chase_simps)
next
  case (Cons x xs)
  then show ?case by (cases "stop x") (simp_all add: chase_simps)
qed

lemma first_or_null_cases:
  obtains (none) "first_or_null P xs = NULL" "\<forall>x \<in> set xs. \<not> P x"
  | (found) as x bs where "xs = as @ x # bs" "P x" "\<forall>a \<in> set as. \<not> P a"
      "first_or_null P xs = x"
proof (cases "find P xs")
  case None
  show ?thesis
  proof (rule none)
    show "first_or_null P xs = NULL" using None by (simp add: first_or_null_def)
    show "\<forall>x \<in> set xs. \<not> P x" using None by (simp add: find_None_iff)
  qed
next
  case (Some x)
  then obtain i where i: "i < length xs" "P (xs ! i)" "x = xs ! i" "\<forall>j<i. \<not> P (xs ! j)"
    by (auto simp: find_Some_iff)
  show ?thesis
  proof (rule found)
    show "xs = take i xs @ x # drop (Suc i) xs"
      using i id_take_nth_drop by blast
    show "\<forall>a \<in> set (take i xs). \<not> P a"
      using i by (auto simp: in_set_conv_nth)
  qed (use i Some in \<open>auto simp: first_or_null_def\<close>)
qed

section \<open>Doubly linked lists\<close>

text \<open>
  \<open>dseg nx pv p a xs p' q\<close>: from \<open>a\<close>, whose predecessor is \<open>p\<close>, the nodes \<open>xs\<close> are linked in both
  directions; the last of them (or \<open>p\<close>, if there is none) is \<open>p'\<close>, and the list goes on at \<open>q\<close>.
\<close>

primrec dseg ::
    "(u64 \<Rightarrow> u64) \<Rightarrow> (u64 \<Rightarrow> u64) \<Rightarrow> u64 \<Rightarrow> u64 \<Rightarrow> u64 list \<Rightarrow> u64 \<Rightarrow> u64 \<Rightarrow> bool" where
  "dseg nx pv p a [] p' q = (p = p' \<and> a = q)"
| "dseg nx pv p a (x # xs) p' q = (a = x \<and> x \<noteq> NULL \<and> pv x = p \<and> dseg nx pv x (nx x) xs p' q)"

lemma dseg_append:
  "dseg nx pv p a (xs @ ys) p' q \<longleftrightarrow> (\<exists>r b. dseg nx pv p a xs r b \<and> dseg nx pv r b ys p' q)"
  by (induction xs arbitrary: p a) auto

lemma dseg_cong:
  "(\<And>x. x \<in> set xs \<Longrightarrow> nx x = nx' x \<and> pv x = pv' x) \<Longrightarrow>
   dseg nx pv p a xs p' q = dseg nx' pv' p a xs p' q"
  by (induction xs arbitrary: p a) auto

lemma dseg_chain: "dseg nx pv p a xs p' q \<Longrightarrow> chain nx a xs q"
  by (induction xs arbitrary: p a) auto

lemma dseg_last: "dseg nx pv p a xs p' q \<Longrightarrow> p' = (if xs = [] then p else last xs)"
  by (induction xs arbitrary: p a) auto

lemma dseg_hd: "dseg nx pv p a xs p' q \<Longrightarrow> a = (if xs = [] then q else hd xs)"
  by (cases xs) auto

section \<open>Counted loops\<close>

text \<open>
  \<open>for (i = 0; i < n; i++) s = body(i, s)\<close> with a counter that cannot wrap.
\<close>

definition for_loop :: "nat \<Rightarrow> (nat \<Rightarrow> 's \<Rightarrow> 's) \<Rightarrow> 's \<Rightarrow> 's" where
  "for_loop n body s = fold body [0..<n] s"

lemma for_loop_0 [simp]: "for_loop 0 body s = s"
  by (simp add: for_loop_def)

lemma for_loop_Suc [simp]: "for_loop (Suc n) body s = body n (for_loop n body s)"
  by (simp add: for_loop_def)

text \<open>An invariant of the loop: \<open>P i\<close> holds before iteration \<open>i\<close>.\<close>

lemma for_loop_invariant:
  assumes "P 0 s" and "\<And>i t. i < n \<Longrightarrow> P i t \<Longrightarrow> P (Suc i) (body i t)"
  shows "P n (for_loop n body s)"
  using assms by (induction n) auto

text \<open>
  \<open>for (i = 0; i < n; i++) if (p(i)) return i;\<close> finds the least index.
\<close>

definition first_index :: "nat \<Rightarrow> (nat \<Rightarrow> bool) \<Rightarrow> nat option" where
  "first_index n p = find p [0..<n]"

lemma first_index_Some:
  "first_index n p = Some i \<longleftrightarrow> i < n \<and> p i \<and> (\<forall>j<i. \<not> p j)"
  unfolding first_index_def find_Some_iff by auto

lemma first_index_None: "first_index n p = None \<longleftrightarrow> (\<forall>i<n. \<not> p i)"
  unfolding first_index_def find_None_iff by auto

end
