(* ===== verification/CString.thy ===== *)
theory CString
  imports Prelude
begin

text \<open>
  The memory and string routines of \<open>src/src/string.c\<close> over a byte-addressed memory.  Address
  arithmetic is on 64-bit words, as on the machine.  The routines that return their first
  argument return a pair of that pointer and the new memory; the ones that scan for a
  terminating zero are partial, with \<open>None\<close> for a scan that never ends.
\<close>

type_synonym mem = "u64 \<Rightarrow> u8"

section \<open>The routines\<close>

definition memcpy :: "mem \<Rightarrow> u64 \<Rightarrow> u64 \<Rightarrow> u64 \<Rightarrow> u64 \<times> mem" where
  "memcpy m dest src n =
     (dest, for_loop (unat n) (\<lambda>i m. m(dest + of_nat i := m (src + of_nat i))) m)"

definition memset :: "mem \<Rightarrow> u64 \<Rightarrow> i32 \<Rightarrow> u64 \<Rightarrow> u64 \<times> mem" where
  "memset m s c n = (s, for_loop (unat n) (\<lambda>i m. m(s + of_nat i := ucast c)) m)"

text \<open>
  The backward loop counts \<open>i\<close> from \<open>n\<close> down to \<open>1\<close> and moves byte \<open>i - 1\<close>: its iteration
  number \<open>k\<close> moves byte \<open>n - 1 - k\<close>.
\<close>

definition memmove :: "mem \<Rightarrow> u64 \<Rightarrow> u64 \<Rightarrow> u64 \<Rightarrow> u64 \<times> mem" where
  "memmove m dest src n =
     (dest,
      if src > dest then
        for_loop (unat n) (\<lambda>i m. m(dest + of_nat i := m (src + of_nat i))) m
      else if src < dest then
        for_loop (unat n)
          (\<lambda>k m. m(dest + of_nat (unat n - 1 - k) := m (src + of_nat (unat n - 1 - k)))) m
      else m)"

definition memcmp :: "mem \<Rightarrow> u64 \<Rightarrow> u64 \<Rightarrow> u64 \<Rightarrow> i32" where
  "memcmp m s1 s2 n =
     (case first_index (unat n) (\<lambda>i. m (s1 + of_nat i) \<noteq> m (s2 + of_nat i)) of
        None \<Rightarrow> 0
      | Some i \<Rightarrow> if m (s1 + of_nat i) < m (s2 + of_nat i) then -1 else 1)"

partial_function (option) strcpy_loop :: "mem \<Rightarrow> u64 \<Rightarrow> u64 \<Rightarrow> mem option" where
  "strcpy_loop m d src =
     (let c = m src; m' = m(d := c)
      in if c \<noteq> 0 then strcpy_loop m' (d + 1) (src + 1) else Some m')"

definition strcpy :: "mem \<Rightarrow> u64 \<Rightarrow> u64 \<Rightarrow> (u64 \<times> mem) option" where
  "strcpy m dest src = map_option (\<lambda>m'. (dest, m')) (strcpy_loop m dest src)"

partial_function (option) strcmp :: "mem \<Rightarrow> u64 \<Rightarrow> u64 \<Rightarrow> i32 option" where
  "strcmp m s1 s2 =
     (if m s1 \<noteq> 0 \<and> m s1 = m s2 then strcmp m (s1 + 1) (s2 + 1)
      else Some (ucast (m s1) - ucast (m s2)))"

definition strlen :: "mem \<Rightarrow> u64 \<Rightarrow> u64 option" where
  "strlen m s = map_option (\<lambda>p. p - s) (while_option (\<lambda>p. m p \<noteq> 0) (\<lambda>p. p + 1) s)"

text \<open>The loop of \<open>strncmp\<close> stops at the first difference or at a common terminator.\<close>

definition strncmp :: "mem \<Rightarrow> u64 \<Rightarrow> u64 \<Rightarrow> u64 \<Rightarrow> i32" where
  "strncmp m s1 s2 n =
     (case first_index (unat n)
             (\<lambda>i. m (s1 + of_nat i) \<noteq> m (s2 + of_nat i) \<or> m (s1 + of_nat i) = 0) of
        None \<Rightarrow> 0
      | Some i \<Rightarrow>
          if m (s1 + of_nat i) \<noteq> m (s2 + of_nat i)
          then ucast (m (s1 + of_nat i)) - ucast (m (s2 + of_nat i)) else 0)"

section \<open>Strings in memory\<close>

text \<open>The \<open>n\<close> bytes at \<open>a\<close>, and a zero-terminated string stored at \<open>a\<close>.\<close>

definition bytes_at :: "mem \<Rightarrow> u64 \<Rightarrow> nat \<Rightarrow> u8 list" where
  "bytes_at m a n = map (\<lambda>i. m (a + of_nat i)) [0..<n]"

primrec cstring :: "mem \<Rightarrow> u64 \<Rightarrow> u8 list \<Rightarrow> bool" where
  "cstring m a [] = (m a = 0)"
| "cstring m a (c # cs) = (c \<noteq> 0 \<and> m a = c \<and> cstring m (a + 1) cs)"

definition in_range :: "u64 \<Rightarrow> u64 \<Rightarrow> nat \<Rightarrow> bool" where
  "in_range x a n \<longleftrightarrow> (\<exists>i<n. x = a + of_nat i)"

lemma length_bytes_at [simp]: "length (bytes_at m a n) = n"
  by (simp add: bytes_at_def)

lemma nth_bytes_at [simp]: "i < n \<Longrightarrow> bytes_at m a n ! i = m (a + of_nat i)"
  by (simp add: bytes_at_def)

lemma bytes_at_cong:
  "(\<And>i. i < n \<Longrightarrow> m (a + of_nat i) = m' (a' + of_nat i)) \<Longrightarrow> bytes_at m a n = bytes_at m' a' n"
  by (simp add: bytes_at_def)

lemma bytes_at_eq_iff:
  "bytes_at m a n = bytes_at m' b n \<longleftrightarrow> (\<forall>i<n. m (a + of_nat i) = m' (b + of_nat i))"
  by (auto simp: list_eq_iff_nth_eq)

lemma in_range_offset: "i < n \<Longrightarrow> in_range (a + of_nat i) a n"
  by (auto simp: in_range_def)

lemma not_in_rangeD: "\<not> in_range x a n \<Longrightarrow> i < n \<Longrightarrow> x \<noteq> a + of_nat i"
  by (auto simp: in_range_def)

lemma in_range_Suc: "in_range x a (Suc n) \<longleftrightarrow> x = a \<or> in_range x (a + 1) n"
  unfolding in_range_def Ex_less_Suc2 by (simp add: add.assoc)

lemma in_range_0 [simp]: "\<not> in_range x a 0"
  by (simp add: in_range_def)

lemma in_range_mono: "in_range x a k \<Longrightarrow> k \<le> n \<Longrightarrow> in_range x a n"
  unfolding in_range_def using order_less_le_trans by blast

lemma add_of_nat_inj:
  "i < 2 ^ 64 \<Longrightarrow> j < 2 ^ 64 \<Longrightarrow> ((a :: u64) + of_nat i = a + of_nat j) = (i = j)"
  by (simp add: of_nat_u64_inj)

section \<open>Block operations\<close>

text \<open>
  A counted loop that moves, in some order, byte \<open>f k\<close> in iteration \<open>k\<close> computes a block copy,
  provided no byte is read after it was overwritten.
\<close>


lemma copy_loop_read:
  fixes dest src :: u64
  defines "step f \<equiv> \<lambda>k m. m(dest + of_nat (f k) := m (src + of_nat (f k)))"
  assumes inj: "\<And>i j. i < j \<Longrightarrow> j < n \<Longrightarrow> (dest + of_nat (f i) :: u64) \<noteq> dest + of_nat (f j)"
    and order: "\<And>i j. i < j \<Longrightarrow> j < n \<Longrightarrow> src + of_nat (f j) \<noteq> dest + of_nat (f i)"
  shows "(\<forall>k<n. for_loop n (step f) m (dest + of_nat (f k)) = m (src + of_nat (f k))) \<and>
    (\<forall>x. (\<forall>k<n. x \<noteq> dest + of_nat (f k)) \<longrightarrow> for_loop n (step f) m x = m x)"
  using inj order
proof (induction n)
  case 0
  then show ?case by simp
next
  case (Suc n)
  let ?t = "for_loop n (step f) m"
  have IH: "(\<forall>k<n. ?t (dest + of_nat (f k)) = m (src + of_nat (f k))) \<and>
      (\<forall>x. (\<forall>k<n. x \<noteq> dest + of_nat (f k)) \<longrightarrow> ?t x = m x)"
    by (rule Suc.IH) (use Suc.prems in auto)
  have "?t (src + of_nat (f n)) = m (src + of_nat (f n))"
    using IH Suc.prems(2) by auto
  then have step: "for_loop (Suc n) (step f) m = ?t(dest + of_nat (f n) := m (src + of_nat (f n)))"
    by (simp add: step_def)
  show ?case
    unfolding step using IH Suc.prems(1) less_Suc_eq by force
qed

text \<open>The loop bodies, with the iteration order as a function of the iteration number.\<close>

lemma copy_loop_block:
  fixes dest src :: u64
  assumes perm: "bij_betw f {..<n} {..<n}" and n: "n \<le> 2 ^ 64"
    and order: "\<And>i j. i < j \<Longrightarrow> j < n \<Longrightarrow> src + of_nat (f j) \<noteq> dest + of_nat (f i)"
  shows "bytes_at (for_loop n (\<lambda>k m. m(dest + of_nat (f k) := m (src + of_nat (f k)))) m) dest n
      = bytes_at m src n"
    and "\<not> in_range x dest n \<Longrightarrow>
      for_loop n (\<lambda>k m. m(dest + of_nat (f k) := m (src + of_nat (f k)))) m x = m x"
proof -
  let ?t = "for_loop n (\<lambda>k m. m(dest + of_nat (f k) := m (src + of_nat (f k)))) m"
  have lt: "f i < n" if "i < n" for i
    using perm that by (auto simp: bij_betw_def)
  have inj: "dest + of_nat (f i) \<noteq> dest + of_nat (f j)" if "i < j" "j < n" for i j
  proof -
    have "f i \<noteq> f j" using perm that by (auto simp: bij_betw_def inj_on_def)
    moreover have "f i < 2 ^ 64" "f j < 2 ^ 64"
      using lt [of i] lt [of j] that n by simp_all
    ultimately show ?thesis by (simp add: of_nat_u64_inj)
  qed
  note loop = copy_loop_read [of n dest f src m, OF inj order]
  show "bytes_at ?t dest n = bytes_at m src n"
  proof (rule bytes_at_cong)
    fix i assume "i < n"
    then obtain k where "k < n" "f k = i"
      using perm by (metis bij_betw_iff_bijections lessThan_iff)
    then show "?t (dest + of_nat i) = m (src + of_nat i)" using loop by auto
  qed
  show "?t x = m x" if "\<not> in_range x dest n"
    using loop that lt by (auto simp: in_range_def)
qed

lemma bij_betw_backward: "bij_betw (\<lambda>k. n - 1 - k) {..<n} {..<(n::nat)}"
  by (rule bij_betw_byWitness [where f' = "\<lambda>k. n - 1 - k"]) auto

lemma no_wrap_less:
  fixes a b :: u64
  assumes "unat a + i < 2 ^ 64" "unat b + j < 2 ^ 64" "unat a + i \<noteq> unat b + j"
  shows "a + of_nat i \<noteq> b + of_nat j"
  using assms unat_add_of_nat_u64 by metis

lemma disjoint_ranges:
  assumes "unat a + n \<le> unat b" "unat b + k < 2 ^ 64" "in_range x a n" shows "\<not> in_range x b k"
proof
  assume "in_range x b k"
  then obtain i j where "i < n" "j < k" "a + of_nat i = b + of_nat j" using assms(3) by (auto simp: in_range_def)
  then show False using no_wrap_less [of a i b j] assms(1,2) by simp
qed

lemma memmove_block:
  assumes "unat src + unat n \<le> 2 ^ 64" and "unat dest + unat n \<le> 2 ^ 64"
  shows "bytes_at (snd (memmove m dest src n)) dest (unat n) = bytes_at m src (unat n)"
    and "\<not> in_range x dest (unat n) \<Longrightarrow> snd (memmove m dest src n) x = m x"
proof -
  have n: "unat n \<le> 2 ^ 64" using unat_u64_lt [of n] by simp
  have fwd: "src + of_nat j \<noteq> dest + of_nat i" if "src > dest" "i < j" "j < unat n" for i j
    using that assms by (intro no_wrap_less) (auto simp: word_less_nat_alt)
  have bwd: "src + of_nat (unat n - 1 - j) \<noteq> dest + of_nat (unat n - 1 - i)"
    if "src < dest" "i < j" "j < unat n" for i j
    using that assms by (intro no_wrap_less) (auto simp: word_less_nat_alt)
  note forward = copy_loop_block [of "\<lambda>k. k" "unat n" src dest, OF _ n]
  note backward = copy_loop_block [of "\<lambda>k. unat n - 1 - k" "unat n" src dest,
      OF bij_betw_backward n]
  have eq: "src = dest" if "\<not> src > dest" "\<not> src < dest" using that by auto
  show "bytes_at (snd (memmove m dest src n)) dest (unat n) = bytes_at m src (unat n)"
    using forward(1) fwd backward(1) bwd eq by (auto simp: memmove_def bij_betw_def)
  show "snd (memmove m dest src n) x = m x" if "\<not> in_range x dest (unat n)"
    using forward(2) fwd backward(2) bwd eq that by (auto simp: memmove_def bij_betw_def)
qed

lemma memcpy_block:
  assumes "\<And>i. i < unat n \<Longrightarrow> \<not> in_range (src + of_nat i) dest (unat n)"
  shows "bytes_at (snd (memcpy m dest src n)) dest (unat n) = bytes_at m src (unat n)"
    and "\<not> in_range x dest (unat n) \<Longrightarrow> snd (memcpy m dest src n) x = m x"
proof -
  have n: "unat n \<le> 2 ^ 64" using unat_u64_lt [of n] by simp
  have order: "src + of_nat j \<noteq> dest + of_nat i" if "i < j" "j < unat n" for i j
    using assms [of j] that by (auto simp: in_range_def)
  note forward = copy_loop_block [of "\<lambda>k. k" "unat n" src dest, OF _ n order]
  show "bytes_at (snd (memcpy m dest src n)) dest (unat n) = bytes_at m src (unat n)"
    using forward(1) by (simp add: memcpy_def bij_betw_def)
  show "snd (memcpy m dest src n) x = m x" if "\<not> in_range x dest (unat n)"
    using forward(2) that by (simp add: memcpy_def bij_betw_def)
qed

lemma memset_block:
  shows "bytes_at (snd (memset m s c n)) s (unat n) = replicate (unat n) (ucast c)"
    and "\<not> in_range x s (unat n) \<Longrightarrow> snd (memset m s c n) x = m x"
proof -
  define P where "P = (\<lambda>k (t :: mem). (\<forall>i<k. t (s + of_nat i) = ucast c) \<and>
     (\<forall>x. \<not> in_range x s k \<longrightarrow> t x = m x))"
  have "P (unat n) (for_loop (unat n) (\<lambda>i m. m(s + of_nat i := ucast c)) m)"
    by (rule for_loop_invariant) (auto simp: P_def in_range_def less_Suc_eq)
  then show "bytes_at (snd (memset m s c n)) s (unat n) = replicate (unat n) (ucast c)"
    and "\<not> in_range x s (unat n) \<Longrightarrow> snd (memset m s c n) x = m x"
    by (auto simp: P_def memset_def list_eq_iff_nth_eq)
qed

section \<open>Comparison\<close>

lemma memcmp_zero: "memcmp m a b n = 0 \<longleftrightarrow> bytes_at m a (unat n) = bytes_at m b (unat n)"
  by (auto simp: memcmp_def bytes_at_eq_iff first_index_None first_index_Some split: option.split)

lemma uint_byte: "0 \<le> uint (x :: u8)" "uint (x :: u8) < 256"
  using uint_lt2p [of x] by simp_all

lemma small_signed_take_bit: "- 256 < k \<Longrightarrow> k < 256 \<Longrightarrow> signed_take_bit 31 k = (k :: int)"
  by (rule signed_take_bit_int_eq_self) simp_all

lemma sint_byte: "sint (ucast (x :: u8) :: i32) = uint x"
proof -
  have "- 256 < uint x" using uint_byte(1) [of x] by linarith
  then have "signed_take_bit 31 (uint x) = uint x"
    using uint_byte(2) by (rule small_signed_take_bit)
  then show ?thesis by (simp add: sint_uint unsigned_ucast_eq signed_take_bit_take_bit)
qed

lemma sint_byte_diff: "sint (ucast (x :: u8) - ucast (y :: u8) :: i32) = uint x - uint y"
proof -
  have "- 256 < uint x - uint y" "uint x - uint y < 256"
    using uint_byte [of x] uint_byte [of y] by linarith+
  then show ?thesis by (simp add: sint_word_ariths sint_byte small_signed_take_bit)
qed

lemma byte_cast_eq [simp]: "(ucast (x :: u8) :: i32) = ucast (y :: u8) \<longleftrightarrow> x = y"
  by (metis sint_byte word_uint_eq_iff)

lemma byte_cast_zero [simp]: "(ucast (x :: u8) :: i32) = 0 \<longleftrightarrow> x = 0"
  using byte_cast_eq [of x 0] by simp

lemma byte_diff_neg: "sint (ucast (x :: u8) - ucast (y :: u8) :: i32) < 0 \<longleftrightarrow> x < y"
  by (simp add: sint_byte_diff word_less_def)

section \<open>Strings\<close>

lemma cstring_length: "cstring m a xs \<Longrightarrow> m (a + of_nat (length xs)) = 0"
  by (induction xs arbitrary: a) (auto simp: add.assoc [symmetric] add.commute)

lemma cstring_nth: "cstring m a xs \<Longrightarrow> i < length xs \<Longrightarrow> m (a + of_nat i) = xs ! i \<and> xs ! i \<noteq> 0"
proof (induction xs arbitrary: a i)
  case Nil
  then show ?case by simp
next
  case (Cons x xs)
  then show ?case by (cases i) (auto simp: add.assoc [symmetric])
qed

lemma cstring_unique: "cstring m a xs \<Longrightarrow> cstring m a ys \<Longrightarrow> xs = ys"
proof (induction xs arbitrary: a ys)
  case Nil
  then show ?case by (cases ys) auto
next
  case (Cons x xs)
  then show ?case by (cases ys) auto
qed

lemma strlen_cstring: "cstring m a xs \<Longrightarrow> strlen m a = Some (of_nat (length xs))"
proof -
  have "cstring m p xs \<Longrightarrow>
      while_option (\<lambda>p. m p \<noteq> 0) (\<lambda>p. p + 1) p = Some (p + of_nat (length xs))" for p
  proof (induction xs arbitrary: p)
    case Nil
    then show ?case by (subst while_option_unfold) simp
  next
    case (Cons x xs)
    then show ?case by (subst while_option_unfold) (auto simp: algebra_simps)
  qed
  then show "cstring m a xs \<Longrightarrow> strlen m a = Some (of_nat (length xs))"
    by (simp add: strlen_def)
qed

lemma strcmp_cstring:
  assumes "cstring m a xs" and "cstring m b ys"
  shows "\<exists>r. strcmp m a b = Some r \<and> (r = 0 \<longleftrightarrow> xs = ys) \<and> (sint r < 0 \<longleftrightarrow> ord_class.lexordp xs ys)"
  using assms
proof (induction xs arbitrary: a b ys)
  case Nil
  then show ?case
    using byte_diff_neg [of 0 "m b"]
    by (subst strcmp.simps) (cases ys; auto simp: word_gt_0)
next
  case (Cons x xs)
  show ?case
  proof (cases ys)
    case Nil
    with Cons.prems show ?thesis
      using byte_diff_neg [of "m a" 0]
      by (subst strcmp.simps) auto
  next
    case (Cons y zs)
    show ?thesis
    proof (cases "x = y")
      case True
      with Cons Cons.prems Cons.IH [of "a + 1" "b + 1" zs] show ?thesis
        by (subst strcmp.simps) auto
    next
      case False
      with Cons Cons.prems show ?thesis
        by (subst strcmp.simps) (auto simp: byte_diff_neg)
    qed
  qed
qed

text \<open>
  \<open>strncmp\<close> with the length of the second string: the prefix test of \<open>src/src/fs/vfs.c\<close>.
\<close>

lemma strncmp_prefix:
  assumes a: "cstring m a xs" and b: "cstring m b ys" and n: "unat n = length ys"
  shows "strncmp m a b n = 0 \<longleftrightarrow> take (length ys) xs = ys"
proof -
  let ?stop = "\<lambda>i. m (a + of_nat i) \<noteq> m (b + of_nat i) \<or> m (a + of_nat i) = 0"
  have ys: "m (b + of_nat i) = ys ! i" "ys ! i \<noteq> 0" if "i < length ys" for i
    using cstring_nth [OF b that] by auto
  show ?thesis
  proof (cases "take (length ys) xs = ys")
    case True
    then have len: "length ys \<le> length xs"
      by (metis length_take min.cobounded1)
    have "\<not> ?stop i" if "i < length ys" for i
    proof -
      have "xs ! i = ys ! i" using True that by (metis nth_take)
      then show ?thesis using cstring_nth [OF a, of i] ys [OF that] len that by simp
    qed
    then have "first_index (unat n) ?stop = None" by (simp add: first_index_None n)
    with True show ?thesis by (simp add: strncmp_def)
  next
    case False
    have "\<exists>i<length ys. m (a + of_nat i) \<noteq> m (b + of_nat i)"
    proof (cases "length ys \<le> length xs")
      case True
      with False obtain i where i: "i < length ys" "xs ! i \<noteq> ys ! i"
        by (auto simp: list_eq_iff_nth_eq)
      then have "m (a + of_nat i) = xs ! i" using cstring_nth [OF a, of i] True by simp
      with i ys(1) [OF i(1)] show ?thesis by auto
    next
      case False
      then have "m (b + of_nat (length xs)) \<noteq> 0" using ys [of "length xs"] by simp
      with False cstring_length [OF a] show ?thesis by (intro exI [of _ "length xs"]) simp
    qed
    then have "first_index (unat n) ?stop \<noteq> None" unfolding first_index_None n by blast
    then obtain i where i: "first_index (unat n) ?stop = Some i" by blast
    then have "m (a + of_nat i) \<noteq> m (b + of_nat i)"
      using ys [of i] by (auto simp: first_index_Some n)
    with i False show ?thesis by (simp add: strncmp_def)
  qed
qed

text \<open>A copy of a string into a disjoint buffer.\<close>

lemma cstring_frame:
  "cstring m a xs \<Longrightarrow> (\<And>i. i \<le> length xs \<Longrightarrow> m' (a + of_nat i) = m (a + of_nat i)) \<Longrightarrow>
   cstring m' a xs"
proof (induction xs arbitrary: a)
  case Nil
  then show ?case by force
next
  case (Cons x xs)
  have "cstring m' (a + 1) xs"
  proof (rule Cons.IH)
    show "cstring m (a + 1) xs" using Cons.prems(1) by simp
    show "m' (a + 1 + of_nat i) = m (a + 1 + of_nat i)" if "i \<le> length xs" for i
      using Cons.prems(2) [of "Suc i"] that by (simp add: add.assoc)
  qed
  moreover have "m' a = m a" using Cons.prems(2) [of 0] by simp
  ultimately show ?case using Cons.prems(1) by simp
qed

lemma strcpy_cstring:
  assumes "cstring m src xs" and "length xs < 2 ^ 64"
    and "\<And>i. i \<le> length xs \<Longrightarrow> \<not> in_range (src + of_nat i) dest (length xs + 1)"
  shows "\<exists>m'. strcpy_loop m dest src = Some m' \<and> cstring m' dest xs \<and>
     (\<forall>x. \<not> in_range x dest (length xs + 1) \<longrightarrow> m' x = m x)"
  using assms
proof (induction xs arbitrary: m src dest)
  case Nil
  then show ?case by (subst strcpy_loop.simps) (auto simp: in_range_def)
next
  case (Cons c cs)
  let ?m = "m(dest := c)"
  have c: "m src = c" "c \<noteq> 0" using Cons.prems(1) by auto
  have shift: "src + 1 + of_nat i = src + of_nat (Suc i)" for i by simp
  have range: "in_range x dest (Suc (Suc (length cs))) \<longleftrightarrow>
      x = dest \<or> in_range x (dest + 1) (length cs + 1)" for x
    using in_range_Suc [of x dest "Suc (length cs)"] by simp
  have "cstring ?m (src + 1) cs"
  proof (rule cstring_frame)
    show "cstring m (src + 1) cs" using Cons.prems(1) by simp
    fix i assume "i \<le> length cs"
    then have "src + of_nat (Suc i) \<noteq> dest"
      using Cons.prems(3) [of "Suc i"] range by auto
    then show "?m (src + 1 + of_nat i) = m (src + 1 + of_nat i)"
      unfolding shift by simp
  qed
  moreover have "\<not> in_range (src + 1 + of_nat i) (dest + 1) (length cs + 1)"
    if "i \<le> length cs" for i
    using Cons.prems(3) [of "Suc i"] that range unfolding shift by auto
  ultimately obtain m' where m': "strcpy_loop ?m (dest + 1) (src + 1) = Some m'"
      "cstring m' (dest + 1) cs"
      "\<forall>x. \<not> in_range x (dest + 1) (length cs + 1) \<longrightarrow> m' x = ?m x"
    using Cons.IH [of ?m "src + 1" "dest + 1"] Cons.prems(2) by fastforce
  have "\<not> in_range dest (dest + 1) (length cs + 1)"
  proof
    assume "in_range dest (dest + 1) (length cs + 1)"
    then obtain i where "i < length cs + 1" "dest = dest + of_nat (Suc i)"
      by (auto simp: in_range_def add.assoc)
    moreover have "(of_nat (Suc i) :: u64) \<noteq> 0"
      using Cons.prems(2) calculation(1) of_nat_u64_inj [of "Suc i" 0] by simp
    ultimately show False by simp
  qed
  with m' c show ?case
    by (subst strcpy_loop.simps) (auto simp: Let_def range)
qed

section \<open>Properties\<close>

text \<open>
  \<open>memmove\<close> returns its destination, leaves there the bytes that were at the source before
  the call, even when the two blocks overlap, and changes no byte outside the destination block.
  The blocks must not wrap around the end of the address space.
\<close>

theorem memmove_correct:
  assumes "unat src + unat n \<le> 2 ^ 64" and "unat dest + unat n \<le> 2 ^ 64"
  shows "fst (memmove m dest src n) = dest
    \<and> bytes_at (snd (memmove m dest src n)) dest (unat n) = bytes_at m src (unat n)
    \<and> (\<forall>x. \<not> in_range x dest (unat n) \<longrightarrow> snd (memmove m dest src n) x = m x)"
  using memmove_block [OF assms] by (simp add: memmove_def)

theorem memmove_correct_witness:
  "bytes_at (snd (memmove (\<lambda>a. ucast a) 12 10 4)) 12 4 = [10, 11, 12, 13]"
  using memmove_correct [of 10 4 12 "\<lambda>a. ucast a"] by (simp add: bytes_at_def upt_rec)

text \<open>
  Copying a string with \<open>strcpy\<close> into a buffer disjoint from it terminates; the copy is the
  same string, \<open>strlen\<close> gives its length, \<open>strcmp\<close> of the copy with the original is \<open>0\<close>, and no
  byte outside the buffer of \<open>strlen + 1\<close> bytes changes.
\<close>

theorem strcpy_roundtrip:
  assumes "cstring m src xs" and "length xs < 2 ^ 64"
    and "\<And>i. i \<le> length xs \<Longrightarrow> \<not> in_range (src + of_nat i) dest (length xs + 1)"
  shows "\<exists>m'. strcpy m dest src = Some (dest, m') \<and> cstring m' dest xs
    \<and> strlen m' dest = Some (of_nat (length xs)) \<and> strcmp m' dest src = Some 0
    \<and> (\<forall>x. \<not> in_range x dest (length xs + 1) \<longrightarrow> m' x = m x)"
proof -
  obtain m' where m': "strcpy_loop m dest src = Some m'" "cstring m' dest xs"
      "\<forall>x. \<not> in_range x dest (length xs + 1) \<longrightarrow> m' x = m x"
    using strcpy_cstring [OF assms] by blast
  then have "cstring m' src xs"
    by (intro cstring_frame [OF assms(1)]) (use assms(3) in blast)
  then have "strcmp m' dest src = Some 0"
    using strcmp_cstring [OF m'(2)] by fastforce
  with m' show ?thesis by (auto simp: strcpy_def strlen_cstring)
qed

theorem strcpy_roundtrip_witness:
  "\<exists>m'. strcpy ((\<lambda>_. 0)(10 := 104, 11 := 105)) 20 10 = Some (20, m') \<and> strcmp m' 20 10 = Some 0"
proof -
  have "\<exists>m'. strcpy ((\<lambda>_. 0)(10 := 104, 11 := 105)) 20 10 = Some (20, m') \<and> cstring m' 20 [104, 105]
    \<and> strlen m' 20 = Some (of_nat (length [104 :: u8, 105])) \<and> strcmp m' 20 10 = Some 0
    \<and> (\<forall>x. \<not> in_range x 20 (length [104 :: u8, 105] + 1)
          \<longrightarrow> m' x = ((\<lambda>_. 0)(10 := 104, 11 := 105)) x)"
  proof (rule strcpy_roundtrip)
    fix i :: nat assume "i \<le> length [104 :: u8, 105]"
    then have "i \<in> {0, 1, 2}" by auto
    then show "\<not> in_range (10 + of_nat i) 20 (length [104 :: u8, 105] + 1)"
      by (auto simp: in_range_Suc)
  qed simp_all
  then show ?thesis by blast
qed

text \<open>
  \<open>strcmp\<close> on two terminated strings always returns; the result is zero exactly for equal
  strings and negative exactly when the first is smaller in the lexicographic order on unsigned
  bytes.
\<close>

theorem strcmp_correct:
  assumes "cstring m a xs" and "cstring m b ys"
  shows "\<exists>r. strcmp m a b = Some r \<and> (r = 0 \<longleftrightarrow> xs = ys) \<and> (sint r < 0 \<longleftrightarrow> ord_class.lexordp xs ys)"
  using assms by (rule strcmp_cstring)

theorem strcmp_correct_witness:
  "\<exists>r. strcmp ((\<lambda>_. 0)(10 := 104, 20 := 200)) 10 20 = Some r \<and> sint r < 0"
  using strcmp_correct [of "(\<lambda>_. 0)(10 := 104, 20 := 200)" 10 "[104]" 20 "[200]"] by auto

end
