(* ===== verification/Printk.thy ===== *)
theory Printk
  imports CString
begin

text \<open>
  The kernel's formatted output, \<open>src/src/printk.c\<close>.  A call of \<open>putchar\<close> is the list of outputs it
  performs: a byte on the QEMU serial port, a byte written to the framebuffer pipe, or a character
  for the early framebuffer.  A format string is read from memory; the variable arguments are the
  64-bit argument slots of the calling convention, read in order.
\<close>

section \<open>Output\<close>

datatype koutput = Serial u8 | ToPipe u8 | Early u64 i32

definition QEMU_SERIAL :: u32 where "QEMU_SERIAL = 1"
definition FRAMEBUFFER :: u32 where "FRAMEBUFFER = 2"
definition EARLY :: u32 where "EARLY = 4"

definition putchar_qemu_serial :: "i32 \<Rightarrow> koutput list" where
  "putchar_qemu_serial c = [Serial (ucast c)]"

definition putchar_framebuffer :: "i32 \<Rightarrow> koutput list" where
  "putchar_framebuffer c = [ToPipe (ucast c)]"

text \<open>The early framebuffer \<open>fb_default\<close> is passed to the functions below as \<open>fb\<close>.\<close>

definition early_printk_init :: "u64 \<Rightarrow> u64 \<Rightarrow> u64" where
  "early_printk_init fb fb_default = fb"

definition putchar_early :: "u64 \<Rightarrow> i32 \<Rightarrow> koutput list" where
  "putchar_early fb c = (if fb = NULL then [] else [Early fb c])"

definition putchar :: "u64 \<Rightarrow> u32 \<Rightarrow> i32 \<Rightarrow> koutput list" where
  "putchar fb type c =
     (if type AND QEMU_SERIAL \<noteq> 0 then putchar_qemu_serial c else []) @
     (if type AND FRAMEBUFFER \<noteq> 0 then putchar_framebuffer c else []) @
     (if type AND EARLY \<noteq> 0 then putchar_early fb c else [])"

text \<open>A C \<open>char\<close> is signed: it is sign-extended when passed as an \<open>int\<close>.\<close>

definition char_int :: "u8 \<Rightarrow> i32" where
  "char_int c = scast c"

definition put_chars :: "u64 \<Rightarrow> u32 \<Rightarrow> u8 list \<Rightarrow> koutput list" where
  "put_chars fb type cs = concat (map (\<lambda>c. putchar fb type (char_int c)) cs)"

section \<open>Conversions\<close>

definition hex_digit :: "u64 \<Rightarrow> u8" where
  "hex_digit d = map of_char ''0123456789abcdef'' ! unat d"

text \<open>The digit loop of \<open>format_spec_x\<close>: the buffer, in the order in which it is filled.\<close>

function x_digits :: "u64 \<Rightarrow> u8 list \<Rightarrow> u8 list" where
  "x_digits val buffer =
     (if val > 0 then x_digits (val div 16) (buffer @ [hex_digit (val mod 16)]) else buffer)"
  by pat_completeness auto
termination
proof (relation "measure (\<lambda>(val, buffer). unat val)")
  fix val :: u64 and buffer :: "u8 list"
  assume "0 < val"
  then have "0 < unat val" by (simp add: word_less_nat_alt)
  then show "((val div 16, buffer @ [hex_digit (val mod 16)]), val, buffer)
      \<in> measure (\<lambda>(val, buffer). unat val)"
    by (simp add: unat_div)
qed simp

declare x_digits.simps [simp del]

definition format_spec_x :: "u64 \<Rightarrow> u32 \<Rightarrow> u64 \<Rightarrow> koutput list \<times> i32" where
  "format_spec_x fb type val =
     (if val = 0 then (putchar fb type (char_int (of_char CHR ''0'')), 1)
      else let buffer = x_digits val []
           in (put_chars fb type (rev buffer), of_nat (length buffer)))"

partial_function (option) format_spec_s ::
    "u64 \<Rightarrow> u32 \<Rightarrow> mem \<Rightarrow> u64 \<Rightarrow> koutput list \<Rightarrow> i32 \<Rightarrow> (koutput list \<times> i32) option" where
  "format_spec_s fb type m c out count =
     (if m c \<noteq> 0
      then format_spec_s fb type m (c + 1) (out @ putchar fb type (char_int (m c))) (count + 1)
      else Some (out, count))"

text \<open>
  Signed division and remainder truncate towards zero.  Negating the least \<open>int\<close> wraps to itself
  on the target, as it does in the model.
\<close>

definition c_rem10 :: "i32 \<Rightarrow> i32" where
  "c_rem10 n = word_of_int (sgn (sint n) * (\<bar>sint n\<bar> mod 10))"

function format_spec_d :: "u64 \<Rightarrow> u32 \<Rightarrow> i32 \<Rightarrow> koutput list \<times> i32" where
  "format_spec_d fb type val =
     (let number = (if sint val < 0 then - val else val);
          (out1, count1) = (if sint val < 0 then (putchar fb type (char_int (of_char CHR ''-'')), 1) else ([], 0));
          (out2, count2) = (if 10 \<le> sint number then format_spec_d fb type (number div 10) else ([], 0))
      in (out1 @ out2 @ putchar fb type (char_int (of_char CHR ''0'') + c_rem10 number),
          count1 + count2 + 1))"
  by pat_completeness auto
termination
proof (relation "measure (\<lambda>(fb, type, val). unat (if sint val < 0 then - val else val))")
  fix fb :: u64 and type :: u32 and val number :: i32 and out1 :: "koutput list" and count1 :: i32 and p
  assume "number = (if sint val < 0 then - val else val)" and n: "10 \<le> sint number"
  moreover have u: "unat number < 2 ^ 31" "10 \<le> unat number"
    using n sint_i32_nonneg [of number] unat_i32_sint [of number] by auto
  moreover have "unat (number div 10) = unat number div 10" by (simp add: unat_div)
  moreover have "\<not> sint (number div 10) < 0"
    using u sint_i32_nonneg [of "number div 10"] le_less_trans [OF div_le_dividend u(1)]
    by (simp add: unat_div)
  ultimately show "((fb, type, number div 10), fb, type, val)
      \<in> measure (\<lambda>(fb, type, val). unat (if sint val < 0 then - val else val))"
    by auto
qed simp


declare format_spec_d.simps [simp del]

section \<open>The format loop\<close>

definition va_arg_int :: "u64 \<Rightarrow> i32" where
  "va_arg_int slot = ucast slot"

text \<open>
  The switch on the conversion character \<open>d\<close>, with \<open>k\<close> the number of arguments read so far: the
  outputs, the characters counted and the new number of arguments; \<open>None\<close> when a string argument
  has no end.
\<close>

definition conversion ::
    "u64 \<Rightarrow> u32 \<Rightarrow> mem \<Rightarrow> (nat \<Rightarrow> u64) \<Rightarrow> nat \<Rightarrow> u8 \<Rightarrow> (koutput list \<times> i32 \<times> nat) option" where
  "conversion fb type m args k d =
     (if d = of_char CHR ''x'' then
        (let (out, n) = format_spec_x fb type (args k) in Some (out, n, k + 1))
      else if d = of_char CHR ''%'' then Some (putchar fb type (char_int d), 1, k)
      else if d = of_char CHR ''c'' then Some (putchar fb type (va_arg_int (args k)), 1, k + 1)
      else if d = of_char CHR ''s'' then
        map_option (\<lambda>(out, n). (out, n, k + 1)) (format_spec_s fb type m (args k) [] 0)
      else if d = of_char CHR ''d'' then
        (let (out, n) = format_spec_d fb type (va_arg_int (args k)) in Some (out, n, k + 1))
      else Some ([], 0, k))"

text \<open>
  One iteration of the loop at the format pointer \<open>c\<close>.  After a per cent sign the next byte is
  taken without a test for the terminator, and the pointer moves behind it.
\<close>

definition printk_step ::
    "u64 \<Rightarrow> u32 \<Rightarrow> mem \<Rightarrow> (nat \<Rightarrow> u64) \<Rightarrow> u64 \<times> nat \<times> koutput list \<times> i32 \<Rightarrow>
     (u64 \<times> nat \<times> koutput list \<times> i32) option" where
  "printk_step fb type m args s = (case s of (c, k, out, count) \<Rightarrow>
     if m c = of_char CHR ''%'' then
       map_option (\<lambda>(o', n, k'). (c + 2, k', out @ o', count + n))
         (conversion fb type m args k (m (c + 1)))
     else Some (c + 1, k, out @ putchar fb type (char_int (m c)), count + 1))"

partial_function (option) printk_loop ::
    "u64 \<Rightarrow> u32 \<Rightarrow> mem \<Rightarrow> (nat \<Rightarrow> u64) \<Rightarrow> u64 \<times> nat \<times> koutput list \<times> i32 \<Rightarrow> (koutput list \<times> i32) option" where
  "printk_loop fb type m args s =
     (if m (fst s) = 0 then Some (snd (snd s))
      else Option.bind (printk_step fb type m args s) (\<lambda>s'. printk_loop fb type m args s'))"

definition printk :: "u64 \<Rightarrow> u32 \<Rightarrow> mem \<Rightarrow> u64 \<Rightarrow> (nat \<Rightarrow> u64) \<Rightarrow> (koutput list \<times> i32) option" where
  "printk fb type m fmt args =
     (if fmt = NULL then Some ([], 0) else printk_loop fb type m args (fmt, 0, [], 0))"

text \<open>
  The meaning of a format string given as a list of bytes, which the other components use for the
  kernel's own literals: the outputs and the count from argument \<open>k\<close> on.
\<close>

fun format_list ::
    "u64 \<Rightarrow> u32 \<Rightarrow> mem \<Rightarrow> (nat \<Rightarrow> u64) \<Rightarrow> u8 list \<Rightarrow> nat \<Rightarrow> (koutput list \<times> i32) option" where
  "format_list fb type m args [] k = Some ([], 0)"
| "format_list fb type m args (c # cs) k =
     (if c = of_char CHR ''%'' then
        (case cs of [] \<Rightarrow> Some ([], 0)
         | d # ds \<Rightarrow> Option.bind (conversion fb type m args k d) (\<lambda>(o1, n1, k').
             map_option (\<lambda>(o2, n2). (o1 @ o2, n1 + n2)) (format_list fb type m args ds k')))
      else map_option (\<lambda>(o2, n2). (putchar fb type (char_int c) @ o2, 1 + n2))
             (format_list fb type m args cs k))"

text \<open>No per cent sign stands last: every conversion has its character.\<close>

fun well_formed_format :: "u8 list \<Rightarrow> bool" where
  "well_formed_format [] = True"
| "well_formed_format (c # cs) =
     (if c = of_char CHR ''%'' then (case cs of [] \<Rightarrow> False | d # ds \<Rightarrow> well_formed_format ds)
      else well_formed_format cs)"

text \<open>The serial output of a literal format string with one argument.\<close>

definition serial_log :: "string \<Rightarrow> u64 \<Rightarrow> koutput list" where
  "serial_log fmt arg =
     (case format_list NULL QEMU_SERIAL (\<lambda>_. 0) (\<lambda>_. arg) (map of_char fmt) 0 of
        None \<Rightarrow> [] | Some (out, n) \<Rightarrow> out)"

section \<open>Hexadecimal conversion\<close>

text \<open>The value of a hexadecimal digit and of a digit string, most significant digit first.\<close>

definition hex_value :: "u8 \<Rightarrow> nat" where
  "hex_value c = (if c < of_char CHR ''a'' then unat c - 48 else unat c - 87)"

definition hex_number :: "u8 list \<Rightarrow> nat" where
  "hex_number ds = foldl (\<lambda>a d. 16 * a + hex_value d) 0 ds"

lemma hex_digit_cases:
  assumes "unat d < 16"
  shows "hex_value (hex_digit d) = unat d" and "hex_digit d \<in> set (map of_char ''0123456789abcdef'')"
proof -
  have "\<forall>k \<in> set [0..<16]. unat d = k \<longrightarrow> hex_value (hex_digit d) = k"
    unfolding hex_value_def hex_digit_def by (simp add: upt_rec)
  then show "hex_value (hex_digit d) = unat d" using assms by simp
  show "hex_digit d \<in> set (map of_char ''0123456789abcdef'')"
    unfolding hex_digit_def using assms by (intro nth_mem) simp
qed

lemma x_digits_acc: "x_digits val buffer = buffer @ x_digits val []"
proof (induction "unat val" arbitrary: val buffer rule: less_induct)
  case less
  show ?case
  proof (cases "val > 0")
    case True
    then have lt: "unat (val div 16) < unat val" by (simp add: unat_div word_less_nat_alt)
    show ?thesis
      using True less [OF lt, of "buffer @ [hex_digit (val mod 16)]"]
        less [OF lt, of "[hex_digit (val mod 16)]"]
      by (subst (1 2) x_digits.simps) simp
  next
    case False
    then show ?thesis by (subst (1 2) x_digits.simps) simp
  qed
qed

lemma x_digits_rec:
  "rev (x_digits val []) =
     (if val = 0 then [] else rev (x_digits (val div 16) []) @ [hex_digit (val mod 16)])"
  by (subst x_digits.simps) (simp add: word_gt_0 x_digits_acc [of _ "[_]"])

lemma unat_mod16: "unat ((val :: u64) mod 16) < 16" "unat (val mod 16) = unat val mod 16"
  by (simp_all add: unat_mod)

lemma hex_number_x_digits: "hex_number (rev (x_digits val [])) = unat val"
proof (induction "unat val" arbitrary: val rule: less_induct)
  case less
  show ?case
  proof (cases "val = 0")
    case True
    then show ?thesis by (simp add: x_digits_rec hex_number_def)
  next
    case False
    then have "unat (val div 16) < unat val" by (simp add: unat_div unat_gt_0)
    from less [OF this] False show ?thesis
      by (subst x_digits_rec)
        (simp add: hex_number_def hex_digit_cases(1) [OF unat_mod16(1)] unat_mod16(2) unat_div)
  qed
qed

lemma x_digits_set: "set (x_digits val []) \<subseteq> set (map of_char ''0123456789abcdef'')"
proof (induction "unat val" arbitrary: val rule: less_induct)
  case less
  have step: "set (x_digits val []) = set (rev (x_digits val []))" by simp
  show ?case
  proof (cases "val = 0")
    case True
    then show ?thesis unfolding step by (subst x_digits_rec) simp
  next
    case False
    then have "unat (val div 16) < unat val" by (simp add: unat_div unat_gt_0)
    from less [OF this] hex_digit_cases(2) [OF unat_mod16(1), of val] False show ?thesis
      unfolding step by (subst x_digits_rec) (simp del: set_map list.map)
  qed
qed

lemma length_x_digits: "unat val < 16 ^ n \<Longrightarrow> length (x_digits val []) \<le> n"
proof (induction n arbitrary: val)
  case 0
  then show ?case using arg_cong [OF x_digits_rec, of length val] by (simp add: unat_eq_zero)
next
  case (Suc n)
  then have "unat (val div 16) < 16 ^ n" by (simp add: unat_div less_mult_imp_div_less mult.commute)
  from Suc.IH [OF this] show ?case
    using arg_cong [OF x_digits_rec, of length val] by (simp split: if_splits)
qed

section \<open>Decimal conversion\<close>

text \<open>The decimal numeral of a number, most significant digit first.\<close>

fun decimal :: "nat \<Rightarrow> u8 list" where
  "decimal n = (if n < 10 then [of_nat (48 + n)] else decimal (n div 10) @ [of_nat (48 + n mod 10)])"

declare decimal.simps [simp del]

lemma c_rem10_nonneg:
  assumes "0 \<le> sint n" shows "c_rem10 n = of_nat (unat n mod 10)"
proof -
  obtain k where k: "sint n = int k" using assms nonneg_int_cases by blast
  then have "unat n = k" using unat_i32_sint [OF assms] by simp
  moreover have "sgn (int k) * (int k mod 10) = int (k mod 10)"
    by (cases "k = 0") (simp_all add: zmod_int)
  ultimately show ?thesis by (simp add: c_rem10_def k)
qed

lemma char_int_digit: "r < 10 \<Longrightarrow> char_int (of_char CHR ''0'') + of_nat r = char_int (of_nat (48 + r))"
proof -
  assume "r < 10"
  then have "r = 0 \<or> r = 1 \<or> r = 2 \<or> r = 3 \<or> r = 4 \<or> r = 5 \<or> r = 6 \<or> r = 7 \<or> r = 8 \<or> r = 9"
    by arith
  then show ?thesis by (elim disjE) (simp_all add: char_int_def)
qed

lemma put_chars_simps [simp]:
  "put_chars fb type [] = []"
  "put_chars fb type (c # cs) = putchar fb type (char_int c) @ put_chars fb type cs"
  "put_chars fb type (cs @ ds) = put_chars fb type cs @ put_chars fb type ds"
  by (simp_all add: put_chars_def)

lemma format_spec_d_nonneg:
  assumes "0 \<le> sint val"
  shows "format_spec_d fb type val =
    (put_chars fb type (decimal (unat val)), of_nat (length (decimal (unat val))))"
  using assms
proof (induction "unat val" arbitrary: val rule: less_induct)
  case less
  note last = c_rem10_nonneg [OF less.prems] char_int_digit [of "unat val mod 10"]
  have u: "sint val = int (unat val)"
    using unat_i32_sint [OF less.prems] less.prems by simp
  show ?case
  proof (cases "unat val < 10")
    case True
    then have "\<not> 10 \<le> sint val" unfolding u by linarith
    with True show ?thesis using less.prems last
      by (subst format_spec_d.simps, subst (1 2) decimal.simps) simp
  next
    case False
    have div: "unat (val div 10) = unat val div 10" by (simp add: unat_div)
    have "0 \<le> sint (val div 10)"
      using less.prems le_less_trans [OF div_le_dividend, of "unat val" "2 ^ 31" 10]
      unfolding sint_i32_nonneg div by simp
    moreover have "unat (val div 10) < unat val" using False div by simp
    ultimately have IH: "format_spec_d fb type (val div 10) =
      (put_chars fb type (decimal (unat val div 10)), of_nat (length (decimal (unat val div 10))))"
      using less.hyps [of "val div 10"] div by simp
    have "10 \<le> sint val" unfolding u using False by linarith
    with IH False less.prems last show ?thesis
      by (subst format_spec_d.simps, subst (1 2) decimal.simps) (simp add: Let_def)
  qed
qed

lemma sint_uminus_i32:
  assumes "(val :: i32) \<noteq> 0x80000000" shows "sint (- val) = - sint val"
proof -
  have "sint val \<noteq> - (2 ^ 31)"
  proof
    assume "sint val = - (2 ^ 31)"
    then have "(of_int (sint val) :: i32) = of_int (- (2 ^ 31))" by (rule arg_cong)
    with assms show False unfolding of_int_sint by simp
  qed
  moreover have "- (2 ^ 31) \<le> sint val" "sint val < 2 ^ 31"
    using sint_ge [of val] sint_lt [of val] by simp_all
  ultimately have "signed_take_bit 31 (- sint val) = - sint val"
    by (intro signed_take_bit_int_eq_self) simp_all
  then show ?thesis by (simp add: sint_word_ariths)
qed

lemma format_spec_d_neg:
  assumes "sint val < 0" "val \<noteq> 0x80000000"
  shows "format_spec_d fb type val =
    (put_chars fb type (of_char CHR ''-'' # decimal (nat (- sint val))),
     1 + of_nat (length (decimal (nat (- sint val)))))"
proof -
  have pos: "0 \<le> sint (- val)" "\<not> sint (- val) < 0"
    using sint_uminus_i32 [OF assms(2)] assms(1) by simp_all
  have "format_spec_d fb type val =
    (putchar fb type (char_int (of_char CHR ''-'')) @ fst (format_spec_d fb type (- val)),
     1 + snd (format_spec_d fb type (- val)))"
    using assms(1) pos(2)
    by (subst (1 2 3) format_spec_d.simps) (simp add: Let_def split: prod.split)
  then show ?thesis
    using format_spec_d_nonneg [OF pos(1)] unat_i32_sint [OF pos(1)]
      sint_uminus_i32 [OF assms(2)] by simp
qed

section \<open>Format strings in memory\<close>

lemma printk_loop_end: "m c = 0 \<Longrightarrow> printk_loop fb type m args (c, k, out, count) = Some (out, count)"
  by (subst printk_loop.simps) simp

lemma printk_loop_char:
  "m c \<noteq> 0 \<Longrightarrow> m c \<noteq> of_char CHR ''%'' \<Longrightarrow> printk_loop fb type m args (c, k, out, count) =
     printk_loop fb type m args (c + 1, k, out @ putchar fb type (char_int (m c)), count + 1)"
  by (subst printk_loop.simps) (simp add: printk_step_def)

lemma printk_loop_conv:
  "m c = of_char CHR ''%'' \<Longrightarrow> printk_loop fb type m args (c, k, out, count) =
     Option.bind (conversion fb type m args k (m (c + 1)))
       (\<lambda>(o', n, k'). printk_loop fb type m args (c + 2, k', out @ o', count + n))"
  by (subst printk_loop.simps) 
    (auto simp: printk_step_def Option.bind_map_option intro!: Option.bind_cong)

lemma printk_loop_format:
  "cstring m c fmt \<Longrightarrow> well_formed_format fmt \<Longrightarrow>
   printk_loop fb type m args (c, k, out, count) =
     map_option (\<lambda>(o', n). (out @ o', count + n)) (format_list fb type m args fmt k)"
proof (induction fb type m args fmt k arbitrary: c out count rule: format_list.induct)
  case (1 fb type m args k)
  then show ?case by (simp add: printk_loop_end)
next
  case (2 fb type m args d cs k)
  show ?case
  proof (cases "d = of_char CHR ''%''")
    case True
    then obtain e es where cs: "cs = e # es" using 2(4) by (auto split: list.splits)
    have "cstring m (c + 2) es" "well_formed_format es" "m c = of_char CHR ''%''" "m (c + 1) = e"
      using 2(3,4) True cs by (auto simp: add.assoc)
    with 2(1) [OF True cs] True cs show ?thesis
      by (auto simp: printk_loop_conv option.map_comp add.assoc split: Option.bind_split
          intro!: option.map_cong)
  next
    case False
    with 2 show ?thesis
      by (auto simp: printk_loop_char option.map_comp add.assoc intro!: option.map_cong)
  qed
qed

section \<open>Properties\<close>

text \<open>
  The hexadecimal conversion of a non-zero value fills at most the 16 bytes of its buffer,
  uses hexadecimal digits only, and prints a numeral that denotes the value; the returned count is
  the number of digits.
\<close>

theorem format_spec_x_correct:
  assumes "val \<noteq> 0"
  shows "\<exists>ds. format_spec_x fb type val = (put_chars fb type ds, of_nat (length ds))
    \<and> hex_number ds = unat val \<and> length ds \<le> 16
    \<and> set ds \<subseteq> set (map of_char ''0123456789abcdef'')"
proof -
  have "length (x_digits val []) \<le> 16"
    by (rule length_x_digits) (use unat_u64_lt [of val] in simp)
  then show ?thesis
    using assms hex_number_x_digits [of val] x_digits_set [of val]
    by (intro exI [of _ "rev (x_digits val [])"]) (simp add: format_spec_x_def Let_def)
qed

theorem format_spec_x_correct_witness:
  "\<exists>ds. format_spec_x NULL QEMU_SERIAL 0x1f = (put_chars NULL QEMU_SERIAL ds, of_nat (length ds)) \<and> hex_number ds = 31"
  using format_spec_x_correct [of "0x1f" NULL QEMU_SERIAL] by auto

text \<open>
  The decimal conversion prints the decimal numeral of its argument, with a minus sign for
  negative values, and returns its length, for every \<open>int\<close> but the least one.
\<close>

theorem format_spec_d_correct:
  assumes "val \<noteq> 0x80000000"
  shows "format_spec_d fb type val =
    (put_chars fb type ((if sint val < 0 then [of_char CHR ''-''] else []) @ decimal (nat \<bar>sint val\<bar>)),
     of_nat (length ((if sint val < 0 then [of_char CHR ''-''] else []) @ decimal (nat \<bar>sint val\<bar>))))"
proof (cases "sint val < 0")
  case True
  then show ?thesis using format_spec_d_neg [OF True assms, of fb type] by simp
next
  case False
  then show ?thesis
    using format_spec_d_nonneg [of val fb type] unat_i32_sint [of val] by simp
qed

theorem format_spec_d_correct_witness:
  "format_spec_d NULL QEMU_SERIAL (- 42) = (put_chars NULL QEMU_SERIAL [45, 52, 50], 3)"
proof -
  have d: "decimal 42 = [52, 50]" by (subst decimal.simps, subst decimal.simps) simp
  have s: "sint (- 42 :: i32) = - 42" by simp
  show ?thesis using format_spec_d_correct [of "- 42" NULL QEMU_SERIAL] unfolding s by (simp add: d)
qed

text \<open>
  The least \<open>int\<close> is printed as a minus sign and an opening parenthesis: its negation wraps to
  itself, so no digit is extracted.
\<close>

theorem format_spec_d_int_min:
  "format_spec_d NULL QEMU_SERIAL 0x80000000 = ([Serial (of_char CHR ''-''), Serial (of_char CHR ''('')], 2)"
  by (subst format_spec_d.simps)
    (simp add: c_rem10_def putchar_def putchar_qemu_serial_def QEMU_SERIAL_def FRAMEBUFFER_def
      EARLY_def char_int_def)



text \<open>
  A format string that ends in a per cent sign makes \<open>printk\<close> read past its terminator: with
  the string ``\<open>%\<close>'' at address 8 and the letter A behind its terminator, the letter is printed.
\<close>

theorem printk_trailing_percent:
  "cstring ((\<lambda>_. 0)(8 := of_char CHR ''%'', 10 := of_char CHR ''A'')) 8 [of_char CHR ''%''] \<and>
   printk NULL QEMU_SERIAL ((\<lambda>_. 0)(8 := of_char CHR ''%'', 10 := of_char CHR ''A'')) 8 args =
     Some ([Serial (of_char CHR ''A'')], 1)"
  by (simp add: printk_def printk_loop_conv printk_loop_char printk_loop_end conversion_def
      putchar_def putchar_qemu_serial_def QEMU_SERIAL_def FRAMEBUFFER_def EARLY_def char_int_def)

end
