(* ===== verification/HeapAlloc.thy ===== *)
theory HeapAlloc
  imports Printk
begin

text \<open>
  The kernel heap, \<open>src/src/alloc.c\<close>: a first-fit allocator over a doubly linked list of block
  headers that tile the heap area.  Headers are 32 bytes long and precede the block's data.
\<close>

section \<open>State\<close>

datatype heap_node_status = USED | FREE

record heap_node =
  hn_size :: u64
  hn_status :: heap_node_status
  hn_prev :: u64
  hn_next :: u64

record allocator =
  al_first :: u64
  al_addr :: u64
  al_size :: u64

text \<open>The headers in memory, and what was printed on the serial port.\<close>

record kheap =
  nodes :: "u64 \<Rightarrow> heap_node"
  klog :: "koutput list"

abbreviation sizeof_heap_node :: u64 where
  "sizeof_heap_node \<equiv> 0x20"

definition upd :: "u64 \<Rightarrow> ('a \<Rightarrow> 'a) \<Rightarrow> (u64 \<Rightarrow> 'a) \<Rightarrow> u64 \<Rightarrow> 'a" where
  "upd p f h = h(p := f (h p))"

section \<open>Operations\<close>

definition new_allocator :: "u64 \<Rightarrow> u64 \<Rightarrow> kheap \<Rightarrow> allocator \<times> kheap" where
  "new_allocator addr sz h =
     (\<lparr>al_first = addr, al_addr = addr, al_size = sz\<rparr>,
      h\<lparr>nodes := (nodes h)(addr := \<lparr>hn_size = sz - sizeof_heap_node, hn_status = FREE,
                                    hn_prev = NULL, hn_next = NULL\<rparr>)\<rparr>)"

text \<open>The two tests of the loop of \<open>alloc\<close>.\<close>

definition exact_fit :: "(u64 \<Rightarrow> heap_node) \<Rightarrow> u64 \<Rightarrow> u64 \<Rightarrow> bool" where
  "exact_fit h sz p \<longleftrightarrow> hn_size (h p) = sz \<and> hn_status (h p) = FREE"

definition split_fit :: "(u64 \<Rightarrow> heap_node) \<Rightarrow> u64 \<Rightarrow> u64 \<Rightarrow> bool" where
  "split_fit h sz p \<longleftrightarrow> hn_size (h p) \<ge> sz + sizeof_heap_node + 0x20 \<and> hn_status (h p) = FREE"

text \<open>Cutting a block: the assignments in program order.\<close>

definition split_node :: "u64 \<Rightarrow> u64 \<Rightarrow> (u64 \<Rightarrow> heap_node) \<Rightarrow> u64 \<Rightarrow> heap_node" where
  "split_node cur sz h =
     (let new = cur + sz + sizeof_heap_node;
          h = upd new (\<lambda>n. n\<lparr>hn_size := hn_size (h cur) - sz - sizeof_heap_node\<rparr>) h;
          h = upd new (\<lambda>n. n\<lparr>hn_status := FREE\<rparr>) h;
          h = upd new (\<lambda>n. n\<lparr>hn_prev := cur\<rparr>) h;
          h = upd new (\<lambda>n. n\<lparr>hn_next := hn_next (h cur)\<rparr>) h;
          h = (if hn_next (h cur) \<noteq> NULL
               then upd (hn_next (h cur)) (\<lambda>n. n\<lparr>hn_prev := new\<rparr>) h else h);
          h = upd cur (\<lambda>n. n\<lparr>hn_next := new\<rparr>) h;
          h = upd cur (\<lambda>n. n\<lparr>hn_status := USED\<rparr>) h
      in upd cur (\<lambda>n. n\<lparr>hn_size := sz\<rparr>) h)"

definition alloc :: "allocator \<Rightarrow> u64 \<Rightarrow> kheap \<Rightarrow> (u64 \<times> kheap) res" where
  "alloc al sz h =
     (let sz = (if sz < 0x20 then 0x20 else sz);
          h = h\<lparr>klog := klog h @ serial_log (''Allocating 0x%x bytes'' @ [CHR 0x0A]) sz\<rparr>
      in bind_res (returns (chase (\<lambda>p. hn_next (nodes h p))
             (\<lambda>p. exact_fit (nodes h) sz p \<or> split_fit (nodes h) sz p) (al_first al)))
           (\<lambda>cur. if cur = NULL then Inr (NULL, h)
              else if exact_fit (nodes h) sz cur
              then Inr (cur + sizeof_heap_node, h\<lparr>nodes := upd cur (\<lambda>n. n\<lparr>hn_status := USED\<rparr>) (nodes h)\<rparr>)
              else Inr (cur + sizeof_heap_node, h\<lparr>nodes := split_node cur sz (nodes h)\<rparr>)))"

text \<open>The two merges of \<open>free\<close>, each with its test; the first gives the node to go on with.\<close>

definition merge_prev :: "u64 \<Rightarrow> u64 \<Rightarrow> u64 \<Rightarrow> (u64 \<Rightarrow> heap_node) \<Rightarrow> u64 \<times> (u64 \<Rightarrow> heap_node)" where
  "merge_prev prev node nxt h =
     (if prev \<noteq> NULL \<and> hn_status (h prev) = FREE then
        (let h = upd prev (\<lambda>n. n\<lparr>hn_size := hn_size n + hn_size (h node) + sizeof_heap_node\<rparr>) h;
             h = upd prev (\<lambda>n. n\<lparr>hn_next := nxt\<rparr>) h;
             h = (if nxt \<noteq> NULL then upd nxt (\<lambda>n. n\<lparr>hn_prev := prev\<rparr>) h else h)
         in (prev, h))
      else (node, h))"

definition merge_next :: "u64 \<Rightarrow> u64 \<Rightarrow> (u64 \<Rightarrow> heap_node) \<Rightarrow> u64 \<Rightarrow> heap_node" where
  "merge_next node nxt h =
     (if nxt \<noteq> NULL \<and> hn_status (h nxt) = FREE then
        (let h = upd node (\<lambda>n. n\<lparr>hn_size := hn_size (h nxt) + hn_size n + sizeof_heap_node\<rparr>) h;
             h = upd node (\<lambda>n. n\<lparr>hn_next := hn_next (h nxt)\<rparr>) h
         in if hn_next (h node) \<noteq> NULL
            then upd (hn_next (h node)) (\<lambda>n. n\<lparr>hn_prev := node\<rparr>) h else h)
      else h)"

definition free :: "allocator \<Rightarrow> u64 \<Rightarrow> kheap \<Rightarrow> kheap res" where
  "free al ptr h =
     (if ptr = NULL then Inr h
      else if ptr < al_addr al \<or> ptr \<ge> al_addr al + al_size al then Inr h
      else let node = ptr - sizeof_heap_node in
        bind_res (deref (nodes h) node) (\<lambda>n.
          if hn_status n = FREE then Inr h
          else let hs = upd node (\<lambda>n. n\<lparr>hn_status := FREE\<rparr>) (nodes h);
                   log = serial_log (''Freeing 0x%x bytes'' @ [CHR 0x0A]) (hn_size n);
                   prev = hn_prev n; nxt = hn_next n;
                   (node, hs) = merge_prev prev node nxt hs;
                   hs = merge_next node nxt hs
               in Inr (h\<lparr>nodes := hs, klog := klog h @ log\<rparr>)))"

section \<open>The block list\<close>

text \<open>
  What a client sees of the heap: the blocks in address order, each with the address of its
  header, its size and its status.
\<close>

type_synonym block = "u64 \<times> u64 \<times> heap_node_status"

definition block_of :: "(u64 \<Rightarrow> heap_node) \<Rightarrow> u64 \<Rightarrow> block" where
  "block_of h p = (p, hn_size (h p), hn_status (h p))"

primrec tiles :: "(u64 \<Rightarrow> heap_node) \<Rightarrow> nat \<Rightarrow> u64 list \<Rightarrow> nat \<Rightarrow> bool" where
  "tiles h a [] e = (a = e)"
| "tiles h a (x # xs) e = (unat x = a \<and> tiles h (a + 32 + unat (hn_size (h x))) xs e)"

text \<open>
  The structure of the heap: the headers \<open>xs\<close> are doubly linked from the first node, tile the heap
  area exactly, and have at least 32 bytes of data each.
\<close>

definition heap_struct :: "allocator \<Rightarrow> (u64 \<Rightarrow> heap_node) \<Rightarrow> u64 list \<Rightarrow> bool" where
  "heap_struct al h xs \<longleftrightarrow>
     (\<exists>l. dseg (\<lambda>p. hn_next (h p)) (\<lambda>p. hn_prev (h p)) NULL (al_first al) xs l NULL) \<and>
     tiles h (unat (al_addr al)) xs (unat (al_addr al) + unat (al_size al)) \<and>
     (\<forall>x \<in> set xs. 32 \<le> unat (hn_size (h x))) \<and>
     al_first al = al_addr al \<and> 32 \<le> unat (al_addr al) \<and>
     unat (al_addr al) + unat (al_size al) < 2 ^ 64"

definition blocks :: "(u64 \<Rightarrow> heap_node) \<Rightarrow> u64 list \<Rightarrow> block list" where
  "blocks h xs = map (block_of h) xs"

text \<open>No two neighbours are both free.\<close>

definition no_adjacent_free :: "block list \<Rightarrow> bool" where
  "no_adjacent_free bs \<longleftrightarrow> successively (\<lambda>(_, _, s) (_, _, t). s = USED \<or> t = USED) bs"

definition heap_inv :: "allocator \<Rightarrow> (u64 \<Rightarrow> heap_node) \<Rightarrow> u64 list \<Rightarrow> bool" where
  "heap_inv al h xs \<longleftrightarrow> heap_struct al h xs \<and> no_adjacent_free (blocks h xs)"

text \<open>The abstract allocator: first fit on the block list, and release with coalescing.\<close>

fun first_fit :: "u64 \<Rightarrow> block list \<Rightarrow> u64 \<times> block list" where
  "first_fit n [] = (NULL, [])"
| "first_fit n ((a, s, st) # bs) =
     (if st = FREE \<and> s = n then (a + 32, (a, s, USED) # bs)
      else if st = FREE \<and> unat n + 64 \<le> unat s
      then (a + 32, (a, n, USED) # (a + n + 32, s - n - 32, FREE) # bs)
      else let (p, bs') = first_fit n bs in (p, (a, s, st) # bs'))"

fun coalesce :: "block list \<Rightarrow> block list" where
  "coalesce ((a, s, FREE) # (b, t, FREE) # bs) = coalesce ((a, s + t + 32, FREE) # bs)"
| "coalesce (x # bs) = x # coalesce bs"
| "coalesce [] = []"

definition mark_free :: "u64 \<Rightarrow> block list \<Rightarrow> block list" where
  "mark_free p bs = map (\<lambda>(a, s, st). if a + 32 = p then (a, s, FREE) else (a, s, st)) bs"

definition release :: "u64 \<Rightarrow> block list \<Rightarrow> block list" where
  "release p bs = coalesce (mark_free p bs)"

section \<open>Tilings\<close>

lemma tiles_append: "tiles h a (xs @ ys) e \<longleftrightarrow> (\<exists>b. tiles h a xs b \<and> tiles h b ys e)"
  by (induction xs arbitrary: a) auto

lemma tiles_cong:
  "(\<And>x. x \<in> set xs \<Longrightarrow> hn_size (h x) = hn_size (h' x)) \<Longrightarrow> tiles h a xs e = tiles h' a xs e"
  by (induction xs arbitrary: a) auto

lemma tiles_le: "tiles h a xs e \<Longrightarrow> a \<le> e"
  by (induction xs arbitrary: a) fastforce+

lemma tiles_unique: "tiles h a xs b \<Longrightarrow> tiles h a xs c \<Longrightarrow> b = c"
  by (induction xs arbitrary: a) auto

lemma tiles_bounds:
  "tiles h a xs e \<Longrightarrow> x \<in> set xs \<Longrightarrow> a \<le> unat x \<and> unat x + 32 + unat (hn_size (h x)) \<le> e"
proof (induction xs arbitrary: a)
  case Nil
  then show ?case by simp
next
  case (Cons y xs)
  then show ?case by (cases "x = y") (fastforce dest: tiles_le)+
qed

lemma heap_structD:
  assumes "heap_struct al h xs"
  shows "\<exists>l. dseg (\<lambda>p. hn_next (h p)) (\<lambda>p. hn_prev (h p)) NULL (al_first al) xs l NULL"
    and "tiles h (unat (al_addr al)) xs (unat (al_addr al) + unat (al_size al))"
    and "x \<in> set xs \<Longrightarrow> 32 \<le> unat (hn_size (h x))"
    and "al_first al = al_addr al" and "32 \<le> unat (al_addr al)"
    and "unat (al_addr al) + unat (al_size al) < 2 ^ 64"
  using assms by (auto simp: heap_struct_def)

text \<open>A heap with the same allocator record needs the first three parts only.\<close>

lemma heap_structI:
  assumes "heap_struct al h0 ys"
    and "\<exists>l. dseg (\<lambda>p. hn_next (h p)) (\<lambda>p. hn_prev (h p)) NULL (al_first al) xs l NULL"
    and "tiles h (unat (al_addr al)) xs (unat (al_addr al) + unat (al_size al))"
    and "\<And>x. x \<in> set xs \<Longrightarrow> 32 \<le> unat (hn_size (h x))"
  shows "heap_struct al h xs"
  using assms by (simp add: heap_struct_def)

lemma heap_struct_chain: "heap_struct al h xs \<Longrightarrow> chain (\<lambda>p. hn_next (h p)) (al_first al) xs NULL"
  by (auto simp: heap_struct_def dest: dseg_chain)

text \<open>What the structure says around one block.\<close>

lemma heap_struct_around:
  assumes "heap_struct al h (as @ cur # bs)"
  obtains l where
    "dseg (\<lambda>p. hn_next (h p)) (\<lambda>p. hn_prev (h p)) NULL (al_first al) as (hn_prev (h cur)) cur"
    "cur \<noteq> NULL"
    "dseg (\<lambda>p. hn_next (h p)) (\<lambda>p. hn_prev (h p)) cur (hn_next (h cur)) bs l NULL"
    "tiles h (unat (al_addr al)) as (unat cur)"
    "tiles h (unat cur + 32 + unat (hn_size (h cur))) bs (unat (al_addr al) + unat (al_size al))"
    "unat cur + 32 + unat (hn_size (h cur)) < 2 ^ 64"
    "\<And>x. x \<in> set as \<Longrightarrow> unat x + 64 \<le> unat cur"
    "\<And>x. x \<in> set bs \<Longrightarrow> unat cur + 32 + unat (hn_size (h cur)) \<le> unat x"
proof -
  from heap_structD(1) [OF assms] obtain l where
    d: "dseg (\<lambda>p. hn_next (h p)) (\<lambda>p. hn_prev (h p)) NULL (al_first al) as (hn_prev (h cur)) cur"
    "cur \<noteq> NULL"
    "dseg (\<lambda>p. hn_next (h p)) (\<lambda>p. hn_prev (h p)) cur (hn_next (h cur)) bs l NULL"
    by (auto simp: dseg_append)
  from heap_structD(2) [OF assms] have t: "tiles h (unat (al_addr al)) as (unat cur)"
    "tiles h (unat cur + 32 + unat (hn_size (h cur))) bs (unat (al_addr al) + unat (al_size al))"
    by (auto simp: tiles_append)
  have "unat cur + 32 + unat (hn_size (h cur)) < 2 ^ 64"
    using tiles_le [OF t(2)] heap_structD(6) [OF assms] by linarith
  moreover have "unat x + 64 \<le> unat cur" if "x \<in> set as" for x
    using tiles_bounds [OF t(1) that] heap_structD(3) [OF assms, of x] that by simp
  moreover have "unat cur + 32 + unat (hn_size (h cur)) \<le> unat x" if "x \<in> set bs" for x
    using tiles_bounds [OF t(2) that] by simp
  ultimately show ?thesis using that d t by simp
qed

text \<open>A list whose first node gets a new predecessor.\<close>

lemma dseg_new_pred:
  assumes "dseg nx pv p a xs l NULL"
    and "xs \<noteq> [] \<Longrightarrow> pv' (hd xs) = p'"
    and "\<And>x. x \<in> set xs \<Longrightarrow> nx' x = nx x"
    and "\<And>x. x \<in> set (tl xs) \<Longrightarrow> pv' x = pv x"
  shows "\<exists>l'. dseg nx' pv' p' a xs l' NULL"
proof (cases xs)
  case Nil
  then show ?thesis using assms(1) by simp
next
  case (Cons x ys)
  have "dseg nx' pv' x (nx x) ys l NULL = dseg nx pv x (nx x) ys l NULL"
    by (rule dseg_cong) (use assms(3,4) Cons in auto)
  with assms Cons show ?thesis by auto
qed

section \<open>Cutting and merging blocks\<close>

text \<open>
  A heap \<open>h'\<close> that agrees with \<open>h\<close> before and after some blocks \<open>ys\<close> which it replaces by \<open>zs\<close>,
  except that the first node behind them has a new predecessor.
\<close>

lemma heap_struct_replace:
  assumes old: "heap_struct al h (as @ ys @ bs)"
    and pre: "dseg (\<lambda>p. hn_next (h p)) (\<lambda>p. hn_prev (h p)) NULL (al_first al) as pr a"
    and post: "dseg (\<lambda>p. hn_next (h p)) (\<lambda>p. hn_prev (h p)) p nxt bs l NULL"
    and mid: "dseg (\<lambda>p. hn_next (h' p)) (\<lambda>p. hn_prev (h' p)) pr a zs p' nxt"
    and tm: "\<And>e. tiles h (unat a) (ys @ bs) e \<Longrightarrow> tiles h' (unat a) (zs @ bs) e"
    and ta: "tiles h (unat (al_addr al)) as (unat a)"
    and as: "\<And>x. x \<in> set as \<Longrightarrow> h' x = h x"
    and bs: "\<And>x. x \<in> set bs \<Longrightarrow> hn_next (h' x) = hn_next (h x)"
    and hd: "bs \<noteq> [] \<Longrightarrow> hn_prev (h' (hd bs)) = p'"
    and tl: "\<And>x. x \<in> set (tl bs) \<Longrightarrow> hn_prev (h' x) = hn_prev (h x)"
    and sz: "\<And>x. x \<in> set (zs @ bs) \<Longrightarrow> 32 \<le> unat (hn_size (h' x))"
  shows "heap_struct al h' (as @ zs @ bs)"
proof (rule heap_structI [OF old])
  have "dseg (\<lambda>p. hn_next (h' p)) (\<lambda>p. hn_prev (h' p)) NULL (al_first al) as pr a"
    using pre dseg_cong [of as "\<lambda>p. hn_next (h' p)" "\<lambda>p. hn_next (h p)"] as by simp
  moreover have "\<exists>l'. dseg (\<lambda>p. hn_next (h' p)) (\<lambda>p. hn_prev (h' p)) p' nxt bs l' NULL"
    by (rule dseg_new_pred [OF post]) (use hd bs tl in auto)
  ultimately show "\<exists>l'. dseg (\<lambda>p. hn_next (h' p)) (\<lambda>p. hn_prev (h' p)) NULL (al_first al)
      (as @ zs @ bs) l' NULL"
    using mid unfolding dseg_append by blast
  have "\<exists>b. tiles h (unat (al_addr al)) as b \<and>
      tiles h b (ys @ bs) (unat (al_addr al) + unat (al_size al))"
    using heap_structD(2) [OF old] by (simp add: tiles_append)
  moreover have "b = unat a" if "tiles h (unat (al_addr al)) as b" for b
    using that ta by (rule tiles_unique)
  ultimately have "tiles h (unat a) (ys @ bs) (unat (al_addr al) + unat (al_size al))"
    by blast
  then show "tiles h' (unat (al_addr al)) (as @ zs @ bs) (unat (al_addr al) + unat (al_size al))"
    using tm ta tiles_cong [of as h' h] as unfolding tiles_append by force
  show "32 \<le> unat (hn_size (h' x))" if "x \<in> set (as @ zs @ bs)" for x
    using that sz as heap_structD(3) [OF old, of x] by auto
qed

lemma split_node_apply:
  fixes h :: "u64 \<Rightarrow> heap_node" and cur n :: u64
  defines "nxt \<equiv> hn_next (h cur)" and "new \<equiv> cur + n + 0x20"
  assumes "new \<noteq> cur" "nxt \<noteq> cur" "nxt \<noteq> new"
  shows "split_node cur n h x =
    (if x = cur then (h x)\<lparr>hn_next := new, hn_status := USED, hn_size := n\<rparr>
     else if x = new then (h x)\<lparr>hn_size := hn_size (h cur) - n - 0x20, hn_status := FREE,
                                 hn_prev := cur, hn_next := nxt\<rparr>
     else if x = nxt \<and> nxt \<noteq> NULL then (h x)\<lparr>hn_prev := new\<rparr> else h x)"
  using assms by (auto simp: split_node_def upd_def Let_def)

lemma split_struct:
  assumes st: "heap_struct al h (as @ cur # bs)"
    and fit: "unat n + 64 \<le> unat (hn_size (h cur))" and n: "32 \<le> unat n"
  shows "heap_struct al (split_node cur n h) (as @ cur # (cur + n + 32) # bs)"
    and "blocks (split_node cur n h) (as @ cur # (cur + n + 32) # bs) =
      blocks h as @ (cur, n, USED) # (cur + n + 32, hn_size (h cur) - n - 32, FREE) # blocks h bs"
proof -
  define new where "new = cur + n + 0x20"
  define nxt where "nxt = hn_next (h cur)"
  define h' where "h' = split_node cur n h"
  obtain l where
    pre: "dseg (\<lambda>p. hn_next (h p)) (\<lambda>p. hn_prev (h p)) NULL (al_first al) as (hn_prev (h cur)) cur"
      "cur \<noteq> NULL"
    and post: "dseg (\<lambda>p. hn_next (h p)) (\<lambda>p. hn_prev (h p)) cur (hn_next (h cur)) bs l NULL"
    and ta: "tiles h (unat (al_addr al)) as (unat cur)"
    and tb: "tiles h (unat cur + 32 + unat (hn_size (h cur))) bs (unat (al_addr al) + unat (al_size al))"
    and b: "unat cur + 32 + unat (hn_size (h cur)) < 2 ^ 64"
    and lo: "\<And>x. x \<in> set as \<Longrightarrow> unat x + 64 \<le> unat cur"
    and hi: "\<And>x. x \<in> set bs \<Longrightarrow> unat cur + 32 + unat (hn_size (h cur)) \<le> unat x"
    by (rule heap_struct_around [OF st]) (rule that)
  note post = post [folded nxt_def]
  have new: "unat new = unat cur + unat n + 32"
    unfolding new_def using b fit by (simp add: unat_add_u64)
  have rest: "unat (hn_size (h cur) - n - 32) = unat (hn_size (h cur)) - unat n - 32"
    using fit by (simp add: unat_sub_u64 word_le_nat_alt)
  have nxt: "nxt = (if bs = [] then NULL else hd bs)" using dseg_hd [OF post] .
  have above: "unat new < unat x" if "x \<in> set bs" for x using hi [OF that] new fit by linarith
  then have nn: "nxt = NULL \<or> unat new < unat nxt" by (simp add: nxt)
  have gt: "unat cur < unat new" using new by simp
  then have "0 < unat new" by simp
  with nn gt pre(2) have ne: "new \<noteq> cur" "nxt \<noteq> cur" "nxt \<noteq> new" "new \<noteq> NULL" by auto
  note app = split_node_apply [of cur n h, folded new_def nxt_def, folded h'_def, OF ne(1-3)]
  have as: "h' x = h x" if "x \<in> set as" for x
    using lo [OF that] gt nn chain_nonnull [OF dseg_chain [OF pre(1)] that] unfolding app by auto
  have hcur: "h' cur = (h cur)\<lparr>hn_next := new, hn_status := USED, hn_size := n\<rparr>"
    and hnew: "h' new = (h new)\<lparr>hn_size := hn_size (h cur) - n - 0x20, hn_status := FREE,
                                 hn_prev := cur, hn_next := nxt\<rparr>"
    using ne by (simp_all add: app)
  have bs: "hn_next (h' x) = hn_next (h x)" "hn_size (h' x) = hn_size (h x)"
    "hn_status (h' x) = hn_status (h x)" if "x \<in> set bs" for x
    using above [OF that] gt by (auto simp: app)
  have "distinct bs" using chain_distinct [OF heap_struct_chain [OF st]] by simp
  then have tl: "hn_prev (h' x) = hn_prev (h x)" if "x \<in> set (tl bs)" for x
    using that above [of x] gt by (cases bs) (auto simp: app nxt)
  have "heap_struct al h' (as @ [cur, new] @ bs)"
  proof (rule heap_struct_replace [where h = h and ys = "[cur]" and p' = new, OF _ pre(1) post])
    show "dseg (\<lambda>p. hn_next (h' p)) (\<lambda>p. hn_prev (h' p)) (hn_prev (h cur)) cur [cur, new] new nxt"
      using hcur hnew pre(2) ne by simp
    show "tiles h' (unat cur) ([cur, new] @ bs) e" if "tiles h (unat cur) ([cur] @ bs) e" for e
      using that tiles_cong [of bs h' h] bs(2) new rest fit hcur hnew by (simp add: ac_simps)
    show "hn_prev (h' (hd bs)) = new" if "bs \<noteq> []"
      using that above [of "hd bs"] gt chain_nonnull [OF dseg_chain [OF post], of "hd bs"]
      by (auto simp: app nxt)
    show "32 \<le> unat (hn_size (h' x))" if "x \<in> set ([cur, new] @ bs)" for x
      using that bs(2) heap_structD(3) [OF st, of x] hcur hnew n rest fit by auto
  qed (use st as bs tl ta in auto)
  then show "heap_struct al (split_node cur n h) (as @ cur # (cur + n + 32) # bs)"
    by (simp add: h'_def new_def)
  have "blocks h' (as @ [cur, new] @ bs) =
      blocks h as @ (cur, n, USED) # (new, hn_size (h cur) - n - 32, FREE) # blocks h bs"
    using as bs hcur hnew by (simp add: blocks_def block_of_def)
  then show "blocks (split_node cur n h) (as @ cur # (cur + n + 32) # bs) =
      blocks h as @ (cur, n, USED) # (cur + n + 32, hn_size (h cur) - n - 32, FREE) # blocks h bs"
    by (simp add: h'_def new_def)
qed

text \<open>Both merges of \<open>free\<close> absorb a block into the one before it.\<close>

definition absorb :: "u64 \<Rightarrow> u64 \<Rightarrow> (u64 \<Rightarrow> heap_node) \<Rightarrow> u64 \<Rightarrow> heap_node" where
  "absorb p x h =
     (let h1 = h(p := (h p)\<lparr>hn_size := hn_size (h p) + hn_size (h x) + 32, hn_next := hn_next (h x)\<rparr>)
      in if hn_next (h x) \<noteq> NULL then upd (hn_next (h x)) (\<lambda>n. n\<lparr>hn_prev := p\<rparr>) h1 else h1)"

lemma absorb_struct:
  assumes st: "heap_struct al h (as @ p # x # bs)"
  shows "heap_struct al (absorb p x h) (as @ p # bs)"
    and "blocks (absorb p x h) (as @ p # bs) =
      blocks h as @ (p, hn_size (h p) + hn_size (h x) + 32, hn_status (h p)) # blocks h bs"
proof -
  define h' where "h' = absorb p x h"
  define nxt where "nxt = hn_next (h x)"
  obtain l where
    pre: "dseg (\<lambda>p. hn_next (h p)) (\<lambda>p. hn_prev (h p)) NULL (al_first al) as (hn_prev (h p)) p"
      "p \<noteq> NULL"
    and post: "dseg (\<lambda>p. hn_next (h p)) (\<lambda>p. hn_prev (h p)) p (hn_next (h p)) (x # bs) l NULL"
    and ta: "tiles h (unat (al_addr al)) as (unat p)"
    and tb: "tiles h (unat p + 32 + unat (hn_size (h p))) (x # bs) (unat (al_addr al) + unat (al_size al))"
    and b: "unat p + 32 + unat (hn_size (h p)) < 2 ^ 64"
    and lo: "\<And>y. y \<in> set as \<Longrightarrow> unat y + 64 \<le> unat p"
    and hi: "\<And>y. y \<in> set (x # bs) \<Longrightarrow> unat p + 32 + unat (hn_size (h p)) \<le> unat y"
    by (rule heap_struct_around [OF st]) (rule that)
  have px: "unat x = unat p + 32 + unat (hn_size (h p))" using tb by simp
  have sum: "unat (hn_size (h p) + hn_size (h x) + 32) =
      unat (hn_size (h p)) + unat (hn_size (h x)) + 32"
    using tiles_bounds [OF tb, of x] heap_structD(6) [OF st] px by (simp add: unat_add_u64)
  have post': "dseg (\<lambda>p. hn_next (h p)) (\<lambda>p. hn_prev (h p)) x nxt bs l NULL"
    using post by (simp add: nxt_def)
  have nxt: "nxt = (if bs = [] then NULL else hd bs)" using dseg_hd [OF post'] .
  have gt: "unat p < unat y" if "y \<in> set bs" for y using hi [of y] that by simp
  have ne: "nxt \<noteq> p" using gt [of "hd bs"] pre(2) by (auto simp: nxt)
  have app: "h' y = (if y = p then (h y)\<lparr>hn_size := hn_size (h p) + hn_size (h x) + 32, hn_next := nxt\<rparr>
      else if y = nxt \<and> nxt \<noteq> NULL then (h y)\<lparr>hn_prev := p\<rparr> else h y)" for y
    using ne by (simp add: h'_def absorb_def upd_def nxt_def Let_def)
  have as: "h' y = h y" if "y \<in> set as" for y
    using lo [OF that] gt [of nxt] chain_nonnull [OF dseg_chain [OF pre(1)] that]
    unfolding app by (auto simp: nxt split: if_splits)
  have bs: "hn_next (h' y) = hn_next (h y)" "hn_size (h' y) = hn_size (h y)"
    "hn_status (h' y) = hn_status (h y)" if "y \<in> set bs" for y
    using gt [OF that] by (auto simp: app)
  have "distinct bs" using chain_distinct [OF heap_struct_chain [OF st]] by simp
  then have tl: "hn_prev (h' y) = hn_prev (h y)" if "y \<in> set (tl bs)" for y
    using that gt [of y] by (cases bs) (auto simp: app nxt)
  have "heap_struct al h' (as @ [p] @ bs)"
  proof (rule heap_struct_replace [where h = h and ys = "[p, x]" and p' = p, OF _ pre(1) post'])
    show "dseg (\<lambda>p. hn_next (h' p)) (\<lambda>p. hn_prev (h' p)) (hn_prev (h p)) p [p] p nxt"
      using pre(2) by (simp add: app)
    show "tiles h' (unat p) ([p] @ bs) e" if "tiles h (unat p) ([p, x] @ bs) e" for e
      using that tiles_cong [of bs h' h] bs(2) sum by (simp add: app algebra_simps)
    show "hn_prev (h' (hd bs)) = p" if "bs \<noteq> []"
      using that gt [of "hd bs"] chain_nonnull [OF dseg_chain [OF post'], of "hd bs"]
      by (auto simp: app nxt)
    show "32 \<le> unat (hn_size (h' y))" if "y \<in> set ([p] @ bs)" for y
      using that bs(2) heap_structD(3) [OF st, of y] sum by (auto simp: app)
  qed (use st as bs tl ta in auto)
  then show "heap_struct al (absorb p x h) (as @ p # bs)" by (simp add: h'_def)
  have "blocks h' (as @ p # bs) =
      blocks h as @ (p, hn_size (h p) + hn_size (h x) + 32, hn_status (h p)) # blocks h bs"
    using as bs by (simp add: blocks_def block_of_def) (simp add: app)
  then show "blocks (absorb p x h) (as @ p # bs) =
      blocks h as @ (p, hn_size (h p) + hn_size (h x) + 32, hn_status (h p)) # blocks h bs"
    by (simp add: h'_def)
qed

lemma set_status_struct:
  assumes "heap_struct al h (as @ cur # bs)"
  shows "heap_struct al (upd cur (\<lambda>n. n\<lparr>hn_status := st\<rparr>) h) (as @ cur # bs)"
    and "blocks (upd cur (\<lambda>n. n\<lparr>hn_status := st\<rparr>) h) (as @ cur # bs) =
      blocks h as @ (cur, hn_size (h cur), st) # blocks h bs"
proof -
  let ?h = "upd cur (\<lambda>n. n\<lparr>hn_status := st\<rparr>) h"
  have f: "hn_next (?h x) = hn_next (h x)" "hn_prev (?h x) = hn_prev (h x)"
    "hn_size (?h x) = hn_size (h x)" for x
    by (simp_all add: upd_def)
  show "heap_struct al ?h (as @ cur # bs)"
    by (rule heap_structI [OF assms])
      (use heap_structD(1-3) [OF assms] tiles_cong [of _ ?h h] in \<open>simp_all add: f\<close>)
  have "cur \<notin> set as" "cur \<notin> set bs"
    using chain_distinct [OF heap_struct_chain [OF assms]] by auto
  then show "blocks ?h (as @ cur # bs) = blocks h as @ (cur, hn_size (h cur), st) # blocks h bs"
    by (auto simp: blocks_def block_of_def upd_def)
qed

section \<open>The abstract allocator\<close>

definition fits :: "u64 \<Rightarrow> block \<Rightarrow> bool" where
  "fits n = (\<lambda>(a, s, st). st = FREE \<and> (s = n \<or> unat n + 64 \<le> unat s))"

lemma first_fit_skip:
  "\<forall>b \<in> set as. \<not> fits n b \<Longrightarrow>
   first_fit n (as @ bs) = (fst (first_fit n bs), as @ snd (first_fit n bs))"
proof (induction as)
  case Nil
  then show ?case by simp
next
  case (Cons b as)
  then show ?case by (cases b) (auto simp: fits_def Let_def)
qed

lemma no_adjacent_free_simps [simp]:
  "no_adjacent_free []"
  "no_adjacent_free [b]"
  "no_adjacent_free (b # c # bs) \<longleftrightarrow>
     (snd (snd b) = USED \<or> snd (snd c) = USED) \<and> no_adjacent_free (c # bs)"
  by (auto simp: no_adjacent_free_def split: prod.splits)

lemma no_adjacent_free_append:
  "no_adjacent_free (as @ b # bs) \<longleftrightarrow> no_adjacent_free (as @ [b]) \<and> no_adjacent_free (b # bs)"
  by (auto simp: no_adjacent_free_def successively_append_iff successively_Cons)

lemma no_adjacent_free_tl: "no_adjacent_free (b # bs) \<Longrightarrow> no_adjacent_free bs"
  by (cases bs) auto

lemma no_adjacent_free_used: "no_adjacent_free ((a, s, USED) # bs) = no_adjacent_free bs"
  by (cases bs) auto

lemma first_fit_head:
  "first_fit n ((a, s, st) # bs) = (p, cs) \<Longrightarrow>
   \<exists>s' st' ds. cs = (a, s', st') # ds \<and> (st' = st \<or> st' = USED)"
  by (auto split: if_splits prod.splits)

lemma first_fit_no_adjacent_free:
  "no_adjacent_free bs \<Longrightarrow> no_adjacent_free (snd (first_fit n bs))"
proof (induction n bs rule: first_fit.induct)
  case (1 n)
  then show ?case by simp
next
  case (2 n a s st bs)
  show ?case
  proof (cases "fits n (a, s, st)")
    case True
    with 2(2) show ?thesis
      by (cases bs) (auto simp: fits_def no_adjacent_free_used)
  next
    case False
    then have ff: "first_fit n ((a, s, st) # bs) =
        (fst (first_fit n bs), (a, s, st) # snd (first_fit n bs))"
      using first_fit_skip [of "[(a, s, st)]" n bs] by simp
    have IH: "no_adjacent_free (snd (first_fit n bs))"
      using 2 False no_adjacent_free_tl by (fastforce simp: fits_def)
    show ?thesis
    proof (cases bs)
      case Nil
      then show ?thesis using ff by simp
    next
      case (Cons b cs)
      obtain a' s' st' where b: "b = (a', s', st')" by (cases b)
      then obtain t u ds where "snd (first_fit n bs) = (a', t, u) # ds" "u = st' \<or> u = USED"
        using first_fit_head [of n a' s' st' cs] Cons by (metis prod.collapse)
      with IH 2(2) Cons b show ?thesis unfolding ff by auto
    qed
  qed
qed

lemma coalesce_skip:
  "no_adjacent_free (as @ [b]) \<Longrightarrow> coalesce (as @ b # bs) = as @ coalesce (b # bs)"
proof (induction as)
  case Nil
  then show ?case by simp
next
  case (Cons c as)
  obtain a s st where c: "c = (a, s, st)" by (cases c)
  from Cons have IH: "coalesce (as @ b # bs) = as @ coalesce (b # bs)"
    by (metis append_Cons no_adjacent_free_tl)
  obtain d ds where d: "as @ b # bs = d # ds" by (cases "as @ b # bs") auto
  have "st = USED \<or> snd (snd d) = USED"
    using Cons.prems d c by (cases as) auto
  then have "coalesce (c # d # ds) = c # coalesce (d # ds)"
    using c by (cases d; cases st; cases "snd (snd d)") auto
  then show ?case using IH d by simp
qed

lemma coalesce_id: "no_adjacent_free bs \<Longrightarrow> coalesce bs = bs"
proof (cases bs rule: rev_cases)
  case (snoc as b)
  assume "no_adjacent_free bs"
  with snoc show ?thesis using coalesce_skip [of as b "[]"] by (cases b; cases "snd (snd b)") auto
qed simp

lemma coalesce_used: "coalesce ((a, s, USED) # bs) = (a, s, USED) # coalesce bs"
  by (cases bs) auto

lemma coalesce_no_adjacent_free: "no_adjacent_free (coalesce bs)"
  by (induction bs rule: coalesce.induct) (auto simp: coalesce_used no_adjacent_free_used)

section \<open>Allocation refines first fit\<close>

definition rounded :: "u64 \<Rightarrow> u64" where
  "rounded n = (if n < 0x20 then 0x20 else n)"

lemma rounded_ge: "32 \<le> unat (rounded n)"
  by (auto simp: rounded_def word_less_nat_alt)

lemma fit_iff:
  assumes "unat n + 64 < 2 ^ 64"
  shows "exact_fit h n p \<or> split_fit h n p \<longleftrightarrow> fits n (block_of h p)"
proof -
  have "unat (n + 0x20 + 0x20) = unat n + 64"
    using assms by (simp add: unat_add_u64)
  then show ?thesis
    by (auto simp: exact_fit_def split_fit_def fits_def block_of_def word_le_nat_alt)
qed

lemma blocks_append [simp]: "blocks h (xs @ ys) = blocks h xs @ blocks h ys"
  by (simp add: blocks_def)

lemma blocks_Nil [simp]: "blocks h [] = []"
  by (simp add: blocks_def)

lemma blocks_Cons [simp]: "blocks h (x # xs) = block_of h x # blocks h xs"
  by (simp add: blocks_def)

lemma alloc_first_fit:
  assumes inv: "heap_inv al (nodes h) xs" and n: "unat n + 64 < 2 ^ 64"
  shows "\<exists>p h' xs'. alloc al n h = Inr (p, h') \<and> heap_inv al (nodes h') xs' \<and>
    first_fit (rounded n) (blocks (nodes h) xs) = (p, blocks (nodes h') xs')"
proof -
  define m where "m = rounded n"
  have m: "unat m + 64 < 2 ^ 64" "32 \<le> unat m"
    using n rounded_ge [of n] by (auto simp: m_def rounded_def)
  have st: "heap_struct al (nodes h) xs" and naf: "no_adjacent_free (blocks (nodes h) xs)"
    using inv by (simp_all add: heap_inv_def)
  let ?h = "h\<lparr>klog := klog h @ serial_log (''Allocating 0x%x bytes'' @ [CHR 0x0A]) m\<rparr>"
  let ?P = "\<lambda>p. exact_fit (nodes h) m p \<or> split_fit (nodes h) m p"
  have run: "alloc al n h = (let cur = first_or_null ?P xs in
      if cur = NULL then Inr (NULL, ?h)
      else if exact_fit (nodes h) m cur
      then Inr (cur + 0x20, ?h\<lparr>nodes := upd cur (\<lambda>n. n\<lparr>hn_status := USED\<rparr>) (nodes h)\<rparr>)
      else Inr (cur + 0x20, ?h\<lparr>nodes := split_node cur m (nodes h)\<rparr>))"
    using chase_chain [OF heap_struct_chain [OF st], of ?P]
    by (simp add: alloc_def Let_def m_def rounded_def)
  have keep: "no_adjacent_free (snd (first_fit m (blocks (nodes h) xs)))"
    using naf by (rule first_fit_no_adjacent_free)
  show ?thesis
  proof (cases rule: first_or_null_cases [of ?P xs])
    case none
    then have "\<forall>b \<in> set (blocks (nodes h) xs). \<not> fits m b"
      using fit_iff [OF m(1)] by (auto simp: blocks_def)
    then have "first_fit m (blocks (nodes h) xs) = (NULL, blocks (nodes h) xs)"
      using first_fit_skip [of "blocks (nodes h) xs" m "[]"] by simp
    with none run inv show ?thesis
      by (intro exI [of _ NULL] exI [of _ ?h] exI [of _ xs]) (simp add: m_def)
  next
    case (found as cur bs)
    have cur: "cur \<noteq> NULL" using found(1) chain_nonnull [OF heap_struct_chain [OF st], of cur] by simp
    have skip: "first_fit m (blocks (nodes h) xs) =
        (fst (first_fit m (blocks (nodes h) (cur # bs))),
         blocks (nodes h) as @ snd (first_fit m (blocks (nodes h) (cur # bs))))"
      unfolding found(1) blocks_append
      by (rule first_fit_skip) (use found(3) fit_iff [OF m(1)] in \<open>auto simp: blocks_def\<close>)
    show ?thesis
    proof (cases "exact_fit (nodes h) m cur")
      case True
      let ?h' = "?h\<lparr>nodes := upd cur (\<lambda>n. n\<lparr>hn_status := USED\<rparr>) (nodes h)\<rparr>"
      note s = set_status_struct [OF st [unfolded found(1)], of USED]
      have "first_fit m (blocks (nodes h) xs) = (cur + 32, blocks (nodes ?h') xs)"
        using skip True s(2) unfolding found(1) by (simp add: exact_fit_def block_of_def)
      with s(1) keep run True found(4) cur show ?thesis
        unfolding m_def [symmetric]
        by (intro exI [of _ "cur + 32"] exI [of _ ?h'] exI [of _ xs])
          (simp add: heap_inv_def found(1))
    next
      case False
      let ?h' = "?h\<lparr>nodes := split_node cur m (nodes h)\<rparr>"
      have fr: "hn_status (nodes h cur) = FREE" "unat m + 64 \<le> unat (hn_size (nodes h cur))"
        "hn_size (nodes h cur) \<noteq> m"
        using False found(2) fit_iff [OF m(1), of "nodes h" cur]
        by (auto simp: fits_def block_of_def exact_fit_def)
      note s = split_struct [OF st [unfolded found(1)] fr(2) m(2)]
      have "first_fit m (blocks (nodes h) xs) =
          (cur + 32, blocks (nodes ?h') (as @ cur # (cur + m + 32) # bs))"
        using skip fr s(2) by (simp add: block_of_def)
      with s(1) keep run False found(4) cur show ?thesis
        unfolding m_def [symmetric]
        by (intro exI [of _ "cur + 32"] exI [of _ ?h'] exI [of _ "as @ cur # (cur + m + 32) # bs"])
          (simp add: heap_inv_def)
    qed
  qed
qed

section \<open>Release refines marking and coalescing\<close>

lemma merge_prev_absorb:
  "q \<noteq> NULL \<Longrightarrow> hn_status (h q) = FREE \<Longrightarrow>
   merge_prev q cur (hn_next (h cur)) h = (q, absorb q cur h)"
  by (simp add: merge_prev_def absorb_def upd_def Let_def)

lemma merge_next_absorb:
  "x \<noteq> NULL \<Longrightarrow> hn_status (h x) = FREE \<Longrightarrow> x \<noteq> p \<Longrightarrow> merge_next p x h = absorb p x h"
  by (simp add: merge_next_def absorb_def upd_def Let_def ac_simps)

lemma heap_struct_neighbours:
  assumes "heap_struct al h (as @ cur # bs)"
  shows "hn_prev (h cur) = (if as = [] then NULL else last as)"
    and "hn_next (h cur) = (if bs = [] then NULL else hd bs)"
    and "x \<in> set (as @ cur # bs) \<Longrightarrow> x \<noteq> NULL"
    and "distinct (as @ cur # bs)"
proof -
  obtain l where
    "dseg (\<lambda>p. hn_next (h p)) (\<lambda>p. hn_prev (h p)) NULL (al_first al) as (hn_prev (h cur)) cur"
    "dseg (\<lambda>p. hn_next (h p)) (\<lambda>p. hn_prev (h p)) cur (hn_next (h cur)) bs l NULL"
    using heap_struct_around [OF assms] by metis
  then show "hn_prev (h cur) = (if as = [] then NULL else last as)"
    and "hn_next (h cur) = (if bs = [] then NULL else hd bs)"
    by (auto dest: dseg_last dseg_hd)
  show "x \<noteq> NULL" if "x \<in> set (as @ cur # bs)"
    using that chain_nonnull [OF heap_struct_chain [OF assms]] by blast
  show "distinct (as @ cur # bs)"
    using chain_distinct [OF heap_struct_chain [OF assms]] .
qed

text \<open>
  The merges at a freed block \<open>cur\<close>: with the block before it, then of the result with the block
  behind it.
\<close>

lemma merge_next_struct:
  assumes st: "heap_struct al h (as @ p # bs)" and fr: "hn_status (h p) = FREE"
    and naf: "no_adjacent_free (blocks h bs)" and pre: "no_adjacent_free (blocks h (as @ [p]))"
  shows "\<exists>bs'. heap_struct al (merge_next p (hn_next (h p)) h) (as @ p # bs') \<and>
    blocks (merge_next p (hn_next (h p)) h) (as @ p # bs') = coalesce (blocks h (as @ p # bs))"
proof -
  note nb = heap_struct_neighbours [OF st]
  have co: "coalesce (blocks h (as @ p # bs)) = blocks h as @ coalesce (blocks h (p # bs))"
    using coalesce_skip pre by simp
  show ?thesis
  proof (cases "bs \<noteq> [] \<and> hn_status (h (hd bs)) = FREE")
    case True
    then obtain x cs where bs: "bs = x # cs" by (cases bs) auto
    have "x \<noteq> NULL" "x \<noteq> p" using nb(3) [of x] nb(4) bs by auto
    then have m: "merge_next p (hn_next (h p)) h = absorb p x h"
      using True nb(2) bs by (simp add: merge_next_absorb)
    note ab = absorb_struct [OF st [unfolded bs]]
    have "coalesce (blocks h (p # bs)) =
        coalesce ((p, hn_size (h p) + hn_size (h x) + 32, FREE) # blocks h cs)"
      using True fr bs by (simp add: block_of_def)
    also have "\<dots> = (p, hn_size (h p) + hn_size (h x) + 32, FREE) # blocks h cs"
      using naf True bs by (intro coalesce_id) (cases cs; auto simp: block_of_def)
    finally show ?thesis using ab m co fr by (intro exI [of _ cs]) simp
  next
    case False
    then have "merge_next p (hn_next (h p)) h = h"
      using nb(2) by (auto simp: merge_next_def)
    moreover have "no_adjacent_free (blocks h (p # bs))"
      using naf False by (cases bs; cases "hn_status (h (hd bs))") (auto simp: block_of_def)
    ultimately show ?thesis using st co coalesce_id by (intro exI [of _ bs]) simp
  qed
qed

lemma mark_free_other: "a \<notin> fst ` set bs \<Longrightarrow> mark_free (a + 32) bs = bs"
  by (induction bs) (auto simp: mark_free_def split: prod.splits)

lemma mark_free_mid:
  assumes "distinct (map fst (as @ (a, s, st) # bs))"
  shows "mark_free (a + 32) (as @ (a, s, st) # bs) = as @ (a, s, FREE) # bs"
proof -
  have "mark_free (a + 32) (as @ (a, s, st) # bs) =
      mark_free (a + 32) as @ (a, s, FREE) # mark_free (a + 32) bs"
    by (simp add: mark_free_def)
  then show ?thesis using assms mark_free_other [of a as] mark_free_other [of a bs] by simp
qed

lemma map_fst_blocks [simp]: "map fst (blocks h xs) = xs"
  by (induction xs) (auto simp: block_of_def)

lemma release_mark:
  assumes "distinct (as @ cur # bs)"
  shows "release (cur + 32) (blocks h (as @ cur # bs)) =
    coalesce (blocks h as @ (cur, hn_size (h cur), FREE) # blocks h bs)"
proof -
  have "distinct (map fst (blocks h as @ (cur, hn_size (h cur), hn_status (h cur)) # blocks h bs))"
    using assms by simp
  from mark_free_mid [OF this] show ?thesis by (simp add: release_def block_of_def)
qed

lemma blocks_mid:
  "blocks h (as @ p # bs) = blocks h' as @ b # blocks h' bs \<Longrightarrow>
   blocks h as = blocks h' as \<and> block_of h p = b \<and> blocks h bs = blocks h' bs"
  by (simp add: blocks_def)

lemma no_adjacent_free_snoc:
  "no_adjacent_free (as @ [b]) \<longleftrightarrow>
     no_adjacent_free as \<and> (as = [] \<or> snd (snd (last as)) = USED \<or> snd (snd b) = USED)"
  by (auto simp: no_adjacent_free_def successively_append_iff split: prod.splits)

lemma free_merges:
  assumes st: "heap_struct al h (as @ cur # bs)" and fr: "hn_status (h cur) = FREE"
    and A: "no_adjacent_free (blocks h as)" and B: "no_adjacent_free (blocks h bs)"
    and m: "merge_prev (hn_prev (h cur)) cur (hn_next (h cur)) h = (node, h2)"
  shows "\<exists>ys. heap_struct al (merge_next node (hn_next (h cur)) h2) ys \<and>
    blocks (merge_next node (hn_next (h cur)) h2) ys = coalesce (blocks h (as @ cur # bs))"
proof (cases "as \<noteq> [] \<and> hn_status (h (last as)) = FREE")
  case True
  then obtain cs q where as: "as = cs @ [q]" by (cases as rule: rev_cases) auto
  have st': "heap_struct al h (cs @ q # cur # bs)" using st as by simp
  have q: "hn_prev (h cur) = q" "q \<noteq> NULL" "hn_status (h q) = FREE"
    using heap_struct_neighbours(1) [OF st] heap_struct_neighbours(3) [OF st, of q] as True by auto
  then have h2: "node = q" "h2 = absorb q cur h"
    using m merge_prev_absorb [of q h cur] by auto
  note ab = absorb_struct [OF st', folded h2(2)]
  note b2 = blocks_mid [OF ab(2)]
  have "hn_next (h2 q) = hn_next (h cur)"
    using heap_struct_neighbours(2) [OF ab(1)] heap_struct_neighbours(2) [OF st] by simp
  moreover have "no_adjacent_free (blocks h2 (cs @ [q]))"
    using A b2 q(3) unfolding as by (simp add: no_adjacent_free_snoc block_of_def)
  moreover have "coalesce (blocks h2 (cs @ q # bs)) = coalesce (blocks h (as @ cur # bs))"
    using A q(3) fr unfolding as ab(2)
    by (simp add: block_of_def coalesce_skip no_adjacent_free_snoc)
  ultimately show ?thesis
    using merge_next_struct [OF ab(1)] b2 B q(3) h2(1) by (fastforce simp: block_of_def)
next
  case False
  have "hn_prev (h cur) = (if as = [] then NULL else last as)"
    using heap_struct_neighbours(1) [OF st] .
  then have h2: "node = cur" "h2 = h" using m False by (auto simp: merge_prev_def split: if_splits)
  have "as = [] \<or> hn_status (h (last as)) = USED"
    using False by (cases "hn_status (h (last as))") auto
  then have "no_adjacent_free (blocks h as @ [block_of h cur])"
    using A unfolding no_adjacent_free_snoc by (auto simp: blocks_def last_map block_of_def)
  then have "no_adjacent_free (blocks h (as @ [cur]))" by simp
  then show ?thesis using merge_next_struct [OF st fr B] unfolding h2 by blast
qed

lemma ptr_in_heap:
  assumes st: "heap_struct al h xs" and cur: "cur \<in> set xs"
  shows "cur + 32 \<noteq> NULL" "\<not> cur + 32 < al_addr al" "\<not> cur + 32 \<ge> al_addr al + al_size al"
proof -
  have "unat (al_addr al) \<le> unat cur"
    "unat cur + 32 + unat (hn_size (h cur)) \<le> unat (al_addr al) + unat (al_size al)"
    "32 \<le> unat (hn_size (h cur))" "unat (al_addr al) + unat (al_size al) < 2 ^ 64"
    using tiles_bounds [OF heap_structD(2) [OF st] cur] heap_structD(3,6) [OF st] cur by simp_all
  moreover from this have "unat (cur + 32) = unat cur + 32"
    "unat (al_addr al + al_size al) = unat (al_addr al) + unat (al_size al)"
    by (simp_all add: unat_add_u64)
  ultimately show "\<not> cur + 32 < al_addr al" "\<not> cur + 32 \<ge> al_addr al + al_size al"
    and "cur + 32 \<noteq> NULL"
    by (auto simp: word_less_nat_alt word_le_nat_alt)
qed

lemma free_release:
  assumes inv: "heap_inv al (nodes h) xs" and cur: "cur \<in> set xs"
    and used: "hn_status (nodes h cur) = USED"
  shows "\<exists>h' ys. free al (cur + 32) h = Inr h' \<and> heap_inv al (nodes h') ys \<and>
    blocks (nodes h') ys = release (cur + 32) (blocks (nodes h) xs)"
proof -
  have st: "heap_struct al (nodes h) xs" and naf: "no_adjacent_free (blocks (nodes h) xs)"
    using inv by (simp_all add: heap_inv_def)
  obtain as bs where xs: "xs = as @ cur # bs" using cur by (meson split_list)
  define h1 where "h1 = upd cur (\<lambda>n. n\<lparr>hn_status := FREE\<rparr>) (nodes h)"
  note s1 = set_status_struct [OF st [unfolded xs], of FREE, folded h1_def]
  note nb = heap_struct_neighbours [OF st [unfolded xs]]
  have f: "hn_prev (h1 cur) = hn_prev (nodes h cur)" "hn_next (h1 cur) = hn_next (nodes h cur)"
    "hn_status (h1 cur) = FREE"
    by (simp_all add: h1_def upd_def)
  obtain node h2 where m: "merge_prev (hn_prev (h1 cur)) cur (hn_next (h1 cur)) h1 = (node, h2)"
    by (cases "merge_prev (hn_prev (h1 cur)) cur (hn_next (h1 cur)) h1")
  have "no_adjacent_free (blocks (nodes h) as @ [block_of (nodes h) cur])"
    "no_adjacent_free (block_of (nodes h) cur # blocks (nodes h) bs)"
    using naf no_adjacent_free_append unfolding xs blocks_append blocks_Cons by blast+
  then have AB: "no_adjacent_free (blocks h1 as)" "no_adjacent_free (blocks h1 bs)"
    using blocks_mid [OF s1(2)] no_adjacent_free_tl by (simp_all add: no_adjacent_free_snoc)
  obtain ys where ys: "heap_struct al (merge_next node (hn_next (h1 cur)) h2) ys"
    "blocks (merge_next node (hn_next (h1 cur)) h2) ys = coalesce (blocks h1 (as @ cur # bs))"
    using free_merges [OF s1(1) f(3) AB m] by blast
  moreover have "coalesce (blocks h1 (as @ cur # bs)) = release (cur + 32) (blocks (nodes h) xs)"
    using s1(2) release_mark [OF nb(4)] unfolding xs by simp
  moreover have "free al (cur + 32) h = Inr (h\<lparr>nodes := merge_next node (hn_next (h1 cur)) h2,
      klog := klog h @ serial_log (''Freeing 0x%x bytes'' @ [CHR 0x0A]) (hn_size (nodes h cur))\<rparr>)"
    using ptr_in_heap [OF st cur] nb(3) [of cur] used m f
    by (simp add: free_def h1_def [symmetric])
  ultimately show ?thesis
    using coalesce_no_adjacent_free [of "blocks h1 (as @ cur # bs)"]
    by (intro exI [of _ "h\<lparr>nodes := merge_next node (hn_next (h1 cur)) h2,
      klog := klog h @ serial_log (''Freeing 0x%x bytes'' @ [CHR 0x0A]) (hn_size (nodes h cur))\<rparr>"]
        exI [of _ ys]) (simp add: heap_inv_def)
qed

section \<open>Blocks in use\<close>

text \<open>The blocks handed out to clients: the data pointer and the size of each used block.\<close>

definition used_blocks :: "block list \<Rightarrow> (u64 \<times> nat) set" where
  "used_blocks bs = {(a + 32, unat s) | a s. (a, s, USED) \<in> set bs}"

lemma used_blocks_simps [simp]:
  "used_blocks [] = {}"
  "used_blocks ((a, s, USED) # bs) = insert (a + 32, unat s) (used_blocks bs)"
  "used_blocks ((a, s, FREE) # bs) = used_blocks bs"
  "used_blocks (bs @ cs) = used_blocks bs \<union> used_blocks cs"
  by (auto simp: used_blocks_def)

lemma used_blocks_Cons: "used_blocks (b # bs) = used_blocks [b] \<union> used_blocks bs"
  by (auto simp: used_blocks_def)

lemma used_blocks_coalesce: "used_blocks (coalesce bs) = used_blocks bs"
proof (induction bs rule: coalesce.induct)
  case (1 a s b t bs)
  then show ?case by simp
qed (simp_all add: used_blocks_Cons [of _ "_ # _"] used_blocks_Cons [of _ "coalesce _"] coalesce_used)

lemma first_fit_cases:
  assumes "first_fit n bs = (p, bs')"
  obtains (none) "p = NULL" "bs' = bs" "\<forall>b \<in> set bs. \<not> fits n b"
  | (exact) as a cs where "bs = as @ (a, n, FREE) # cs" "p = a + 32" "bs' = as @ (a, n, USED) # cs"
  | (split) as a s cs where "bs = as @ (a, s, FREE) # cs" "p = a + 32" "unat n + 64 \<le> unat s"
      "bs' = as @ (a, n, USED) # (a + n + 32, s - n - 32, FREE) # cs"
proof (cases "\<exists>b \<in> set bs. fits n b")
  case True
  then obtain as b cs where bs: "bs = as @ b # cs" "fits n b" "\<forall>b \<in> set as. \<not> fits n b"
    using split_list_first_prop [OF True] by blast
  obtain a s where b: "b = (a, s, FREE)" using bs(2) by (cases b) (auto simp: fits_def)
  have *: "p = fst (first_fit n (b # cs))" "bs' = as @ snd (first_fit n (b # cs))"
    using assms first_fit_skip [OF bs(3), of "b # cs"] bs(1) by simp_all
  show ?thesis
  proof (cases "s = n")
    case True
    then show ?thesis using exact [of as a cs] * bs(1) b by simp
  next
    case False
    then show ?thesis using split [of as a s cs] * bs(1,2) b by (simp add: fits_def)
  qed
next
  case False
  then show ?thesis using assms first_fit_skip [of bs n "[]"] none by auto
qed

lemma used_blocks_first_fit:
  assumes "first_fit n bs = (p, bs')" and "p \<noteq> NULL"
  shows "used_blocks bs' = insert (p, unat n) (used_blocks bs)"
  using assms(1) by (cases rule: first_fit_cases) (use assms(2) in auto)

lemma release_first_fit:
  assumes ff: "first_fit n bs = (p, bs')" and p: "p \<noteq> NULL"
    and d: "distinct (map fst bs')" and naf: "no_adjacent_free bs"
  shows "release p bs' = bs"
  using ff
proof (cases rule: first_fit_cases)
  case none
  with p show ?thesis by simp
next
  case (exact as a cs)
  then have "release p bs' = coalesce bs" using d by (simp add: release_def mark_free_mid)
  with naf show ?thesis by (simp add: coalesce_id)
next
  case (split as a s cs)
  have nn: "no_adjacent_free (as @ [(a, s, FREE)])" "no_adjacent_free ((a, s, FREE) # cs)"
    using naf no_adjacent_free_append split(1) by blast+
  have "release p bs' = coalesce (as @ (a, n, FREE) # (a + n + 32, s - n - 32, FREE) # cs)"
    using d split by (simp add: release_def mark_free_mid)
  also have "\<dots> = as @ coalesce ((a, s, FREE) # cs)"
    using nn(1) by (subst coalesce_skip) (simp_all add: no_adjacent_free_snoc)
  also have "\<dots> = bs" using nn(2) split(1) coalesce_id by simp
  finally show ?thesis .
qed

lemma rounded_le: "unat n \<le> unat (rounded n)"
  by (auto simp: rounded_def word_less_nat_alt)

lemma used_blocks_fresh: "a \<notin> fst ` set bs \<Longrightarrow> (a + 32, k) \<notin> used_blocks bs"
  by (force simp: used_blocks_def)

lemma first_fit_live:
  assumes "first_fit n bs = (p, bs')" "distinct (map fst bs)" "NULL \<notin> (\<lambda>b. fst b + 32) ` set bs"
  shows "if p = NULL then bs' = bs else (p, unat n) \<notin> used_blocks bs \<and>
    used_blocks bs' = insert (p, unat n) (used_blocks bs)"
  using assms(1)
proof (cases rule: first_fit_cases)
  case (exact as a cs)
  then have "p \<noteq> NULL" "a \<notin> fst ` set as" "a \<notin> fst ` set cs" using assms(2,3) by auto
  then show ?thesis using exact by (simp add: used_blocks_fresh)
next
  case (split as a s cs)
  then have "p \<noteq> NULL" "a \<notin> fst ` set as" "a \<notin> fst ` set cs" using assms(2,3) by auto
  then show ?thesis using split by (simp add: used_blocks_fresh)
qed simp

lemma heap_inv_distinct: "heap_inv al h xs \<Longrightarrow> distinct xs"
  using chain_distinct heap_struct_chain heap_inv_def by blast

lemma heap_inv_pointers: "heap_inv al h xs \<Longrightarrow> NULL \<notin> (\<lambda>b. fst b + 32) ` set (blocks h xs)"
  using ptr_in_heap(1) by (force simp: heap_inv_def blocks_def block_of_def)

lemma heap_inv_unique: "heap_inv al h xs \<Longrightarrow> heap_inv al h ys \<Longrightarrow> xs = ys"
  using chain_unique heap_struct_chain heap_inv_def by blast

lemma used_blocks_mem:
  "(p, k) \<in> used_blocks (blocks h xs) \<longleftrightarrow>
     (\<exists>x \<in> set xs. p = x + 32 \<and> k = unat (hn_size (h x)) \<and> hn_status (h x) = USED)"
  by (induction xs) (auto simp: used_blocks_def block_of_def)

lemma tiles_disjoint:
  assumes "tiles h a xs e" "x \<in> set xs" "y \<in> set xs" "x \<noteq> y"
  shows "unat x + 32 + unat (hn_size (h x)) \<le> unat y \<or> unat y + 32 + unat (hn_size (h y)) \<le> unat x"
  using assms
proof (induction xs arbitrary: a)
  case Nil
  then show ?case by simp
next
  case (Cons z xs)
  then have tl: "tiles h (unat z + 32 + unat (hn_size (h z))) xs e" by simp
  show ?case
  proof (cases "x = z \<or> y = z")
    case True
    with Cons.prems tiles_bounds [OF tl, of x] tiles_bounds [OF tl, of y] show ?thesis by auto
  next
    case False
    with Cons.prems Cons.IH [OF tl] show ?thesis by simp
  qed
qed

lemma used_blocks_release:
  assumes d: "distinct (map fst bs)" and m: "(p, k) \<in> used_blocks bs"
  shows "used_blocks (release p bs) = used_blocks bs - {(p, k)}"
proof -
  obtain as a s cs where bs: "bs = as @ (a, s, USED) # cs" "p = a + 32" "k = unat s"
    using m by (auto simp: used_blocks_def dest: split_list)
  have other: "(a + 32, k) \<notin> used_blocks ds" if "a \<notin> fst ` set ds" for ds
    using that by (force simp: used_blocks_def)
  have "used_blocks (release p bs) = used_blocks as \<union> used_blocks cs"
    using d bs by (simp add: release_def used_blocks_coalesce mark_free_mid)
  then show ?thesis using d other [of as] other [of cs] bs by auto
qed

section \<open>The interface of a block allocator\<close>

text \<open>
  What the rest of the kernel relies on: an allocation answers with a null pointer or with a fresh
  block that is at least as long as asked for, live blocks never overlap, and a live block can be
  given back.
\<close>

primrec free_all :: "(u64 \<Rightarrow> 's \<Rightarrow> 's res) \<Rightarrow> u64 list \<Rightarrow> 's \<Rightarrow> 's res" where
  "free_all fr [] s = Inr s"
| "free_all fr (p # ps) s = bind_res (fr p s) (free_all fr ps)"

locale block_allocator =
  fixes ok :: "'s \<Rightarrow> bool"
    and live :: "'s \<Rightarrow> (u64 \<times> nat) set"
    and alloc_op :: "u64 \<Rightarrow> 's \<Rightarrow> (u64 \<times> 's) res"
    and free_op :: "u64 \<Rightarrow> 's \<Rightarrow> 's res"
    and limit :: nat
  assumes alloc_ok: "ok s \<Longrightarrow> unat n < limit \<Longrightarrow>
      \<exists>p s'. alloc_op n s = Inr (p, s') \<and> ok s' \<and>
        (if p = NULL then live s' = live s
         else \<exists>k \<ge> unat n. (p, k) \<notin> live s \<and> live s' = insert (p, k) (live s))"
    and live_disjoint: "ok s \<Longrightarrow> (p, k) \<in> live s \<Longrightarrow> (q, l) \<in> live s \<Longrightarrow> (p, k) \<noteq> (q, l) \<Longrightarrow>
      unat p + k \<le> unat q \<or> unat q + l \<le> unat p"
    and live_pos: "ok s \<Longrightarrow> (p, k) \<in> live s \<Longrightarrow> 0 < k"
    and free_ok: "ok s \<Longrightarrow> (p, k) \<in> live s \<Longrightarrow>
      \<exists>s'. free_op p s = Inr s' \<and> ok s' \<and> live s' = live s - {(p, k)}"
begin

lemma live_size: "ok s \<Longrightarrow> (p, k) \<in> live s \<Longrightarrow> (p, l) \<in> live s \<Longrightarrow> k = l"
  using live_disjoint [of s p k p l] live_pos [of s p k] live_pos [of s p l] by auto

lemma alloc_fresh:
  assumes "ok s" "unat n < limit" "alloc_op n s = Inr (p, s')" "p \<noteq> NULL"
  shows "\<exists>k \<ge> unat n. ok s' \<and> live s' = insert (p, k) (live s) \<and>
    (\<forall>(q, l) \<in> live s. unat p + k \<le> unat q \<or> unat q + l \<le> unat p)"
proof -
  obtain k where k: "unat n \<le> k" "ok s'" "(p, k) \<notin> live s" "live s' = insert (p, k) (live s)"
    using alloc_ok [OF assms(1,2)] assms(3,4) by auto
  then have "\<forall>(q, l) \<in> live s. unat p + k \<le> unat q \<or> unat q + l \<le> unat p"
    using live_disjoint [OF k(2), of p k] by auto
  with k show ?thesis by blast
qed

lemma alloc_fresh_pointer:
  assumes "ok s" "unat n < limit" "alloc_op n s = Inr (p, s')" "p \<noteq> NULL"
  shows "(p, l) \<notin> live s"
proof
  assume l: "(p, l) \<in> live s"
  obtain k where k: "ok s'" "live s' = insert (p, k) (live s)"
    "\<forall>(q, l) \<in> live s. unat p + k \<le> unat q \<or> unat q + l \<le> unat p"
    using alloc_fresh [OF assms] by blast
  then have "0 < k" using live_pos [of s' p k] by simp
  with k(3) l live_pos [OF assms(1) l] show False by fastforce
qed

lemma alloc_then_free:
  assumes "ok s" "unat n < limit" "alloc_op n s = Inr (p, s')" "p \<noteq> NULL"
  shows "\<exists>s''. free_op p s' = Inr s'' \<and> ok s'' \<and> live s'' = live s"
proof -
  obtain k where "ok s'" "(p, k) \<notin> live s" "live s' = insert (p, k) (live s)"
    using alloc_ok [OF assms(1,2)] assms(3,4) by auto
  then show ?thesis using free_ok [of s' p k] by auto
qed

lemma free_all_ok:
  assumes "ok s" "distinct ps" "\<forall>p \<in> set ps. \<exists>k. (p, k) \<in> live s"
  shows "\<exists>s'. free_all free_op ps s = Inr s' \<and> ok s' \<and> live s' = {(p, k) \<in> live s. p \<notin> set ps}"
  using assms
proof (induction ps arbitrary: s)
  case Nil
  then show ?case by auto
next
  case (Cons p ps)
  obtain k where k: "(p, k) \<in> live s" using Cons.prems(3) by auto
  obtain s1 where s1: "free_op p s = Inr s1" "ok s1" "live s1 = live s - {(p, k)}"
    using free_ok [OF Cons.prems(1) k] by blast
  have "\<forall>q \<in> set ps. \<exists>l. (q, l) \<in> live s1"
    using Cons.prems(2,3) unfolding s1(3) by (metis Diff_iff Pair_inject distinct.simps(2) list.set_intros(2) singletonD)
  then obtain s' where s': "free_all free_op ps s1 = Inr s'" "ok s'"
    "live s' = {(q, l) \<in> live s1. q \<notin> set ps}"
    using Cons.IH [OF s1(2)] Cons.prems(2) by auto
  have "live s' = {(q, l) \<in> live s. q \<notin> set (p # ps)}"
    unfolding s'(3) s1(3) using live_size [OF Cons.prems(1) k] by auto
  with s'(1,2) s1(1) show ?case by simp
qed

end

text \<open>The kernel heap provides it.\<close>

definition heap_ok :: "allocator \<Rightarrow> kheap \<Rightarrow> bool" where
  "heap_ok al h \<longleftrightarrow> (\<exists>xs. heap_inv al (nodes h) xs)"

definition heap_live :: "allocator \<Rightarrow> kheap \<Rightarrow> (u64 \<times> nat) set" where
  "heap_live al h = {b. \<exists>xs. heap_inv al (nodes h) xs \<and> b \<in> used_blocks (blocks (nodes h) xs)}"

lemma heap_live_eq: "heap_inv al (nodes h) xs \<Longrightarrow> heap_live al h = used_blocks (blocks (nodes h) xs)"
  by (auto simp: heap_live_def dest: heap_inv_unique)

lemma heap_live_bounds:
  assumes "heap_inv al (nodes h) xs" "(p, k) \<in> heap_live al h"
  shows "\<exists>x \<in> set xs. p = x + 32 \<and> unat p = unat x + 32 \<and> k = unat (hn_size (nodes h x)) \<and>
    hn_status (nodes h x) = USED \<and> 32 \<le> k \<and>
    unat (al_addr al) + 32 \<le> unat p \<and> unat p + k \<le> unat (al_addr al) + unat (al_size al)"
proof -
  obtain x where x: "x \<in> set xs" "p = x + 32" "k = unat (hn_size (nodes h x))"
      "hn_status (nodes h x) = USED"
    using assms heap_live_eq [OF assms(1)] by (auto simp: used_blocks_mem)
  note st = assms(1) [unfolded heap_inv_def, THEN conjunct1]
  have b: "unat (al_addr al) \<le> unat x" "unat x + 32 + k \<le> unat (al_addr al) + unat (al_size al)"
    using tiles_bounds [OF heap_structD(2) [OF st] x(1)] x(3) by auto
  moreover have "unat p = unat x + 32"
    using b(2) heap_structD(6) [OF st] x(2) by (simp add: unat_add_u64)
  ultimately show ?thesis using x heap_structD(3) [OF st x(1)] by auto
qed

interpretation kernel_heap: block_allocator "heap_ok al" "heap_live al" "alloc al" "free al" "2 ^ 64 - 64" for al
proof
  fix h n
  assume "heap_ok al h" and n: "unat (n :: u64) < 2 ^ 64 - 64"
  then obtain xs where inv: "heap_inv al (nodes h) xs" by (auto simp: heap_ok_def)
  obtain p h' xs' where r: "alloc al n h = Inr (p, h')" "heap_inv al (nodes h') xs'"
      "first_fit (rounded n) (blocks (nodes h) xs) = (p, blocks (nodes h') xs')"
    using alloc_first_fit [OF inv, of n] n by auto
  have "if p = NULL then heap_live al h' = heap_live al h
    else \<exists>k \<ge> unat n. (p, k) \<notin> heap_live al h \<and> heap_live al h' = insert (p, k) (heap_live al h)"
    unfolding heap_live_eq [OF inv] heap_live_eq [OF r(2)]
    using first_fit_live [OF r(3)] heap_inv_distinct [OF inv] heap_inv_pointers [OF inv] rounded_le [of n]
    by (auto split: if_splits)
  with r show "\<exists>p h'. alloc al n h = Inr (p, h') \<and> heap_ok al h' \<and>
      (if p = NULL then heap_live al h' = heap_live al h
       else \<exists>k \<ge> unat n. (p, k) \<notin> heap_live al h \<and> heap_live al h' = insert (p, k) (heap_live al h))"
    by (auto simp: heap_ok_def)
next
  fix h p k q l
  assume "heap_ok al h" and *: "(p, k) \<in> heap_live al h" "(q, l) \<in> heap_live al h" "(p, k) \<noteq> (q, l)"
  then obtain xs where inv: "heap_inv al (nodes h) xs" by (auto simp: heap_ok_def)
  note st = inv [unfolded heap_inv_def, THEN conjunct1]
  from heap_live_bounds [OF inv *(1)] heap_live_bounds [OF inv *(2)]
  show "unat p + k \<le> unat q \<or> unat q + l \<le> unat p"
    using tiles_disjoint [OF heap_structD(2) [OF st]] *(3) by fastforce
next
  fix h p k
  assume "heap_ok al h" and *: "(p, k) \<in> heap_live al h"
  then obtain xs where inv: "heap_inv al (nodes h) xs" by (auto simp: heap_ok_def)
  from heap_live_bounds [OF inv *] show "0 < k" by auto
  obtain x where x: "x \<in> set xs" "p = x + 32" "hn_status (nodes h x) = USED"
    using heap_live_bounds [OF inv *] by auto
  obtain h' ys where r: "free al p h = Inr h'" "heap_inv al (nodes h') ys"
      "blocks (nodes h') ys = release p (blocks (nodes h) xs)"
    using free_release [OF inv x(1) x(3)] x(2) by auto
  have "heap_live al h' = heap_live al h - {(p, k)}"
    unfolding heap_live_eq [OF inv] heap_live_eq [OF r(2)] r(3)
    by (rule used_blocks_release) (use heap_inv_distinct [OF inv] * heap_live_eq [OF inv] in auto)
  with r show "\<exists>s'. free al p h = Inr s' \<and> heap_ok al s' \<and> heap_live al s' = heap_live al h - {(p, k)}"
    by (auto simp: heap_ok_def)
qed

section \<open>Properties\<close>

lemma new_allocator_struct:
  assumes "32 \<le> unat addr" "64 \<le> unat sz" "unat addr + unat sz < 2 ^ 64"
    and "new_allocator addr sz h = (al, h')"
  shows "heap_inv al (nodes h') [addr]"
    and "blocks (nodes h') [addr] = [(addr, sz - 32, FREE)]"
proof -
  have al: "al = \<lparr>al_first = addr, al_addr = addr, al_size = sz\<rparr>"
    and h': "nodes h' = (nodes h)(addr := \<lparr>hn_size = sz - 0x20, hn_status = FREE,
                                    hn_prev = NULL, hn_next = NULL\<rparr>)"
    using assms(4) by (auto simp: new_allocator_def)
  have "addr \<noteq> NULL" using assms(1) by auto
  moreover have "unat (sz - 32) = unat sz - 32" using assms(2) unat_sub_u64 [of 32 sz] by (simp add: word_le_nat_alt)
  ultimately show "heap_inv al (nodes h') [addr]"
    using assms(1-3) by (simp add: heap_inv_def heap_struct_def al h' no_adjacent_free_def block_of_def)
  show "blocks (nodes h') [addr] = [(addr, sz - 32, FREE)]" by (simp add: h' block_of_def)
qed

text \<open>A concrete heap of 512 bytes for the witnesses.\<close>

definition heap_sample :: "allocator \<times> kheap" where
  "heap_sample = new_allocator 0x1000 0x200
     \<lparr>nodes = (\<lambda>_. \<lparr>hn_size = 0, hn_status = USED, hn_prev = NULL, hn_next = NULL\<rparr>), klog = []\<rparr>"

text \<open>The same heap with a block of 100 bytes in use.\<close>

definition heap_sample_used :: kheap where
  "heap_sample_used = \<lparr>nodes = (\<lambda>p.
       if p = 0x1000 then \<lparr>hn_size = 100, hn_status = USED, hn_prev = NULL, hn_next = 0x1084\<rparr>
       else \<lparr>hn_size = 0x15c, hn_status = FREE, hn_prev = 0x1000, hn_next = NULL\<rparr>), klog = []\<rparr>"

lemma heap_sample_used_inv:
  "heap_inv (fst heap_sample) (nodes heap_sample_used) [0x1000, 0x1084]"
  by (simp add: heap_sample_def new_allocator_def heap_sample_used_def heap_inv_def heap_struct_def
      no_adjacent_free_def block_of_def)

lemma heap_sample_used_live: "heap_live (fst heap_sample) heap_sample_used = {(0x1020, 100)}"
  unfolding heap_live_eq [OF heap_sample_used_inv]
  by (simp add: heap_sample_used_def block_of_def)

lemma heap_sample_used_ok: "heap_ok (fst heap_sample) heap_sample_used"
  using heap_sample_used_inv by (auto simp: heap_ok_def)

lemma heap_sample_inv:
  "heap_inv (fst heap_sample) (nodes (snd heap_sample)) [0x1000]"
  "blocks (nodes (snd heap_sample)) [0x1000] = [(0x1000, 0x1e0, FREE)]"
  using new_allocator_struct [of "0x1000" "0x200" _ "fst heap_sample" "snd heap_sample"]
  by (simp_all add: heap_sample_def)

text \<open>
  \<open>new_allocator\<close> on an area of at least 64 bytes (above the first 32 bytes, not wrapping around
  the address space) sets up a well-formed heap: one free block that fills the area but for its
  header.
\<close>

theorem new_allocator_correct:
  assumes "32 \<le> unat addr" "64 \<le> unat sz" "unat addr + unat sz < 2 ^ 64"
    and "new_allocator addr sz h = (al, h')"
  shows "heap_inv al (nodes h') [addr] \<and> blocks (nodes h') [addr] = [(addr, sz - 32, FREE)]"
  using new_allocator_struct [OF assms] by blast

theorem new_allocator_correct_witness:
  "heap_inv (fst heap_sample) (nodes (snd heap_sample)) [0x1000]"
  using new_allocator_correct [of "0x1000" "0x200" _ "fst heap_sample" "snd heap_sample"]
  by (simp add: heap_sample_def)

text \<open>
  (C1) \<open>alloc\<close> refines first fit on the list of blocks: on a well-formed heap it ends, returns the
  data pointer of the first free block that has exactly the size asked for (at least 32 bytes) or
  can be cut, splits off the rest as a new free block, returns the null pointer and changes no block
  exactly when no block fits, and keeps the heap well-formed.
\<close>

theorem alloc_refines_first_fit:
  assumes "heap_inv al (nodes h) xs" and "unat n + 64 < 2 ^ 64"
  shows "\<exists>p h' xs'. alloc al n h = Inr (p, h') \<and> heap_inv al (nodes h') xs' \<and>
    first_fit (rounded n) (blocks (nodes h) xs) = (p, blocks (nodes h') xs') \<and>
    (p = NULL \<longleftrightarrow> (\<forall>b \<in> set (blocks (nodes h) xs). \<not> fits (rounded n) b))"
proof -
  obtain p h' xs' where r: "alloc al n h = Inr (p, h')" "heap_inv al (nodes h') xs'"
    "first_fit (rounded n) (blocks (nodes h) xs) = (p, blocks (nodes h') xs')"
    using alloc_first_fit [OF assms] by blast
  have "p = NULL \<longleftrightarrow> (\<forall>b \<in> set (blocks (nodes h) xs). \<not> fits (rounded n) b)"
    using r(3) heap_inv_pointers [OF assms(1)]
    by (cases rule: first_fit_cases) (auto simp: fits_def)
  with r show ?thesis by blast
qed

theorem alloc_refines_first_fit_witness:
  "\<exists>h' xs'. alloc (fst heap_sample) 100 (snd heap_sample) = Inr (0x1020, h') \<and>
     heap_inv (fst heap_sample) (nodes h') xs' \<and>
     blocks (nodes h') xs' = [(0x1000, 100, USED), (0x1084, 0x15c, FREE)]"
proof -
  have ff: "first_fit (rounded 100) (blocks (nodes (snd heap_sample)) [0x1000]) =
      (0x1020, [(0x1000, 100, USED), (0x1084, 0x15c, FREE)])"
    unfolding heap_sample_inv(2) by (simp add: rounded_def)
  show ?thesis using alloc_refines_first_fit [OF heap_sample_inv(1), of 100, unfolded ff] by auto
qed

text \<open>
  (C2) \<open>free\<close> of a block in use refines marking that block free and joining it with free neighbours on
  both sides; the heap stays well-formed, with no two adjacent free blocks.
\<close>

theorem free_refines_release:
  assumes "heap_inv al (nodes h) xs" and "cur \<in> set xs" and "hn_status (nodes h cur) = USED"
  shows "\<exists>h' ys. free al (cur + 32) h = Inr h' \<and> heap_inv al (nodes h') ys \<and>
    blocks (nodes h') ys = release (cur + 32) (blocks (nodes h) xs)"
  using free_release [OF assms] .

theorem free_refines_release_witness:
  "\<exists>h' ys. free (fst heap_sample) 0x1020 heap_sample_used = Inr h' \<and>
     heap_inv (fst heap_sample) (nodes h') ys \<and> blocks (nodes h') ys = [(0x1000, 0x1e0, FREE)]"
proof -
  have rel: "release (0x1000 + 32) (blocks (nodes heap_sample_used) [0x1000, 0x1084]) =
      [(0x1000, 0x1e0, FREE)]"
    by (simp add: heap_sample_used_def block_of_def release_def mark_free_def)
  show ?thesis
    using free_refines_release [OF heap_sample_used_inv, of "0x1000", unfolded rel]
    by (simp add: heap_sample_used_def)
qed

text \<open>
  (C37) Allocating and at once freeing a block gives back the list of blocks the heap had before:
  nothing is lost to fragmentation.
\<close>

theorem alloc_free_roundtrip:
  assumes inv: "heap_inv al (nodes h) xs" and n: "unat n + 64 < 2 ^ 64"
    and al: "alloc al n h = Inr (p, h1)" "p \<noteq> NULL"
  shows "\<exists>h2 ys. free al p h1 = Inr h2 \<and> heap_inv al (nodes h2) ys \<and>
    blocks (nodes h2) ys = blocks (nodes h) xs"
proof -
  obtain ys where r: "heap_inv al (nodes h1) ys"
    "first_fit (rounded n) (blocks (nodes h) xs) = (p, blocks (nodes h1) ys)"
    using alloc_first_fit [OF inv n] al(1) by auto
  have "(p, unat (rounded n)) \<in> used_blocks (blocks (nodes h1) ys)"
    using used_blocks_first_fit [OF r(2) al(2)] by simp
  then obtain x where x: "x \<in> set ys" "p = x + 32" "hn_status (nodes h1 x) = USED"
    by (auto simp: used_blocks_mem)
  have "release p (blocks (nodes h1) ys) = blocks (nodes h) xs"
    by (rule release_first_fit [OF r(2) al(2)]) (use inv heap_inv_distinct [OF r(1)] in \<open>simp_all add: heap_inv_def\<close>)
  then show ?thesis using free_release [OF r(1) x(1,3)] x(2) by metis
qed

text \<open>Allocating 40 bytes behind the used block of the sample.\<close>

lemma alloc_sample:
  "\<exists>h'. alloc (fst heap_sample) 40 heap_sample_used = Inr (0x10a4, h')"
proof -
  have ff: "first_fit (rounded 40) (blocks (nodes heap_sample_used) [0x1000, 0x1084]) =
      (0x10a4, [(0x1000, 100, USED), (0x1084, 40, USED), (0x10cc, 0x114, FREE)])"
    by (simp add: heap_sample_used_def block_of_def rounded_def)
  show ?thesis using alloc_first_fit [OF heap_sample_used_inv, of 40, unfolded ff] by auto
qed

theorem alloc_free_roundtrip_witness:
  "\<exists>h1 h2 ys. alloc (fst heap_sample) 40 heap_sample_used = Inr (0x10a4, h1) \<and>
     free (fst heap_sample) 0x10a4 h1 = Inr h2 \<and> heap_inv (fst heap_sample) (nodes h2) ys \<and>
     blocks (nodes h2) ys = blocks (nodes heap_sample_used) [0x1000, 0x1084]"
proof -
  obtain h1 where h1: "alloc (fst heap_sample) 40 heap_sample_used = Inr (0x10a4, h1)"
    using alloc_sample by blast
  show ?thesis using h1 alloc_free_roundtrip [OF heap_sample_used_inv _ h1] by auto
qed

text \<open>
  A block returned by \<open>alloc\<close> lies in the heap area behind its header, is at least as long as
  asked for and overlaps no block that was in use before.
\<close>

theorem alloc_block_disjoint:
  assumes "heap_ok al h" and "unat n < 2 ^ 64 - 64"
    and "alloc al n h = Inr (p, h')" and "p \<noteq> NULL"
  shows "\<exists>k \<ge> unat n. heap_live al h' = insert (p, k) (heap_live al h) \<and>
    unat (al_addr al) + 32 \<le> unat p \<and> unat p + k \<le> unat (al_addr al) + unat (al_size al) \<and>
    (\<forall>(q, l) \<in> heap_live al h. unat p + k \<le> unat q \<or> unat q + l \<le> unat p)"
proof -
  obtain k where k: "unat n \<le> k" "heap_ok al h'" "heap_live al h' = insert (p, k) (heap_live al h)"
    "\<forall>(q, l) \<in> heap_live al h. unat p + k \<le> unat q \<or> unat q + l \<le> unat p"
    using kernel_heap.alloc_fresh [OF assms] by blast
  then obtain xs where "heap_inv al (nodes h') xs" by (auto simp: heap_ok_def)
  from heap_live_bounds [OF this, of p k] k show ?thesis by blast
qed

theorem alloc_block_disjoint_witness:
  "\<exists>h1 k. alloc (fst heap_sample) 40 heap_sample_used = Inr (0x10a4, h1) \<and> 40 \<le> k \<and>
     heap_live (fst heap_sample) h1 = {(0x10a4, k), (0x1020, 100)} \<and>
     unat (0x10a4 :: u64) + k \<le> unat (al_addr (fst heap_sample)) + unat (al_size (fst heap_sample))"
proof -
  obtain h1 where h1: "alloc (fst heap_sample) 40 heap_sample_used = Inr (0x10a4, h1)"
    using alloc_sample by blast
  show ?thesis
    using h1 alloc_block_disjoint [OF heap_sample_used_ok _ h1] unfolding heap_sample_used_live by auto
qed

text \<open>
  Clients can give back any collection of distinct live blocks in any order: no call of \<open>free\<close>
  faults and exactly the other blocks stay in use.
\<close>

theorem free_all_blocks:
  assumes "heap_ok al h" "distinct ps" "\<forall>p \<in> set ps. \<exists>k. (p, k) \<in> heap_live al h"
  shows "\<exists>h'. free_all (free al) ps h = Inr h' \<and> heap_ok al h' \<and>
    heap_live al h' = {(p, k) \<in> heap_live al h. p \<notin> set ps}"
  using kernel_heap.free_all_ok [OF assms] .

theorem free_all_blocks_witness:
  "\<exists>h'. free_all (free (fst heap_sample)) [0x1020] heap_sample_used = Inr h' \<and>
     heap_ok (fst heap_sample) h' \<and> heap_live (fst heap_sample) h' = {}"
  using free_all_blocks [OF heap_sample_used_ok, of "[0x1020]"]
  unfolding heap_sample_used_live by auto

text \<open>
  The size test of \<open>alloc\<close> wraps around: a request within 64 bytes of the end of the 64-bit
  range succeeds as soon as the heap has a free block of 64 bytes, although no heap has that much
  memory.
\<close>

theorem alloc_size_wraps:
  assumes inv: "heap_inv al (nodes h) xs" and n: "2 ^ 64 - 64 \<le> unat n"
    and x: "x \<in> set xs" "hn_status (nodes h x) = FREE" "64 \<le> unat (hn_size (nodes h x))"
  shows "\<exists>p h'. alloc al n h = Inr (p, h') \<and> p \<noteq> NULL"
proof -
  have st: "heap_struct al (nodes h) xs" using inv by (simp add: heap_inv_def)
  let ?P = "\<lambda>p. exact_fit (nodes h) n p \<or> split_fit (nodes h) n p"
  have "\<not> n < 0x20" using n by (simp add: word_less_nat_alt)
  moreover have "unat (n + 0x20 + 0x20) < 64"
    using n unat_u64_lt [of n] mod_if [of "64 + unat n" "2 ^ 64"] by (simp add: unat_word_ariths)
  then have P: "?P x" using x(2,3) by (simp add: split_fit_def word_le_nat_alt)
  obtain y where y: "first_or_null ?P xs = y" "y \<in> set xs"
    by (cases rule: first_or_null_cases [of ?P xs]) (use P x(1) in auto)
  have "y \<noteq> NULL" "y + 32 \<noteq> NULL"
    using y(2) ptr_in_heap(1) [OF st y(2)] chain_nonnull [OF heap_struct_chain [OF st]] by auto
  ultimately show ?thesis
    using chase_chain [OF heap_struct_chain [OF st], of ?P] y(1)
    by (simp add: alloc_def Let_def)
qed

theorem alloc_size_wraps_witness:
  "\<exists>p h'. alloc (fst heap_sample) 0xffffffffffffffc0 (snd heap_sample) = Inr (p, h') \<and> p \<noteq> NULL"
  using alloc_size_wraps [OF heap_sample_inv(1), of "0xffffffffffffffc0" "0x1000"]
  by (simp add: heap_sample_def new_allocator_def)

end
