(* ===== verification/LinkedList.thy ===== *)
theory LinkedList
  imports HeapAlloc
begin

text \<open>
  The generic list of \<open>src/src/ll.c\<close>: a list header with the first and last node and a counter, and
  doubly linked nodes, all allocated on the kernel heap.  An allocator argument is an option, with
  \<open>None\<close> for a null pointer.
\<close>

section \<open>State\<close>

record ll_node_t =
  lln_content :: u64
  lln_next :: u64
  lln_prev :: u64

record ll_t =
  ll_first :: u64
  ll_last :: u64
  ll_count :: u64

record ll_state =
  lists :: "u64 \<Rightarrow> ll_t"
  lnodes :: "u64 \<Rightarrow> ll_node_t"
  lheap :: kheap

abbreviation sizeof_ll_t :: u64 where "sizeof_ll_t \<equiv> 24"
abbreviation sizeof_ll_node_t :: u64 where "sizeof_ll_node_t \<equiv> 24"

section \<open>Operations\<close>

text \<open>The size given to \<open>memset\<close> is that of a pointer, so that only the first field is cleared.\<close>

definition ll_create :: "allocator option \<Rightarrow> ll_state \<Rightarrow> (u64 \<times> ll_state) res" where
  "ll_create al s = (case al of None \<Rightarrow> Inr (NULL, s) | Some al \<Rightarrow>
     bind_res (alloc al sizeof_ll_t (lheap s)) (\<lambda>(ll, h).
       if ll = NULL then Inr (NULL, s\<lparr>lheap := h\<rparr>)
       else Inr (ll, s\<lparr>lheap := h, lists := upd ll (\<lambda>l. l\<lparr>ll_first := NULL\<rparr>) (lists s)\<rparr>)))"

definition ll_size :: "ll_state \<Rightarrow> u64 \<Rightarrow> u64" where
  "ll_size s ll = (if ll = NULL then 0 else ll_count (lists s ll))"

text \<open>Following \<open>next\<close> a number of times.\<close>

primrec ll_walk :: "(u64 \<Rightarrow> ll_node_t) \<Rightarrow> nat \<Rightarrow> u64 \<Rightarrow> u64 res" where
  "ll_walk h 0 node = Inr node"
| "ll_walk h (Suc n) node = bind_res (deref h node) (\<lambda>n'. ll_walk h n (lln_next n'))"

definition ll_get :: "ll_state \<Rightarrow> u64 \<Rightarrow> u64 \<Rightarrow> u64 res" where
  "ll_get s ll index =
     (if ll = NULL \<or> index \<ge> ll_size s ll then Inr NULL
      else bind_res (ll_walk (lnodes s) (unat index) (ll_first (lists s ll))) (\<lambda>node.
             bind_res (deref (lnodes s) node) (\<lambda>n. Inr (lln_content n))))"

primrec ll_destroy_loop :: "allocator \<Rightarrow> nat \<Rightarrow> u64 \<Rightarrow> ll_state \<Rightarrow> ll_state res" where
  "ll_destroy_loop al 0 node s = Inr s"
| "ll_destroy_loop al (Suc n) node s =
     bind_res (free al node (lheap s)) (\<lambda>h.
       bind_res (deref (lnodes s) node) (\<lambda>n'.
         ll_destroy_loop al n (lln_next n') (s\<lparr>lheap := h\<rparr>)))"

definition ll_destroy :: "allocator option \<Rightarrow> u64 \<Rightarrow> ll_state \<Rightarrow> ll_state res" where
  "ll_destroy al ll s = (case al of None \<Rightarrow> Inr s | Some al \<Rightarrow>
     if ll = NULL then Inr s
     else bind_res (ll_destroy_loop al (unat (ll_size s ll)) (ll_first (lists s ll)) s) (\<lambda>s.
       bind_res (free al ll (lheap s)) (\<lambda>h. Inr (s\<lparr>lheap := h\<rparr>))))"

definition ll_add_back :: "allocator option \<Rightarrow> u64 \<Rightarrow> u64 \<Rightarrow> ll_state \<Rightarrow> (i32 \<times> ll_state) res" where
  "ll_add_back al ll content s = (case al of None \<Rightarrow> Inr (-1, s) | Some al \<Rightarrow>
     if ll = NULL then Inr (-1, s)
     else bind_res (alloc al sizeof_ll_node_t (lheap s)) (\<lambda>(node, h).
       if node = NULL then Inr (-1, s\<lparr>lheap := h\<rparr>)
       else let new = \<lparr>lln_content = content, lln_next = NULL, lln_prev = ll_last (lists s ll)\<rparr>;
                ls = upd ll (\<lambda>l. l\<lparr>ll_last := node\<rparr>) (lists s);
                ls = (if ll_first (ls ll) = NULL then upd ll (\<lambda>l. l\<lparr>ll_first := node\<rparr>) ls else ls);
                ls = upd ll (\<lambda>l. l\<lparr>ll_count := ll_count l + 1\<rparr>) ls
            in Inr (0, s\<lparr>lists := ls, lnodes := (lnodes s)(node := new), lheap := h\<rparr>)))"

definition ll_add_front :: "allocator option \<Rightarrow> u64 \<Rightarrow> u64 \<Rightarrow> ll_state \<Rightarrow> (i32 \<times> ll_state) res" where
  "ll_add_front al ll content s = (case al of None \<Rightarrow> Inr (-1, s) | Some al \<Rightarrow>
     if ll = NULL then Inr (-1, s)
     else bind_res (alloc al sizeof_ll_node_t (lheap s)) (\<lambda>(node, h).
       if node = NULL then Inr (-1, s\<lparr>lheap := h\<rparr>)
       else let new = \<lparr>lln_content = content, lln_next = ll_first (lists s ll), lln_prev = NULL\<rparr>;
                ls = upd ll (\<lambda>l. l\<lparr>ll_first := node\<rparr>) (lists s);
                ls = (if ll_last (ls ll) = NULL then upd ll (\<lambda>l. l\<lparr>ll_last := node\<rparr>) ls else ls);
                ls = upd ll (\<lambda>l. l\<lparr>ll_count := ll_count l + 1\<rparr>) ls
            in Inr (0, s\<lparr>lists := ls, lnodes := (lnodes s)(node := new), lheap := h\<rparr>)))"

text \<open>Unlinking a node, the common end of the two removal functions.\<close>

definition ll_unlink :: "allocator \<Rightarrow> u64 \<Rightarrow> u64 \<Rightarrow> ll_state \<Rightarrow> ll_state res" where
  "ll_unlink al ll node s =
     bind_res (deref (lnodes s) node) (\<lambda>n.
       let (ns, ls) =
             (if lln_prev n \<noteq> NULL
              then (upd (lln_prev n) (\<lambda>m. m\<lparr>lln_next := lln_next n\<rparr>) (lnodes s), lists s)
              else (lnodes s, upd ll (\<lambda>l. l\<lparr>ll_first := lln_next n\<rparr>) (lists s)));
           n = ns node;
           (ns, ls) =
             (if lln_next n \<noteq> NULL
              then (upd (lln_next n) (\<lambda>m. m\<lparr>lln_prev := lln_prev n\<rparr>) ns, ls)
              else (ns, upd ll (\<lambda>l. l\<lparr>ll_last := lln_prev n\<rparr>) ls));
           ls = upd ll (\<lambda>l. l\<lparr>ll_count := ll_count l - 1\<rparr>) ls
       in bind_res (free al node (lheap s)) (\<lambda>h. Inr (s\<lparr>lists := ls, lnodes := ns, lheap := h\<rparr>)))"

definition ll_remove :: "allocator option \<Rightarrow> u64 \<Rightarrow> u64 \<Rightarrow> ll_state \<Rightarrow> ll_state res" where
  "ll_remove al ll index s = (case al of None \<Rightarrow> Inr s | Some al \<Rightarrow>
     if ll = NULL \<or> index \<ge> ll_size s ll then Inr s
     else bind_res (ll_walk (lnodes s) (unat index) (ll_first (lists s ll))) (\<lambda>node.
            ll_unlink al ll node s))"

text \<open>The search loop of \<open>ll_remove_pointer\<close> never advances its node: every iteration tests the first.\<close>

primrec ll_find_loop :: "ll_state \<Rightarrow> u64 \<Rightarrow> u64 \<Rightarrow> nat \<Rightarrow> bool res" where
  "ll_find_loop s node content 0 = Inr False"
| "ll_find_loop s node content (Suc n) =
     bind_res (deref (lnodes s) node) (\<lambda>n'.
       if lln_content n' = content then Inr True else ll_find_loop s node content n)"

definition ll_remove_pointer :: "allocator option \<Rightarrow> u64 \<Rightarrow> u64 \<Rightarrow> ll_state \<Rightarrow> ll_state res" where
  "ll_remove_pointer al ll content s = (case al of None \<Rightarrow> Inr s | Some al \<Rightarrow>
     if ll = NULL then Inr s
     else let node = ll_first (lists s ll) in
       bind_res (ll_find_loop s node content (unat (ll_size s ll))) (\<lambda>found.
         if found then ll_unlink al ll node s else Inr s))"

section \<open>Well-formed lists\<close>

text \<open>
  \<open>ll_inv s ll xs\<close>: the list at \<open>ll\<close> has exactly the nodes \<open>xs\<close>, linked in both directions, and
  counts them.  \<open>ll_owned\<close>: the header and the nodes are distinct blocks in use of the heap.
\<close>

definition ll_inv :: "ll_state \<Rightarrow> u64 \<Rightarrow> u64 list \<Rightarrow> bool" where
  "ll_inv s ll xs \<longleftrightarrow> ll \<noteq> NULL \<and>
     dseg (\<lambda>p. lln_next (lnodes s p)) (\<lambda>p. lln_prev (lnodes s p)) NULL (ll_first (lists s ll)) xs
       (ll_last (lists s ll)) NULL \<and>
     unat (ll_count (lists s ll)) = length xs"

definition ll_owned :: "allocator \<Rightarrow> ll_state \<Rightarrow> u64 \<Rightarrow> u64 list \<Rightarrow> bool" where
  "ll_owned al s ll xs \<longleftrightarrow> heap_ok al (lheap s) \<and> distinct (ll # xs) \<and>
     (\<forall>p \<in> set (ll # xs). \<exists>k. (p, k) \<in> heap_live al (lheap s))"

definition ll_contents :: "ll_state \<Rightarrow> u64 list \<Rightarrow> u64 list" where
  "ll_contents s xs = map (\<lambda>p. lln_content (lnodes s p)) xs"

lemma ll_walk_chain:
  "chain (\<lambda>p. lln_next (h p)) p xs q \<Longrightarrow> i \<le> length xs \<Longrightarrow>
   ll_walk h i p = Inr (if i = length xs then q else xs ! i)"
proof (induction xs arbitrary: p i)
  case Nil
  then show ?case by simp
next
  case (Cons x xs)
  then show ?case by (cases i) auto
qed

lemma ll_inv_chain: "ll_inv s ll xs \<Longrightarrow> chain (\<lambda>p. lln_next (lnodes s p)) (ll_first (lists s ll)) xs NULL"
  by (auto simp: ll_inv_def dest: dseg_chain)

lemma ll_get_chain:
  assumes c: "chain (\<lambda>p. lln_next (lnodes s p)) (ll_first (lists s ll)) xs NULL"
    and ll: "ll \<noteq> NULL" "unat (ll_count (lists s ll)) = length xs"
  shows "ll_get s ll i = Inr (if unat i < length xs then ll_contents s xs ! unat i else NULL)"
proof (cases "unat i < length xs")
  case True
  have "xs ! unat i \<noteq> NULL" using chain_nonnull [OF c] True by simp
  then show ?thesis
    using True ll_walk_chain [OF c, of "unat i"] ll
    by (simp add: ll_get_def ll_size_def word_le_nat_alt ll_contents_def)
next
  case False
  then show ?thesis using ll by (simp add: ll_get_def ll_size_def word_le_nat_alt)
qed

text \<open>Removing one node of a doubly linked list: the two link fields that change.\<close>

lemma dseg_mid:
  assumes "dseg nx pv NULL a (as @ x # bs) l NULL"
  shows "pv x = (if as = [] then NULL else last as)" "nx x = (if bs = [] then NULL else hd bs)"
    "distinct (as @ x # bs)" "NULL \<notin> set (as @ x # bs)" "pv x \<notin> set (x # bs)" "nx x \<notin> set (as @ [x])"
proof -
  show d: "distinct (as @ x # bs)" and n: "NULL \<notin> set (as @ x # bs)"
    using chain_distinct [OF dseg_chain [OF assms]] chain_nonnull [OF dseg_chain [OF assms]] by auto
  show p: "pv x = (if as = [] then NULL else last as)" and q: "nx x = (if bs = [] then NULL else hd bs)"
    using assms dseg_last [of nx pv NULL a as "pv x" x] dseg_hd [of nx pv x "nx x" bs l NULL]
    by (auto simp: dseg_append)
  show "pv x \<notin> set (x # bs)" using p d n last_in_set [of as] by (cases "as = []") (auto simp: disjoint_iff)
  show "nx x \<notin> set (as @ [x])" using q d n hd_in_set [of bs] by (cases "bs = []") (auto simp: disjoint_iff)
qed

lemma dseg_unlink:
  assumes d: "dseg nx pv NULL a (as @ x # bs) l NULL"
  defines "p \<equiv> pv x" and "n \<equiv> nx x"
  assumes nx': "\<And>y. nx' y = (if y = p \<and> p \<noteq> NULL then n else nx y)"
    and pv': "\<And>y. pv' y = (if y = n \<and> n \<noteq> NULL then p else pv y)"
  shows "dseg nx' pv' NULL (if p = NULL then n else a) (as @ bs) (if n = NULL then p else l) NULL"
proof -
  note m = dseg_mid [OF d, folded p_def n_def]
  have das: "dseg nx pv NULL a as p x" and dbs: "dseg nx pv x n bs l NULL"
    using d by (auto simp: dseg_append p_def n_def)
  have 1: "dseg nx' pv' NULL (if p = NULL then n else a) as p n"
  proof (cases as rule: rev_cases)
    case Nil
    with das m(1) show ?thesis by auto
  next
    case (snoc cs c)
    have "c \<noteq> n" "p = c" "p \<noteq> NULL" "n \<notin> set cs" "c \<notin> set cs"
      using m snoc by auto
    moreover from this have "dseg nx' pv' NULL a cs r q = dseg nx pv NULL a cs r q" for r q
      by (intro dseg_cong) (auto simp: nx' pv')
    ultimately show ?thesis using das snoc by (auto simp: dseg_append nx' pv')
  qed
  have 2: "dseg nx' pv' p n bs (if n = NULL then p else l) NULL"
  proof (cases bs)
    case Nil
    with dbs show ?thesis by auto
  next
    case (Cons c cs)
    have "n = c" "n \<noteq> NULL" "c \<notin> set cs" "c \<noteq> p" "p \<notin> set cs"
      using m Cons by auto
    moreover from this have "dseg nx' pv' r q cs l NULL = dseg nx pv r q cs l NULL" for r q
      by (intro dseg_cong) (auto simp: nx' pv')
    ultimately show ?thesis using dbs Cons by (auto simp: nx' pv')
  qed
  from 1 2 show ?thesis unfolding dseg_append by blast
qed

lemma ll_unlink_inv:
  assumes inv: "ll_inv s ll (as @ x # bs)" and fr: "free al x (lheap s) = Inr h"
  shows "\<exists>s'. ll_unlink al ll x s = Inr s' \<and> lheap s' = h \<and> ll_inv s' ll (as @ bs) \<and>
    ll_contents s' = ll_contents s"
proof -
  define p where "p = lln_prev (lnodes s x)"
  define n where "n = lln_next (lnodes s x)"
  define ns where "ns = (\<lambda>y. (lnodes s y)\<lparr>lln_next := if y = p \<and> p \<noteq> NULL then n else lln_next (lnodes s y),
    lln_prev := if y = n \<and> n \<noteq> NULL then p else lln_prev (lnodes s y)\<rparr>)"
  define ls where "ls = (lists s)(ll := (lists s ll)\<lparr>ll_first := if p = NULL then n else ll_first (lists s ll),
    ll_last := if n = NULL then p else ll_last (lists s ll), ll_count := ll_count (lists s ll) - 1\<rparr>)"
  note d = inv [unfolded ll_inv_def, THEN conjunct2, THEN conjunct1]
  have ne: "x \<noteq> NULL" "p \<noteq> x" "n \<noteq> x"
    using dseg_mid(4-6) [OF d] by (auto simp: p_def n_def)
  have "ll_unlink al ll x s = Inr (s\<lparr>lists := ls, lnodes := ns, lheap := h\<rparr>)"
    using fr ne unfolding ll_unlink_def ns_def ls_def upd_def p_def n_def
    by (auto simp: Let_def fun_eq_iff)
  moreover have "ll_inv (s\<lparr>lists := ls, lnodes := ns, lheap := h\<rparr>) ll (as @ bs)"
  proof -
    have "unat (ll_count (lists s ll) - 1) = length (as @ bs)"
      using inv unat_sub_u64 [of 1 "ll_count (lists s ll)"] by (simp add: ll_inv_def word_le_nat_alt)
    moreover have "dseg (\<lambda>y. lln_next (ns y)) (\<lambda>y. lln_prev (ns y)) NULL (ll_first (ls ll)) (as @ bs)
        (ll_last (ls ll)) NULL"
      unfolding ls_def
      using dseg_unlink [OF d, folded p_def n_def, of "\<lambda>y. lln_next (ns y)" "\<lambda>y. lln_prev (ns y)"]
      by (simp add: ns_def del: dseg.simps)
    ultimately show ?thesis using inv by (simp add: ll_inv_def ls_def)
  qed
  moreover have "ll_contents (s\<lparr>lists := ls, lnodes := ns, lheap := h\<rparr>) = ll_contents s"
    by (simp add: ll_contents_def fun_eq_iff ns_def)
  ultimately show ?thesis by auto
qed

text \<open>The node pointers of a removal loop, and the free calls of \<open>ll_destroy\<close>.\<close>

lemma ll_destroy_loop_free_all:
  "chain (\<lambda>p. lln_next (lnodes s p)) a xs q \<Longrightarrow>
   ll_destroy_loop al (length xs) a s = bind_res (free_all (free al) xs (lheap s)) (\<lambda>h. Inr (s\<lparr>lheap := h\<rparr>))"
proof (induction xs arbitrary: a s)
  case Nil
  then show ?case by simp
next
  case (Cons x xs)
  then have "chain (\<lambda>p. lln_next (lnodes (s\<lparr>lheap := h\<rparr>) p)) (lln_next (lnodes s x)) xs q" for h
    by simp
  from Cons.IH [OF this] Cons.prems show ?case
    by (auto simp: bind_res_def split: sum.split)
qed

lemma free_all_append: "free_all fr (ps @ qs) s = bind_res (free_all fr ps s) (free_all fr qs)"
  by (induction ps arbitrary: s) (auto simp: bind_res_def split: sum.split)

lemma ll_destroy_free_all:
  assumes "ll_inv s ll xs"
  shows "ll_destroy (Some al) ll s =
    bind_res (free_all (free al) (xs @ [ll]) (lheap s)) (\<lambda>h. Inr (s\<lparr>lheap := h\<rparr>))"
  using assms ll_destroy_loop_free_all [OF ll_inv_chain [OF assms], of al]
  by (auto simp: ll_destroy_def ll_inv_def ll_size_def free_all_append bind_res_def split: sum.split)

text \<open>A new node at the back of an empty list; the links of a non-empty one are not completed.\<close>

lemma ll_add_back_effect:
  assumes "ll \<noteq> NULL" and al: "alloc al 24 (lheap s) = Inr (p, h)" "p \<noteq> NULL"
  shows "\<exists>s'. ll_add_back (Some al) ll c s = Inr (0, s') \<and> lheap s' = h \<and>
    lnodes s' = (lnodes s)(p := \<lparr>lln_content = c, lln_next = NULL, lln_prev = ll_last (lists s ll)\<rparr>) \<and>
    lists s' = (lists s)(ll := \<lparr>ll_first = if ll_first (lists s ll) = NULL then p else ll_first (lists s ll),
      ll_last = p, ll_count = ll_count (lists s ll) + 1, \<dots> = ll_t.more (lists s ll)\<rparr>)"
  using assms by (auto simp: ll_add_back_def upd_def Let_def fun_eq_iff)

lemma ll_add_front_effect:
  assumes "ll \<noteq> NULL" and al: "alloc al 24 (lheap s) = Inr (p, h)" "p \<noteq> NULL"
  shows "\<exists>s'. ll_add_front (Some al) ll c s = Inr (0, s') \<and> lheap s' = h \<and>
    lnodes s' = (lnodes s)(p := \<lparr>lln_content = c, lln_next = ll_first (lists s ll), lln_prev = NULL\<rparr>) \<and>
    lists s' = (lists s)(ll := \<lparr>ll_first = p, ll_last = if ll_last (lists s ll) = NULL then p else ll_last (lists s ll),
      ll_count = ll_count (lists s ll) + 1, \<dots> = ll_t.more (lists s ll)\<rparr>)"
  using assms by (auto simp: ll_add_front_def upd_def Let_def fun_eq_iff)

section \<open>Properties\<close>

lemma ll_owned_free:
  assumes own: "ll_owned al s ll xs" and x: "x \<in> set xs"
  shows "\<exists>h k. free al x (lheap s) = Inr h \<and> heap_ok al h \<and> (x, k) \<in> heap_live al (lheap s) \<and>
    heap_live al h = heap_live al (lheap s) - {(x, k)}"
proof -
  obtain k where k: "(x, k) \<in> heap_live al (lheap s)" using own x by (auto simp: ll_owned_def)
  then show ?thesis using kernel_heap.free_ok [of al "lheap s" x k] own by (auto simp: ll_owned_def)
qed

text \<open>A list with one node on a heap of two used blocks, for the witnesses.\<close>

definition ll_sample :: ll_state where
  "ll_sample = \<lparr>lists = (\<lambda>_. \<lparr>ll_first = 0x1060, ll_last = 0x1060, ll_count = 1\<rparr>),
     lnodes = (\<lambda>_. \<lparr>lln_content = 42, lln_next = NULL, lln_prev = NULL\<rparr>),
     lheap = \<lparr>nodes = (\<lambda>p.
       if p = 0x1000 then \<lparr>hn_size = 32, hn_status = USED, hn_prev = NULL, hn_next = 0x1040\<rparr>
       else if p = 0x1040 then \<lparr>hn_size = 32, hn_status = USED, hn_prev = 0x1000, hn_next = 0x1080\<rparr>
       else \<lparr>hn_size = 0x160, hn_status = FREE, hn_prev = 0x1040, hn_next = NULL\<rparr>), klog = []\<rparr>\<rparr>"

lemma ll_sample_heap: "heap_inv (fst heap_sample) (nodes (lheap ll_sample)) [0x1000, 0x1040, 0x1080]"
  by (simp add: ll_sample_def heap_sample_def new_allocator_def heap_inv_def heap_struct_def
      no_adjacent_free_def block_of_def)

lemma ll_sample_live: "heap_live (fst heap_sample) (lheap ll_sample) = {(0x1020, 32), (0x1060, 32)}"
  unfolding heap_live_eq [OF ll_sample_heap] by (auto simp: ll_sample_def block_of_def)

lemma ll_sample_inv: "ll_inv ll_sample 0x1020 [0x1060]"
  by (simp add: ll_sample_def ll_inv_def)

lemma ll_sample_owned: "ll_owned (fst heap_sample) ll_sample 0x1020 [0x1060]"
  using ll_sample_heap by (auto simp: ll_owned_def ll_sample_live heap_ok_def)

text \<open>\<open>ll_get\<close> on a well-formed list returns the content at the index, and null out of range.\<close>

theorem ll_get_correct:
  assumes "ll_inv s ll xs"
  shows "ll_get s ll i = Inr (if unat i < length xs then ll_contents s xs ! unat i else NULL)"
  by (rule ll_get_chain [OF ll_inv_chain [OF assms]]) (use assms in \<open>simp_all add: ll_inv_def\<close>)

theorem ll_get_correct_witness: "ll_get ll_sample 0x1020 0 = Inr 42"
  using ll_get_correct [OF ll_sample_inv, of 0] by (simp add: ll_contents_def ll_sample_def)

text \<open>
  \<open>ll_remove\<close> at an index of a well-formed list unlinks exactly that node: the list stays
  well-formed, keeps the other contents in order, and the node's block, and no other, goes back to
  the heap.
\<close>

theorem ll_remove_correct:
  assumes inv: "ll_inv s ll (as @ x # bs)" and own: "ll_owned al s ll (as @ x # bs)"
    and i: "unat i = length as"
  shows "\<exists>s' k. ll_remove (Some al) ll i s = Inr s' \<and> ll_inv s' ll (as @ bs) \<and>
    ll_contents s' (as @ bs) = ll_contents s (as @ bs) \<and> ll_owned al s' ll (as @ bs) \<and>
    heap_live al (lheap s') = heap_live al (lheap s) - {(x, k)}"
proof -
  have walk: "ll_walk (lnodes s) (unat i) (ll_first (lists s ll)) = Inr x"
    using ll_walk_chain [OF ll_inv_chain [OF inv], of "unat i"] i by simp
  obtain h k where h: "free al x (lheap s) = Inr h" "heap_ok al h"
    "heap_live al h = heap_live al (lheap s) - {(x, k)}"
    using ll_owned_free [OF own, of x] by auto
  obtain s' where s': "ll_unlink al ll x s = Inr s'" "lheap s' = h" "ll_inv s' ll (as @ bs)"
    "ll_contents s' = ll_contents s"
    using ll_unlink_inv [OF inv h(1)] by blast
  have "ll_remove (Some al) ll i s = Inr s'"
    using walk s'(1) inv i by (simp add: ll_remove_def ll_inv_def ll_size_def word_le_nat_alt)
  moreover have "ll_owned al s' ll (as @ bs)"
    using own h s'(2) by (fastforce simp: ll_owned_def)
  ultimately show ?thesis using s' h(3) by auto
qed

theorem ll_remove_correct_witness:
  "\<exists>s'. ll_remove (Some (fst heap_sample)) 0x1020 0 ll_sample = Inr s' \<and> ll_inv s' 0x1020 []"
  using ll_remove_correct [of ll_sample "0x1020" "[]" "0x1060" "[]" "fst heap_sample" 0]
    ll_sample_inv ll_sample_owned by auto

text \<open>
  (C39) The loop of \<open>ll_destroy\<close> ends on every well-formed list, and it returns exactly the blocks of
  the nodes and of the header to the heap, although it reads each node after freeing it.
\<close>

theorem ll_destroy_correct:
  assumes inv: "ll_inv s ll xs" and own: "ll_owned al s ll xs"
  shows "\<exists>s'. ll_destroy (Some al) ll s = Inr s' \<and> heap_ok al (lheap s') \<and>
    heap_live al (lheap s') = {(p, k) \<in> heap_live al (lheap s). p \<noteq> ll \<and> p \<notin> set xs}"
proof -
  have "\<exists>h. free_all (free al) (xs @ [ll]) (lheap s) = Inr h \<and> heap_ok al h \<and>
      heap_live al h = {(p, k) \<in> heap_live al (lheap s). p \<notin> set (xs @ [ll])}"
    by (rule kernel_heap.free_all_ok) (use own in \<open>auto simp: ll_owned_def\<close>)
  then show ?thesis using ll_destroy_free_all [OF inv, of al] by auto
qed

theorem ll_destroy_correct_witness:
  "\<exists>s'. ll_destroy (Some (fst heap_sample)) 0x1020 ll_sample = Inr s' \<and>
     heap_live (fst heap_sample) (lheap s') = {}"
  using ll_destroy_correct [OF ll_sample_inv ll_sample_owned] unfolding ll_sample_live by auto

text \<open>A fresh node leaves the chain of the others as it is.\<close>

lemma chain_fresh_node:
  assumes "chain (\<lambda>q. lln_next (h q)) a xs b" "p \<notin> set xs"
  shows "chain (\<lambda>q. lln_next ((h(p := n)) q)) a xs b"
  using assms chain_cong [of xs "\<lambda>q. lln_next ((h(p := n)) q)" "\<lambda>q. lln_next (h q)"] by (metis fun_upd_apply)

lemma alloc_fresh_node:
  assumes own: "ll_owned al s ll xs" and al: "alloc al 24 (lheap s) = Inr (p, h)" "p \<noteq> NULL"
  shows "p \<notin> set (ll # xs)"
  using kernel_heap.alloc_fresh_pointer [OF _ _ al] own by (force simp: ll_owned_def)

text \<open>
  \<open>ll_add_front\<close> puts the content in front: afterwards \<open>ll_get\<close> finds it at index 0 and every
  older element one index further, and nothing beyond.
\<close>

theorem ll_add_front_correct:
  assumes inv: "ll_inv s ll xs" and own: "ll_owned al s ll xs" and len: "length xs + 1 < 2 ^ 64"
    and al: "alloc al 24 (lheap s) = Inr (p, h)" "p \<noteq> NULL"
  shows "\<exists>s'. ll_add_front (Some al) ll c s = Inr (0, s') \<and>
    (\<forall>i. ll_get s' ll i =
      Inr (if unat i \<le> length xs then (c # ll_contents s xs) ! unat i else NULL))"
proof -
  have ll: "ll \<noteq> NULL" using inv by (simp add: ll_inv_def)
  from ll_add_front_effect [OF this al] obtain s' where
    s': "ll_add_front (Some al) ll c s = Inr (0, s')"
      "lnodes s' = (lnodes s)(p := \<lparr>lln_content = c, lln_next = ll_first (lists s ll), lln_prev = NULL\<rparr>)"
      "ll_count (lists s' ll) = ll_count (lists s ll) + 1" "ll_first (lists s' ll) = p"
    by fastforce
  have fresh: "p \<notin> set xs" using alloc_fresh_node [OF own al] by simp
  have "chain (\<lambda>q. lln_next (lnodes s' q)) (ll_first (lists s' ll)) (p # xs) NULL"
    using chain_fresh_node [OF ll_inv_chain [OF inv] fresh] s'(2,4) al(2) by simp
  moreover have "unat (ll_count (lists s' ll)) = length (p # xs)"
    using inv len s'(3) unat_add_u64 [of "ll_count (lists s ll)" 1] by (simp add: ll_inv_def)
  ultimately have "ll_get s' ll i = Inr (if unat i < length (p # xs)
      then ll_contents s' (p # xs) ! unat i else NULL)" for i
    using ll_get_chain ll by blast
  moreover have "ll_contents s' (p # xs) = c # ll_contents s xs"
    using s'(2) fresh by (auto simp: ll_contents_def)
  ultimately show ?thesis using s'(1) by (auto simp: less_Suc_eq_le)
qed

text \<open>
  \<open>ll_add_back\<close> on a list that already has nodes does not link the new node to the old last one:
  it counts it, but reading the element it has just added follows a null pointer.
\<close>

theorem ll_add_back_unlinked:
  assumes inv: "ll_inv s ll xs" and xs: "xs \<noteq> []" and own: "ll_owned al s ll xs"
    and len: "length xs + 1 < 2 ^ 64"
    and al: "alloc al 24 (lheap s) = Inr (p, h)" "p \<noteq> NULL"
  shows "\<exists>s'. ll_add_back (Some al) ll c s = Inr (0, s') \<and>
    unat (ll_size s' ll) = length xs + 1 \<and> ll_get s' ll (of_nat (length xs)) = Inl NullDeref"
proof -
  have "ll \<noteq> NULL" using inv by (simp add: ll_inv_def)
  from ll_add_back_effect [OF this al] obtain s' where
    s': "ll_add_back (Some al) ll c s = Inr (0, s')"
      "lnodes s' = (lnodes s)(p := \<lparr>lln_content = c, lln_next = NULL, lln_prev = ll_last (lists s ll)\<rparr>)"
      "ll_count (lists s' ll) = ll_count (lists s ll) + 1"
      "ll_first (lists s' ll) = (if ll_first (lists s ll) = NULL then p else ll_first (lists s ll))"
    by fastforce
  have cnt: "unat (ll_count (lists s' ll)) = length xs + 1"
    using inv len s'(3) unat_add_u64 [of "ll_count (lists s ll)" 1] by (simp add: ll_inv_def)
  have c: "chain (\<lambda>q. lln_next (lnodes s' q)) (ll_first (lists s ll)) xs NULL"
    using chain_fresh_node [OF ll_inv_chain [OF inv]] alloc_fresh_node [OF own al] s'(2) by simp
  have "ll_first (lists s' ll) = ll_first (lists s ll)"
    using s'(4) chain_hd [OF c xs] chain_nonnull [OF c, of "hd xs"] xs by auto
  then have "ll_walk (lnodes s') (length xs) (ll_first (lists s' ll)) = Inr NULL"
    using ll_walk_chain [OF c, of "length xs"] by simp
  moreover have "unat (of_nat (length xs) :: u64) = length xs" using len by (simp add: unat_of_nat_u64)
  ultimately show ?thesis
    using s'(1) cnt \<open>ll \<noteq> NULL\<close> by (auto simp: ll_get_def ll_size_def word_le_nat_alt)
qed

lemma ll_sample_alloc: "\<exists>h. alloc (fst heap_sample) 24 (lheap ll_sample) = Inr (0x10a0, h)"
proof -
  have ff: "first_fit (rounded 24) (blocks (nodes (lheap ll_sample)) [0x1000, 0x1040, 0x1080]) =
      (0x10a0, [(0x1000, 32, USED), (0x1040, 32, USED), (0x1080, 32, USED), (0x10c0, 0x120, FREE)])"
    by (simp add: ll_sample_def block_of_def rounded_def)
  show ?thesis using alloc_first_fit [OF ll_sample_heap, of 24, unfolded ff] by auto
qed

theorem ll_add_front_correct_witness:
  "\<exists>s'. ll_add_front (Some (fst heap_sample)) 0x1020 7 ll_sample = Inr (0, s') \<and>
     ll_get s' 0x1020 0 = Inr 7 \<and> ll_get s' 0x1020 1 = Inr 42"
proof -
  obtain h where h: "alloc (fst heap_sample) 24 (lheap ll_sample) = Inr (0x10a0, h)"
    using ll_sample_alloc by blast
  obtain s' where s': "ll_add_front (Some (fst heap_sample)) 0x1020 7 ll_sample = Inr (0, s')"
    "\<forall>i. ll_get s' 0x1020 i = Inr (if unat i \<le> length [0x1060 :: u64]
       then (7 # ll_contents ll_sample [0x1060]) ! unat i else NULL)"
    using ll_add_front_correct [OF ll_sample_inv ll_sample_owned _ h, of 7] by auto
  have "ll_get s' 0x1020 0 = Inr 7" using s'(2) [THEN spec, of 0] by simp
  moreover have "ll_get s' 0x1020 1 = Inr 42"
    using s'(2) [THEN spec, of 1] by (simp add: ll_contents_def ll_sample_def)
  ultimately show ?thesis using s'(1) by auto
qed

theorem ll_add_back_unlinked_witness:
  "\<exists>s'. ll_add_back (Some (fst heap_sample)) 0x1020 7 ll_sample = Inr (0, s') \<and>
     unat (ll_size s' 0x1020) = 2 \<and> ll_get s' 0x1020 1 = Inl NullDeref"
proof -
  obtain h where h: "alloc (fst heap_sample) 24 (lheap ll_sample) = Inr (0x10a0, h)"
    using ll_sample_alloc by blast
  show ?thesis using ll_add_back_unlinked [OF ll_sample_inv _ ll_sample_owned _ h, of 7] by auto
qed

text \<open>
  \<open>ll_remove_pointer\<close> finds a content only in the first node: for any other element of the list it
  changes nothing.
\<close>

theorem ll_remove_pointer_first_only:
  assumes inv: "ll_inv s ll (x # xs)" and c: "lln_content (lnodes s x) \<noteq> c"
  shows "ll_remove_pointer (Some al) ll c s = Inr s"
proof -
  have x: "ll \<noteq> NULL" "ll_first (lists s ll) = x" "x \<noteq> NULL" using inv by (auto simp: ll_inv_def)
  have "ll_find_loop s x c n = Inr False" for n using c x by (induction n) auto
  then show ?thesis using x by (simp add: ll_remove_pointer_def)
qed

end
