(* ===== verification/PageAlloc.thy ===== *)
theory PageAlloc
  imports HeapAlloc
begin

text \<open>
  The physical page allocator, the first half of \<open>src/src/memory.c\<close>: every usable region of the
  memory map becomes an area with a header, a bitmap behind it and the pages it hands out.
\<close>

section \<open>State\<close>

text \<open>
  An area; \<open>a_data i\<close> is byte \<open>i\<close> of its flexible array.  The allocator is the list of the areas
  its pointer array refers to.
\<close>

record area =
  a_first_page :: u64
  a_pages_count :: u64
  a_used :: u64
  a_data :: "nat \<Rightarrow> u8"

record bitmap_allocator =
  ba_areas :: "area list"

text \<open>An entry of the boot loader's memory map.\<close>

record limine_memmap_entry =
  me_base :: u64
  me_length :: u64
  me_type :: u64

definition LIMINE_MEMMAP_USABLE :: u64 where
  "LIMINE_MEMMAP_USABLE = 0"

section \<open>Initialisation\<close>

definition bitmap_bytes_for :: "u64 \<Rightarrow> u64" where
  "bitmap_bytes_for page_count = (page_count + 7) div 8"

definition OFFSET_OF_DATA_IN_AREA :: u64 where
  "OFFSET_OF_DATA_IN_AREA = 24"

text \<open>The body of the loop that computes the number of header pages, and the do-while loop.\<close>

definition header_step :: "u64 \<Rightarrow> u64 \<Rightarrow> u64" where
  "header_step page_count header_pages =
     (let usable_pages = page_count - header_pages;
          needed_bytes = OFFSET_OF_DATA_IN_AREA + bitmap_bytes_for usable_pages;
          header_pages = (needed_bytes + 0x1000 - 1) div 0x1000
      in if header_pages = 0 then 1 else header_pages)"

definition calc_header_pages :: "u64 \<Rightarrow> u64 res" where
  "calc_header_pages page_count =
     returns (map_option fst (while_option (\<lambda>(header, prev). header \<noteq> prev)
       (\<lambda>(header, prev). (header_step page_count header, header)) (header_step page_count 1, 1)))"

text \<open>One usable entry, with the byte memory \<open>m\<close> that its header overwrites.\<close>

definition init_area :: "mem \<Rightarrow> u64 \<Rightarrow> limine_memmap_entry \<Rightarrow> area res" where
  "init_area m offset entry =
     (let total_pages = me_length entry div 0x1000 in
      bind_res (calc_header_pages total_pages) (\<lambda>header_pages.
        let m = snd (memset m (me_base entry + offset) 0 (header_pages * 0x1000))
        in Inr \<lparr>a_first_page = me_base entry + header_pages * 0x1000,
                a_pages_count = total_pages - header_pages,
                a_used = 0,
                a_data = (\<lambda>i. m (me_base entry + offset + OFFSET_OF_DATA_IN_AREA + of_nat i))\<rparr>))"

fun init_areas :: "mem \<Rightarrow> u64 \<Rightarrow> limine_memmap_entry list \<Rightarrow> area list \<Rightarrow> area list res" where
  "init_areas m offset [] areas = Inr areas"
| "init_areas m offset (entry # entries) areas =
     (if me_type entry = LIMINE_MEMMAP_USABLE \<and> me_length entry \<ge> 0x2000
      then bind_res (init_area m offset entry) (\<lambda>area.
             if length areas < 0x100 then init_areas m offset entries (areas @ [area])
             else Inl OutOfBounds)
      else init_areas m offset entries areas)"

definition bitmap_allocator_init ::
    "mem \<Rightarrow> limine_memmap_entry list \<Rightarrow> u64 \<Rightarrow> bitmap_allocator res" where
  "bitmap_allocator_init m memmap offset =
     bind_res (init_areas m offset memmap []) (\<lambda>areas. Inr \<lparr>ba_areas = areas\<rparr>)"

section \<open>Allocating and freeing pages\<close>

definition bit_set :: "(nat \<Rightarrow> u8) \<Rightarrow> nat \<Rightarrow> bool" where
  "bit_set bitmap page \<longleftrightarrow> bitmap (page div 8) AND push_bit (page mod 8) 1 \<noteq> 0"

text \<open>
  The nested loops over the bytes \<open>i\<close> and the bits \<open>j\<close> visit \<open>page = i * 8 + j\<close> in increasing
  order and stop at the first page that is past the end or unused.
\<close>

definition find_unused_page :: "(nat \<Rightarrow> u8) \<Rightarrow> u64 \<Rightarrow> (i32 \<times> (nat \<Rightarrow> u8)) res" where
  "find_unused_page bitmap page_count =
     (if page_count = 0 \<or> page_count > 1000000 then Inl Halted
      else let byte_count = (page_count + 7) div 8 in
        case first_index (unat byte_count * 8)
               (\<lambda>page. page \<ge> unat page_count \<or> \<not> bit_set bitmap page) of
          None \<Rightarrow> Inr (- 1, bitmap)
        | Some page \<Rightarrow>
            if page \<ge> unat page_count then Inr (- 1, bitmap)
            else Inr (of_nat page,
              bitmap(page div 8 := bitmap (page div 8) OR push_bit (page mod 8) 1)))"

fun allocate_from :: "area list \<Rightarrow> (u64 \<times> area list) res" where
  "allocate_from [] = Inr (NULL, [])"
| "allocate_from (area # areas) =
     (if a_used area \<ge> a_pages_count area
      then bind_res (allocate_from areas) (\<lambda>(page, areas). Inr (page, area # areas))
      else bind_res (find_unused_page (a_data area) (a_pages_count area)) (\<lambda>(index, data).
        if sint index < 0 \<or> (ucast index :: u64) \<ge> a_pages_count area then Inl Halted
        else Inr (a_first_page area + ucast index * 0x1000,
                  area\<lparr>a_used := a_used area + 1, a_data := data\<rparr> # areas)))"

definition allocate_page :: "bitmap_allocator \<Rightarrow> (u64 \<times> bitmap_allocator) res" where
  "allocate_page ba =
     bind_res (allocate_from (ba_areas ba)) (\<lambda>(page, areas). Inr (page, ba\<lparr>ba_areas := areas\<rparr>))"

definition contains_page :: "area \<Rightarrow> u64 \<Rightarrow> bool" where
  "contains_page area page \<longleftrightarrow>
     page \<ge> a_first_page area \<and> page < a_first_page area + a_pages_count area * 0x1000"

text \<open>The page number is an \<open>int\<close>; a negative one would index the bitmap before its start.\<close>

definition clear_page :: "area \<Rightarrow> u64 \<Rightarrow> area res" where
  "clear_page area page =
     (let index = (ucast ((page - a_first_page area) div 0x1000) :: i32);
          array_index = unat index div 8; array_index_offset = unat index mod 8
      in if sint index < 0 then Inl OutOfBounds
         else Inr (area\<lparr>a_used := a_used area - 1,
           a_data := (a_data area)(array_index :=
             a_data area array_index AND NOT (push_bit array_index_offset 1))\<rparr>))"

fun free_in :: "u64 \<Rightarrow> area list \<Rightarrow> area list res" where
  "free_in page [] = Inr []"
| "free_in page (area # areas) =
     (if contains_page area page then bind_res (clear_page area page) (\<lambda>area. Inr (area # areas))
      else bind_res (free_in page areas) (\<lambda>areas. Inr (area # areas)))"

definition free_page :: "bitmap_allocator \<Rightarrow> u64 \<Rightarrow> bitmap_allocator res" where
  "free_page ba page = bind_res (free_in page (ba_areas ba)) (\<lambda>areas. Inr (ba\<lparr>ba_areas := areas\<rparr>))"

definition alloc_page_or_halt :: "bitmap_allocator \<Rightarrow> (u64 \<times> bitmap_allocator) res" where
  "alloc_page_or_halt ba =
     bind_res (allocate_page ba) (\<lambda>(frame, ba). if frame = NULL then Inl Halted else Inr (frame, ba))"

section \<open>The pages of an area\<close>

text \<open>The bitmap as a set of page numbers, and the addresses of the pages managed and in use.\<close>

definition taken :: "area \<Rightarrow> nat set" where
  "taken a = {i. i < unat (a_pages_count a) \<and> bit_set (a_data a) i}"

definition page_addr :: "area \<Rightarrow> nat \<Rightarrow> u64" where
  "page_addr a i = a_first_page a + of_nat i * 0x1000"

definition area_pages :: "area \<Rightarrow> u64 set" where
  "area_pages a = page_addr a ` {..<unat (a_pages_count a)}"

definition area_in_use :: "area \<Rightarrow> u64 set" where
  "area_in_use a = page_addr a ` taken a"

definition area_end :: "area \<Rightarrow> nat" where
  "area_end a = unat (a_first_page a) + unat (a_pages_count a) * 0x1000"

text \<open>
  An area is well-formed when it counts its used pages, does not reach the end of the address
  space or page zero, and has at most the million pages that \<open>find_unused_page\<close> accepts.
\<close>

definition area_inv :: "area \<Rightarrow> bool" where
  "area_inv a \<longleftrightarrow> unat (a_used a) = card (taken a) \<and> unat (a_pages_count a) \<le> 1000000 \<and>
     0 < unat (a_first_page a) \<and> unat (a_first_page a) mod 0x1000 = 0 \<and> area_end a < 2 ^ 64"

definition apart :: "area \<Rightarrow> area \<Rightarrow> bool" where
  "apart a b \<longleftrightarrow> area_end a \<le> unat (a_first_page b) \<or> area_end b \<le> unat (a_first_page a)"

definition ba_inv :: "bitmap_allocator \<Rightarrow> bool" where
  "ba_inv ba \<longleftrightarrow> list_all area_inv (ba_areas ba) \<and>
     sorted_wrt apart (ba_areas ba)"

section \<open>Bitmaps\<close>

lemma bit_set_iff: "bit_set d i \<longleftrightarrow> bit (d (i div 8)) (i mod 8)"
  unfolding bit_set_def push_bit_of_1 and_exp_eq_0_iff_not_bit by simp

lemma bit_or_single: "k < 8 \<Longrightarrow> bit (w OR push_bit k 1 :: u8) n \<longleftrightarrow> bit w n \<or> n = k"
  by (auto simp: bit_or_iff bit_exp_iff)

lemma bit_and_not_single: "bit (w AND NOT (push_bit k 1) :: u8) n \<longleftrightarrow> bit w n \<and> n \<noteq> k"
  by (auto simp: bit_and_iff bit_not_iff bit_exp_iff dest: bit_imp_le_length)

lemma same_bit: "i div 8 = j div 8 \<Longrightarrow> j mod 8 = i mod 8 \<longleftrightarrow> j = (i :: nat)"
  by (metis div_mult_mod_eq)

lemma bit_set_mark:
  "bit_set (d(i div 8 := d (i div 8) OR push_bit (i mod 8) 1)) j \<longleftrightarrow> j = i \<or> bit_set d j"
proof (cases "i div 8 = j div 8")
  case True
  then show ?thesis using same_bit [OF True] by (simp add: bit_set_iff bit_or_single del: push_bit_of_1) blast
qed (auto simp: bit_set_iff)

lemma bit_set_clear:
  "bit_set (d(i div 8 := d (i div 8) AND NOT (push_bit (i mod 8) 1))) j \<longleftrightarrow> j \<noteq> i \<and> bit_set d j"
proof (cases "i div 8 = j div 8")
  case True
  then show ?thesis using same_bit [OF True] by (simp add: bit_set_iff bit_and_not_single del: push_bit_of_1) blast
qed (auto simp: bit_set_iff)

definition mark_page :: "area \<Rightarrow> nat \<Rightarrow> area" where
  "mark_page a i = a\<lparr>a_used := a_used a + 1,
     a_data := (a_data a)(i div 8 := a_data a (i div 8) OR push_bit (i mod 8) 1)\<rparr>"

definition unmark_page :: "area \<Rightarrow> nat \<Rightarrow> area" where
  "unmark_page a i = a\<lparr>a_used := a_used a - 1,
     a_data := (a_data a)(i div 8 := a_data a (i div 8) AND NOT (push_bit (i mod 8) 1))\<rparr>"

lemma mark_page_simps [simp]:
  "a_first_page (mark_page a i) = a_first_page a" "a_pages_count (mark_page a i) = a_pages_count a"
  "a_first_page (unmark_page a i) = a_first_page a" "a_pages_count (unmark_page a i) = a_pages_count a"
  "area_end (mark_page a i) = area_end a" "area_end (unmark_page a i) = area_end a"
  "page_addr (mark_page a i) = page_addr a" "page_addr (unmark_page a i) = page_addr a"
  "area_pages (mark_page a i) = area_pages a" "area_pages (unmark_page a i) = area_pages a"
  by (simp_all add: mark_page_def unmark_page_def area_end_def page_addr_def area_pages_def fun_eq_iff)

lemma taken_mark: "i < unat (a_pages_count a) \<Longrightarrow> taken (mark_page a i) = insert i (taken a)"
  by (auto simp: taken_def mark_page_def bit_set_mark simp del: push_bit_of_1)

lemma taken_unmark: "taken (unmark_page a i) = taken a - {i}"
  by (auto simp: taken_def unmark_page_def bit_set_clear simp del: push_bit_of_1)

lemma taken_subset: "taken a \<subseteq> {..<unat (a_pages_count a)}"
  by (auto simp: taken_def)

lemma finite_taken [simp]: "finite (taken a)"
  using taken_subset finite_subset by blast

lemma area_inv_mark:
  assumes inv: "area_inv a" and i: "i < unat (a_pages_count a)" "i \<notin> taken a"
  shows "area_inv (mark_page a i)"
proof -
  have "card (taken a) < unat (a_pages_count a)"
    using psubset_card_mono [of "{..<unat (a_pages_count a)}" "taken a"] taken_subset [of a] i by auto
  then have "unat (a_used a + 1) = unat (a_used a) + 1"
    using inv unat_add_u64 [of "a_used a" 1] by (simp add: area_inv_def)
  moreover have "a_used (mark_page a i) = a_used a + 1" by (simp add: mark_page_def)
  ultimately show ?thesis using inv i by (simp add: area_inv_def taken_mark)
qed

lemma area_inv_unmark:
  assumes inv: "area_inv a" and i: "i \<in> taken a"
  shows "area_inv (unmark_page a i)"
proof -
  have "0 < card (taken a)" using i by (auto simp: card_gt_0_iff)
  then have "unat (a_used a - 1) = unat (a_used a) - 1"
    using inv unat_sub_u64 [of 1 "a_used a"] by (simp add: area_inv_def word_le_nat_alt)
  moreover have "a_used (unmark_page a i) = a_used a - 1" by (simp add: unmark_page_def)
  ultimately show ?thesis using inv i by (simp add: area_inv_def taken_unmark)
qed

section \<open>Page addresses\<close>

lemma unat_page_addr:
  assumes "area_inv a" "i < unat (a_pages_count a)"
  shows "unat (page_addr a i) = unat (a_first_page a) + i * 0x1000"
proof -
  have b: "unat (a_first_page a) + i * 0x1000 < 2 ^ 64"
    using assms by (simp add: area_inv_def area_end_def)
  then have "(of_nat i * 0x1000 :: u64) = of_nat (i * 0x1000)" by simp
  then show ?thesis using unat_add_of_nat_u64 [OF b] by (simp add: page_addr_def)
qed

lemma page_addr_inj:
  assumes "area_inv a" "i < unat (a_pages_count a)" "j < unat (a_pages_count a)"
  shows "page_addr a i = page_addr a j \<longleftrightarrow> i = j"
proof
  assume "page_addr a i = page_addr a j"
  then have "unat (page_addr a i) = unat (page_addr a j)" by (rule arg_cong)
  then show "i = j" unfolding unat_page_addr [OF assms(1,2)] unat_page_addr [OF assms(1,3)] by simp
qed simp

lemma page_addr_bounds:
  assumes "area_inv a" "i < unat (a_pages_count a)"
  shows "unat (a_first_page a) \<le> unat (page_addr a i)" "unat (page_addr a i) + 0x1000 \<le> area_end a"
    "page_addr a i \<noteq> NULL" "unat (page_addr a i) mod 0x1000 = 0"
proof -
  have u: "unat (page_addr a i) = unat (a_first_page a) + i * 0x1000" by (rule unat_page_addr [OF assms])
  have f: "0 < unat (a_first_page a)" "unat (a_first_page a) mod 0x1000 = 0"
    using assms(1) by (simp_all add: area_inv_def)
  show "unat (a_first_page a) \<le> unat (page_addr a i)" using u by simp
  have "Suc i * 0x1000 \<le> unat (a_pages_count a) * 0x1000" using assms(2) by (intro mult_le_mono1) simp
  then show "unat (page_addr a i) + 0x1000 \<le> area_end a" using u by (simp add: area_end_def)
  have "unat (page_addr a i) \<noteq> 0" using u f(1) by simp
  then show "page_addr a i \<noteq> NULL" by auto
  show "unat (page_addr a i) mod 0x1000 = 0" using u f(2) by simp
qed

lemma contains_page_iff:
  assumes "area_inv a"
  shows "contains_page a p \<longleftrightarrow> unat (a_first_page a) \<le> unat p \<and> unat p < area_end a"
proof -
  have b: "unat (a_first_page a) + unat (a_pages_count a) * 0x1000 < 2 ^ 64"
    using assms by (simp add: area_inv_def area_end_def)
  have "unat (a_first_page a + of_nat (unat (a_pages_count a) * 0x1000)) =
      unat (a_first_page a) + unat (a_pages_count a) * 0x1000"
    using unat_add_of_nat_u64 [OF b] .
  moreover have "(of_nat (unat (a_pages_count a) * 0x1000) :: u64) = a_pages_count a * 0x1000"
    by simp
  ultimately show ?thesis
    by (simp add: contains_page_def area_end_def word_le_nat_alt word_less_nat_alt)
qed

lemma page_number:
  assumes "area_inv a" "i < unat (a_pages_count a)"
  shows "(page_addr a i - a_first_page a) div 0x1000 = of_nat i"
proof -
  have "i * 0x1000 < 2 ^ 64" using assms by (simp add: area_inv_def area_end_def)
  then have "unat ((of_nat (i * 0x1000) :: u64) div 0x1000) = i"
    unfolding unat_div by (subst unat_of_nat_u64) simp_all
  then have "(of_nat (unat ((of_nat (i * 0x1000) :: u64) div 0x1000)) :: u64) = of_nat i"
    by (rule arg_cong)
  then have "(of_nat (i * 0x1000) :: u64) div 0x1000 = of_nat i"
    by simp
  then show ?thesis by (simp add: page_addr_def)
qed

section \<open>The operations on areas\<close>

lemma index_i32: "i \<le> 1000000 \<Longrightarrow> unat (of_nat i :: i32) = i \<and> 0 \<le> sint (of_nat i :: i32) \<and>
    (ucast (of_nat i :: i32) :: u64) = of_nat i \<and> (ucast (of_nat i :: u64) :: i32) = of_nat i"
proof -
  assume i: "i \<le> 1000000"
  have u: "unat (of_nat i :: i32) = i" using i by (simp add: unsigned_of_nat take_bit_nat_eq_self)
  moreover have "0 \<le> sint (of_nat i :: i32)" unfolding sint_i32_nonneg u using i by simp
  moreover have "(ucast (of_nat i :: i32) :: u64) = of_nat i"
    by (rule word_unat_eq_iff [THEN iffD2]) (use i u in \<open>simp add: unsigned_ucast_eq take_bit_nat_eq_self unsigned_of_nat\<close>)
  moreover have "(ucast (of_nat i :: u64) :: i32) = of_nat i"
    by (rule word_unat_eq_iff [THEN iffD2]) (use i u in \<open>simp add: unsigned_ucast_eq take_bit_nat_eq_self unsigned_of_nat\<close>)
  ultimately show ?thesis by blast
qed

lemma find_unused_page_found:
  assumes n: "unat n \<le> 1000000" and free: "\<exists>i < unat n. \<not> bit_set d i"
  shows "\<exists>i < unat n. \<not> bit_set d i \<and> (\<forall>j < i. bit_set d j) \<and>
    find_unused_page d n = Inr (of_nat i, d(i div 8 := d (i div 8) OR push_bit (i mod 8) 1))"
proof -
  obtain i where i: "i < unat n" "\<not> bit_set d i" "\<forall>j < i. bit_set d j"
    using free exists_least_iff [of "\<lambda>i. i < unat n \<and> \<not> bit_set d i"] by (meson order.strict_trans)
  have "unat ((n + 7) div 8) * 8 \<ge> unat n"
  proof -
    have "unat (n + 7) = unat n + 7" using n unat_add_u64 [of n 7] by simp
    then show ?thesis unfolding unat_div by simp
  qed
  then have "first_index (unat ((n + 7) div 8) * 8) (\<lambda>page. page \<ge> unat n \<or> \<not> bit_set d page) = Some i"
    using i by (auto simp: first_index_Some)
  moreover have "n \<noteq> 0" using i(1) by auto
  moreover have "\<not> n > 1000000" using n by (simp add: word_less_nat_alt)
  ultimately have "find_unused_page d n = Inr (of_nat i, d(i div 8 := d (i div 8) OR push_bit (i mod 8) 1))"
    using i(1) by (simp add: find_unused_page_def)
  then show ?thesis using i by blast
qed

text \<open>The first page that is not in use, in the first area that has one.\<close>

lemma allocate_from_spec:
  assumes "list_all area_inv as"
  shows "\<exists>p as'. allocate_from as = Inr (p, as') \<and>
    (p = NULL \<and> as' = as \<and> (\<forall>a \<in> set as. taken a = {..<unat (a_pages_count a)}) \<or>
     (\<exists>pre a post i. as = pre @ a # post \<and> i < unat (a_pages_count a) \<and> i \<notin> taken a \<and>
        p = page_addr a i \<and> as' = pre @ mark_page a i # post))"
  using assms
proof (induction as)
  case Nil
  then show ?case by simp
next
  case (Cons a as)
  have inv: "area_inv a" using Cons.prems by simp
  show ?case
  proof (cases "a_used a \<ge> a_pages_count a")
    case True
    have "taken a = {..<unat (a_pages_count a)}"
      by (rule card_subset_eq) (use True taken_subset [of a] inv card_mono [OF _ taken_subset [of a]] in
        \<open>auto simp: area_inv_def word_le_nat_alt\<close>)
    moreover obtain p as' where "allocate_from as = Inr (p, as')"
      "p = NULL \<and> as' = as \<and> (\<forall>a \<in> set as. taken a = {..<unat (a_pages_count a)}) \<or>
       (\<exists>pre a post i. as = pre @ a # post \<and> i < unat (a_pages_count a) \<and> i \<notin> taken a \<and>
          p = page_addr a i \<and> as' = pre @ mark_page a i # post)"
      using Cons.IH Cons.prems unfolding list.pred_inject by blast
    ultimately show ?thesis
      using True by (simp, metis append_Cons)
  next
    case False
    then have "card (taken a) < unat (a_pages_count a)"
      using inv by (simp add: area_inv_def word_le_nat_alt)
    then have "\<exists>i < unat (a_pages_count a). \<not> bit_set (a_data a) i"
      using card_mono [OF finite_taken [of a], of "{..<unat (a_pages_count a)}"]
      by (force simp: taken_def)
    then obtain i where i: "i < unat (a_pages_count a)" "\<not> bit_set (a_data a) i"
      "find_unused_page (a_data a) (a_pages_count a) =
        Inr (of_nat i, (a_data a)(i div 8 := a_data a (i div 8) OR push_bit (i mod 8) 1))"
      using find_unused_page_found [of "a_pages_count a" "a_data a"] inv by (auto simp: area_inv_def)
    have "i \<le> 1000000" using i(1) inv by (simp add: area_inv_def)
    note w = index_i32 [OF this]
    have "\<not> (of_nat i :: u64) \<ge> a_pages_count a"
      using i(1) inv unat_of_nat_u64 [of i] by (simp add: area_inv_def word_le_nat_alt)
    then have "allocate_from (a # as) = Inr (page_addr a i, mark_page a i # as)"
      using False i(3) w by (simp add: page_addr_def mark_page_def)
    moreover have "i \<notin> taken a" using i(2) by (simp add: taken_def)
    ultimately show ?thesis
      using i(1) by (intro exI [of _ "page_addr a i"] exI [of _ "mark_page a i # as"] conjI disjI2
          exI [of _ "[]"] exI [of _ a] exI [of _ as] exI [of _ i]) simp_all
  qed
qed

lemma clear_page_addr:
  assumes "area_inv a" "i < unat (a_pages_count a)"
  shows "clear_page a (page_addr a i) = Inr (unmark_page a i)"
proof -
  have "i \<le> 1000000" using assms by (simp add: area_inv_def)
  from index_i32 [OF this] show ?thesis
    unfolding clear_page_def page_number [OF assms] unmark_page_def by (simp add: Let_def)
qed

lemma free_in_spec:
  assumes "list_all area_inv (pre @ a # post)" "sorted_wrt apart (pre @ a # post)"
    and i: "i < unat (a_pages_count a)"
  shows "free_in (page_addr a i) (pre @ a # post) = Inr (pre @ unmark_page a i # post)"
  using assms
proof (induction pre)
  case Nil
  then show ?case
    using page_addr_bounds(1,2) [of a i] by (simp add: contains_page_iff clear_page_addr)
next
  case (Cons b pre)
  then have "\<not> contains_page b (page_addr a i)"
    using page_addr_bounds(1,2) [of a i] by (auto simp: contains_page_iff apart_def)
  with Cons show ?case by simp
qed

section \<open>The interface of a page source\<close>

text \<open>
  What the paging code relies on: a page handed out is a managed page that was not in use, the null
  pointer means that every page is in use, and a page in use can be given back.
\<close>

primrec get_many :: "('s \<Rightarrow> (u64 \<times> 's) res) \<Rightarrow> nat \<Rightarrow> 's \<Rightarrow> (u64 list \<times> 's) res" where
  "get_many get 0 s = Inr ([], s)"
| "get_many get (Suc n) s =
     bind_res (get s) (\<lambda>(p, s). bind_res (get_many get n s) (\<lambda>(ps, s). Inr (p # ps, s)))"

locale page_source =
  fixes ok :: "'s \<Rightarrow> bool"
    and managed :: "'s \<Rightarrow> u64 set"
    and in_use :: "'s \<Rightarrow> u64 set"
    and get :: "'s \<Rightarrow> (u64 \<times> 's) res"
    and put :: "'s \<Rightarrow> u64 \<Rightarrow> 's res"
  assumes get_ok: "ok s \<Longrightarrow> \<exists>p s'. get s = Inr (p, s') \<and> ok s' \<and> managed s' = managed s \<and>
      (if p = NULL then s' = s \<and> in_use s = managed s
       else p \<in> managed s - in_use s \<and> in_use s' = insert p (in_use s))"
    and put_ok: "ok s \<Longrightarrow> p \<in> in_use s \<Longrightarrow>
      \<exists>s'. put s p = Inr s' \<and> ok s' \<and> managed s' = managed s \<and> in_use s' = in_use s - {p}"
    and managed_page: "ok s \<Longrightarrow> p \<in> managed s \<Longrightarrow> p \<noteq> NULL \<and> unat p mod 0x1000 = 0"
    and managed_finite: "ok s \<Longrightarrow> finite (managed s)"
begin

lemma get_fresh:
  assumes "ok s" "in_use s \<subset> managed s"
  shows "\<exists>p s'. get s = Inr (p, s') \<and> ok s' \<and> managed s' = managed s \<and> p \<noteq> NULL \<and>
    p \<in> managed s - in_use s \<and> in_use s' = insert p (in_use s)"
  using get_ok [OF assms(1)] assms(2) by (auto split: if_splits)

lemma get_put:
  assumes "ok s" "get s = Inr (p, s')" "p \<noteq> NULL"
  shows "\<exists>s''. put s' p = Inr s'' \<and> ok s'' \<and> managed s'' = managed s \<and> in_use s'' = in_use s"
  using get_ok [OF assms(1)] assms(2,3) put_ok [of s' p] by (auto split: if_splits)

text \<open>As many calls as there are unused pages hand out distinct pages, all of them unused before.\<close>

lemma get_many_distinct:
  assumes "ok s" "in_use s \<subseteq> managed s" "n \<le> card (managed s - in_use s)"
  shows "\<exists>ps s'. get_many get n s = Inr (ps, s') \<and> ok s' \<and> length ps = n \<and> distinct ps \<and>
    set ps \<subseteq> managed s - in_use s \<and> in_use s' = in_use s \<union> set ps \<and> managed s' = managed s"
  using assms
proof (induction n arbitrary: s)
  case 0
  then show ?case by simp
next
  case (Suc n)
  have "managed s - in_use s \<noteq> {}" using Suc.prems(3) by (metis card.empty not_less_eq_eq zero_le)
  then have "in_use s \<subset> managed s" using Suc.prems(2) by auto
  from get_fresh [OF Suc.prems(1) this] obtain p s1 where s1: "get s = Inr (p, s1)" "ok s1"
    "managed s1 = managed s" "p \<in> managed s - in_use s" "in_use s1 = insert p (in_use s)" by auto
  have "managed s1 - in_use s1 = managed s - in_use s - {p}" using s1 by auto
  then have "n \<le> card (managed s1 - in_use s1)"
    using Suc.prems(3) s1(4) managed_finite [OF Suc.prems(1)] by simp
  then obtain ps s2 where "get_many get n s1 = Inr (ps, s2)" "ok s2" "length ps = n" "distinct ps"
    "set ps \<subseteq> managed s1 - in_use s1" "in_use s2 = in_use s1 \<union> set ps" "managed s2 = managed s1"
    using Suc.IH [OF s1(2)] Suc.prems(2) s1(3,4,5) by auto
  with s1 show ?case by (intro exI [of _ "p # ps"] exI [of _ s2]) auto
qed

end

text \<open>The bitmap allocator provides it.\<close>

definition ba_managed :: "bitmap_allocator \<Rightarrow> u64 set" where
  "ba_managed ba = (\<Union>a \<in> set (ba_areas ba). area_pages a)"

definition ba_in_use :: "bitmap_allocator \<Rightarrow> u64 set" where
  "ba_in_use ba = (\<Union>a \<in> set (ba_areas ba). area_in_use a)"

lemma area_in_use_subset: "area_in_use a \<subseteq> area_pages a"
  using taken_subset by (auto simp: area_in_use_def area_pages_def)

lemma area_pages_apart:
  assumes "area_inv a" "area_inv b" "apart a b"
  shows "area_pages a \<inter> area_pages b = {}"
  using assms page_addr_bounds(1,2) [OF assms(1)] page_addr_bounds(1,2) [OF assms(2)]
  by (fastforce simp: area_pages_def apart_def)

lemma area_in_use_mark:
  "i < unat (a_pages_count a) \<Longrightarrow> area_in_use (mark_page a i) = insert (page_addr a i) (area_in_use a)"
  by (auto simp: area_in_use_def taken_mark)

lemma area_in_use_unmark:
  assumes "area_inv a" "i < unat (a_pages_count a)"
  shows "area_in_use (unmark_page a i) = area_in_use a - {page_addr a i}"
  using page_addr_inj [OF assms(1) _ assms(2)] taken_subset [of a]
  by (auto simp: area_in_use_def taken_unmark)

text \<open>A page address of one area belongs to no other.\<close>

lemma apart_pages:
  assumes "list_all area_inv (pre @ a # post)" "sorted_wrt apart (pre @ a # post)"
    and "b \<in> set pre \<union> set post"
  shows "area_pages a \<inter> area_pages b = {}"
proof -
  have "area_inv a" "area_inv b" using assms(1,3) by (auto simp: list_all_iff)
  moreover have "apart b a \<or> apart a b"
    using assms(2,3) by (auto simp: sorted_wrt_append)
  ultimately show ?thesis using area_pages_apart [of a b] area_pages_apart [of b a] by blast
qed

lemma apart_cong:
  "a_first_page a' = a_first_page a \<Longrightarrow> area_end a' = area_end a \<Longrightarrow> apart a' b = apart a b"
  "a_first_page a' = a_first_page a \<Longrightarrow> area_end a' = area_end a \<Longrightarrow> apart b a' = apart b a"
  by (simp_all add: apart_def)

lemma ba_inv_update:
  assumes "ba_inv \<lparr>ba_areas = pre @ a # post\<rparr>" "area_inv a'"
    and "a_first_page a' = a_first_page a" "area_end a' = area_end a"
  shows "ba_inv \<lparr>ba_areas = pre @ a' # post\<rparr>"
  using assms apart_cong [OF assms(3,4)] by (simp add: ba_inv_def sorted_wrt_append)

interpretation bitmap_pages: page_source ba_inv ba_managed ba_in_use allocate_page free_page
proof
  fix ba
  assume inv: "ba_inv ba"
  define as where "as = ba_areas ba"
  have ba: "ba = \<lparr>ba_areas = as\<rparr>" by (simp add: as_def)
  have la: "list_all area_inv as" using inv by (simp add: ba_inv_def as_def)
  from allocate_from_spec [OF la] obtain p as' where r: "allocate_from as = Inr (p, as')"
    "p = NULL \<and> as' = as \<and> (\<forall>a \<in> set as. taken a = {..<unat (a_pages_count a)}) \<or>
     (\<exists>pre a post i. as = pre @ a # post \<and> i < unat (a_pages_count a) \<and> i \<notin> taken a \<and>
        p = page_addr a i \<and> as' = pre @ mark_page a i # post)" by blast
  have run: "allocate_page ba = Inr (p, \<lparr>ba_areas = as'\<rparr>)" using r(1) by (simp add: allocate_page_def ba)
  from r(2) have "ba_inv \<lparr>ba_areas = as'\<rparr> \<and> ba_managed \<lparr>ba_areas = as'\<rparr> = ba_managed ba \<and>
      (if p = NULL then \<lparr>ba_areas = as'\<rparr> = ba \<and> ba_in_use ba = ba_managed ba
       else p \<in> ba_managed ba - ba_in_use ba \<and> ba_in_use \<lparr>ba_areas = as'\<rparr> = insert p (ba_in_use ba))"
  proof (elim disjE exE conjE)
    assume "p = NULL" "as' = as" "\<forall>a \<in> set as. taken a = {..<unat (a_pages_count a)}"
    then show ?thesis using inv by (simp add: ba ba_in_use_def ba_managed_def area_in_use_def area_pages_def)
  next
    fix pre a post i
    assume as: "as = pre @ a # post" "i < unat (a_pages_count a)" "i \<notin> taken a" "p = page_addr a i"
      "as' = pre @ mark_page a i # post"
    have a: "area_inv a" using la as(1) by simp
    have p: "p \<noteq> NULL" "p \<in> area_pages a" "p \<notin> area_in_use a"
      using as(2-4) page_addr_bounds(3) [OF a as(2)] page_addr_inj [OF a as(2)] taken_subset [of a]
      by (auto simp: area_pages_def area_in_use_def)
    have "p \<notin> area_pages b" if "b \<in> set pre \<union> set post" for b
      using apart_pages [OF _ _ that] la inv p(2) as(1) by (auto simp: ba_inv_def as_def)
    then have "p \<notin> ba_in_use ba"
      using p(3) area_in_use_subset by (fastforce simp: ba ba_in_use_def as(1))
    moreover have "ba_inv \<lparr>ba_areas = as'\<rparr>"
      unfolding as(5) by (rule ba_inv_update [of pre a]) (use inv ba as(1) area_inv_mark [OF a as(2,3)] in auto)
    ultimately show ?thesis
      using p as(1,5) area_in_use_mark [OF as(2)] as(4) by (auto simp: ba ba_in_use_def ba_managed_def)
  qed
  with run show "\<exists>p ba'. allocate_page ba = Inr (p, ba') \<and> ba_inv ba' \<and> ba_managed ba' = ba_managed ba \<and>
      (if p = NULL then ba' = ba \<and> ba_in_use ba = ba_managed ba
       else p \<in> ba_managed ba - ba_in_use ba \<and> ba_in_use ba' = insert p (ba_in_use ba))"
    by (intro exI [of _ p] exI [of _ "\<lparr>ba_areas = as'\<rparr>"]) blast
next
  fix ba p
  assume inv: "ba_inv ba" and p: "p \<in> ba_in_use ba"
  obtain a i where a: "a \<in> set (ba_areas ba)" "i \<in> taken a" "p = page_addr a i"
    using p by (auto simp: ba_in_use_def area_in_use_def)
  obtain pre post where as: "ba_areas ba = pre @ a # post" using a(1) by (meson split_list)
  have ia: "area_inv a" and i: "i < unat (a_pages_count a)"
    using inv as a(2) taken_subset [of a] by (auto simp: ba_inv_def)
  let ?ba = "\<lparr>ba_areas = pre @ unmark_page a i # post\<rparr>"
  have "free_page ba p = Inr ?ba"
    using free_in_spec [of pre a post i] inv as i a(3) by (simp add: free_page_def ba_inv_def)
  moreover have "ba_inv ?ba"
  proof (rule ba_inv_update)
    show "ba_inv \<lparr>ba_areas = pre @ a # post\<rparr>" using inv as by (simp add: ba_inv_def)
  qed (use area_inv_unmark [OF ia a(2)] in simp_all)
  moreover have "ba_managed ?ba = ba_managed ba" by (auto simp: ba_managed_def as)
  moreover have "p \<notin> area_in_use b" if "b \<in> set pre \<union> set post" for b
    using apart_pages [OF _ _ that, of a] inv as a(3) i area_in_use_subset [of b]
    by (auto simp: ba_inv_def area_pages_def)
  then have "ba_in_use ?ba = ba_in_use ba - {p}"
    using area_in_use_unmark [OF ia i] a(3) by (auto simp: ba_in_use_def as)
  ultimately show "\<exists>ba'. free_page ba p = Inr ba' \<and> ba_inv ba' \<and> ba_managed ba' = ba_managed ba \<and>
      ba_in_use ba' = ba_in_use ba - {p}" by blast
next
  fix ba p
  assume "ba_inv ba" "p \<in> ba_managed ba"
  then show "p \<noteq> NULL \<and> unat p mod 0x1000 = 0"
    using page_addr_bounds(3,4) by (auto simp: ba_inv_def ba_managed_def area_pages_def list_all_iff)
next
  fix ba
  show "finite (ba_managed ba)" by (simp add: ba_managed_def area_pages_def)
qed

section \<open>The size of an area header\<close>

lemma header_step_unat:
  assumes "unat pc < 2 ^ 60" "unat h \<le> unat pc"
  shows "unat (header_step pc h) = (24 + (unat pc - unat h + 7) div 8 + 0xfff) div 0x1000"
proof -
  have u1: "unat (pc - h) = unat pc - unat h" using assms(2) unat_sub_u64 [of h pc] by (simp add: word_le_nat_alt)
  then have "unat (pc - h + 7) = unat pc - unat h + 7" using assms(1) unat_add_u64 [of "pc - h" 7] by simp
  then have u2: "unat (bitmap_bytes_for (pc - h)) = (unat pc - unat h + 7) div 8"
    by (simp add: bitmap_bytes_for_def unat_div)
  define b where "b = bitmap_bytes_for (pc - h)"
  have b: "unat b < 2 ^ 60" unfolding b_def u2 using assms(1) by linarith
  then have u3: "unat (24 + b + 0x1000 - 1) = 24 + unat b + 0xfff"
    using unat_add_of_nat_u64 [of b "0x1017"] by (simp add: add.commute)
  then have "unat ((24 + b + 0x1000 - 1) div 0x1000) = (24 + unat b + 0xfff) div 0x1000"
    by (simp add: unat_div)
  moreover have "(24 + unat b + 0xfff) div 0x1000 \<noteq> 0" by (simp add: div_eq_0_iff)
  ultimately show ?thesis
    using u2 by (auto simp: header_step_def OFFSET_OF_DATA_IN_AREA_def Let_def b_def)
qed

lemma header_step_bounds:
  assumes "2 \<le> unat pc" "unat pc < 2 ^ 60" "unat h \<le> unat pc"
  shows "1 \<le> unat (header_step pc h)" "unat (header_step pc h) < unat pc"
proof -
  have "(24 + (unat pc - unat h + 7) div 8 + 0xfff) div 0x1000 \<le> (24 + (unat pc + 7) div 8 + 0xfff) div 0x1000"
    by (intro div_le_mono add_mono) simp_all
  also have "\<dots> < unat pc" using assms(1) by linarith
  finally show "unat (header_step pc h) < unat pc" using header_step_unat [OF assms(2,3)] by simp
  have "1 \<le> (24 + (unat pc - unat h + 7) div 8 + 0xfff) div 0x1000"
    by (simp add: Suc_le_eq div_greater_zero_iff)
  then show "1 \<le> unat (header_step pc h)" using header_step_unat [OF assms(2,3)] by simp
qed

text \<open>When the loop ends, it has found a fixed point, and the bitmap fits into the header.\<close>

lemma calc_header_pages_fixed:
  assumes pc: "2 \<le> unat pc" "unat pc < 2 ^ 60" and r: "calc_header_pages pc = Inr h"
  shows "header_step pc h = h" "1 \<le> unat h" "unat h < unat pc"
    "24 + (unat (pc - h) + 7) div 8 \<le> unat h * 0x1000"
proof -
  let ?I = "\<lambda>(header, prev). header = header_step pc prev \<and> unat prev \<le> unat pc"
  obtain q where q: "while_option (\<lambda>(header, prev). header \<noteq> prev)
      (\<lambda>(header, prev). (header_step pc header, header)) (header_step pc 1, 1) = Some (h, q)"
    using r by (auto simp: calc_header_pages_def returns_def split: option.splits)
  have "?I (h, q)"
  proof (rule while_option_rule [OF _ q])
    show "?I (header_step pc 1, 1)" using pc by simp
  next
    fix s assume "?I s" "case s of (header, prev) \<Rightarrow> header \<noteq> prev"
    then show "?I (case s of (header, prev) \<Rightarrow> (header_step pc header, header))"
      using header_step_bounds(2) [OF pc] by (cases s) (auto intro: less_imp_le)
  qed
  moreover have "h = q" using while_option_stop [OF q] by simp
  ultimately show fixed: "header_step pc h = h" and le: "1 \<le> unat h" "unat h < unat pc"
    using header_step_bounds [OF pc, of h] by auto
  have "unat h = (24 + (unat pc - unat h + 7) div 8 + 0xfff) div 0x1000"
    using header_step_unat [OF pc(2), of h] le fixed by simp
  moreover have "unat (pc - h) = unat pc - unat h"
    using le unat_sub_u64 [of h pc] by (simp add: word_le_nat_alt)
  ultimately show "24 + (unat (pc - h) + 7) div 8 \<le> unat h * 0x1000" by linarith
qed

text \<open>Up to 32577 pages one header page is enough, and the loop ends at once.\<close>

lemma calc_header_pages_small:
  assumes "2 \<le> unat pc" "unat pc \<le> 32577"
  shows "calc_header_pages pc = Inr 1"
proof -
  have "unat (header_step pc 1) = (24 + (unat pc - 1 + 7) div 8 + 0xfff) div 0x1000"
    using header_step_unat [of pc 1] assms by simp
  also have "\<dots> = 1" using assms by linarith
  finally have "header_step pc 1 = 1" by (simp add: word_unat_eq_iff)
  then show ?thesis by (simp add: calc_header_pages_def while_option_unfold)
qed

section \<open>The areas of a memory map\<close>

definition usable :: "limine_memmap_entry \<Rightarrow> bool" where
  "usable e \<longleftrightarrow> me_type e = LIMINE_MEMMAP_USABLE \<and> me_length e \<ge> 0x2000"

definition entry_end :: "limine_memmap_entry \<Rightarrow> nat" where
  "entry_end e = unat (me_base e) + unat (me_length e)"

text \<open>
  What the boot protocol promises of a memory map: usable entries are page-aligned, inside the
  address space and do not overlap.  The last part is the limit of \<open>find_unused_page\<close>.
\<close>

definition memmap_ok :: "limine_memmap_entry list \<Rightarrow> bool" where
  "memmap_ok es \<longleftrightarrow>
     (\<forall>e \<in> set es. usable e \<longrightarrow> unat (me_base e) mod 0x1000 = 0 \<and> entry_end e < 2 ^ 64 \<and>
        unat (me_length e) div 0x1000 \<le> 1000000) \<and>
     sorted_wrt (\<lambda>d e. usable d \<longrightarrow> usable e \<longrightarrow>
        entry_end d \<le> unat (me_base e) \<or> entry_end e \<le> unat (me_base d)) es"

lemma memset_zero:
  assumes "k < unat n"
  shows "snd (memset m s 0 n) (s + of_nat k) = 0"
  using assms memset_block(1) [of m s 0 n] nth_bytes_at [of k "unat n" "snd (memset m s 0 n)" s] by simp

lemma init_area_inv:
  assumes u: "usable e" and e: "unat (me_base e) mod 0x1000 = 0" "entry_end e < 2 ^ 64"
      "unat (me_length e) div 0x1000 \<le> 1000000"
    and r: "init_area m offset e = Inr a"
  shows "area_inv a" "taken a = {}" "unat (me_base e) + 0x1000 \<le> unat (a_first_page a)"
    "area_end a \<le> entry_end e"
proof -
  define pc where "pc = me_length e div 0x1000"
  obtain h where h: "calc_header_pages pc = Inr h" and
    a: "a_first_page a = me_base e + h * 0x1000" "a_pages_count a = pc - h" "a_used a = 0"
      "a_data a = (\<lambda>i. snd (memset m (me_base e + offset) 0 (h * 0x1000))
         (me_base e + offset + OFFSET_OF_DATA_IN_AREA + of_nat i))"
    using r by (auto simp: init_area_def pc_def Let_def)
  have upc: "unat pc = unat (me_length e) div 0x1000" by (simp add: pc_def unat_div)
  have "unat (0x2000 :: u64) \<le> unat (me_length e)" using u by (simp add: usable_def word_le_nat_alt)
  then have pc: "2 \<le> unat pc" "unat pc < 2 ^ 60" using e(3) unfolding upc by simp_all
  note fx = calc_header_pages_fixed [OF pc h]
  have pl: "unat pc * 0x1000 \<le> unat (me_length e)" unfolding upc by (rule div_times_less_eq_dividend)
  have c: "unat (a_pages_count a) = unat pc - unat h"
    using fx(3) unat_sub_u64 [of h pc] by (simp add: a(2) word_le_nat_alt)
  have hm: "unat (h * 0x1000) = unat h * 0x1000"
    using fx(3) pl unat_u64_lt [of "me_length e"] by (simp add: unat_word_ariths)
  have fp: "unat (a_first_page a) = unat (me_base e) + unat h * 0x1000"
    unfolding a(1) using unat_add_u64 [of "me_base e" "h * 0x1000"] hm e(2) fx(3) pl
    by (simp add: entry_end_def)
  have en: "area_end a = unat (me_base e) + unat pc * 0x1000"
    using fx(3) by (simp add: area_end_def fp c diff_mult_distrib)
  then show "area_end a \<le> entry_end e" using pl by (simp add: entry_end_def)
  have "a_data a k = 0" if "24 + k < unat h * 0x1000" for k
    using memset_zero [of "24 + k" "h * 0x1000" m "me_base e + offset"] that hm
    by (simp add: a(4) OFFSET_OF_DATA_IN_AREA_def add.assoc)
  moreover have "24 + i div 8 < unat h * 0x1000" if "i < unat (a_pages_count a)" for i
    using that fx(4) unfolding a(2) by linarith
  ultimately show t: "taken a = {}" by (auto simp: taken_def bit_set_def)
  show f: "unat (me_base e) + 0x1000 \<le> unat (a_first_page a)" using fp fx(2) by simp
  have "unat (a_first_page a) mod 0x1000 = 0" unfolding fp using e(1) by simp
  moreover have "unat (a_pages_count a) \<le> 1000000" using c upc e(3) by simp
  moreover have "area_end a < 2 ^ 64" using en pl e(2) by (simp add: entry_end_def)
  ultimately show "area_inv a" using t f by (simp add: area_inv_def a(3))
qed

text \<open>
  The areas built from the entries of a memory map, in order: \<open>init_areas\<close> collects one area for
  each usable entry.
\<close>

lemma init_areas_areas:
  "init_areas m offset es as = Inr as' \<Longrightarrow>
   \<exists>bs. as' = as @ bs \<and> list_all2 (\<lambda>e b. init_area m offset e = Inr b) (filter usable es) bs"
proof (induction es arbitrary: as)
  case Nil
  then show ?case by simp
next
  case (Cons e es)
  show ?case
  proof (cases "usable e")
    case True
    then obtain b where b: "init_area m offset e = Inr b" "init_areas m offset es (as @ [b]) = Inr as'"
      using Cons.prems by (auto simp: usable_def split: if_splits)
    from Cons.IH [OF b(2)] True b(1) show ?thesis by force
  next
    case False
    then have "init_areas m offset es as = Inr as'" using Cons.prems by (auto simp: usable_def split: if_splits)
    from Cons.IH [OF this] False show ?thesis by simp
  qed
qed

lemma sorted_wrt_list_all2:
  assumes "list_all2 P xs ys" "sorted_wrt R xs"
    and "\<And>x y x' y'. x \<in> set xs \<Longrightarrow> x' \<in> set xs \<Longrightarrow> R x x' \<Longrightarrow> P x y \<Longrightarrow> P x' y' \<Longrightarrow> S y y'"
  shows "sorted_wrt S ys"
  using assms
proof (induction rule: list_all2_induct)
  case Nil
  then show ?case by simp
next
  case (Cons x xs y ys)
  have "S y y'" if "y' \<in> set ys" for y'
  proof -
    obtain i where i: "i < length ys" "y' = ys ! i" using \<open>y' \<in> set ys\<close> by (auto simp: in_set_conv_nth)
    then have "i < length xs" "P (xs ! i) y'" using Cons.hyps(2) by (auto simp: list_all2_conv_all_nth)
    moreover from this(1) have "xs ! i \<in> set xs" by simp
    ultimately show ?thesis using Cons.prems(1) Cons.prems(2) [of x "xs ! i" y y'] Cons.hyps(1) by simp
  qed
  moreover have "sorted_wrt S ys"
    by (rule Cons.IH) (use Cons.prems(1) in simp, metis Cons.prems(2) list.set_intros(2))
  ultimately show ?case by simp
qed

lemma init_ba_inv:
  assumes ok: "memmap_ok es" and r: "bitmap_allocator_init m es offset = Inr ba"
  shows "ba_inv ba" "ba_in_use ba = {}"
    "p \<in> ba_managed ba \<Longrightarrow> \<exists>e \<in> set es. usable e \<and> unat (me_base e) + 0x1000 \<le> unat p \<and>
       unat p + 0x1000 \<le> entry_end e"
proof -
  obtain bs where bs: "ba_areas ba = bs" "list_all2 (\<lambda>e b. init_area m offset e = Inr b) (filter usable es) bs"
    using r init_areas_areas [of m offset es "[]"] by (auto simp: bitmap_allocator_init_def)
  have ex: "\<exists>e \<in> set es. usable e \<and> init_area m offset e = Inr b" if "b \<in> set bs" for b
  proof -
    obtain i where i: "i < length bs" "b = bs ! i" using \<open>b \<in> set bs\<close> by (auto simp: in_set_conv_nth)
    then have "i < length (filter usable es)" "init_area m offset (filter usable es ! i) = Inr b"
      using bs(2) by (auto simp: list_all2_conv_all_nth)
    with nth_mem [OF this(1)] show ?thesis by auto
  qed
  note area = init_area_inv [of _ m offset]
  have eok: "unat (me_base e) mod 0x1000 = 0" "entry_end e < 2 ^ 64"
      "unat (me_length e) div 0x1000 \<le> 1000000" if "e \<in> set es" "usable e" for e
    using ok that by (auto simp: memmap_ok_def)
  have iv: "area_inv b \<and> taken b = {}" if b: "b \<in> set bs" for b
  proof -
    obtain e where e: "e \<in> set es" "usable e" "init_area m offset e = Inr b" using ex [OF b] by blast
    from area(1,2) [OF e(2) eok [OF e(1,2)] e(3)] show ?thesis by blast
  qed
  note inv = iv [THEN conjunct1] iv [THEN conjunct2]
  have "sorted_wrt (\<lambda>d e. entry_end d \<le> unat (me_base e) \<or> entry_end e \<le> unat (me_base d)) (filter usable es)"
  proof -
    have "sorted_wrt (\<lambda>d e. usable d \<longrightarrow> usable e \<longrightarrow>
        entry_end d \<le> unat (me_base e) \<or> entry_end e \<le> unat (me_base d)) (filter usable es)"
      using ok by (simp add: memmap_ok_def sorted_wrt_filter)
    then show ?thesis by (rule sorted_wrt_mono_rel [rotated]) simp
  qed
  then have "sorted_wrt apart bs"
  proof (rule sorted_wrt_list_all2 [OF bs(2)])
    fix d a e b
    assume *: "d \<in> set (filter usable es)" "e \<in> set (filter usable es)"
      "entry_end d \<le> unat (me_base e) \<or> entry_end e \<le> unat (me_base d)"
      "init_area m offset d = Inr a" "init_area m offset e = Inr b"
    then have "usable d" "usable e" "d \<in> set es" "e \<in> set es" by auto
    note ad = area(3,4) [OF \<open>usable d\<close> eok [OF \<open>d \<in> set es\<close> \<open>usable d\<close>] *(4)]
      and be = area(3,4) [OF \<open>usable e\<close> eok [OF \<open>e \<in> set es\<close> \<open>usable e\<close>] *(5)]
    from *(3) ad be show "apart a b" unfolding apart_def by linarith
  qed
  with inv show "ba_inv ba" by (simp add: ba_inv_def bs(1) list_all_iff)
  show "ba_in_use ba = {}" using inv(2) by (simp add: ba_in_use_def bs(1) area_in_use_def)
  assume "p \<in> ba_managed ba"
  then obtain b i where b: "b \<in> set bs" "p = page_addr b i" "i < unat (a_pages_count b)"
    by (auto simp: ba_managed_def bs(1) area_pages_def)
  obtain e where e: "e \<in> set es" "usable e" "init_area m offset e = Inr b" using ex [OF b(1)] by blast
  note pb = page_addr_bounds(1,2) [OF inv(1) [OF b(1)] b(3)]
    and ab = area(3,4) [OF e(2) eok [OF e(1,2)] e(3)]
  from pb ab b(2) e(1,2) show "\<exists>e \<in> set es. usable e \<and> unat (me_base e) + 0x1000 \<le> unat p \<and>
       unat p + 0x1000 \<le> entry_end e"
    by (intro bexI [of _ e]) auto
qed

section \<open>Properties\<close>

text \<open>A memory map with one usable region of 16 pages, for the witnesses.\<close>

definition memmap_sample :: "limine_memmap_entry list" where
  "memmap_sample = [\<lparr>me_base = 0x100000, me_length = 0x10000, me_type = 0\<rparr>]"

definition ba_sample :: bitmap_allocator where
  "ba_sample = \<lparr>ba_areas = [\<lparr>a_first_page = 0x101000, a_pages_count = 15, a_used = 1,
     a_data = (\<lambda>i. if i = 0 then 1 else 0)\<rparr>]\<rparr>"

lemma ba_sample_taken: "taken (hd (ba_areas ba_sample)) = {0}"
proof -
  have "i = 0" if "i < 15" "bit_set (\<lambda>i. if i = 0 then 1 else 0) i" for i
    using that by (cases "i div 8 = 0") (auto simp: bit_set_iff bit_1_iff)
  then show ?thesis by (auto simp: taken_def ba_sample_def bit_set_iff)
qed

lemma ba_sample_inv: "ba_inv ba_sample" "ba_in_use ba_sample = {0x101000}"
  using ba_sample_taken
  by (simp_all add: ba_sample_def ba_inv_def area_inv_def area_end_def ba_in_use_def area_in_use_def page_addr_def)


lemma memmap_sample_ok: "memmap_ok memmap_sample" "\<exists>ba. bitmap_allocator_init m memmap_sample 0 = Inr ba"
proof -
  show "memmap_ok memmap_sample" by (simp add: memmap_ok_def memmap_sample_def entry_end_def)
  have "calc_header_pages 0x10 = Inr 1" by (rule calc_header_pages_small) simp_all
  then show "\<exists>ba. bitmap_allocator_init m memmap_sample 0 = Inr ba"
    by (simp add: bitmap_allocator_init_def memmap_sample_def init_area_def LIMINE_MEMMAP_USABLE_def Let_def)
qed


text \<open>
  (C15) \<open>allocate_page\<close> returns and keeps the allocator well-formed: it hands out a managed page that
  was not in use, and answers with the null pointer only when every managed page is in use.
\<close>

theorem allocate_page_correct:
  assumes "ba_inv ba"
  shows "\<exists>p ba'. allocate_page ba = Inr (p, ba') \<and> ba_inv ba' \<and> ba_managed ba' = ba_managed ba \<and>
    (if p = NULL then ba' = ba \<and> ba_in_use ba = ba_managed ba
     else p \<in> ba_managed ba - ba_in_use ba \<and> unat p mod 0x1000 = 0 \<and>
          ba_in_use ba' = insert p (ba_in_use ba))"
  using bitmap_pages.get_ok [OF assms] bitmap_pages.managed_page [OF assms] by (auto split: if_splits)

theorem allocate_page_correct_witness: "\<exists>p ba'. allocate_page ba_sample = Inr (p, ba') \<and> ba_inv ba'"
  using allocate_page_correct [OF ba_sample_inv(1)] by blast

text \<open>
  Freeing the page that \<open>allocate_page\<close> has just returned, or any other page in use, gives back
  exactly that page.
\<close>

theorem free_page_correct:
  assumes "ba_inv ba" and "p \<in> ba_in_use ba"
  shows "\<exists>ba'. free_page ba p = Inr ba' \<and> ba_inv ba' \<and> ba_managed ba' = ba_managed ba \<and>
    ba_in_use ba' = ba_in_use ba - {p}"
  using bitmap_pages.put_ok [OF assms] .

theorem free_page_correct_witness:
  "\<exists>ba'. free_page ba_sample 0x101000 = Inr ba' \<and> ba_inv ba' \<and> ba_in_use ba' = {}"
  using free_page_correct [OF ba_sample_inv(1), of "0x101000"] unfolding ba_sample_inv(2) by auto

text \<open>
  Repeated calls of \<open>allocate_page\<close>, up to the number of unused pages, hand out pairwise distinct
  pages, all of them unused before.
\<close>

theorem allocate_pages_distinct:
  assumes "ba_inv ba" "n \<le> card (ba_managed ba - ba_in_use ba)"
  shows "\<exists>ps ba'. get_many allocate_page n ba = Inr (ps, ba') \<and> ba_inv ba' \<and> length ps = n \<and>
    distinct ps \<and> set ps \<subseteq> ba_managed ba - ba_in_use ba"
proof -
  have "ba_in_use ba \<subseteq> ba_managed ba"
    using area_in_use_subset by (fastforce simp: ba_in_use_def ba_managed_def)
  from bitmap_pages.get_many_distinct [OF assms(1) this assms(2)] show ?thesis by blast
qed

theorem allocate_pages_distinct_witness:
  "\<exists>ps ba'. get_many allocate_page 1 ba_sample = Inr (ps, ba') \<and> ba_inv ba' \<and> length ps = 1"
proof -
  have "page_addr (hd (ba_areas ba_sample)) 1 \<in> ba_managed ba_sample - ba_in_use ba_sample"
    unfolding ba_sample_inv(2) ba_managed_def area_pages_def
    by (auto simp: ba_sample_def page_addr_def intro: image_eqI [of _ _ 1])
  then have "1 \<le> card (ba_managed ba_sample - ba_in_use ba_sample)"
    using bitmap_pages.managed_finite [OF ba_sample_inv(1)] by (auto simp: Suc_le_eq card_gt_0_iff)
  from allocate_pages_distinct [OF ba_sample_inv(1) this] show ?thesis by blast
qed

text \<open>
  The computation of the header size does not always end: for a region of 32578 pages it
  alternates between one and two header pages forever.
\<close>

theorem calc_header_pages_hangs: "calc_header_pages 32578 = Inl Hang"
proof -
  have s: "header_step 32578 1 = 2" "header_step 32578 2 = 1"
    by (simp_all add: header_step_def OFFSET_OF_DATA_IN_AREA_def bitmap_bytes_for_def)
  have "while_option (\<lambda>(header, prev). header \<noteq> prev)
      (\<lambda>(header, prev). (header_step 32578 header, header)) (header_step 32578 1, 1) = None"
  proof (cases "while_option (\<lambda>(header, prev). header \<noteq> prev)
      (\<lambda>(header, prev). (header_step 32578 header, header)) (header_step 32578 1, 1)")
    case (Some t)
    have "t = (1, 2) \<or> t = (2, 1)"
      by (rule while_option_rule [OF _ Some, of "\<lambda>t. t = (1, 2) \<or> t = (2, 1)"]) (auto simp: s)
    then show ?thesis using while_option_stop [OF Some] by auto
  qed
  then show ?thesis by (simp add: calc_header_pages_def)
qed

text \<open>A region of more than a million pages halts the machine at the first allocation.\<close>

theorem find_unused_page_large: "1000000 < page_count \<Longrightarrow> find_unused_page bitmap page_count = Inl Halted"
  by (simp add: find_unused_page_def)

end
