(* ===== verification/Paging.thy ===== *)
theory Paging
  imports PageAlloc
begin

text \<open>
  The paging code, the second half of \<open>src/src/memory.c\<close>: four-level page tables in physical
  memory, mapping and unmapping of pages, and copying between address spaces.

  The kernel reaches physical memory through the direct map, at a fixed offset; the model indexes
  memory by physical address.  Page-table entries are 64-bit words at their addresses, the contents
  of pages are bytes.
\<close>

section \<open>State\<close>

record vm =
  vm_pt :: "u64 \<Rightarrow> u64"
  vm_mem :: mem
  vm_ba :: bitmap_allocator

definition PTE_P :: u64 where "PTE_P = 1"
definition PTE_PS :: u64 where "PTE_PS = 0x80"
definition PTE_ADDR :: "u64 \<Rightarrow> u64" where "PTE_ADDR pte = pte AND 0x000FFFFFFFFFF000"
definition PAGE_ROUND_DOWN :: "u64 \<Rightarrow> u64" where "PAGE_ROUND_DOWN a = a AND NOT 0xfff"

abbreviation PAGE_SIZE :: u64 where "PAGE_SIZE \<equiv> 0x1000"

section \<open>Mapping a page\<close>

text \<open>The address of entry \<open>i\<close> of a table, and a zeroed table.\<close>

definition entry_addr :: "u64 \<Rightarrow> u64 \<Rightarrow> u64" where
  "entry_addr table i = table + 8 * i"

definition zero_table :: "u64 \<Rightarrow> (u64 \<Rightarrow> u64) \<Rightarrow> u64 \<Rightarrow> u64" where
  "zero_table frame pt = (\<lambda>x. if \<exists>i<512. x = entry_addr frame (of_nat i) then 0 else pt x)"

definition ensure_table :: "u64 \<Rightarrow> i32 \<Rightarrow> vm \<Rightarrow> vm res" where
  "ensure_table e flags st =
     (if vm_pt st e AND 1 = 0 then
        bind_res (alloc_page_or_halt (vm_ba st)) (\<lambda>(frame, ba).
          Inr (st\<lparr>vm_ba := ba, vm_pt := (zero_table frame (vm_pt st))(e := frame OR scast flags)\<rparr>))
      else Inr st)"

definition ensure_page :: "u64 \<Rightarrow> i32 \<Rightarrow> vm \<Rightarrow> vm res" where
  "ensure_page e flags st =
     (if vm_pt st e AND 1 = 0 then
        bind_res (alloc_page_or_halt (vm_ba st)) (\<lambda>(frame, ba).
          Inr (st\<lparr>vm_ba := ba, vm_pt := (vm_pt st)(e := frame OR scast flags)\<rparr>))
      else Inr st)"

definition next_table :: "(u64 \<Rightarrow> u64) \<Rightarrow> u64 \<Rightarrow> u64" where
  "next_table pt e = pt e AND NOT 0xfff"

definition map_memory_page :: "u64 \<Rightarrow> u64 \<Rightarrow> i32 \<Rightarrow> vm \<Rightarrow> vm res" where
  "map_memory_page cr3 virt flags st =
     (let pml4_index = drop_bit 39 virt AND 0x1ff;
          pdp_index = drop_bit 30 virt AND 0x1ff;
          pd_index = drop_bit 21 virt AND 0x1ff;
          pt_index = drop_bit 12 virt AND 0x1ff;
          e4 = entry_addr cr3 pml4_index
      in bind_res (ensure_table e4 flags st) (\<lambda>st.
         let e3 = entry_addr (next_table (vm_pt st) e4) pdp_index in
         bind_res (ensure_table e3 flags st) (\<lambda>st.
         let e2 = entry_addr (next_table (vm_pt st) e3) pd_index in
         bind_res (ensure_table e2 flags st) (\<lambda>st.
         let e1 = entry_addr (next_table (vm_pt st) e2) pt_index in
         ensure_page e1 flags st))))"

section \<open>Walking the tables\<close>

definition pt_index :: "u64 \<Rightarrow> nat \<Rightarrow> u64" where
  "pt_index va level = drop_bit (12 + 9 * level) va AND 0x1ff"

text \<open>The loop of \<open>walk\<close> over the levels 3, 2 and 1; \<open>None\<close> is the null pointer.\<close>

primrec walk_levels :: "(u64 \<Rightarrow> u64) \<Rightarrow> u64 \<Rightarrow> nat \<Rightarrow> u64 \<Rightarrow> u64 option" where
  "walk_levels pt va 0 table = Some table"
| "walk_levels pt va (Suc level) table =
     (let entry = pt (entry_addr table (pt_index va (Suc level)))
      in if entry AND PTE_P = 0 then None
         else if entry AND PTE_PS \<noteq> 0 then None
         else walk_levels pt va level (PTE_ADDR entry))"

definition walk :: "(u64 \<Rightarrow> u64) \<Rightarrow> u64 \<Rightarrow> u64 \<Rightarrow> u64 option" where
  "walk pt pml4_phys va =
     map_option (\<lambda>table. entry_addr table (pt_index va 0)) (walk_levels pt va 3 pml4_phys)"

text \<open>A leaf entry that is present.\<close>

definition walk_present :: "(u64 \<Rightarrow> u64) \<Rightarrow> u64 \<Rightarrow> u64 \<Rightarrow> u64 option" where
  "walk_present pt pml4_phys va = (case walk pt pml4_phys va of None \<Rightarrow> None
     | Some pte \<Rightarrow> if pt pte AND PTE_P = 0 then None else Some pte)"

section \<open>Regions\<close>

text \<open>
  \<open>for (va = start; va < end; va += PAGE_SIZE)\<close> with a body that may fail: \<open>None\<close> when the loop
  variable wraps around forever.
\<close>

definition page_loop :: "(u64 \<Rightarrow> 's \<Rightarrow> 's res) \<Rightarrow> u64 \<Rightarrow> u64 \<Rightarrow> 's \<Rightarrow> 's res" where
  "page_loop body start end st =
     bind_res (returns (while_option (\<lambda>(va, r). va < end \<and> (case r of Inl _ \<Rightarrow> False | Inr _ \<Rightarrow> True))
       (\<lambda>(va, r). (va + PAGE_SIZE, bind_res r (body va))) (start, Inr st))) snd"

definition free_one :: "u64 \<Rightarrow> u64 \<Rightarrow> vm \<Rightarrow> vm res" where
  "free_one pml4_phys va st = (case walk_present (vm_pt st) pml4_phys va of None \<Rightarrow> Inr st
     | Some pte \<Rightarrow> bind_res (free_page (vm_ba st) (PTE_ADDR (vm_pt st pte))) (\<lambda>ba.
         Inr (st\<lparr>vm_ba := ba, vm_pt := (vm_pt st)(pte := 0)\<rparr>)))"

definition free_region :: "u64 \<Rightarrow> u64 \<Rightarrow> u64 \<Rightarrow> vm \<Rightarrow> vm res" where
  "free_region pml4_phys start end st = page_loop (free_one pml4_phys) (PAGE_ROUND_DOWN start) end st"

definition allocate_region :: "u64 \<Rightarrow> u64 \<Rightarrow> u64 \<Rightarrow> i32 \<Rightarrow> vm \<Rightarrow> vm res" where
  "allocate_region cr3 start end flags st =
     page_loop (\<lambda>va. map_memory_page cr3 va flags) (PAGE_ROUND_DOWN start) end st"

definition copy_one :: "u64 \<Rightarrow> u64 \<Rightarrow> u64 \<Rightarrow> i32 \<times> vm \<Rightarrow> (i32 \<times> vm) res" where
  "copy_one dst_pml4 src_pml4 va = (\<lambda>(copied, st).
     case walk_present (vm_pt st) src_pml4 va of None \<Rightarrow> Inr (copied, st)
     | Some src_pte \<Rightarrow> (case walk_present (vm_pt st) dst_pml4 va of None \<Rightarrow> Inr (copied, st)
       | Some dst_pte \<Rightarrow>
           let src_page = PTE_ADDR (vm_pt st src_pte); dst_page = PTE_ADDR (vm_pt st dst_pte)
           in Inr (copied + 1, st\<lparr>vm_mem := snd (memcpy (vm_mem st) dst_page src_page PAGE_SIZE)\<rparr>)))"

definition copy_pages_between_pagetables :: "u64 \<Rightarrow> u64 \<Rightarrow> u64 \<Rightarrow> u64 \<Rightarrow> vm \<Rightarrow> (i32 \<times> vm) res" where
  "copy_pages_between_pagetables dst_pml4 src_pml4 start len st =
     page_loop (copy_one dst_pml4 src_pml4) start (start + len) (0, st)"

section \<open>Tables as trees\<close>

text \<open>
  Following a path of indices from a table: \<open>None\<close> at an entry that is not present.  A path of
  length four ends at the frame of a mapped page.
\<close>

primrec tbl :: "(u64 \<Rightarrow> u64) \<Rightarrow> u64 \<Rightarrow> u64 list \<Rightarrow> u64 option" where
  "tbl pt a [] = Some a"
| "tbl pt a (i # is) =
     (let e = pt (entry_addr a i) in if e AND 1 = 0 then None else tbl pt (e AND NOT 0xfff) is)"

definition path :: "u64 \<Rightarrow> u64 list" where
  "path va = [pt_index va 3, pt_index va 2, pt_index va 1, pt_index va 0]"

text \<open>The paths of the lower half of the address space, which belongs to user processes.\<close>

definition upath :: "u64 list \<Rightarrow> bool" where
  "upath is \<longleftrightarrow> length is \<le> 4 \<and> (\<forall>i \<in> set is. i < 512) \<and> (is \<noteq> [] \<longrightarrow> hd is < 256)"

text \<open>
  The tables of a user address space: every path leads to a frame of its own, which is aligned,
  addressable by an entry and not available to the page allocator; entries of the upper levels do
  not map huge pages.
\<close>

definition pt_inv :: "(u64 \<Rightarrow> u64) \<Rightarrow> bitmap_allocator \<Rightarrow> u64 \<Rightarrow> bool" where
  "pt_inv pt ba cr3 \<longleftrightarrow>
     (\<forall>is a. upath is \<longrightarrow> tbl pt cr3 is = Some a \<longrightarrow>
        unat a mod 0x1000 = 0 \<and> unat a < 2 ^ 52 \<and> a \<notin> ba_managed ba - ba_in_use ba) \<and>
     (\<forall>is js a. upath is \<longrightarrow> upath js \<longrightarrow> tbl pt cr3 is = Some a \<longrightarrow> tbl pt cr3 js = Some a \<longrightarrow> is = js) \<and>
     (\<forall>is i a. upath (is @ [i]) \<longrightarrow> tbl pt cr3 is = Some a \<longrightarrow> length is < 3 \<longrightarrow>
        pt (entry_addr a i) AND PTE_PS = 0) \<and>
     (\<forall>is i a. upath (is @ [i]) \<longrightarrow> tbl pt cr3 is = Some a \<longrightarrow>
        pt (entry_addr a i) AND NOT 0xfff = PTE_ADDR (pt (entry_addr a i)))"

definition vm_inv :: "u64 \<Rightarrow> vm \<Rightarrow> bool" where
  "vm_inv cr3 st \<longleftrightarrow> ba_inv (vm_ba st) \<and> (\<forall>p \<in> ba_managed (vm_ba st). unat p < 2 ^ 52) \<and>
     pt_inv (vm_pt st) (vm_ba st) cr3"

text \<open>The frame that a virtual address is mapped to.\<close>

definition translate :: "(u64 \<Rightarrow> u64) \<Rightarrow> u64 \<Rightarrow> u64 \<Rightarrow> u64 option" where
  "translate pt cr3 va = tbl pt cr3 (path va)"

section \<open>Entries and paths\<close>

lemma unat_entry_addr:
  assumes "unat a mod 0x1000 = 0" "i < 512"
  shows "unat (entry_addr a i) = unat a + 8 * unat i"
proof -
  have i: "unat i < 512" using assms(2) by (simp add: word_less_nat_alt)
  obtain k where k: "unat a = 0x1000 * k" using assms(1) unfolding mod_eq_0_iff_dvd by (elim dvdE)
  have "k < 2 ^ 52" using unat_u64_lt [of a] k by simp
  then have "unat a + 8 * unat i < 2 ^ 64" using i k by simp
  moreover have "unat (8 * i) = 8 * unat i" using i by (simp add: unat_word_ariths)
  ultimately show ?thesis unfolding entry_addr_def using unat_add_u64 [of a "8 * i"] by simp
qed

lemma entry_addr_eq:
  assumes "unat a mod 0x1000 = 0" "unat b mod 0x1000 = 0" "i < 512" "j < 512"
  shows "entry_addr a i = entry_addr b j \<longleftrightarrow> a = b \<and> i = j"
proof
  assume "entry_addr a i = entry_addr b j"
  then have eq: "unat a + 8 * unat i = unat b + 8 * unat j"
    using unat_entry_addr [OF assms(1,3)] unat_entry_addr [OF assms(2,4)] by metis
  have ij: "8 * unat i < 0x1000" "8 * unat j < 0x1000"
    using assms(3,4) by (simp_all add: word_less_nat_alt)
  obtain k l where kl: "unat a = 0x1000 * k" "unat b = 0x1000 * l" using assms(1,2) unfolding mod_eq_0_iff_dvd by (elim dvdE)
  then have "k = l" using eq ij by simp
  with eq kl show "a = b \<and> i = j" by (simp add: word_unat_eq_iff)
qed simp

lemma tbl_append: "tbl pt a (is @ js) = Option.bind (tbl pt a is) (\<lambda>b. tbl pt b js)"
  by (induction "is" arbitrary: a) (auto simp: Let_def)

lemma tbl_snoc:
  "tbl pt a (is @ [i]) = (case tbl pt a is of None \<Rightarrow> None | Some b \<Rightarrow>
     if pt (entry_addr b i) AND 1 = 0 then None else Some (pt (entry_addr b i) AND NOT 0xfff))"
  by (auto simp: tbl_append Let_def split: option.splits)

lemma upath_append: "upath (is @ js) \<Longrightarrow> upath is"
  by (auto simp: upath_def split: if_splits)

lemma upath_last: "upath (is @ [i]) \<Longrightarrow> i < 512"
  by (auto simp: upath_def)

lemma pt_invD:
  assumes "pt_inv pt ba cr3" "upath is" "tbl pt cr3 is = Some a"
  shows "unat a mod 0x1000 = 0" "unat a < 2 ^ 52" "a \<notin> ba_managed ba - ba_in_use ba"
    "upath js \<Longrightarrow> tbl pt cr3 js = Some a \<Longrightarrow> is = js"
    "upath (is @ [i]) \<Longrightarrow> length is < 3 \<Longrightarrow> pt (entry_addr a i) AND PTE_PS = 0"
    "upath (is @ [i]) \<Longrightarrow> pt (entry_addr a i) AND NOT 0xfff = PTE_ADDR (pt (entry_addr a i))"
  using assms unfolding pt_inv_def by blast+

text \<open>
  Changing one entry changes only the paths through it, since no other path leads to its table.
\<close>

definition same_entries :: "(u64 \<Rightarrow> u64) \<Rightarrow> u64 \<Rightarrow> u64 \<Rightarrow> u64 \<Rightarrow> (u64 \<Rightarrow> u64) \<Rightarrow> bool" where
  "same_entries pt cr3 a i pt' \<longleftrightarrow> (\<forall>js b j. upath (js @ [j]) \<longrightarrow> tbl pt cr3 js = Some b \<longrightarrow>
     (b, j) \<noteq> (a, i) \<longrightarrow> pt' (entry_addr b j) = pt (entry_addr b j))"

lemma same_entriesD:
  "same_entries pt cr3 a i pt' \<Longrightarrow> upath (js @ [j]) \<Longrightarrow> tbl pt cr3 js = Some b \<Longrightarrow> (b, j) \<noteq> (a, i) \<Longrightarrow>
   pt' (entry_addr b j) = pt (entry_addr b j)"
  by (simp add: same_entries_def)

lemma tbl_other_paths:
  assumes inv: "pt_inv pt ba cr3" and xs: "tbl pt cr3 xs = Some a" "upath (xs @ [i])"
    and pt': "same_entries pt cr3 a i pt'"
  shows "upath ys \<Longrightarrow> \<not> (\<exists>zs. ys = (xs @ [i]) @ zs) \<Longrightarrow> tbl pt' cr3 ys = tbl pt cr3 ys"
proof (induction ys rule: rev_induct)
  case Nil
  then show ?case by simp
next
  case (snoc j js)
  have js: "upath js" using snoc.prems(1) by (rule upath_append)
  have IH: "tbl pt' cr3 js = tbl pt cr3 js"
    by (rule snoc.IH [OF js]) (use snoc.prems(2) in auto)
  show ?case
  proof (cases "tbl pt cr3 js")
    case (Some b)
    have "(b, j) \<noteq> (a, i)"
    proof
      assume eq: "(b, j) = (a, i)"
      then have "js = xs" using pt_invD(4) [OF inv js Some upath_append [OF xs(2)]] xs(1) by simp
      with eq snoc.prems(2) show False by auto
    qed
    from same_entriesD [OF pt' snoc.prems(1) Some this] IH Some show ?thesis by (simp add: tbl_snoc)
  qed (simp add: IH tbl_snoc)
qed

text \<open>A present entry for a fresh frame extends the tree by one path.\<close>

lemma tbl_extend:
  assumes inv: "pt_inv pt ba cr3" and xs: "tbl pt cr3 xs = Some a" "upath (xs @ [i])"
    and none: "pt (entry_addr a i) AND 1 = 0"
    and pt': "same_entries pt cr3 a i pt'"
    and e: "pt' (entry_addr a i) AND 1 \<noteq> 0" "pt' (entry_addr a i) AND NOT 0xfff = n"
    and zero: "length xs < 3 \<longrightarrow> (\<forall>j<512. pt' (entry_addr n j) = 0)"
    and ys: "upath ys"
  shows "tbl pt' cr3 ys = (if ys = xs @ [i] then Some n else tbl pt cr3 ys)"
proof (cases "\<exists>zs. ys = (xs @ [i]) @ zs")
  case True
  then obtain zs where zs: "ys = (xs @ [i]) @ zs" by blast
  have xs': "tbl pt' cr3 xs = Some a"
    using tbl_other_paths [OF inv xs pt' upath_append [OF xs(2)]] xs(1) by simp
  then have step: "tbl pt' cr3 ys = tbl pt' n zs" "tbl pt cr3 (xs @ [i]) = None"
    using e none xs(1) by (simp_all add: zs tbl_append Let_def)
  then have old: "tbl pt cr3 ys = None" unfolding zs by (simp only: tbl_append [of _ _ "xs @ [i]"]) simp
  show ?thesis
  proof (cases zs)
    case Nil
    then show ?thesis using step zs by simp
  next
    case (Cons j js)
    then have "length xs < 3" "j < 512" using ys zs by (auto simp: upath_def)
    from zero this step(1) old Cons zs show ?thesis by simp
  qed
next
  case False
  then have "ys \<noteq> xs @ [i]" by auto
  with tbl_other_paths [OF inv xs pt' ys False] show ?thesis by simp
qed

lemma pt_inv_extend:
  assumes inv: "pt_inv pt ba cr3" and xs: "tbl pt cr3 xs = Some a" "upath (xs @ [i])"
    and none: "pt (entry_addr a i) AND 1 = 0"
    and pt': "same_entries pt cr3 a i pt'"
    and e: "pt' (entry_addr a i) AND 1 \<noteq> 0" "pt' (entry_addr a i) AND NOT 0xfff = n"
      "PTE_ADDR (pt' (entry_addr a i)) = n" "pt' (entry_addr a i) AND PTE_PS = 0"
    and zero: "length xs < 3 \<longrightarrow> (\<forall>j<512. pt' (entry_addr n j) = 0)"
    and n: "unat n mod 0x1000 = 0" "unat n < 2 ^ 52" "n \<notin> ba_managed ba' - ba_in_use ba'"
      "\<And>ys. upath ys \<Longrightarrow> tbl pt cr3 ys \<noteq> Some n"
    and ba': "ba_managed ba' - ba_in_use ba' \<subseteq> ba_managed ba - ba_in_use ba"
  shows "pt_inv pt' ba' cr3"
proof -
  note ext = tbl_extend [OF inv xs none pt' e(1,2) zero]
  have frame: "unat b mod 0x1000 = 0 \<and> unat b < 2 ^ 52 \<and> b \<notin> ba_managed ba' - ba_in_use ba'"
    if "upath js" "tbl pt' cr3 js = Some b" for js b
    using ext [OF that(1)] that(2) n(1-3) pt_invD(1-3) [OF inv that(1)] ba' by (auto split: if_splits)
  have inj: "js = ks" if "upath js" "upath ks" "tbl pt' cr3 js = Some b" "tbl pt' cr3 ks = Some b" for js ks b
  proof -
    have "js = xs @ [i] \<and> b = n \<or> tbl pt cr3 js = Some b"
      using ext [OF that(1)] that(3) by (simp split: if_splits)
    moreover have "ks = xs @ [i] \<and> b = n \<or> tbl pt cr3 ks = Some b"
      using ext [OF that(2)] that(4) by (simp split: if_splits)
    ultimately show ?thesis using n(4) [OF that(1)] n(4) [OF that(2)] pt_invD(4) [OF inv that(1) _ that(2)] by blast
  qed
  have entry: "(length js < 3 \<longrightarrow> pt' (entry_addr b j) AND PTE_PS = 0) \<and>
      pt' (entry_addr b j) AND NOT 0xfff = PTE_ADDR (pt' (entry_addr b j))"
    if j: "upath (js @ [j])" and b: "tbl pt' cr3 js = Some b" for js j b
  proof (cases "js = xs @ [i]")
    case True
    then have "b = n" "length xs < 3" using ext [OF upath_append [OF j]] b j by (auto simp: upath_def)
    then show ?thesis using zero upath_last [OF j] by (simp add: PTE_ADDR_def)
  next
    case False
    then have old: "tbl pt cr3 js = Some b" using ext [OF upath_append [OF j]] b by simp
    show ?thesis
    proof (cases "(b, j) = (a, i)")
      case True
      then show ?thesis using e by simp
    next
      case False
      then show ?thesis
        using same_entriesD [OF pt' j old] pt_invD(5,6) [OF inv upath_append [OF j] old j] by auto
    qed
  qed
  from frame inj entry show ?thesis unfolding pt_inv_def by blast
qed

section \<open>Entry words\<close>

lemma aligned_and: "unat (n :: u64) mod 0x1000 = 0 \<Longrightarrow> n AND 0xfff = 0"
proof -
  assume n: "unat n mod 0x1000 = 0"
  have "unat (take_bit 12 n) = 0" unfolding unsigned_take_bit_eq using n by (simp add: take_bit_eq_mod)
  then have "take_bit 12 n = 0" by (simp add: unat_eq_zero)
  then show ?thesis by (simp add: take_bit_eq_mask mask_eq_exp_minus_1)
qed

lemma small_and: "unat (n :: u64) < 2 ^ 52 \<Longrightarrow> n AND 0xfffffffffffff = n"
proof -
  assume n: "unat n < 2 ^ 52"
  have "take_bit 52 n = n" unfolding word_unat_eq_iff unsigned_take_bit_eq using n by (simp add: take_bit_eq_mod)
  then show ?thesis by (simp add: take_bit_eq_mask mask_eq_exp_minus_1)
qed

text \<open>The flag bits of an entry: present, not a huge page, and nothing outside the low twelve bits.\<close>

definition flags_ok :: "i32 \<Rightarrow> bool" where
  "flags_ok flags \<longleftrightarrow> (scast flags :: u64) AND 1 \<noteq> 0 \<and> (scast flags :: u64) AND PTE_PS = 0 \<and>
     (scast flags :: u64) AND NOT 0xfff = 0"

lemma and_split:
  fixes n f m :: u64
  shows "(n OR f) AND m = (n AND m) OR (f AND m)"
  by (rule bit_eqI) (auto simp: bit_simps)

lemma entry_word:
  assumes n: "unat (n :: u64) mod 0x1000 = 0" "unat n < 2 ^ 52" and f: "flags_ok flags"
  shows "(n OR scast flags) AND 1 \<noteq> 0" "(n OR scast flags) AND NOT 0xfff = n"
    "PTE_ADDR (n OR scast flags) = n" "(n OR scast flags) AND PTE_PS = 0"
proof -
  define g where "g = (scast flags :: u64)"
  have g: "g AND 1 \<noteq> 0" "g AND 0x80 = 0" "g AND NOT 0xfff = 0"
    using f by (simp_all add: flags_ok_def g_def PTE_PS_def)
  note al = aligned_and [OF n(1)] and sm = small_and [OF n(2)]
  have low: "n AND 1 = 0" "n AND 0x80 = 0"
  proof -
    have "n AND (0xfff AND 1) = 0" "n AND (0xfff AND 0x80) = 0"
      unfolding and.assoc [symmetric] al by simp_all
    then show "n AND 1 = 0" "n AND 0x80 = 0" by simp_all
  qed
  have high: "n AND NOT 0xfff = n"
  proof -
    have "n = (n AND 0xfff) OR (n AND NOT 0xfff)" by (rule bit_eqI) (auto simp: bit_simps)
    then show ?thesis using al by simp
  qed
  have addr: "n AND 0x000FFFFFFFFFF000 = n" "g AND 0x000FFFFFFFFFF000 = 0"
  proof -
    have "n AND (0xfffffffffffff AND NOT 0xfff) = n" unfolding and.assoc [symmetric] sm high ..
    then show "n AND 0x000FFFFFFFFFF000 = n" by simp
    have "g AND (NOT 0xfff AND 0xfffffffffffff) = 0" unfolding and.assoc [symmetric] g(3) by simp
    then show "g AND 0x000FFFFFFFFFF000 = 0" by simp
  qed
  show "(n OR scast flags) AND 1 \<noteq> 0" "(n OR scast flags) AND NOT 0xfff = n"
    "PTE_ADDR (n OR scast flags) = n" "(n OR scast flags) AND PTE_PS = 0"
    unfolding PTE_ADDR_def PTE_PS_def and_split g_def [symmetric] low high addr
    using g by simp_all
qed

section \<open>Mapping extends the tree\<close>

lemma zero_table_same:
  assumes "unat n mod 0x1000 = 0" "unat b mod 0x1000 = 0" "j < 512" "b \<noteq> n"
  shows "zero_table n pt (entry_addr b j) = pt (entry_addr b j)"
proof -
  have "entry_addr b j \<noteq> entry_addr n (of_nat i)" if "i < 512" for i
  proof -
    have "(of_nat i :: u64) < 512" using that unat_of_nat_u64 [of i] by (simp add: word_less_nat_alt)
    then show ?thesis using entry_addr_eq [OF assms(2,1,3)] assms(4) by simp
  qed
  then show ?thesis by (auto simp: zero_table_def)
qed

lemma zero_table_zero: "j < 512 \<Longrightarrow> zero_table n pt (entry_addr n j) = 0"
  using word_less_nat_alt [of j 512] by (auto simp: zero_table_def intro!: exI [of _ "unat j"])

text \<open>What allocating a frame gives the paging code.\<close>

lemma alloc_frame:
  assumes inv: "vm_inv cr3 st" and av: "ba_in_use (vm_ba st) \<subset> ba_managed (vm_ba st)"
  obtains n ba where "alloc_page_or_halt (vm_ba st) = Inr (n, ba)" "ba_inv ba"
    "ba_managed ba = ba_managed (vm_ba st)" "ba_in_use ba = insert n (ba_in_use (vm_ba st))"
    "n \<in> ba_managed (vm_ba st) - ba_in_use (vm_ba st)" "unat n mod 0x1000 = 0" "unat n < 2 ^ 52"
    "\<And>ys. upath ys \<Longrightarrow> tbl (vm_pt st) cr3 ys \<noteq> Some n"
proof -
  have ok: "ba_inv (vm_ba st)" using inv by (simp add: vm_inv_def)
  obtain n ba where n: "allocate_page (vm_ba st) = Inr (n, ba)" "ba_inv ba"
    "ba_managed ba = ba_managed (vm_ba st)" "n \<noteq> NULL"
    "n \<in> ba_managed (vm_ba st) - ba_in_use (vm_ba st)" "ba_in_use ba = insert n (ba_in_use (vm_ba st))"
    using bitmap_pages.get_fresh [OF ok av] by blast
  show ?thesis
  proof (rule that)
    show "alloc_page_or_halt (vm_ba st) = Inr (n, ba)" using n(1,4) by (simp add: alloc_page_or_halt_def)
    show "unat n mod 0x1000 = 0" using bitmap_pages.managed_page [OF ok, of n] n(5) by simp
    show "unat n < 2 ^ 52" using inv n(5) by (auto simp: vm_inv_def)
    show "tbl (vm_pt st) cr3 ys \<noteq> Some n" if "upath ys" for ys
      using inv n(5) pt_invD(3) [OF _ that] unfolding vm_inv_def by blast
  qed (use n in auto)
qed

section \<open>Other address spaces\<close>

text \<open>
  Two trees are apart when no frame belongs to both.  Changing entries of one, and moving frames
  between it and the page allocator, leaves every tree alone that is apart from it.
\<close>

definition apart :: "(u64 \<Rightarrow> u64) \<Rightarrow> u64 \<Rightarrow> u64 \<Rightarrow> bool" where
  "apart pt cr3 c \<longleftrightarrow> (\<forall>xs ys a. upath xs \<longrightarrow> upath ys \<longrightarrow> tbl pt cr3 xs = Some a \<longrightarrow> tbl pt c ys \<noteq> Some a)"

definition same_tree :: "(u64 \<Rightarrow> u64) \<Rightarrow> u64 \<Rightarrow> (u64 \<Rightarrow> u64) \<Rightarrow> bool" where
  "same_tree pt c pt' \<longleftrightarrow> (\<forall>js b j. upath (js @ [j]) \<longrightarrow> tbl pt c js = Some b \<longrightarrow> pt' (entry_addr b j) = pt (entry_addr b j))"

lemma same_tree_tbl: "same_tree pt c pt' \<Longrightarrow> upath ys \<Longrightarrow> tbl pt' c ys = tbl pt c ys"
proof (induction ys rule: rev_induct)
  case (snoc j js)
  then have "tbl pt' c js = tbl pt c js" using upath_append by blast
  then show ?case using snoc.prems by (auto simp: tbl_snoc same_tree_def split: option.splits)
qed simp

lemma same_tree_inv:
  assumes "pt_inv pt ba c" "same_tree pt c pt'"
    and "\<And>xs a. upath xs \<Longrightarrow> tbl pt c xs = Some a \<Longrightarrow> a \<notin> ba_managed ba' - ba_in_use ba'"
  shows "pt_inv pt' ba' c"
proof -
  note tb = same_tree_tbl [OF assms(2)]
  have old: "pt' (entry_addr a i) = pt (entry_addr a i)" "tbl pt c is = Some a" "upath is"
    if "upath (is @ [i])" "tbl pt' c is = Some a" for "is" i a
    using assms(2) that tb [OF upath_append [OF that(1)]] upath_append [OF that(1)] by (auto simp: same_tree_def)
  show ?thesis unfolding pt_inv_def
  proof (intro conjI allI impI)
    fix "is" a assume "upath is" "tbl pt' c is = Some a"
    then have 1: "upath is" "tbl pt c is = Some a" using tb by simp_all
    show "unat a mod 0x1000 = 0" "unat a < 2 ^ 52" "a \<notin> ba_managed ba' - ba_in_use ba'"
      using pt_invD(1,2) [OF assms(1) 1] assms(3) [OF 1] by blast+
    show "is = js" if "upath js" "tbl pt' c js = Some a" for js
      using pt_invD(4) [OF assms(1) 1 that(1)] tb [OF that(1)] that(2) by simp
  next
    fix "is" i a assume 2: "upath (is @ [i])" "tbl pt' c is = Some a"
    note o = old [OF 2]
    show "length is < 3 \<Longrightarrow> pt' (entry_addr a i) AND PTE_PS = 0"
      using pt_invD(5) [OF assms(1) o(3,2) 2(1)] o(1) by simp
    show "pt' (entry_addr a i) AND NOT 0xfff = PTE_ADDR (pt' (entry_addr a i))"
      using pt_invD(6) [OF assms(1) o(3,2) 2(1)] o(1) by simp
  qed
qed

definition others :: "u64 \<Rightarrow> vm \<Rightarrow> vm \<Rightarrow> bool" where
  "others cr3 st st' \<longleftrightarrow> (\<forall>c. vm_inv c st \<longrightarrow> apart (vm_pt st) cr3 c \<longrightarrow> vm_inv c st' \<and> apart (vm_pt st') cr3 c \<and>
     (\<forall>ys. upath ys \<longrightarrow> tbl (vm_pt st') c ys = tbl (vm_pt st) c ys))"

lemma others_refl: "others cr3 st st"
  by (simp add: others_def)

lemma others_trans: "others cr3 st st' \<Longrightarrow> others cr3 st' st'' \<Longrightarrow> others cr3 st st''"
  by (simp add: others_def)

text \<open>A change to entries of the tables of \<open>cr3\<close>, or to frames \<open>Z\<close> that were free.\<close>

lemma others_change:
  assumes pt': "\<And>b j. unat b mod 0x1000 = 0 \<Longrightarrow> j < 512 \<Longrightarrow> (\<forall>xs. upath xs \<longrightarrow> tbl (vm_pt st) cr3 xs \<noteq> Some b) \<Longrightarrow>
      b \<notin> ba_managed (vm_ba st) - ba_in_use (vm_ba st) \<Longrightarrow> vm_pt st' (entry_addr b j) = vm_pt st (entry_addr b j)"
    and tree: "\<And>ys b. upath ys \<Longrightarrow> tbl (vm_pt st') cr3 ys = Some b \<Longrightarrow>
      (\<exists>xs. upath xs \<and> tbl (vm_pt st) cr3 xs = Some b) \<or> b \<in> ba_managed (vm_ba st) - ba_in_use (vm_ba st)"
    and ba: "ba_inv (vm_ba st')" "ba_managed (vm_ba st') = ba_managed (vm_ba st)"
      "\<And>b. b \<in> ba_managed (vm_ba st') - ba_in_use (vm_ba st') \<Longrightarrow>
        (\<exists>xs. upath xs \<and> tbl (vm_pt st) cr3 xs = Some b) \<or> b \<in> ba_managed (vm_ba st) - ba_in_use (vm_ba st)"
  shows "others cr3 st st'"
  unfolding others_def
proof (intro allI impI)
  fix c assume c: "vm_inv c st" "apart (vm_pt st) cr3 c"
  have pi: "pt_inv (vm_pt st) (vm_ba st) c" using c(1) by (simp add: vm_inv_def)
  have out: "(\<forall>xs. upath xs \<longrightarrow> tbl (vm_pt st) cr3 xs \<noteq> Some b) \<and> b \<notin> ba_managed (vm_ba st) - ba_in_use (vm_ba st)"
    if "upath ys" "tbl (vm_pt st) c ys = Some b" for ys b
    using c(2) pt_invD(3) [OF pi that] that unfolding apart_def by blast
  have same: "same_tree (vm_pt st) c (vm_pt st')" unfolding same_tree_def
  proof (intro allI impI)
    fix js b j assume j: "upath (js @ [j])" "tbl (vm_pt st) c js = Some b"
    have u: "upath js" "j < 512" using j(1) upath_append upath_last by blast+
    show "vm_pt st' (entry_addr b j) = vm_pt st (entry_addr b j)"
      using pt' [OF pt_invD(1) [OF pi u(1) j(2)] u(2)] out [OF u(1) j(2)] by blast
  qed
  note tb = same_tree_tbl [OF same]
  have "pt_inv (vm_pt st') (vm_ba st') c" by (rule same_tree_inv [OF pi same]) (use out ba(3) in blast)
  then have "vm_inv c st'" using c(1) ba(1,2) by (simp add: vm_inv_def)
  moreover have "apart (vm_pt st') cr3 c" unfolding apart_def using tree out tb by metis
  ultimately show "vm_inv c st' \<and> apart (vm_pt st') cr3 c \<and> (\<forall>ys. upath ys \<longrightarrow> tbl (vm_pt st') c ys = tbl (vm_pt st) c ys)"
    using tb by blast
qed

definition extends :: "u64 \<Rightarrow> u64 list \<Rightarrow> vm \<Rightarrow> vm \<Rightarrow> bool" where
  "extends cr3 p st st' \<longleftrightarrow> vm_inv cr3 st' \<and> vm_mem st' = vm_mem st \<and> others cr3 st st' \<and>
     ba_managed (vm_ba st') = ba_managed (vm_ba st) \<and>
     (\<exists>n. (\<forall>ys. upath ys \<longrightarrow> tbl (vm_pt st') cr3 ys = (if ys = p then Some n else tbl (vm_pt st) cr3 ys)) \<and>
       (if tbl (vm_pt st) cr3 p = None
        then n \<in> ba_managed (vm_ba st) - ba_in_use (vm_ba st) \<and>
             ba_in_use (vm_ba st') = insert n (ba_in_use (vm_ba st))
        else st' = st))"

lemma extends_refl:
  assumes "vm_inv cr3 st" "tbl (vm_pt st) cr3 p = Some n"
  shows "extends cr3 p st st"
  using assms by (auto simp: extends_def others_refl)

text \<open>Both kinds of levels: \<open>z\<close> says whether the new frame is cleared.\<close>

lemma extend_step:
  assumes inv: "vm_inv cr3 st" and xs: "tbl (vm_pt st) cr3 xs = Some a" "upath (xs @ [i])"
    and f: "flags_ok flags" and av: "ba_in_use (vm_ba st) \<subset> ba_managed (vm_ba st)"
    and z: "length xs < 3 \<longrightarrow> z"
    and g: "g = (\<lambda>st. if vm_pt st (entry_addr a i) AND 1 = 0 then
        bind_res (alloc_page_or_halt (vm_ba st)) (\<lambda>(frame, ba). Inr (st\<lparr>vm_ba := ba,
          vm_pt := ((if z then zero_table frame (vm_pt st) else vm_pt st))(entry_addr a i := frame OR scast flags)\<rparr>))
      else Inr st)"
  shows "\<exists>st'. g st = Inr st' \<and> extends cr3 (xs @ [i]) st st'"
proof (cases "vm_pt st (entry_addr a i) AND 1 = 0")
  case False
  then have "g st = Inr st" "tbl (vm_pt st) cr3 (xs @ [i]) = Some (vm_pt st (entry_addr a i) AND NOT 0xfff)"
    using xs(1) by (simp_all add: g tbl_snoc)
  then show ?thesis using extends_refl [OF inv] by blast
next
  case True
  obtain n ba where n: "alloc_page_or_halt (vm_ba st) = Inr (n, ba)" "ba_inv ba"
    "ba_managed ba = ba_managed (vm_ba st)" "ba_in_use ba = insert n (ba_in_use (vm_ba st))"
    "n \<in> ba_managed (vm_ba st) - ba_in_use (vm_ba st)" "unat n mod 0x1000 = 0" "unat n < 2 ^ 52"
    "\<And>ys. upath ys \<Longrightarrow> tbl (vm_pt st) cr3 ys \<noteq> Some n"
    using alloc_frame [OF inv av] by metis
  define pt' where "pt' = ((if z then zero_table n (vm_pt st) else vm_pt st))(entry_addr a i := n OR scast flags)"
  have pi: "pt_inv (vm_pt st) (vm_ba st) cr3" using inv by (simp add: vm_inv_def)
  have up: "upath xs" "i < 512" using xs(2) upath_append upath_last by blast+
  have an: "a \<noteq> n" "unat a mod 0x1000 = 0" using n(8) [OF up(1)] xs(1) pt_invD(1) [OF pi up(1) xs(1)] by auto
  have same: "same_entries (vm_pt st) cr3 a i pt'"
    unfolding same_entries_def
  proof (intro allI impI)
    fix js b j assume j: "upath (js @ [j])" "tbl (vm_pt st) cr3 js = Some b" "(b, j) \<noteq> (a, i)"
    have u: "upath js" "j < 512" using j(1) upath_append upath_last by blast+
    have b: "unat b mod 0x1000 = 0" "b \<noteq> n" using pt_invD(1) [OF pi u(1) j(2)] n(8) [OF u(1)] j(2) by auto
    have "entry_addr b j \<noteq> entry_addr a i" using entry_addr_eq [OF b(1) an(2) u(2) up(2)] j(3) by auto
    then show "pt' (entry_addr b j) = vm_pt st (entry_addr b j)"
      using zero_table_same [OF n(6) b(1) u(2) b(2)] by (simp add: pt'_def)
  qed
  have e: "pt' (entry_addr a i) = n OR scast flags" by (simp add: pt'_def)
  note w = entry_word [OF n(6,7) f, folded e]
  have zero: "length xs < 3 \<longrightarrow> (\<forall>j<512. pt' (entry_addr n j) = 0)"
    using z zero_table_zero entry_addr_eq [OF n(6) an(2) _ up(2)] an(1) by (auto simp: pt'_def)
  have tb: "tbl pt' cr3 ys = (if ys = xs @ [i] then Some n else tbl (vm_pt st) cr3 ys)" if "upath ys" for ys
    by (rule tbl_extend [OF pi xs True same w(1,2) zero that])
  have "pt_inv pt' ba cr3"
    by (rule pt_inv_extend [OF pi xs True same w zero n(6,7)]) (use n in auto)
  then have "vm_inv cr3 (st\<lparr>vm_ba := ba, vm_pt := pt'\<rparr>)" using inv n(2,3) by (simp add: vm_inv_def)
  moreover have "tbl (vm_pt st) cr3 (xs @ [i]) = None" using True xs(1) by (simp add: tbl_snoc)
  moreover have "others cr3 st (st\<lparr>vm_ba := ba, vm_pt := pt'\<rparr>)"
  proof (rule others_change)
    fix b j :: u64 assume b: "unat b mod 0x1000 = 0" "j < 512" "\<forall>xs. upath xs \<longrightarrow> tbl (vm_pt st) cr3 xs \<noteq> Some b"
      "b \<notin> ba_managed (vm_ba st) - ba_in_use (vm_ba st)"
    have "b \<noteq> a" "b \<noteq> n" using b(3,4) up(1) xs(1) n(5) by auto
    then show "vm_pt (st\<lparr>vm_ba := ba, vm_pt := pt'\<rparr>) (entry_addr b j) = vm_pt st (entry_addr b j)"
      using zero_table_same [OF n(6) b(1,2)] entry_addr_eq [OF b(1) an(2) b(2) up(2)] by (simp add: pt'_def)
  next
    fix ys b assume ys: "upath ys" "tbl (vm_pt (st\<lparr>vm_ba := ba, vm_pt := pt'\<rparr>)) cr3 ys = Some b"
    then show "(\<exists>xs. upath xs \<and> tbl (vm_pt st) cr3 xs = Some b) \<or> b \<in> ba_managed (vm_ba st) - ba_in_use (vm_ba st)"
      using tb [OF ys(1)] n(5) by (auto split: if_splits)
  qed (use n(2-4) in auto)
  ultimately have "extends cr3 (xs @ [i]) st (st\<lparr>vm_ba := ba, vm_pt := pt'\<rparr>)"
    using tb n(3,4,5) by (auto simp: extends_def intro!: exI [of _ n])
  moreover have "g st = Inr (st\<lparr>vm_ba := ba, vm_pt := pt'\<rparr>)" using True n(1) by (simp add: g pt'_def)
  ultimately show ?thesis by blast
qed

lemma ensure_table_extends:
  assumes "vm_inv cr3 st" "tbl (vm_pt st) cr3 xs = Some a" "upath (xs @ [i])" "flags_ok flags"
    and "ba_in_use (vm_ba st) \<subset> ba_managed (vm_ba st)"
  shows "\<exists>st'. ensure_table (entry_addr a i) flags st = Inr st' \<and> extends cr3 (xs @ [i]) st st'"
  by (rule extend_step [OF assms, where z = True and g = "ensure_table (entry_addr a i) flags"])
    (simp_all add: ensure_table_def fun_eq_iff)

lemma ensure_page_extends:
  assumes "vm_inv cr3 st" "tbl (vm_pt st) cr3 xs = Some a" "upath (xs @ [i])" "flags_ok flags"
    and "ba_in_use (vm_ba st) \<subset> ba_managed (vm_ba st)" "length xs = 3"
  shows "\<exists>st'. ensure_page (entry_addr a i) flags st = Inr st' \<and> extends cr3 (xs @ [i]) st st'"
  by (rule extend_step [OF assms(1-5), where z = False and g = "ensure_page (entry_addr a i) flags"])
    (simp_all add: ensure_page_def fun_eq_iff assms(6))

section \<open>Virtual addresses\<close>

definition user_va :: "u64 \<Rightarrow> bool" where
  "user_va va \<longleftrightarrow> va < 0x800000000000"

lemma and_1ff_lt: "(x :: u64) AND 0x1ff < 512"
proof -
  have "x AND 0x1ff = take_bit 9 x" by (simp add: take_bit_eq_mask mask_eq_exp_minus_1)
  moreover have "unat (take_bit 9 x) < 512"
    unfolding unsigned_take_bit_eq by (simp add: take_bit_eq_mod)
  ultimately show ?thesis by (simp add: word_less_nat_alt)
qed

lemma pt_index_take: "pt_index va l = take_bit 9 (drop_bit (12 + 9 * l) va)"
  by (simp add: pt_index_def take_bit_eq_mask mask_eq_exp_minus_1)

lemma pt_index_lt: "pt_index va l < 512"
  unfolding pt_index_def by (rule and_1ff_lt)

lemma pt_index_top: "user_va va \<Longrightarrow> pt_index va 3 < 256"
proof -
  assume "user_va va"
  then have va: "unat va < 2 ^ 47" by (simp add: user_va_def word_less_nat_alt)
  have "unat (pt_index va 3) = unat va div 2 ^ 39 mod 2 ^ 9"
    by (simp add: pt_index_take take_bit_eq_mod drop_bit_eq_div unat_mod unat_div)
  also have "\<dots> < 256" using va by (simp add: less_mult_imp_div_less le_less_trans [OF mod_less_eq_dividend])
  finally show ?thesis by (simp add: word_less_nat_alt)
qed

lemma upath_path: "user_va va \<Longrightarrow> upath (path va)"
  using pt_index_lt pt_index_top by (simp add: upath_def path_def)

lemma user_va_bit: "user_va va \<Longrightarrow> 47 \<le> n \<Longrightarrow> \<not> bit va n"
proof -
  assume "user_va va" and n: "47 \<le> n"
  then have "unat va < 2 ^ 47" by (simp add: user_va_def word_less_nat_alt)
  then have "take_bit 47 va = va"
    unfolding word_unat_eq_iff unsigned_take_bit_eq by (simp add: take_bit_eq_mod)
  then have "bit va n = bit (take_bit 47 va) n" by simp
  then show ?thesis using n by (simp add: bit_take_bit_iff)
qed

text \<open>Two user addresses have the same path exactly when they lie in the same page.\<close>

lemma path_eq_iff:
  assumes "user_va va" "user_va vb"
  shows "path va = path vb \<longleftrightarrow> drop_bit 12 va = drop_bit 12 vb"
proof
  assume eq: "path va = path vb"
  have idx: "bit va (12 + 9 * l + k) = bit vb (12 + 9 * l + k)" if "l \<le> 3" "k < 9" for l k
  proof -
    have "l = 0 \<or> l = 1 \<or> l = 2 \<or> l = 3" using that(1) by arith
    then have "pt_index va l = pt_index vb l" using eq by (elim disjE) (simp_all add: path_def)
    moreover have "bit (pt_index v l) k = bit v (12 + 9 * l + k)" for v
      using that(2) by (simp add: pt_index_take bit_take_bit_iff bit_drop_bit_eq)
    ultimately show ?thesis by metis
  qed
  show "drop_bit 12 va = drop_bit 12 vb"
  proof (rule bit_eqI)
    fix n
    show "bit (drop_bit 12 va) n = bit (drop_bit 12 vb) n"
    proof (cases "n < 36")
      case True
      have "n div 9 \<le> 3" "n mod 9 < 9" "12 + 9 * (n div 9) + n mod 9 = 12 + n" using True by simp_all
      with idx [of "n div 9" "n mod 9"] show ?thesis by (simp add: bit_drop_bit_eq)
    next
      case False
      then show ?thesis using user_va_bit [OF assms(1)] user_va_bit [OF assms(2)] by (simp add: bit_drop_bit_eq)
    qed
  qed
next
  assume eq: "drop_bit 12 va = drop_bit 12 vb"
  have "pt_index va l = pt_index vb l" for l
  proof -
    have "drop_bit (12 + 9 * l) v = drop_bit (9 * l) (drop_bit 12 v)" for v :: u64
      by (simp add: drop_bit_drop_bit add.commute)
    then show ?thesis unfolding pt_index_def by (metis eq)
  qed
  then show "path va = path vb" by (simp add: path_def)
qed

section \<open>Mapping a page\<close>

definition avail :: "vm \<Rightarrow> nat" where
  "avail st = card (ba_managed (vm_ba st) - ba_in_use (vm_ba st))"

lemma avail_subset:
  assumes "0 < avail st" shows "ba_in_use (vm_ba st) \<subset> ba_managed (vm_ba st)"
proof -
  have "ba_in_use (vm_ba st) \<subseteq> ba_managed (vm_ba st)"
    using area_in_use_subset by (fastforce simp: ba_in_use_def ba_managed_def)
  moreover have "ba_managed (vm_ba st) - ba_in_use (vm_ba st) \<noteq> {}"
    using assms card.empty unfolding avail_def by (metis less_irrefl)
  ultimately show ?thesis by blast
qed

lemma extendsD:
  assumes "extends cr3 p st st'" "upath p"
  shows "vm_inv cr3 st'" "avail st \<le> Suc (avail st')" "\<exists>n. tbl (vm_pt st') cr3 p = Some n"
    "\<And>ys. upath ys \<Longrightarrow> ys \<noteq> p \<Longrightarrow> tbl (vm_pt st') cr3 ys = tbl (vm_pt st) cr3 ys"
    "tbl (vm_pt st) cr3 p \<noteq> None \<Longrightarrow> st' = st"
    "ba_managed (vm_ba st') = ba_managed (vm_ba st)"
    "ba_in_use (vm_ba st) \<subseteq> ba_in_use (vm_ba st')" "vm_mem st' = vm_mem st"
    "tbl (vm_pt st) cr3 p = None \<Longrightarrow> \<exists>n. tbl (vm_pt st') cr3 p = Some n \<and> n \<notin> ba_in_use (vm_ba st) \<and>
       n \<in> ba_managed (vm_ba st)"
    "others cr3 st st'"
proof -
  obtain n where n: "\<And>ys. upath ys \<Longrightarrow> tbl (vm_pt st') cr3 ys = (if ys = p then Some n else tbl (vm_pt st) cr3 ys)"
      "if tbl (vm_pt st) cr3 p = None
       then n \<in> ba_managed (vm_ba st) - ba_in_use (vm_ba st) \<and>
            ba_in_use (vm_ba st') = insert n (ba_in_use (vm_ba st))
       else st' = st"
    and inv: "vm_inv cr3 st'" and m: "ba_managed (vm_ba st') = ba_managed (vm_ba st)" "vm_mem st' = vm_mem st" "others cr3 st st'"
    using assms(1) unfolding extends_def by auto
  show "vm_inv cr3 st'" "ba_managed (vm_ba st') = ba_managed (vm_ba st)" "vm_mem st' = vm_mem st" "others cr3 st st'"
    by (fact inv m)+
  show "\<exists>n. tbl (vm_pt st') cr3 p = Some n" using n(1) [OF assms(2)] by simp
  show "tbl (vm_pt st') cr3 ys = tbl (vm_pt st) cr3 ys" if "upath ys" "ys \<noteq> p" for ys
    using n(1) [OF that(1)] that(2) by simp
  show "tbl (vm_pt st) cr3 p \<noteq> None \<Longrightarrow> st' = st" using n(2) by simp
  show "ba_in_use (vm_ba st) \<subseteq> ba_in_use (vm_ba st')" using n(2) by (auto split: if_splits)
  show "\<exists>n. tbl (vm_pt st') cr3 p = Some n \<and> n \<notin> ba_in_use (vm_ba st) \<and> n \<in> ba_managed (vm_ba st)"
    if "tbl (vm_pt st) cr3 p = None"
    using n(1) [OF assms(2)] n(2) that by auto
  show "avail st \<le> Suc (avail st')"
  proof (cases "tbl (vm_pt st) cr3 p = None")
    case True
    then have "ba_managed (vm_ba st') - ba_in_use (vm_ba st') = (ba_managed (vm_ba st) - ba_in_use (vm_ba st)) - {n}"
      using n(2) m(1) by auto
    then show ?thesis
      using diff_card_le_card_Diff [of "{n}" "ba_managed (vm_ba st) - ba_in_use (vm_ba st)"]
      unfolding avail_def by simp
  qed (use n(2) in simp)
qed

lemma next_table_eq:
  "tbl pt cr3 xs = Some a \<Longrightarrow> tbl pt cr3 (xs @ [i]) = Some b \<Longrightarrow> next_table pt (entry_addr a i) = b"
  by (auto simp: tbl_snoc next_table_def split: if_splits)

lemma tbl_prefix: "tbl pt cr3 (xs @ ys) \<noteq> None \<Longrightarrow> tbl pt cr3 xs \<noteq> None"
  by (cases "tbl pt cr3 xs") (auto simp: tbl_append)

text \<open>One level of \<open>map_memory_page\<close>: the table for the next level exists afterwards.\<close>

lemma ensure_level:
  assumes inv: "vm_inv cr3 st" and xs: "tbl (vm_pt st) cr3 xs = Some a" "upath (xs @ [i])"
    and f: "flags_ok flags" and av: "0 < avail st"
  obtains st' b where "ensure_table (entry_addr a i) flags st = Inr st'" "extends cr3 (xs @ [i]) st st'"
    "tbl (vm_pt st') cr3 (xs @ [i]) = Some b" "next_table (vm_pt st') (entry_addr a i) = b"
proof -
  obtain st' where st': "ensure_table (entry_addr a i) flags st = Inr st'" "extends cr3 (xs @ [i]) st st'"
    using ensure_table_extends [OF inv xs f avail_subset [OF av]] by blast
  note d = extendsD [OF st'(2) xs(2)]
  obtain b where b: "tbl (vm_pt st') cr3 (xs @ [i]) = Some b" using d(3) by blast
  have "tbl (vm_pt st') cr3 xs = Some a" using d(4) [OF upath_append [OF xs(2)]] xs(1) by simp
  from that [OF st' b next_table_eq [OF this b]] show ?thesis .
qed

lemma map_memory_page_extends:
  assumes inv: "vm_inv cr3 st" and va: "user_va va" and f: "flags_ok flags" and av: "4 \<le> avail st"
  shows "\<exists>st'. map_memory_page cr3 va flags st = Inr st' \<and> vm_inv cr3 st' \<and> vm_mem st' = vm_mem st \<and>
    ba_managed (vm_ba st') = ba_managed (vm_ba st) \<and> avail st \<le> avail st' + 4 \<and>
    (\<exists>n. tbl (vm_pt st') cr3 (path va) = Some n \<and>
      (if tbl (vm_pt st) cr3 (path va) = None
       then n \<in> ba_managed (vm_ba st) - ba_in_use (vm_ba st) else st' = st)) \<and>
    (\<forall>ys. upath ys \<longrightarrow> length ys = 4 \<longrightarrow> ys \<noteq> path va \<longrightarrow> tbl (vm_pt st') cr3 ys = tbl (vm_pt st) cr3 ys) \<and>
    others cr3 st st'"
proof -
  define i3 i2 i1 i0 where "i3 = pt_index va 3" and "i2 = pt_index va 2" and "i1 = pt_index va 1"
    and "i0 = pt_index va 0"
  have pth: "path va = [i3, i2, i1, i0]" by (simp add: path_def i3_def i2_def i1_def i0_def)
  have up: "upath ([] @ [i3])" "upath ([i3] @ [i2])" "upath ([i3, i2] @ [i1])" "upath ([i3, i2, i1] @ [i0])"
    using upath_path [OF va] by (auto simp: pth upath_def)
  obtain st1 b1 where s1: "ensure_table (entry_addr cr3 i3) flags st = Inr st1" "extends cr3 ([] @ [i3]) st st1"
      "tbl (vm_pt st1) cr3 ([] @ [i3]) = Some b1" "next_table (vm_pt st1) (entry_addr cr3 i3) = b1"
    by (rule ensure_level [OF inv _ up(1) f]) (use av in auto)
  note d1 = extendsD [OF s1(2) up(1)]
  obtain st2 b2 where s2: "ensure_table (entry_addr b1 i2) flags st1 = Inr st2" "extends cr3 ([i3] @ [i2]) st1 st2"
      "tbl (vm_pt st2) cr3 ([i3] @ [i2]) = Some b2" "next_table (vm_pt st2) (entry_addr b1 i2) = b2"
    by (rule ensure_level [OF d1(1) _ up(2) f]) (use av d1(2) s1(3) in auto)
  note d2 = extendsD [OF s2(2) up(2)]
  obtain st3 b3 where s3: "ensure_table (entry_addr b2 i1) flags st2 = Inr st3" "extends cr3 ([i3, i2] @ [i1]) st2 st3"
      "tbl (vm_pt st3) cr3 ([i3, i2] @ [i1]) = Some b3" "next_table (vm_pt st3) (entry_addr b2 i1) = b3"
    by (rule ensure_level [OF d2(1) _ up(3) f]) (use av d1(2) d2(2) s2(3) in auto)
  note d3 = extendsD [OF s3(2) up(3)]
  obtain st4 where s4: "ensure_page (entry_addr b3 i0) flags st3 = Inr st4" "extends cr3 ([i3, i2, i1] @ [i0]) st3 st4"
    using ensure_page_extends [OF d3(1) _ up(4) f avail_subset] s3(3) av d1(2) d2(2) d3(2) by auto
  note d4 = extendsD [OF s4(2) up(4)]
  have run: "map_memory_page cr3 va flags st = Inr st4"
    using s1(1,4) s2(1,4) s3(1,4) s4(1)
    by (simp add: map_memory_page_def Let_def i3_def i2_def i1_def i0_def pt_index_def)
  have len4: "tbl (vm_pt st3) cr3 ys = tbl (vm_pt st) cr3 ys" if "upath ys" "length ys = 4" for ys
    using d1(4) [OF that(1)] d2(4) [OF that(1)] d3(4) [OF that(1)] that(2) by force
  have mapped: "st4 = st" if "tbl (vm_pt st) cr3 (path va) \<noteq> None"
  proof -
    have t: "tbl (vm_pt st) cr3 ([] @ [i3]) \<noteq> None" "tbl (vm_pt st) cr3 ([i3] @ [i2]) \<noteq> None"
      "tbl (vm_pt st) cr3 ([i3, i2] @ [i1]) \<noteq> None" "tbl (vm_pt st) cr3 ([i3, i2, i1] @ [i0]) \<noteq> None"
      using that tbl_prefix [of _ cr3 "[i3]" "[i2, i1, i0]"] tbl_prefix [of _ cr3 "[i3, i2]" "[i1, i0]"]
        tbl_prefix [of _ cr3 "[i3, i2, i1]" "[i0]"] unfolding pth by simp_all
    have "st1 = st" using d1(5) [OF t(1)] .
    moreover from this have "st2 = st" using d2(5) t(2) by simp
    moreover from this have "st3 = st" using d3(5) t(3) by simp
    ultimately show ?thesis using d4(5) t(4) by simp
  qed
  have fresh: "\<exists>n. tbl (vm_pt st4) cr3 (path va) = Some n \<and> n \<in> ba_managed (vm_ba st) - ba_in_use (vm_ba st)"
    if "tbl (vm_pt st) cr3 (path va) = None"
  proof -
    have "tbl (vm_pt st3) cr3 ([i3, i2, i1] @ [i0]) = None" using len4 [OF up(4)] that by (simp add: pth)
    moreover have "ba_in_use (vm_ba st) \<subseteq> ba_in_use (vm_ba st3)" using d1(7) d2(7) d3(7) by blast
    ultimately show ?thesis using d4(9) d1(6) d2(6) d3(6) unfolding pth by auto
  qed
  have "tbl (vm_pt st4) cr3 ys = tbl (vm_pt st) cr3 ys" if "upath ys" "length ys = 4" "ys \<noteq> path va" for ys
    using d4(4) [OF that(1)] that(3) len4 [OF that(1,2)] by (simp add: pth)
  moreover have "avail st \<le> avail st4 + 4" using d1(2) d2(2) d3(2) d4(2) by simp
  moreover have "\<exists>n. tbl (vm_pt st4) cr3 (path va) = Some n \<and>
      (if tbl (vm_pt st) cr3 (path va) = None
       then n \<in> ba_managed (vm_ba st) - ba_in_use (vm_ba st) else st4 = st)"
    using mapped fresh d4(3) by (cases "tbl (vm_pt st) cr3 (path va) = None") (auto simp: pth)
  moreover have "others cr3 st st4" using others_trans d1(10) d2(10) d3(10) d4(10) by blast
  ultimately show ?thesis
    using run d4(1) d1(6,8) d2(6,8) d3(6,8) d4(6,8) by (intro exI [of _ st4]) simp
qed

section \<open>Walking agrees with translation\<close>

lemma walk_tbl:
  assumes inv: "pt_inv pt ba cr3" and va: "user_va va"
  shows "walk pt cr3 va = map_option (\<lambda>t. entry_addr t (pt_index va 0))
    (tbl pt cr3 [pt_index va 3, pt_index va 2, pt_index va 1])"
proof -
  define i3 i2 i1 where "i3 = pt_index va 3" and "i2 = pt_index va 2" and "i1 = pt_index va 1"
  have up: "upath ([] @ [i3])" "upath ([i3] @ [i2])" "upath ([i3, i2] @ [i1])"
    using upath_path [OF va] by (auto simp: path_def upath_def i3_def i2_def i1_def)
  have step: "pt (entry_addr a i) AND PTE_PS = 0 \<and> pt (entry_addr a i) AND NOT 0xfff = PTE_ADDR (pt (entry_addr a i))"
    if "tbl pt cr3 js = Some a" "upath (js @ [i])" "length js < 3" for js i a
    using pt_invD(5,6) [OF inv upath_append [OF that(2)] that(1) that(2)] that(3) by blast
  have lv: "walk_levels pt va 3 cr3 = tbl pt cr3 [i3, i2, i1]"
    using step [of "[]" cr3 i3] step [of "[i3]" _ i2] step [of "[i3, i2]" _ i1] up
    by (auto simp: numeral_eq_Suc Let_def PTE_P_def i3_def i2_def i1_def)
  then show ?thesis by (simp add: walk_def i3_def i2_def i1_def)
qed

lemma path_snoc: "path va = [pt_index va 3, pt_index va 2, pt_index va 1] @ [pt_index va 0]"
  by (simp add: path_def)

lemma walk_present_cases:
  assumes inv: "pt_inv pt ba cr3" and va: "user_va va"
  obtains (none) "walk_present pt cr3 va = None" "translate pt cr3 va = None"
  | (some) t where "tbl pt cr3 [pt_index va 3, pt_index va 2, pt_index va 1] = Some t"
      "walk_present pt cr3 va = Some (entry_addr t (pt_index va 0))"
      "pt (entry_addr t (pt_index va 0)) AND 1 \<noteq> 0"
      "translate pt cr3 va = Some (PTE_ADDR (pt (entry_addr t (pt_index va 0))))"
proof (cases "tbl pt cr3 [pt_index va 3, pt_index va 2, pt_index va 1]")
  case None
  have "translate pt cr3 va = None" unfolding translate_def path_snoc tbl_snoc None by simp
  moreover have "walk_present pt cr3 va = None" using walk_tbl [OF inv va] None by (simp add: walk_present_def)
  ultimately show ?thesis using none by blast
next
  case (Some t)
  have up: "upath ([pt_index va 3, pt_index va 2, pt_index va 1] @ [pt_index va 0])"
    using upath_path [OF va] by (simp add: path_def)
  note addr = pt_invD(6) [OF inv upath_append [OF up] Some up]
  have w: "walk pt cr3 va = Some (entry_addr t (pt_index va 0))" using walk_tbl [OF inv va] Some by simp
  show ?thesis
  proof (cases "pt (entry_addr t (pt_index va 0)) AND 1 = 0")
    case True
    then have "translate pt cr3 va = None" unfolding translate_def path_snoc tbl_snoc Some by simp
    with True w show ?thesis using none by (simp add: walk_present_def PTE_P_def)
  next
    case False
    then have "translate pt cr3 va = Some (PTE_ADDR (pt (entry_addr t (pt_index va 0))))"
      unfolding translate_def path_snoc tbl_snoc Some using addr by simp
    with False w Some show ?thesis using some by (simp add: walk_present_def PTE_P_def)
  qed
qed

section \<open>The region loop\<close>

lemma page_loop_rec:
  "page_loop body va end st =
     (if va < end then bind_res (body va st) (page_loop body (va + PAGE_SIZE) end) else Inr st)"
proof (cases "va < end")
  case True
  show ?thesis
  proof (cases "body va st")
    case (Inl e)
    then show ?thesis using True unfolding page_loop_def
      by (subst while_option_unfold, simp) (subst while_option_unfold, simp)
  next
    case (Inr st')
    then show ?thesis using True unfolding page_loop_def by (subst while_option_unfold) simp
  qed
next
  case False
  then show ?thesis unfolding page_loop_def by (subst while_option_unfold) simp
qed

text \<open>
  A loop over the pages of a region below the end of the address space, with an invariant \<open>I va st\<close>
  that holds when the pages before \<open>va\<close> are done.
\<close>

lemma page_loop_invariant:
  assumes "I va st" and "unat en + 0x1000 < 2 ^ 64"
    and "\<And>va st. I va st \<Longrightarrow> va < en \<Longrightarrow> \<exists>st'. body va st = Inr st' \<and> I (va + PAGE_SIZE) st'"
  shows "\<exists>st' va'. page_loop body va en st = Inr st' \<and> I va' st' \<and> en \<le> va' \<and>
    (va' = va \<or> unat va' < unat en + 0x1000)"
  using assms(1)
proof (induction "unat en - unat va" arbitrary: va st rule: less_induct)
  case less
  show ?case
  proof (cases "va < en")
    case True
    obtain st' where st': "body va st = Inr st'" "I (va + PAGE_SIZE) st'"
      using assms(3) [OF less.prems True] by blast
    have "unat (va + PAGE_SIZE) = unat va + 0x1000"
      using True assms(2) unat_add_of_nat_u64 [of va "0x1000"] by (simp add: word_less_nat_alt)
    then have "unat en - unat (va + PAGE_SIZE) < unat en - unat va"
      using True by (simp add: word_less_nat_alt)
    from less.hyps [OF this st'(2)] obtain s2 v2 where "page_loop body (va + PAGE_SIZE) en st' = Inr s2"
      "I v2 s2" "en \<le> v2" "v2 = va + PAGE_SIZE \<or> unat v2 < unat en + 0x1000" by blast
    moreover from this(4) have "unat v2 < unat en + 0x1000"
      using \<open>unat (va + PAGE_SIZE) = unat va + 0x1000\<close> True by (auto simp: word_less_nat_alt)
    ultimately show ?thesis using st'(1) True by (subst page_loop_rec) auto
  next
    case False
    then show ?thesis using less.prems by (subst page_loop_rec) auto
  qed
qed

section \<open>Unmapping a page\<close>

lemma tbl_cut:
  assumes inv: "pt_inv pt ba cr3" and xs: "tbl pt cr3 xs = Some a" "upath (xs @ [i])" "length xs = 3"
    and same: "same_entries pt cr3 a i pt'" and e: "pt' (entry_addr a i) AND 1 = 0" and ys: "upath ys"
  shows "tbl pt' cr3 ys = (if ys = xs @ [i] then None else tbl pt cr3 ys)"
proof (cases "\<exists>zs. ys = (xs @ [i]) @ zs")
  case True
  then have "ys = xs @ [i]" using ys xs(3) by (auto simp: upath_def)
  moreover have "tbl pt' cr3 xs = Some a"
    using tbl_other_paths [OF inv xs(1,2) same upath_append [OF xs(2)]] xs(1) by simp
  ultimately show ?thesis using e by (simp add: tbl_snoc)
next
  case False
  then have "ys \<noteq> xs @ [i]" by auto
  with tbl_other_paths [OF inv xs(1,2) same ys False] show ?thesis by simp
qed

lemma pt_inv_cut:
  assumes inv: "pt_inv pt ba cr3" and xs: "tbl pt cr3 xs = Some a" "upath (xs @ [i])" "length xs = 3"
    and f: "tbl pt cr3 (xs @ [i]) = Some f"
    and ba': "ba_managed ba' - ba_in_use ba' \<subseteq> insert f (ba_managed ba - ba_in_use ba)"
  shows "pt_inv (pt(entry_addr a i := 0)) ba' cr3"
    and "upath ys \<Longrightarrow> tbl (pt(entry_addr a i := 0)) cr3 ys = (if ys = xs @ [i] then None else tbl pt cr3 ys)"
proof -
  let ?pt = "pt(entry_addr a i := 0)"
  have up: "upath xs" "i < 512" using xs(2) upath_append upath_last by blast+
  have al: "unat a mod 0x1000 = 0" using pt_invD(1) [OF inv up(1) xs(1)] .
  have same: "same_entries pt cr3 a i ?pt"
    unfolding same_entries_def
  proof (intro allI impI)
    fix js b j assume j: "upath (js @ [j])" "tbl pt cr3 js = Some b" "(b, j) \<noteq> (a, i)"
    have u: "upath js" "j < 512" using j(1) upath_append upath_last by blast+
    show "?pt (entry_addr b j) = pt (entry_addr b j)"
      using entry_addr_eq [OF pt_invD(1) [OF inv u(1) j(2)] al u(2) up(2)] j(3) by auto
  qed
  have cut: "tbl ?pt cr3 ys = (if ys = xs @ [i] then None else tbl pt cr3 ys)" if "upath ys" for ys
    by (rule tbl_cut [OF inv xs same _ that]) simp
  then show "upath ys \<Longrightarrow> tbl ?pt cr3 ys = (if ys = xs @ [i] then None else tbl pt cr3 ys)" .
  have old: "tbl pt cr3 js = Some b \<and> js \<noteq> xs @ [i]" if "upath js" "tbl ?pt cr3 js = Some b" for js b
    using cut [OF that(1)] that(2) by (auto split: if_splits)
  have "b \<noteq> f" if "upath js" "tbl ?pt cr3 js = Some b" for js b
    using old [OF that] pt_invD(4) [OF inv that(1) _ xs(2), of b] f by auto
  then have frame: "unat b mod 0x1000 = 0 \<and> unat b < 2 ^ 52 \<and> b \<notin> ba_managed ba' - ba_in_use ba'"
    if "upath js" "tbl ?pt cr3 js = Some b" for js b
    using old [OF that] pt_invD(1-3) [OF inv that(1), of b] ba' that by blast
  have inj: "js = ks" if "upath js" "upath ks" "tbl ?pt cr3 js = Some b" "tbl ?pt cr3 ks = Some b" for js ks b
    using old [OF that(1,3)] old [OF that(2,4)] pt_invD(4) [OF inv that(1) _ that(2)] by blast
  have entry: "(length js < 3 \<longrightarrow> ?pt (entry_addr b j) AND PTE_PS = 0) \<and>
      ?pt (entry_addr b j) AND NOT 0xfff = PTE_ADDR (?pt (entry_addr b j))"
    if j: "upath (js @ [j])" and b: "tbl ?pt cr3 js = Some b" for js j b
  proof (cases "(b, j) = (a, i)")
    case True
    then show ?thesis by (simp add: PTE_ADDR_def)
  next
    case False
    have o: "tbl pt cr3 js = Some b" using old [OF upath_append [OF j] b] by blast
    show ?thesis
      using same_entriesD [OF same j o False] pt_invD(5,6) [OF inv upath_append [OF j] o j] by auto
  qed
  from frame inj entry show "pt_inv ?pt ba' cr3" unfolding pt_inv_def by blast
qed

lemma free_one_cut:
  assumes inv: "vm_inv cr3 st" and va: "user_va va"
    and fu: "\<And>f. translate (vm_pt st) cr3 va = Some f \<Longrightarrow> f \<in> ba_in_use (vm_ba st)"
  shows "\<exists>st'. free_one cr3 va st = Inr st' \<and> vm_inv cr3 st' \<and>
    ba_managed (vm_ba st') = ba_managed (vm_ba st) \<and>
    ba_in_use (vm_ba st') = ba_in_use (vm_ba st) - set_option (translate (vm_pt st) cr3 va) \<and>
    (\<forall>vb. user_va vb \<longrightarrow> translate (vm_pt st') cr3 vb =
       (if path vb = path va then None else translate (vm_pt st) cr3 vb)) \<and> vm_mem st' = vm_mem st \<and> others cr3 st st'"
proof -
  have pi: "pt_inv (vm_pt st) (vm_ba st) cr3" and ok: "ba_inv (vm_ba st)" using inv by (simp_all add: vm_inv_def)
  from pi va show ?thesis
  proof (cases rule: walk_present_cases)
    case none
    then have "free_one cr3 va st = Inr st" by (simp add: free_one_def)
    then show ?thesis using none inv others_refl by (auto simp: translate_def)
  next
    case (some t)
    define e where "e = entry_addr t (pt_index va 0)"
    define f where "f = PTE_ADDR (vm_pt st e)"
    have tr: "translate (vm_pt st) cr3 va = Some f" using some(4) by (simp add: e_def f_def)
    obtain ba where ba: "free_page (vm_ba st) f = Inr ba" "ba_inv ba" "ba_managed ba = ba_managed (vm_ba st)"
      "ba_in_use ba = ba_in_use (vm_ba st) - {f}"
      using bitmap_pages.put_ok [OF ok fu [OF tr]] by blast
    have up: "upath ([pt_index va 3, pt_index va 2, pt_index va 1] @ [pt_index va 0])"
      using upath_path [OF va] by (simp add: path_def)
    have lf: "tbl (vm_pt st) cr3 ([pt_index va 3, pt_index va 2, pt_index va 1] @ [pt_index va 0]) = Some f"
      using tr by (simp add: translate_def path_def)
    have sub: "ba_managed ba - ba_in_use ba \<subseteq> insert f (ba_managed (vm_ba st) - ba_in_use (vm_ba st))"
      using ba(3,4) by auto
    note cut = pt_inv_cut [OF pi some(1) up _ lf sub, folded e_def path_snoc]
    have "free_one cr3 va st = Inr (st\<lparr>vm_ba := ba, vm_pt := (vm_pt st)(e := 0)\<rparr>)"
      using some(2) ba(1) by (simp add: free_one_def f_def flip: e_def)
    moreover have "vm_inv cr3 (st\<lparr>vm_ba := ba, vm_pt := (vm_pt st)(e := 0)\<rparr>)"
      using inv ba(2,3) cut(1) by (simp add: vm_inv_def)
    moreover have "others cr3 st (st\<lparr>vm_ba := ba, vm_pt := (vm_pt st)(e := 0)\<rparr>)"
    proof (rule others_change)
      fix b j :: u64 assume b: "unat b mod 0x1000 = 0" "j < 512" "\<forall>xs. upath xs \<longrightarrow> tbl (vm_pt st) cr3 xs \<noteq> Some b"
      have t: "unat t mod 0x1000 = 0" "b \<noteq> t" using pt_invD(1) [OF pi upath_append [OF up] some(1)] b(3) some(1) upath_append [OF up] by auto
      then show "vm_pt (st\<lparr>vm_ba := ba, vm_pt := (vm_pt st)(e := 0)\<rparr>) (entry_addr b j) = vm_pt st (entry_addr b j)"
        using entry_addr_eq [OF b(1) t(1) b(2) pt_index_lt] by (simp add: e_def)
    next
      fix ys b assume ys: "upath ys" "tbl (vm_pt (st\<lparr>vm_ba := ba, vm_pt := (vm_pt st)(e := 0)\<rparr>)) cr3 ys = Some b"
      then show "(\<exists>xs. upath xs \<and> tbl (vm_pt st) cr3 xs = Some b) \<or> b \<in> ba_managed (vm_ba st) - ba_in_use (vm_ba st)"
        using cut(2) [OF _ ys(1)] by (auto split: if_splits)
    next
      fix b assume "b \<in> ba_managed (vm_ba (st\<lparr>vm_ba := ba, vm_pt := (vm_pt st)(e := 0)\<rparr>)) -
        ba_in_use (vm_ba (st\<lparr>vm_ba := ba, vm_pt := (vm_pt st)(e := 0)\<rparr>))"
      then have "b = f \<or> b \<in> ba_managed (vm_ba st) - ba_in_use (vm_ba st)" using sub by auto
      then show "(\<exists>xs. upath xs \<and> tbl (vm_pt st) cr3 xs = Some b) \<or> b \<in> ba_managed (vm_ba st) - ba_in_use (vm_ba st)"
        using lf up by blast
    qed (use ba(2,3) in auto)
    ultimately show ?thesis
      using ba(3,4) tr cut(2) upath_path by (auto simp: translate_def)
  qed
qed

section \<open>Regions\<close>

definition aligned :: "u64 \<Rightarrow> bool" where
  "aligned va \<longleftrightarrow> unat va mod 0x1000 = 0"

lemma aligned_round_down: "aligned (PAGE_ROUND_DOWN a)" "PAGE_ROUND_DOWN a \<le> a"
proof -
  have m: "(0xfff :: u64) = mask 12" by (simp add: mask_eq_exp_minus_1)
  have "take_bit 12 (PAGE_ROUND_DOWN a) = 0"
    unfolding PAGE_ROUND_DOWN_def m by (rule bit_eqI) (auto simp: bit_simps)
  then have "unat (take_bit 12 (PAGE_ROUND_DOWN a)) = 0" by simp
  then show "aligned (PAGE_ROUND_DOWN a)"
    unfolding unsigned_take_bit_eq aligned_def by (simp add: take_bit_eq_mod)
  show "PAGE_ROUND_DOWN a \<le> a" unfolding PAGE_ROUND_DOWN_def by (rule word_and_le2)
qed

lemma round_down_aligned: "aligned a \<Longrightarrow> PAGE_ROUND_DOWN a = a"
proof -
  assume "aligned a"
  then have "a AND 0xfff = 0" unfolding aligned_def by (rule aligned_and)
  moreover have "a = (a AND 0xfff) OR (a AND NOT 0xfff)" by (rule bit_eqI) (auto simp: bit_simps)
  ultimately show ?thesis by (simp add: PAGE_ROUND_DOWN_def)
qed

lemma aligned_path:
  assumes "aligned va" "aligned vb" "user_va va" "user_va vb"
  shows "path va = path vb \<longleftrightarrow> va = vb"
proof
  assume "path va = path vb"
  then have "va div 0x1000 = vb div 0x1000"
    using path_eq_iff [OF assms(3,4)] by (simp add: drop_bit_eq_div)
  then have "unat (va div 0x1000) = unat (vb div 0x1000)" by simp
  then have "unat va div 0x1000 = unat vb div 0x1000" unfolding unat_div by simp
  then have "unat va = unat vb"
    using assms(1,2) div_mult_mod_eq [of "unat va" "0x1000"] div_mult_mod_eq [of "unat vb" "0x1000"]
    unfolding aligned_def by simp
  then show "va = vb" by (simp add: word_unat_eq_iff)
qed simp

lemma aligned_next:
  assumes "aligned va" "user_va va"
  shows "aligned (va + PAGE_SIZE)" "unat (va + PAGE_SIZE) = unat va + 0x1000"
    "aligned vb \<Longrightarrow> va < vb \<Longrightarrow> va + PAGE_SIZE \<le> vb" "vb < va + PAGE_SIZE \<longleftrightarrow> unat vb < unat va + 0x1000"
proof -
  show u: "unat (va + PAGE_SIZE) = unat va + 0x1000"
    using assms(2) unat_add_of_nat_u64 [of va "0x1000"] by (simp add: user_va_def word_less_nat_alt)
  show "aligned (va + PAGE_SIZE)" unfolding aligned_def u using assms(1) by (simp add: aligned_def)
  show "vb < va + PAGE_SIZE \<longleftrightarrow> unat vb < unat va + 0x1000" by (simp add: word_less_nat_alt u)
  assume "aligned vb" "va < vb"
  then obtain k l where kl: "unat va = 0x1000 * k" "unat vb = 0x1000 * l"
    using assms(1) unfolding aligned_def mod_eq_0_iff_dvd by (elim dvdE)
  with \<open>va < vb\<close> have "k < l" by (simp add: word_less_nat_alt)
  then show "va + PAGE_SIZE \<le> vb" using u kl by (simp add: word_le_nat_alt)
qed

text \<open>The pages a region loop visits.\<close>

definition region :: "u64 \<Rightarrow> u64 \<Rightarrow> u64 set" where
  "region start en = {va. aligned va \<and> PAGE_ROUND_DOWN start \<le> va \<and> va < en}"

lemma region_user: "unat en \<le> 2 ^ 47 \<Longrightarrow> va < en \<Longrightarrow> user_va va"
  by (simp add: user_va_def word_less_nat_alt)

lemma aligned_lt_next:
  assumes "aligned va" "user_va va" "aligned v"
  shows "v < va + PAGE_SIZE \<longleftrightarrow> v < va \<or> v = va"
proof -
  have "va < va + PAGE_SIZE" using aligned_next(4) [OF assms(1,2), of va] by simp
  then show ?thesis
    using aligned_next(3) [OF assms] by (cases v va rule: linorder_cases) (auto simp: not_less dest: less_trans)
qed

text \<open>The pages before the address at which a region loop ends are those of the region.\<close>

lemma region_upto:
  assumes "aligned cur" "en \<le> cur" "cur = PAGE_ROUND_DOWN start \<or> unat cur < unat en + 0x1000" "aligned va"
  shows "PAGE_ROUND_DOWN start \<le> va \<and> va < cur \<longleftrightarrow> va \<in> region start en"
proof -
  have "va < en" if s: "PAGE_ROUND_DOWN start \<le> va" and lt: "va < cur"
  proof -
    obtain k l where kl: "unat va = 0x1000 * k" "unat cur = 0x1000 * l"
      using assms(1,4) unfolding aligned_def mod_eq_0_iff_dvd by (elim dvdE)
    then have "k < l" using lt by (simp add: word_less_nat_alt)
    moreover have "unat cur < unat en + 0x1000" using assms(3) s lt by auto
    ultimately show ?thesis using kl by (simp add: word_less_nat_alt)
  qed
  then show ?thesis using assms(2,4) by (auto simp: region_def)
qed

text \<open>The invariant of \<open>free_region\<close> before page \<open>cur\<close>.\<close>

definition freed_upto :: "u64 \<Rightarrow> u64 \<Rightarrow> vm \<Rightarrow> u64 \<Rightarrow> vm \<Rightarrow> bool" where
  "freed_upto cr3 s st cur st' \<longleftrightarrow> aligned cur \<and> s \<le> cur \<and> vm_inv cr3 st' \<and> vm_mem st' = vm_mem st \<and> others cr3 st st' \<and>
     ba_managed (vm_ba st') = ba_managed (vm_ba st) \<and>
     (\<forall>vb. user_va vb \<longrightarrow> aligned vb \<longrightarrow> translate (vm_pt st') cr3 vb =
        (if s \<le> vb \<and> vb < cur then None else translate (vm_pt st) cr3 vb)) \<and>
     ba_in_use (vm_ba st') = ba_in_use (vm_ba st) -
        {f. \<exists>vb. user_va vb \<and> aligned vb \<and> s \<le> vb \<and> vb < cur \<and> translate (vm_pt st) cr3 vb = Some f}"

lemma translate_inj:
  assumes "vm_inv cr3 st" "user_va va" "user_va vb" "aligned va" "aligned vb"
    and "translate (vm_pt st) cr3 va = Some f" "translate (vm_pt st) cr3 vb = Some f"
  shows "va = vb"
proof -
  have pi: "pt_inv (vm_pt st) (vm_ba st) cr3" using assms(1) by (simp add: vm_inv_def)
  have "path va = path vb"
    using pt_invD(4) [OF pi upath_path [OF assms(2)] _ upath_path [OF assms(3)]] assms(6,7)
    unfolding translate_def by blast
  then show ?thesis using aligned_path [OF assms(4,5,2,3)] by simp
qed

lemma freed_step:
  assumes inv0: "vm_inv cr3 st" and I: "freed_upto cr3 s st cur st'" and cur: "user_va cur"
    and fu: "\<And>vb f. user_va vb \<Longrightarrow> aligned vb \<Longrightarrow> s \<le> vb \<Longrightarrow> translate (vm_pt st) cr3 vb = Some f \<Longrightarrow>
      cur = vb \<Longrightarrow> f \<in> ba_in_use (vm_ba st)"
  shows "\<exists>st''. free_one cr3 cur st' = Inr st'' \<and> freed_upto cr3 s st (cur + PAGE_SIZE) st''"
proof -
  note I' = I [unfolded freed_upto_def]
  have al: "aligned cur" "s \<le> cur" "vm_inv cr3 st'" using I' by auto
  have tc: "translate (vm_pt st') cr3 cur = translate (vm_pt st) cr3 cur" using I' cur al by simp
  have "f \<in> ba_in_use (vm_ba st')" if f: "translate (vm_pt st') cr3 cur = Some f" for f
  proof -
    have f': "translate (vm_pt st) cr3 cur = Some f" using f tc by simp
    have "f \<in> ba_in_use (vm_ba st)" using fu [OF cur al(1,2) f'] by simp
    moreover have "\<not> (\<exists>vb. user_va vb \<and> aligned vb \<and> s \<le> vb \<and> vb < cur \<and> translate (vm_pt st) cr3 vb = Some f)"
      using translate_inj [OF inv0 cur _ al(1) _ f'] by blast
    ultimately show ?thesis using I' by auto
  qed
  from free_one_cut [OF al(3) cur this] obtain st'' where st'': "free_one cr3 cur st' = Inr st''"
    "vm_inv cr3 st''" "ba_managed (vm_ba st'') = ba_managed (vm_ba st')"
    "ba_in_use (vm_ba st'') = ba_in_use (vm_ba st') - set_option (translate (vm_pt st') cr3 cur)"
    "\<forall>vb. user_va vb \<longrightarrow> translate (vm_pt st'') cr3 vb =
       (if path vb = path cur then None else translate (vm_pt st') cr3 vb)" "vm_mem st'' = vm_mem st'" "others cr3 st' st''" by blast
  note lt = aligned_lt_next [OF al(1) cur]
  have "freed_upto cr3 s st (cur + PAGE_SIZE) st''"
    unfolding freed_upto_def
  proof (intro conjI allI impI)
    show "aligned (cur + PAGE_SIZE)" using aligned_next(1) [OF al(1) cur] .
    show "s \<le> cur + PAGE_SIZE" using lt [OF al(1)] al(2) by (metis order.strict_implies_order order_trans)
    show "ba_managed (vm_ba st'') = ba_managed (vm_ba st)" "vm_mem st'' = vm_mem st" using st''(3,6) I' by simp_all
    show "others cr3 st st''" using I' st''(7) others_trans by blast
    show "translate (vm_pt st'') cr3 vb = (if s \<le> vb \<and> vb < cur + PAGE_SIZE then None else translate (vm_pt st) cr3 vb)"
      if "user_va vb" "aligned vb" for vb
      using st''(5) I' that aligned_path [OF that(2) al(1) that(1) cur] lt [OF that(2)] al(2) by auto
    show "ba_in_use (vm_ba st'') = ba_in_use (vm_ba st) - {f. \<exists>vb. user_va vb \<and> aligned vb \<and> s \<le> vb \<and>
        vb < cur + PAGE_SIZE \<and> translate (vm_pt st) cr3 vb = Some f}"
    proof -
      have "(user_va vb \<and> aligned vb \<and> s \<le> vb \<and> vb < cur + PAGE_SIZE \<and> translate (vm_pt st) cr3 vb = Some f) =
          ((user_va vb \<and> aligned vb \<and> s \<le> vb \<and> vb < cur \<and> translate (vm_pt st) cr3 vb = Some f) \<or>
           vb = cur \<and> translate (vm_pt st) cr3 cur = Some f)" for vb f
        using lt [of vb] al(1,2) cur by blast
      then have "{f. \<exists>vb. user_va vb \<and> aligned vb \<and> s \<le> vb \<and> vb < cur + PAGE_SIZE \<and> translate (vm_pt st) cr3 vb = Some f}
          = {f. \<exists>vb. user_va vb \<and> aligned vb \<and> s \<le> vb \<and> vb < cur \<and> translate (vm_pt st) cr3 vb = Some f}
            \<union> set_option (translate (vm_pt st) cr3 cur)"
        by (auto simp: set_eq_iff)
      then show ?thesis unfolding st''(4) tc using I' by blast
    qed
  qed (fact st''(2))
  with st''(1) show ?thesis by blast
qed

text \<open>Every page that is mapped by a change gets a page of the allocator.\<close>

definition fresh_leaves :: "u64 \<Rightarrow> vm \<Rightarrow> vm \<Rightarrow> bool" where
  "fresh_leaves cr3 st st' \<longleftrightarrow> (\<forall>va f. user_va va \<longrightarrow> translate (vm_pt st') cr3 va = Some f \<longrightarrow>
     translate (vm_pt st) cr3 va = Some f \<or> f \<in> ba_managed (vm_ba st))"

text \<open>The invariant of \<open>allocate_region\<close>: the pages before \<open>cur\<close> are mapped, at most four frames each.\<close>

definition mapped_upto :: "u64 \<Rightarrow> u64 \<Rightarrow> vm \<Rightarrow> u64 \<Rightarrow> vm \<Rightarrow> bool" where
  "mapped_upto cr3 s st cur st' \<longleftrightarrow> aligned cur \<and> s \<le> cur \<and> vm_inv cr3 st' \<and>
     ba_managed (vm_ba st') = ba_managed (vm_ba st) \<and> vm_mem st' = vm_mem st \<and> others cr3 st st' \<and> fresh_leaves cr3 st st' \<and>
     avail st * 0x1000 \<le> avail st' * 0x1000 + 4 * (unat cur - unat s) \<and>
     (\<forall>vb. user_va vb \<longrightarrow> aligned vb \<longrightarrow>
        (if s \<le> vb \<and> vb < cur \<and> translate (vm_pt st) cr3 vb = None
         then translate (vm_pt st') cr3 vb \<noteq> None
         else translate (vm_pt st') cr3 vb = translate (vm_pt st) cr3 vb))"

lemma mapped_step:
  assumes I: "mapped_upto cr3 s st cur st'" and cur: "user_va cur" and f: "flags_ok flags" and av: "4 \<le> avail st'"
  shows "\<exists>st''. map_memory_page cr3 cur flags st' = Inr st'' \<and> mapped_upto cr3 s st (cur + PAGE_SIZE) st''"
proof -
  note I' = I [unfolded mapped_upto_def]
  have al: "aligned cur" "s \<le> cur" "vm_inv cr3 st'" using I' by auto
  from map_memory_page_extends [OF al(3) cur f av] obtain st'' n where m:
    "map_memory_page cr3 cur flags st' = Inr st''" "vm_inv cr3 st''"
    "ba_managed (vm_ba st'') = ba_managed (vm_ba st')" "avail st' \<le> avail st'' + 4"
    "tbl (vm_pt st'') cr3 (path cur) = Some n"
    "tbl (vm_pt st') cr3 (path cur) \<noteq> None \<Longrightarrow> st'' = st'"
    "tbl (vm_pt st') cr3 (path cur) = None \<Longrightarrow> n \<in> ba_managed (vm_ba st')"
    "\<And>ys. upath ys \<Longrightarrow> length ys = 4 \<Longrightarrow> ys \<noteq> path cur \<Longrightarrow> tbl (vm_pt st'') cr3 ys = tbl (vm_pt st') cr3 ys"
    "vm_mem st'' = vm_mem st'" "others cr3 st' st''"
    by (auto split: if_splits)
  note lt = aligned_lt_next [OF al(1) cur] and nx = aligned_next(1,2) [OF al(1) cur]
  have other: "translate (vm_pt st'') cr3 vb = translate (vm_pt st') cr3 vb"
    if "user_va vb" "aligned vb" "vb \<noteq> cur" for vb
    unfolding translate_def using m(8) [OF upath_path [OF that(1)]] aligned_path [OF that(2) al(1) that(1) cur] that(3)
    by (simp add: path_def)
  have here: "translate (vm_pt st'') cr3 cur \<noteq> None"
    "translate (vm_pt st') cr3 cur \<noteq> None \<Longrightarrow> translate (vm_pt st'') cr3 cur = translate (vm_pt st') cr3 cur"
    using m(5,6) by (auto simp: translate_def)
  have tr: "if s \<le> vb \<and> vb < cur + PAGE_SIZE \<and> translate (vm_pt st) cr3 vb = None
      then translate (vm_pt st'') cr3 vb \<noteq> None
      else translate (vm_pt st'') cr3 vb = translate (vm_pt st) cr3 vb"
    if vb: "user_va vb" "aligned vb" for vb
  proof (cases "vb = cur")
    case True
    have "translate (vm_pt st') cr3 cur = translate (vm_pt st) cr3 cur" using I' cur al(1) by (simp split: if_splits)
    with here True al(2) lt [OF al(1)] show ?thesis by auto
  next
    case False
    with other [OF vb False] lt [OF vb(2)] I' vb show ?thesis by auto
  qed
  have "s \<le> cur + PAGE_SIZE" using lt [OF al(1)] al(2) by (metis order.strict_implies_order order_trans)
  moreover have "avail st * 0x1000 \<le> avail st'' * 0x1000 + 4 * (unat (cur + PAGE_SIZE) - unat s)"
  proof -
    have "avail st * 0x1000 \<le> avail st' * 0x1000 + 4 * (unat cur - unat s)" using I' by blast
    moreover have "unat s \<le> unat cur" using al(2) by (simp add: word_le_nat_alt)
    ultimately show ?thesis using m(4) unfolding nx(2) by linarith
  qed
  moreover have "others cr3 st st''" using I' m(10) others_trans by blast
  moreover have "fresh_leaves cr3 st st''" unfolding fresh_leaves_def
  proof (intro allI impI)
    fix va f assume va: "user_va va" "translate (vm_pt st'') cr3 va = Some f"
    have "translate (vm_pt st') cr3 va = Some f \<or> f \<in> ba_managed (vm_ba st')"
    proof (cases "path va = path cur")
      case True
      then show ?thesis using va(2) m(5-7) by (cases "tbl (vm_pt st') cr3 (path cur)") (auto simp: translate_def)
    next
      case False
      moreover have "length (path va) = 4" by (simp add: path_def)
      ultimately show ?thesis using m(8) [OF upath_path [OF va(1)]] va(2) by (simp add: translate_def)
    qed
    then show "translate (vm_pt st) cr3 va = Some f \<or> f \<in> ba_managed (vm_ba st)"
      using I' va(1) unfolding fresh_leaves_def by auto
  qed
  ultimately have "mapped_upto cr3 s st (cur + PAGE_SIZE) st''"
    unfolding mapped_upto_def using nx(1) m(2,3,9) I' tr by simp
  with m(1) show ?thesis by blast
qed

section \<open>Copying pages\<close>

lemma in_range_page:
  assumes "unat a mod 0x1000 = 0" "in_range x a 0x1000"
  shows "unat x div 0x1000 = unat a div 0x1000"
proof -
  obtain i where i: "i < 0x1000" "x = a + of_nat i" using assms(2) by (auto simp: in_range_def)
  obtain k where k: "unat a = 0x1000 * k" using assms(1) unfolding mod_eq_0_iff_dvd by (elim dvdE)
  have "k < 2 ^ 52" using unat_u64_lt [of a] k by simp
  then have "unat a + i < 2 ^ 64" using i(1) k by simp
  then have "unat x = unat a + i" using i(2) unat_add_of_nat_u64 [of a i] by simp
  then show ?thesis using k i(1) by simp
qed

lemma pages_disjoint:
  assumes "unat a mod 0x1000 = 0" "unat b mod 0x1000 = 0" "a \<noteq> b" "in_range x a 0x1000"
  shows "\<not> in_range x b 0x1000"
proof
  assume "in_range x b 0x1000"
  then have "unat a div 0x1000 = unat b div 0x1000" using in_range_page assms(1,2,4) by metis
  then have "unat a = unat b"
    using assms(1,2) div_mult_mod_eq [of "unat a" "0x1000"] div_mult_mod_eq [of "unat b" "0x1000"] by simp
  with assms(3) show False by (simp add: word_unat_eq_iff)
qed

lemma memcpy_page:
  assumes "unat g mod 0x1000 = 0" "unat f mod 0x1000 = 0" "g \<noteq> f"
  shows "bytes_at (snd (memcpy m g f 0x1000)) g 0x1000 = bytes_at m f 0x1000"
    "\<not> in_range x g 0x1000 \<Longrightarrow> snd (memcpy m g f 0x1000) x = m x"
proof -
  have "\<not> in_range (f + of_nat i) g (unat (0x1000 :: u64))" if "i < unat (0x1000 :: u64)" for i
    using pages_disjoint [OF assms(2,1) _ in_range_offset [of i "0x1000" f]] that assms(3) by simp
  from memcpy_block [of "0x1000" f g, OF this]
  show "bytes_at (snd (memcpy m g f 0x1000)) g 0x1000 = bytes_at m f 0x1000"
    "\<not> in_range x g 0x1000 \<Longrightarrow> snd (memcpy m g f 0x1000) x = m x" by simp_all
qed

text \<open>
  Two address spaces that share no frame, and the invariant of the copying loop: the tables stay,
  and so does the memory outside the pages of the destination; of those, the pages before \<open>cur\<close> that the
  source maps have been copied, the others keep their contents.
\<close>

definition separate :: "(u64 \<Rightarrow> u64) \<Rightarrow> u64 \<Rightarrow> u64 \<Rightarrow> bool" where
  "separate pt dst src \<longleftrightarrow> (\<forall>va vb f g. user_va va \<longrightarrow> user_va vb \<longrightarrow>
     translate pt src va = Some f \<longrightarrow> translate pt dst vb = Some g \<longrightarrow> f \<noteq> g)"

definition copy_source :: "(u64 \<Rightarrow> u64) \<Rightarrow> u64 \<Rightarrow> (u64 \<Rightarrow> bool) \<Rightarrow> u64 \<Rightarrow> u64 \<Rightarrow> u64" where
  "copy_source pt src P va g = (case translate pt src va of Some f \<Rightarrow> if P va then f else g | None \<Rightarrow> g)"

definition copied :: "u64 \<Rightarrow> u64 \<Rightarrow> (u64 \<Rightarrow> bool) \<Rightarrow> vm \<Rightarrow> vm \<Rightarrow> bool" where
  "copied dst src P st st' \<longleftrightarrow> vm_pt st' = vm_pt st \<and> vm_ba st' = vm_ba st \<and>
     (\<forall>x. (\<forall>va g. user_va va \<longrightarrow> translate (vm_pt st) dst va = Some g \<longrightarrow> \<not> in_range x g 0x1000) \<longrightarrow>
        vm_mem st' x = vm_mem st x) \<and>
     (\<forall>va g. user_va va \<longrightarrow> aligned va \<longrightarrow> translate (vm_pt st) dst va = Some g \<longrightarrow>
        bytes_at (vm_mem st') g 0x1000 = bytes_at (vm_mem st) (copy_source (vm_pt st) src P va g) 0x1000)"

definition copied_upto :: "u64 \<Rightarrow> u64 \<Rightarrow> u64 \<Rightarrow> vm \<Rightarrow> u64 \<Rightarrow> i32 \<times> vm \<Rightarrow> bool" where
  "copied_upto dst src s st cur = (\<lambda>(n, st'). aligned cur \<and> s \<le> cur \<and> copied dst src (\<lambda>va. s \<le> va \<and> va < cur) st st')"

lemma translate_aligned:
  assumes "vm_inv cr3 st" "user_va va" "translate (vm_pt st) cr3 va = Some f"
  shows "unat f mod 0x1000 = 0"
  using assms pt_invD(1) [OF _ upath_path [OF assms(2)]] unfolding vm_inv_def translate_def by blast

lemma copied_refl: "(\<And>va. \<not> P va) \<Longrightarrow> copied dst src P st st"
  by (auto simp: copied_def copy_source_def split: option.splits)

lemma copied_outside:
  assumes "copied dst src P st st'" and "\<And>va g. user_va va \<Longrightarrow> translate (vm_pt st) dst va = Some g \<Longrightarrow> \<not> in_range x g 0x1000"
  shows "vm_mem st' x = vm_mem st x"
  using assms unfolding copied_def by blast

lemma copied_page:
  assumes "copied dst src P st st'" "user_va va" "aligned va" "translate (vm_pt st) dst va = Some g"
  shows "bytes_at (vm_mem st') g 0x1000 = bytes_at (vm_mem st) (copy_source (vm_pt st) src P va g) 0x1000"
  using assms unfolding copied_def by blast

lemma copied_cong:
  assumes "copied dst src P st st'" and "\<And>va. user_va va \<Longrightarrow> aligned va \<Longrightarrow> translate (vm_pt st) src va \<noteq> None \<Longrightarrow>
    translate (vm_pt st) dst va \<noteq> None \<Longrightarrow> P va = Q va"
  shows "copied dst src Q st st'"
proof -
  have "copy_source (vm_pt st) src P va g = copy_source (vm_pt st) src Q va g"
    if "user_va va" "aligned va" "translate (vm_pt st) dst va = Some g" for va g
    using assms(2) [OF that(1,2)] that(3) by (auto simp: copy_source_def split: option.splits)
  then show ?thesis using assms(1) by (simp add: copied_def)
qed

text \<open>The pages of the source keep their contents.\<close>

lemma separate_outside:
  assumes inv: "vm_inv src st" "vm_inv dst st" and sep: "separate (vm_pt st) dst src"
    and f: "user_va va" "translate (vm_pt st) src va = Some f" "in_range x f 0x1000"
    and g: "user_va vb" "translate (vm_pt st) dst vb = Some g"
  shows "\<not> in_range x g 0x1000"
proof -
  have "f \<noteq> g" using sep f g unfolding separate_def by blast
  then show ?thesis
    using pages_disjoint [OF translate_aligned [OF inv(1) f(1,2)] translate_aligned [OF inv(2) g] _ f(3)] by blast
qed

lemma copied_source:
  assumes "vm_inv src st" "vm_inv dst st" "separate (vm_pt st) dst src" "copied dst src P st st'"
    and "user_va va" "translate (vm_pt st) src va = Some f"
  shows "in_range x f 0x1000 \<Longrightarrow> vm_mem st' x = vm_mem st x" "bytes_at (vm_mem st') f 0x1000 = bytes_at (vm_mem st) f 0x1000"
proof -
  show *: "vm_mem st' x = vm_mem st x" if "in_range x f 0x1000" for x
    by (rule copied_outside [OF assms(4) separate_outside [OF assms(1-3,5,6) that]])
  show "bytes_at (vm_mem st') f 0x1000 = bytes_at (vm_mem st) f 0x1000"
    using * in_range_offset by (intro bytes_at_cong) blast
qed

text \<open>Copying one more page.\<close>

lemma copied_more:
  assumes inv: "vm_inv src st" "vm_inv dst st" and sep: "separate (vm_pt st) dst src"
    and I: "copied dst src P st st'" and cur: "user_va cur" "aligned cur"
    and f: "translate (vm_pt st) src cur = Some f" and g: "translate (vm_pt st) dst cur = Some g"
  shows "copied dst src (\<lambda>va. P va \<or> va = cur) st (st'\<lparr>vm_mem := snd (memcpy (vm_mem st') g f PAGE_SIZE)\<rparr>)"
proof -
  let ?m = "snd (memcpy (vm_mem st') g f PAGE_SIZE)" and ?Q = "\<lambda>va. P va \<or> va = cur"
  have fg: "unat f mod 0x1000 = 0" "unat g mod 0x1000 = 0" "g \<noteq> f"
    using translate_aligned [OF inv(1) cur(1) f] translate_aligned [OF inv(2) cur(1) g] sep cur f g
    by (auto simp: separate_def)
  note cp = memcpy_page [OF fg(2,1,3), where m = "vm_mem st'"]
  have out: "?m x = vm_mem st x"
    if "\<forall>va g. user_va va \<longrightarrow> translate (vm_pt st) dst va = Some g \<longrightarrow> \<not> in_range x g 0x1000" for x
    using cp(2) [of x] copied_outside [OF I, of x] that cur(1) g by auto
  have "bytes_at ?m k 0x1000 = bytes_at (vm_mem st) (copy_source (vm_pt st) src ?Q va k) 0x1000"
    if va: "user_va va" "aligned va" "translate (vm_pt st) dst va = Some k" for va k
  proof (cases "va = cur")
    case True
    then show ?thesis
      using cp(1) copied_source(2) [OF inv sep I cur(1) f] f g va(3) by (simp add: copy_source_def)
  next
    case False
    then have "k \<noteq> g" using translate_inj [OF inv(2) va(1) cur(1) va(2) cur(2) _ g] va(3) by blast
    then have "?m (k + of_nat i) = vm_mem st' (k + of_nat i)" if "i < 0x1000" for i
      using cp(2) pages_disjoint [OF translate_aligned [OF inv(2) va(1,3)] fg(2) _ in_range_offset [OF that]] by simp
    then have "bytes_at ?m k 0x1000 = bytes_at (vm_mem st') k 0x1000" by (intro bytes_at_cong)
    then show ?thesis using copied_page [OF I va] False by (simp add: copy_source_def cong: option.case_cong)
  qed
  with out I show ?thesis unfolding copied_def by simp
qed

lemma copied_next:
  assumes "aligned cur" "user_va cur" "s \<le> cur" "aligned va"
  shows "(s \<le> va \<and> va < cur + PAGE_SIZE) = ((s \<le> va \<and> va < cur) \<or> va = cur)"
  using aligned_lt_next [OF assms(1,2,4)] assms(3) by auto

lemma copy_page:
  assumes inv: "vm_inv src st" "vm_inv dst st" and sep: "separate (vm_pt st) dst src"
    and I: "copied_upto dst src s st cur (n, st')" and cur: "user_va cur"
    and f: "translate (vm_pt st) src cur = Some f" and g: "translate (vm_pt st) dst cur = Some g"
  shows "copied_upto dst src s st (cur + PAGE_SIZE)
    (n + 1, st'\<lparr>vm_mem := snd (memcpy (vm_mem st') g f PAGE_SIZE)\<rparr>)"
proof -
  have al: "aligned cur" "s \<le> cur" using I by (auto simp: copied_upto_def)
  have "copied dst src (\<lambda>va. s \<le> va \<and> va < cur + PAGE_SIZE) st (st'\<lparr>vm_mem := snd (memcpy (vm_mem st') g f PAGE_SIZE)\<rparr>)"
    by (rule copied_cong [OF copied_more [OF inv sep _ cur al(1) f g]])
      (use I copied_next [OF al(1) cur al(2)] in \<open>auto simp: copied_upto_def\<close>)
  moreover have "s \<le> cur + PAGE_SIZE" using copied_next [OF al(1) cur al(2) al(1)] by (auto intro: order_trans less_imp_le)
  ultimately show ?thesis using aligned_next(1) [OF al(1) cur] by (simp add: copied_upto_def)
qed

lemma copied_skip:
  assumes I: "copied_upto dst src s st cur (n, st')" and cur: "user_va cur"
    and no: "translate (vm_pt st) src cur = None \<or> translate (vm_pt st) dst cur = None"
  shows "copied_upto dst src s st (cur + PAGE_SIZE) (n, st')"
proof -
  have al: "aligned cur" "s \<le> cur" "copied dst src (\<lambda>va. s \<le> va \<and> va < cur) st st'" using I by (auto simp: copied_upto_def)
  have "copied dst src (\<lambda>va. s \<le> va \<and> va < cur + PAGE_SIZE) st st'"
    by (rule copied_cong [OF al(3)]) (use no copied_next [OF al(1) cur al(2)] in auto)
  moreover have "s \<le> cur + PAGE_SIZE" using copied_next [OF al(1) cur al(2) al(1)] by (auto intro: order_trans less_imp_le)
  ultimately show ?thesis using aligned_next(1) [OF al(1) cur] by (simp add: copied_upto_def)
qed

lemma copied_step:
  assumes inv: "vm_inv src st" "vm_inv dst st" and sep: "separate (vm_pt st) dst src"
    and I: "copied_upto dst src s st cur t" and cur: "user_va cur"
  shows "\<exists>t'. copy_one dst src cur t = Inr t' \<and> copied_upto dst src s st (cur + PAGE_SIZE) t'"
proof -
  obtain n st' where t: "t = (n, st')" by (cases t)
  have pt: "vm_pt st' = vm_pt st" using I by (simp add: t copied_upto_def copied_def)
  have pi: "pt_inv (vm_pt st) (vm_ba st) src" "pt_inv (vm_pt st) (vm_ba st) dst"
    using inv by (simp_all add: vm_inv_def)
  note skip = copied_skip [OF I [unfolded t] cur] and page = copy_page [OF inv sep I [unfolded t] cur]
  from pi(1) cur show ?thesis
  proof (cases rule: walk_present_cases)
    case none
    then show ?thesis using skip by (auto simp: t copy_one_def pt)
  next
    case s: (some a)
    from pi(2) cur show ?thesis
    proof (cases rule: walk_present_cases)
      case none
      then show ?thesis using s skip by (auto simp: t copy_one_def pt)
    next
      case (some b)
      then show ?thesis using s page by (auto simp: t copy_one_def pt Let_def)
    qed
  qed
qed

section \<open>Properties\<close>

text \<open>An empty address space over the sample allocator, for the witnesses.\<close>

definition vm_sample :: vm where
  "vm_sample = \<lparr>vm_pt = (\<lambda>_. 0), vm_mem = (\<lambda>_. 0), vm_ba = ba_sample\<rparr>"

lemma ba_sample_managed: "ba_managed ba_sample = page_addr (hd (ba_areas ba_sample)) ` {..<15}"
  by (simp add: ba_managed_def ba_sample_def area_pages_def)

lemma ba_sample_bound: "p \<in> ba_managed ba_sample \<Longrightarrow> unat p < 2 ^ 52 \<and> 0x101000 \<le> unat p"
proof -
  have inv: "area_inv (hd (ba_areas ba_sample))" using ba_sample_inv(1) by (simp add: ba_inv_def ba_sample_def)
  assume "p \<in> ba_managed ba_sample"
  then obtain i where "i < 15" "p = page_addr (hd (ba_areas ba_sample)) i" by (auto simp: ba_sample_managed)
  with unat_page_addr [OF inv, of i] show ?thesis by (simp add: ba_sample_def)
qed

text \<open>Empty tables over any page allocator form a well-formed address space.\<close>

lemma vm_empty_inv:
  assumes "ba_inv (vm_ba st)" "vm_pt st = (\<lambda>_. 0)" "\<forall>p \<in> ba_managed (vm_ba st). unat p < 2 ^ 52 \<and> 0x101000 \<le> unat p"
  shows "vm_inv 0x1000 st"
proof -
  have t: "tbl (\<lambda>_. 0) 0x1000 is = (if is = [] then Some 0x1000 else None)" for "is"
    by (cases "is") simp_all
  have "0x1000 \<notin> ba_managed (vm_ba st)" using assms(3) by force
  then have "pt_inv (\<lambda>_. 0) (vm_ba st) 0x1000" unfolding pt_inv_def t by (auto simp: PTE_ADDR_def split: if_splits)
  then show ?thesis using assms by (simp add: vm_inv_def)
qed

lemma vm_sample_inv: "vm_inv 0x1000 vm_sample"
  by (rule vm_empty_inv) (use ba_sample_inv(1) ba_sample_bound in \<open>auto simp: vm_sample_def\<close>)

lemma vm_sample_avail: "avail vm_sample = 14"
proof -
  have inv: "area_inv (hd (ba_areas ba_sample))" using ba_sample_inv(1) by (simp add: ba_inv_def ba_sample_def)
  have "inj_on (page_addr (hd (ba_areas ba_sample))) {..<15}"
    using page_addr_inj [OF inv] by (auto intro!: inj_onI simp: ba_sample_def)
  then have "card (ba_managed ba_sample) = 15" unfolding ba_sample_managed by (simp add: card_image)
  moreover have "0x101000 \<in> ba_managed ba_sample"
    unfolding ba_sample_managed by (auto simp: ba_sample_def page_addr_def intro!: image_eqI [of _ _ 0])
  ultimately show ?thesis by (simp add: avail_def vm_sample_def ba_sample_inv(2))
qed

lemma flags_7: "flags_ok 7" by (simp add: flags_ok_def PTE_PS_def)



text \<open>
  (C10) \<open>map_memory_page\<close> maps the page of a user address: with four pages available it returns, the
  address is translated to its old frame if it was mapped (then nothing changes) and otherwise to a
  page that was not in use, every other page keeps its translation, the page contents are untouched
  and the tables stay well-formed.
\<close>

theorem map_memory_page_correct:
  assumes inv: "vm_inv cr3 st" and va: "user_va va" and f: "flags_ok flags" and av: "4 \<le> avail st"
  shows "\<exists>st' n. map_memory_page cr3 va flags st = Inr st' \<and> vm_inv cr3 st' \<and> vm_mem st' = vm_mem st \<and>
    translate (vm_pt st') cr3 va = Some n \<and>
    (if translate (vm_pt st) cr3 va = None
     then n \<in> ba_managed (vm_ba st) - ba_in_use (vm_ba st) else st' = st) \<and>
    (\<forall>vb. user_va vb \<longrightarrow> drop_bit 12 vb \<noteq> drop_bit 12 va \<longrightarrow>
       translate (vm_pt st') cr3 vb = translate (vm_pt st) cr3 vb)"
proof -
  obtain st' n where m: "map_memory_page cr3 va flags st = Inr st'" "vm_inv cr3 st'" "vm_mem st' = vm_mem st"
    "tbl (vm_pt st') cr3 (path va) = Some n"
    "if tbl (vm_pt st) cr3 (path va) = None
     then n \<in> ba_managed (vm_ba st) - ba_in_use (vm_ba st) else st' = st"
    "\<forall>ys. upath ys \<longrightarrow> length ys = 4 \<longrightarrow> ys \<noteq> path va \<longrightarrow> tbl (vm_pt st') cr3 ys = tbl (vm_pt st) cr3 ys"
    using map_memory_page_extends [OF assms] by blast
  have "translate (vm_pt st') cr3 vb = translate (vm_pt st) cr3 vb"
    if "user_va vb" "drop_bit 12 vb \<noteq> drop_bit 12 va" for vb
  proof -
    have "length (path vb) = 4" "path vb \<noteq> path va" using path_eq_iff [OF that(1) va] that(2) by (auto simp: path_def)
    then show ?thesis using m(6) upath_path [OF that(1)] unfolding translate_def by blast
  qed
  with m show ?thesis unfolding translate_def by blast
qed

theorem map_memory_page_correct_witness:
  "\<exists>st' n. map_memory_page 0x1000 0x400000 7 vm_sample = Inr st' \<and> vm_inv 0x1000 st' \<and>
     translate (vm_pt st') 0x1000 0x400000 = Some n"
  using map_memory_page_correct [OF vm_sample_inv _ flags_7, of "0x400000"] vm_sample_avail
  by (auto simp: user_va_def)

lemma allocate_region_effect:
  assumes inv: "vm_inv cr3 st" and f: "flags_ok flags" and en: "unat en \<le> 2 ^ 47"
    and k: "unat en \<le> unat (PAGE_ROUND_DOWN start) + 0x1000 * k" "4 * k \<le> avail st"
  shows "\<exists>st'. allocate_region cr3 start en flags st = Inr st' \<and> vm_inv cr3 st' \<and>
    (\<forall>va \<in> region start en. translate (vm_pt st') cr3 va \<noteq> None) \<and>
    (\<forall>va. user_va va \<longrightarrow> aligned va \<longrightarrow> (va \<notin> region start en \<or> translate (vm_pt st) cr3 va \<noteq> None) \<longrightarrow>
       translate (vm_pt st') cr3 va = translate (vm_pt st) cr3 va) \<and>
    vm_mem st' = vm_mem st \<and> others cr3 st st' \<and> ba_managed (vm_ba st') = ba_managed (vm_ba st) \<and>
    avail st \<le> avail st' + 4 * k \<and> fresh_leaves cr3 st st'"
proof -
  let ?s = "PAGE_ROUND_DOWN start"
  have "\<exists>st' cur. page_loop (\<lambda>va. map_memory_page cr3 va flags) ?s en st = Inr st' \<and>
      mapped_upto cr3 ?s st cur st' \<and> en \<le> cur \<and> (cur = ?s \<or> unat cur < unat en + 0x1000)"
  proof (rule page_loop_invariant)
    show "mapped_upto cr3 ?s st ?s st"
      using inv aligned_round_down(1) others_refl by (auto simp: mapped_upto_def not_less fresh_leaves_def)
    show "unat en + 0x1000 < 2 ^ 64" using en by simp
  next
    fix cur st' assume I: "mapped_upto cr3 ?s st cur st'" and lt: "cur < en"
    have "avail st * 0x1000 \<le> avail st' * 0x1000 + 4 * (unat cur - unat ?s)" using I by (simp add: mapped_upto_def)
    moreover have "unat ?s \<le> unat cur" "unat cur < unat en"
      using I lt by (simp_all add: mapped_upto_def word_le_nat_alt word_less_nat_alt)
    moreover have "aligned cur" "aligned ?s" using I aligned_round_down(1) by (simp_all add: mapped_upto_def)
    then obtain c d where cd: "unat cur = 0x1000 * c" "unat ?s = 0x1000 * d"
      unfolding aligned_def mod_eq_0_iff_dvd by (elim dvdE)
    ultimately have "d \<le> c" "c < d + k" "avail st * 0x1000 \<le> avail st' * 0x1000 + 4 * (0x1000 * c - 0x1000 * d)"
      using k(1) by simp_all
    then have "4 \<le> avail st'" using k(2) by linarith
    then show "\<exists>st''. map_memory_page cr3 cur flags st' = Inr st'' \<and> mapped_upto cr3 ?s st (cur + PAGE_SIZE) st''"
      using mapped_step [OF I region_user [OF en lt] f] by blast
  qed
  then obtain st' cur where r: "allocate_region cr3 start en flags st = Inr st'"
    "mapped_upto cr3 ?s st cur st'" "en \<le> cur" "cur = ?s \<or> unat cur < unat en + 0x1000"
    by (auto simp: allocate_region_def)
  note I = r(2) [unfolded mapped_upto_def]
  note reg = region_upto [OF conjunct1 [OF I] r(3,4)]
  have tr: "if va \<in> region start en \<and> translate (vm_pt st) cr3 va = None then translate (vm_pt st') cr3 va \<noteq> None
      else translate (vm_pt st') cr3 va = translate (vm_pt st) cr3 va" if "user_va va" "aligned va" for va
    using I that reg [OF that(2)] by (auto split: if_splits)
  have "translate (vm_pt st') cr3 va \<noteq> None" if "va \<in> region start en" for va
    using tr [of va] that region_user [OF en] by (auto simp: region_def split: if_splits)
  moreover have "avail st \<le> avail st' + 4 * k"
  proof -
    obtain c d where cd: "unat cur = 0x1000 * c" "unat ?s = 0x1000 * d"
      using I aligned_round_down(1) [of start] unfolding aligned_def mod_eq_0_iff_dvd by (elim conjE dvdE)
    have "c \<le> d + k" using r(4) k(1) cd by auto
    then have "4 * (unat cur - unat ?s) \<le> 0x1000 * (4 * k)" using cd by simp
    moreover have "avail st * 0x1000 \<le> avail st' * 0x1000 + 4 * (unat cur - unat ?s)" using I by blast
    ultimately show ?thesis by linarith
  qed
  ultimately show ?thesis using r(1) I tr by (intro exI [of _ st']) (auto split: if_splits)
qed

text \<open>
  \<open>allocate_region\<close> on a user range of at most \<open>k\<close> pages, with \<open>4 k\<close> pages available, returns
  with every page of the range mapped; pages that were mapped before, in the range or outside, keep
  their frames, and no page outside becomes mapped.
\<close>

theorem allocate_region_correct:
  assumes inv: "vm_inv cr3 st" and f: "flags_ok flags" and en: "unat en \<le> 2 ^ 47"
    and k: "unat en \<le> unat (PAGE_ROUND_DOWN start) + 0x1000 * k" "4 * k \<le> avail st"
  shows "\<exists>st'. allocate_region cr3 start en flags st = Inr st' \<and> vm_inv cr3 st' \<and>
    (\<forall>va \<in> region start en. translate (vm_pt st') cr3 va \<noteq> None) \<and>
    (\<forall>va. user_va va \<longrightarrow> aligned va \<longrightarrow> (va \<notin> region start en \<or> translate (vm_pt st) cr3 va \<noteq> None) \<longrightarrow>
       translate (vm_pt st') cr3 va = translate (vm_pt st) cr3 va)"
  using allocate_region_effect [OF assms] by blast

theorem allocate_region_correct_witness:
  "\<exists>st'. allocate_region 0x1000 0x400000 0x402000 7 vm_sample = Inr st' \<and> vm_inv 0x1000 st' \<and>
     translate (vm_pt st') 0x1000 0x401000 \<noteq> None"
proof -
  have "0x401000 \<in> region 0x400000 0x402000" by (simp add: region_def aligned_def PAGE_ROUND_DOWN_def)
  moreover have "unat (PAGE_ROUND_DOWN 0x400000) = 0x400000" by (simp add: PAGE_ROUND_DOWN_def)
  ultimately show ?thesis
    using allocate_region_correct [OF vm_sample_inv flags_7, of "0x402000" "0x400000" 2] vm_sample_avail by auto
qed

lemma free_region_effect:
  assumes inv: "vm_inv cr3 st" and en: "unat en \<le> 2 ^ 47"
    and fu: "\<And>va f. va \<in> region start en \<Longrightarrow> translate (vm_pt st) cr3 va = Some f \<Longrightarrow> f \<in> ba_in_use (vm_ba st)"
  shows "\<exists>st'. free_region cr3 start en st = Inr st' \<and> vm_inv cr3 st' \<and>
    (\<forall>va. user_va va \<longrightarrow> aligned va \<longrightarrow> translate (vm_pt st') cr3 va =
       (if va \<in> region start en then None else translate (vm_pt st) cr3 va)) \<and>
    ba_in_use (vm_ba st') =
      ba_in_use (vm_ba st) - {f. \<exists>va \<in> region start en. translate (vm_pt st) cr3 va = Some f} \<and>
    vm_mem st' = vm_mem st \<and> others cr3 st st' \<and> ba_managed (vm_ba st') = ba_managed (vm_ba st)"
proof -
  let ?s = "PAGE_ROUND_DOWN start"
  have "\<exists>st' cur. page_loop (free_one cr3) ?s en st = Inr st' \<and>
      freed_upto cr3 ?s st cur st' \<and> en \<le> cur \<and> (cur = ?s \<or> unat cur < unat en + 0x1000)"
  proof (rule page_loop_invariant)
    show "freed_upto cr3 ?s st ?s st"
      using inv aligned_round_down(1) others_refl by (auto simp: freed_upto_def not_less)
    show "unat en + 0x1000 < 2 ^ 64" using en by simp
  next
    fix cur st' assume I: "freed_upto cr3 ?s st cur st'" and lt: "cur < en"
    show "\<exists>st''. free_one cr3 cur st' = Inr st'' \<and> freed_upto cr3 ?s st (cur + PAGE_SIZE) st''"
      by (rule freed_step [OF inv I region_user [OF en lt]]) (use fu lt in \<open>auto simp: region_def\<close>)
  qed
  then obtain st' cur where r: "free_region cr3 start en st = Inr st'"
    "freed_upto cr3 ?s st cur st'" "en \<le> cur" "cur = ?s \<or> unat cur < unat en + 0x1000"
    by (auto simp: free_region_def)
  note I = r(2) [unfolded freed_upto_def]
  note reg = region_upto [OF conjunct1 [OF I] r(3,4)]
  have "{f. \<exists>vb. user_va vb \<and> aligned vb \<and> ?s \<le> vb \<and> vb < cur \<and> translate (vm_pt st) cr3 vb = Some f} =
      {f. \<exists>va \<in> region start en. translate (vm_pt st) cr3 va = Some f}"
    using reg region_user [OF en] by (auto simp: region_def)
  moreover have "translate (vm_pt st') cr3 va = (if va \<in> region start en then None else translate (vm_pt st) cr3 va)"
    if "user_va va" "aligned va" for va
    using I that reg [OF that(2)] by auto
  ultimately show ?thesis using r(1) I by (intro exI [of _ st']) simp
qed



lemma copy_pages_effect:
  assumes inv: "vm_inv src st" "vm_inv dst st" and sep: "separate (vm_pt st) dst src"
    and al: "aligned start" and en: "unat (start + len) \<le> 2 ^ 47"
  shows "\<exists>n st'. copy_pages_between_pagetables dst src start len st = Inr (n, st') \<and>
    copied dst src (\<lambda>va. start \<le> va \<and> va < start + len) st st'"
proof -
  have "\<exists>t cur. page_loop (copy_one dst src) start (start + len) (0, st) = Inr t \<and>
      copied_upto dst src start st cur t \<and> start + len \<le> cur \<and> (cur = start \<or> unat cur < unat (start + len) + 0x1000)"
  proof (rule page_loop_invariant)
    show "copied_upto dst src start st start (0, st)" using al by (auto simp: copied_upto_def not_less intro: copied_refl)
    show "unat (start + len) + 0x1000 < 2 ^ 64" using en by simp
  next
    fix cur t assume I: "copied_upto dst src start st cur t" and lt: "cur < start + len"
    show "\<exists>t'. copy_one dst src cur t = Inr t' \<and> copied_upto dst src start st (cur + PAGE_SIZE) t'"
      by (rule copied_step [OF inv sep I region_user [OF en lt]])
  qed
  then obtain n st' cur where r: "copy_pages_between_pagetables dst src start len st = Inr (n, st')"
    "aligned cur" "copied dst src (\<lambda>va. start \<le> va \<and> va < cur) st st'" "start + len \<le> cur"
    "cur = start \<or> unat cur < unat (start + len) + 0x1000"
    by (auto simp: copy_pages_between_pagetables_def copied_upto_def)
  have "copied dst src (\<lambda>va. start \<le> va \<and> va < start + len) st st'"
  proof (rule copied_cong [OF r(3)])
    fix va assume "aligned va"
    then show "(start \<le> va \<and> va < cur) = (start \<le> va \<and> va < start + len)"
      using region_upto [of cur "start + len" start va] r(2,4,5) round_down_aligned [OF al] by (auto simp: region_def)
  qed
  with r(1) show ?thesis by blast
qed

text \<open>
  \<open>copy_pages_between_pagetables\<close>, for a page-aligned start and two address spaces that share no
  frame: every page of the range that both map has afterwards, in the destination, the contents it
  had in the source; the other pages of the destination, all memory outside the destination and the
  mappings do not change.
\<close>

theorem copy_pages_correct:
  assumes inv: "vm_inv src st" "vm_inv dst st" and sep: "separate (vm_pt st) dst src"
    and al: "aligned start" and en: "unat (start + len) \<le> 2 ^ 47"
  shows "\<exists>n st'. copy_pages_between_pagetables dst src start len st = Inr (n, st') \<and> vm_pt st' = vm_pt st \<and>
    (\<forall>va g. user_va va \<longrightarrow> aligned va \<longrightarrow> translate (vm_pt st) dst va = Some g \<longrightarrow>
       bytes_at (vm_mem st') g 0x1000 = bytes_at (vm_mem st)
         (case translate (vm_pt st) src va of Some f \<Rightarrow> if start \<le> va \<and> va < start + len then f else g | None \<Rightarrow> g) 0x1000) \<and>
    (\<forall>x. (\<forall>va g. user_va va \<longrightarrow> translate (vm_pt st) dst va = Some g \<longrightarrow> \<not> in_range x g 0x1000) \<longrightarrow>
       vm_mem st' x = vm_mem st x)"
  using copy_pages_effect [OF assms] unfolding copied_def copy_source_def by blast

theorem copy_pages_correct_witness:
  "\<exists>n st'. copy_pages_between_pagetables 0x1000 0x1000 0x400000 0x2000 vm_sample = Inr (n, st') \<and>
     vm_pt st' = vm_pt vm_sample"
proof -
  have "translate (vm_pt vm_sample) 0x1000 va = None" for va
    by (simp add: translate_def path_def vm_sample_def)
  then have "separate (vm_pt vm_sample) 0x1000 0x1000" by (simp add: separate_def)
  then show ?thesis
    using copy_pages_correct [OF vm_sample_inv vm_sample_inv, of "0x400000" "0x2000"] by (auto simp: aligned_def)
qed

end
