(* ===== verification/Machine.thy ===== *)
theory Machine
  imports Printk
begin

text \<open>
  The processor state the kernel sets up and uses: port output, the interrupt flag and \<open>cr3\<close>
  (\<open>src/src/io.c\<close>), the interrupt descriptor table (\<open>src/src/interrupts.c\<close>) and the global
  descriptor table with its task state segment (\<open>src/src/gdt.c\<close>).
\<close>

section \<open>Ports and registers\<close>

record idt_entry =
  isr_low :: u16
  kernel_cs :: u16
  idt_ist :: u8
  idt_attr :: u8
  isr_mid :: u16
  isr_high :: u32
  idt_reserved :: u32

text \<open>The value a read from a port returns is up to the device: \<open>c_in\<close>.\<close>

record cpu =
  c_out :: "(u16 \<times> u8) list"
  c_in :: "u16 \<Rightarrow> u8"
  c_flags :: u64
  c_cr3 :: u64
  c_idt :: "u8 \<Rightarrow> idt_entry"
  c_idtr :: "(u16 \<times> (u8 \<Rightarrow> idt_entry)) option"

definition outb :: "u16 \<Rightarrow> u8 \<Rightarrow> cpu \<Rightarrow> cpu" where
  "outb port val c = c\<lparr>c_out := c_out c @ [(port, val)]\<rparr>"

definition inb :: "u16 \<Rightarrow> cpu \<Rightarrow> u8" where
  "inb port c = c_in c port"

definition io_wait :: "cpu \<Rightarrow> cpu" where
  "io_wait = outb 0x80 0"

text \<open>Bit 9 of the flags register enables interrupts.\<close>

definition save_irqdisable :: "cpu \<Rightarrow> u64 \<times> cpu" where
  "save_irqdisable c = (c_flags c, c\<lparr>c_flags := c_flags c AND NOT 0x200\<rparr>)"

definition irqrestore :: "u64 \<Rightarrow> cpu \<Rightarrow> cpu" where
  "irqrestore flags c = c\<lparr>c_flags := flags\<rparr>"

definition irqs_enabled :: "cpu \<Rightarrow> bool" where
  "irqs_enabled c \<longleftrightarrow> c_flags c AND 0x200 \<noteq> 0"

definition write_cr3 :: "u64 \<Rightarrow> cpu \<Rightarrow> cpu" where
  "write_cr3 value c = c\<lparr>c_cr3 := value\<rparr>"

definition read_cr3 :: "cpu \<Rightarrow> u64" where
  "read_cr3 c = c_cr3 c"

section \<open>The interrupt descriptor table\<close>

definition idt_set_descriptor :: "u8 \<Rightarrow> u64 \<Rightarrow> u8 \<Rightarrow> u8 \<Rightarrow> cpu \<Rightarrow> cpu" where
  "idt_set_descriptor entry isr flags ist c = c\<lparr>c_idt := (c_idt c)(entry :=
     \<lparr>isr_low = ucast (isr AND 0xffff),
      kernel_cs = 0x8,
      idt_ist = ist AND 0x7,
      idt_attr = flags,
      isr_mid = ucast (drop_bit 16 isr AND 0xffff),
      isr_high = ucast (drop_bit 32 isr AND 0xffffffff),
      idt_reserved = 0\<rparr>)\<rparr>"

text \<open>The exception stubs are assembly code: their addresses are the argument \<open>isr_stub_table\<close>.\<close>

definition exceptions_init :: "(nat \<Rightarrow> u64) \<Rightarrow> cpu \<Rightarrow> cpu" where
  "exceptions_init isr_stub_table c =
     (let c = for_loop 32 (\<lambda>i c.
            if i = 0x8 then idt_set_descriptor (of_nat i) (isr_stub_table i) 0x8e 1 c
            else idt_set_descriptor (of_nat i) (isr_stub_table i) 0x8e 0 c) c
      in c\<lparr>c_idtr := Some (0x100 * 16 - 1, c_idt c)\<rparr>)"

text \<open>The exception handler prints the state of the machine and halts.\<close>

record iret_frame =
  f_rip :: u64
  f_cs :: u64
  f_flags :: u64
  f_rsp :: u64
  f_ss :: u64

definition literal :: "u64 \<Rightarrow> u32 \<Rightarrow> string \<Rightarrow> u64 list \<Rightarrow> koutput list" where
  "literal fb type fmt args =
     (case format_list fb type (\<lambda>_. 0) (\<lambda>i. args ! i) (map of_char fmt) 0 of
        None \<Rightarrow> [] | Some (out, n) \<Rightarrow> out)"

definition exception_handler ::
    "u64 \<Rightarrow> u64 \<Rightarrow> u64 \<Rightarrow> u64 \<Rightarrow> iret_frame \<Rightarrow> koutput list \<Rightarrow> koutput list \<times> unit res" where
  "exception_handler fb cr2 num err frame log =
     (let type = QEMU_SERIAL OR EARLY; nl = [CHR 0x0A] in
      (log @ literal fb type (''exception number 0x%x occured'' @ nl @ ''Error: 0x%x'' @ nl) [num, err]
           @ literal fb type (''CR2: 0x%x'' @ nl @ ''RIP: 0x%x'' @ nl @ ''CS: 0x%x'' @ nl @
               ''FLAGS: 0x%x'' @ nl @ ''RSP: 0x%x'' @ nl @ ''SS: 0x%x'' @ nl)
               [cr2, f_rip frame, f_cs frame, f_flags frame, f_rsp frame, f_ss frame]
           @ literal fb type (''halting execution'' @ nl) [],
       Inl Halted))"

section \<open>The global descriptor table\<close>

record tss =
  tss_rsp0 :: u64
  tss_ist :: "u64 list"

record gdt_entry =
  limit_low :: u16
  base_low :: u16
  base_mid :: u8
  access :: u8
  granularity :: u8
  base_high :: u8

record gdt_tss_entry =
  t_limit_low :: u16
  t_base_low :: u16
  t_base_mid1 :: u8
  t_access :: u8
  t_granularity :: u8
  t_base_mid2 :: u8
  t_base_high :: u32
  t_reserved :: u32

definition GDT_ENTRY :: "u8 \<Rightarrow> u8 \<Rightarrow> gdt_entry" where
  "GDT_ENTRY access_byte flags =
     \<lparr>limit_low = 0xffff, base_low = 0, base_mid = 0, access = access_byte,
      granularity = push_bit 4 flags OR 0xf, base_high = 0\<rparr>"

definition sizeof_tss :: u16 where
  "sizeof_tss = 104"

definition GDT_TSS_ENTRY :: "u64 \<Rightarrow> gdt_tss_entry" where
  "GDT_TSS_ENTRY addr =
     \<lparr>t_limit_low = sizeof_tss - 1,
      t_base_low = ucast (addr AND 0xffff),
      t_base_mid1 = ucast (drop_bit 16 addr AND 0xff),
      t_access = 0x89,
      t_granularity = 0,
      t_base_mid2 = ucast (drop_bit 24 addr AND 0xff),
      t_base_high = ucast (drop_bit 32 addr AND 0xffffffff),
      t_reserved = 0\<rparr>"

record gdt =
  g_null :: gdt_entry
  g_kernel_code :: gdt_entry
  g_kernel_data :: gdt_entry
  g_tss :: gdt_tss_entry
  g_user_data :: gdt_entry
  g_user_code :: gdt_entry

definition gdt_inst :: gdt where
  "gdt_inst =
     \<lparr>g_null = \<lparr>limit_low = 0, base_low = 0, base_mid = 0, access = 0, granularity = 0, base_high = 0\<rparr>,
      g_kernel_code = GDT_ENTRY 0x9a 0xa,
      g_kernel_data = GDT_ENTRY 0x92 0xc,
      g_tss = \<lparr>t_limit_low = 0, t_base_low = 0, t_base_mid1 = 0, t_access = 0, t_granularity = 0,
               t_base_mid2 = 0, t_base_high = 0, t_reserved = 0\<rparr>,
      g_user_data = GDT_ENTRY 0xf2 0xc,
      g_user_code = GDT_ENTRY 0xfa 0xa\<rparr>"

text \<open>
  The tables and the registers that \<open>gdt_init\<close> loads, given the addresses of the two stacks and of
  the task state segment: the segment selectors for data, code and task.
\<close>

record segments =
  sg_tss :: tss
  sg_gdt :: gdt
  sg_data :: u16
  sg_code :: u16
  sg_task :: u16

definition gdt_init :: "u64 \<Rightarrow> u64 \<Rightarrow> u64 \<Rightarrow> segments" where
  "gdt_init kernel_stack double_fault_stack tss_addr =
     \<lparr>sg_tss = \<lparr>tss_rsp0 = kernel_stack + 0x1000, tss_ist = (replicate 7 0)[0 := double_fault_stack + 0x1000]\<rparr>,
      sg_gdt = gdt_inst\<lparr>g_tss := GDT_TSS_ENTRY tss_addr\<rparr>,
      sg_data = 0x10, sg_code = 0x8, sg_task = 0x18\<rparr>"

section \<open>What the processor reads\<close>

text \<open>The handler address of an interrupt gate, the base of a task descriptor, and the privilege of a segment.\<close>

definition idt_handler :: "idt_entry \<Rightarrow> u64" where
  "idt_handler e = ucast (isr_low e) OR push_bit 16 (ucast (isr_mid e)) OR push_bit 32 (ucast (isr_high e))"

definition tss_base :: "gdt_tss_entry \<Rightarrow> u64" where
  "tss_base e = ucast (t_base_low e) OR push_bit 16 (ucast (t_base_mid1 e)) OR
     push_bit 24 (ucast (t_base_mid2 e)) OR push_bit 32 (ucast (t_base_high e))"

definition dpl :: "gdt_entry \<Rightarrow> u8" where
  "dpl e = drop_bit 5 (access e) AND 3"

lemma word_parts_16_32:
  fixes w :: u64
  shows "ucast (ucast (w AND 0xffff) :: u16) OR push_bit 16 (ucast (ucast (drop_bit 16 w AND 0xffff) :: u16)) OR
    push_bit 32 (ucast (ucast (drop_bit 32 w AND 0xffffffff) :: u32)) = w"
proof -
  have m: "(0xffff :: u64) = mask 16" "(0xffffffff :: u64) = mask 32" by (simp_all add: mask_eq_exp_minus_1)
  show ?thesis unfolding m
  proof (rule bit_eqI)
    fix n :: nat
    consider "n < 16" | "16 \<le> n" "n < 32" | "32 \<le> n" by linarith
    then show "bit (ucast (ucast (w AND mask 16) :: u16) OR push_bit 16 (ucast (ucast (drop_bit 16 w AND mask 16) :: u16)) OR
        push_bit 32 (ucast (ucast (drop_bit 32 w AND mask 32) :: u32)) :: u64) n = bit w n"
      by cases (auto simp: bit_simps dest: bit_imp_le_length)
  qed
qed

lemma word_parts_8:
  fixes w :: u64
  shows "ucast (ucast (w AND 0xffff) :: u16) OR push_bit 16 (ucast (ucast (drop_bit 16 w AND 0xff) :: u8)) OR
    push_bit 24 (ucast (ucast (drop_bit 24 w AND 0xff) :: u8)) OR
    push_bit 32 (ucast (ucast (drop_bit 32 w AND 0xffffffff) :: u32)) = w"
proof -
  have m: "(0xffff :: u64) = mask 16" "(0xff :: u64) = mask 8" "(0xffffffff :: u64) = mask 32"
    by (simp_all add: mask_eq_exp_minus_1)
  show ?thesis unfolding m
  proof (rule bit_eqI)
    fix n :: nat
    consider "n < 16" | "16 \<le> n" "n < 24" | "24 \<le> n" "n < 32" | "32 \<le> n" by linarith
    then show "bit (ucast (ucast (w AND mask 16) :: u16) OR push_bit 16 (ucast (ucast (drop_bit 16 w AND mask 8) :: u8)) OR
        push_bit 24 (ucast (ucast (drop_bit 24 w AND mask 8) :: u8)) OR
        push_bit 32 (ucast (ucast (drop_bit 32 w AND mask 32) :: u32)) :: u64) n = bit w n"
      by cases (auto simp: bit_simps dest: bit_imp_le_length)
  qed
qed

section \<open>Properties\<close>

lemma idt_handler_set:
  "idt_handler (c_idt (idt_set_descriptor e isr flags ist c) e) = isr"
  "e' \<noteq> e \<Longrightarrow> c_idt (idt_set_descriptor e isr flags ist c) e' = c_idt c e'"
  "idt_ist (c_idt (idt_set_descriptor e isr flags ist c) e) = ist AND 7"
  "idt_attr (c_idt (idt_set_descriptor e isr flags ist c) e) = flags"
  "kernel_cs (c_idt (idt_set_descriptor e isr flags ist c) e) = 8"
  by (simp_all add: idt_set_descriptor_def idt_handler_def word_parts_16_32)

definition exception_gates :: "(nat \<Rightarrow> u64) \<Rightarrow> nat \<Rightarrow> (u8 \<Rightarrow> idt_entry) \<Rightarrow> (u8 \<Rightarrow> idt_entry) \<Rightarrow> bool" where
  "exception_gates stubs n old idt \<longleftrightarrow>
     (\<forall>i<n. idt_handler (idt (of_nat i)) = stubs i \<and> idt_attr (idt (of_nat i)) = 0x8e \<and>
        kernel_cs (idt (of_nat i)) = 8 \<and> idt_ist (idt (of_nat i)) = (if i = 8 then 1 else 0)) \<and>
     (\<forall>e. n \<le> unat e \<longrightarrow> idt e = old e)"

lemma of_nat_u8: "i < 256 \<Longrightarrow> unat (of_nat i :: u8) = i"
  by (simp add: unsigned_of_nat take_bit_nat_eq_self)

lemma exception_gates_Suc:
  assumes "exception_gates stubs i old (c_idt c)" "i < 32"
  shows "exception_gates stubs (Suc i) old
    (c_idt (idt_set_descriptor (of_nat i) (stubs i) 0x8e (if i = 8 then 1 else 0) c))"
proof -
  have ne: "(of_nat j :: u8) \<noteq> of_nat i" if "j < i" for j
    using that assms(2) of_nat_u8 [of i] of_nat_u8 [of j] by auto
  have "e \<noteq> of_nat i" if "Suc i \<le> unat e" for e :: u8
    using that assms(2) of_nat_u8 [of i] by auto
  with ne assms show ?thesis
    unfolding exception_gates_def by (auto simp: less_Suc_eq idt_handler_set)
qed

text \<open>
  \<open>exceptions_init\<close> installs a kernel interrupt gate to its stub for each of the 32
  exceptions, gives the double fault, and only it, a stack of its own, leaves every other gate as
  it was and loads the table.
\<close>

theorem exceptions_init_correct:
  "exception_gates stubs 32 (c_idt c) (c_idt (exceptions_init stubs c)) \<and>
   c_idtr (exceptions_init stubs c) = Some (0xfff, c_idt (exceptions_init stubs c))"
proof -
  let ?body = "\<lambda>i c. if i = 0x8 then idt_set_descriptor (of_nat i) (stubs i) 0x8e 1 c
      else idt_set_descriptor (of_nat i) (stubs i) 0x8e 0 c"
  have "exception_gates stubs 32 (c_idt c) (c_idt (for_loop 32 ?body c))"
  proof (rule for_loop_invariant [where P = "\<lambda>i t. exception_gates stubs i (c_idt c) (c_idt t)"])
    show "exception_gates stubs 0 (c_idt c) (c_idt c)" by (simp add: exception_gates_def)
    show "exception_gates stubs (Suc i) (c_idt c) (c_idt (?body i t))"
      if "i < 32" "exception_gates stubs i (c_idt c) (c_idt t)" for i t
      using exception_gates_Suc [OF that(2,1)] by (auto split: if_splits)
  qed
  then show ?thesis by (simp add: exceptions_init_def Let_def)
qed

text \<open>
  The descriptor tables of \<open>gdt_init\<close>: the task descriptor points to the task state segment, the
  kernel segments have privilege level 0 and the user segments level 3, and the stack of the double
  fault handler is the first entry of the interrupt stack table, as the gate of \<open>exceptions_init\<close>
  expects.
\<close>

theorem gdt_init_correct:
  "tss_base (g_tss (sg_gdt (gdt_init ks ds addr))) = addr \<and>
   dpl (g_kernel_code (sg_gdt (gdt_init ks ds addr))) = 0 \<and>
   dpl (g_kernel_data (sg_gdt (gdt_init ks ds addr))) = 0 \<and>
   dpl (g_user_code (sg_gdt (gdt_init ks ds addr))) = 3 \<and>
   dpl (g_user_data (sg_gdt (gdt_init ks ds addr))) = 3 \<and>
   tss_ist (sg_tss (gdt_init ks ds addr)) ! 0 = ds + 0x1000"
  by (simp add: gdt_init_def tss_base_def GDT_TSS_ENTRY_def word_parts_8 gdt_inst_def GDT_ENTRY_def dpl_def)

text \<open>
  A critical section between \<open>save_irqdisable\<close> and \<open>irqrestore\<close> runs with interrupts disabled and
  leaves the flags as it found them, also when sections are nested.
\<close>

theorem irq_section:
  assumes "save_irqdisable c = (flags, c1)" and "c_flags c2 = c_flags c1"
  shows "\<not> irqs_enabled c2 \<and> c_flags (irqrestore flags c2) = c_flags c"
  using assms by (auto simp: save_irqdisable_def irqrestore_def irqs_enabled_def and.assoc)

end
