(* ===== verification/Sched.thy ===== *)
theory Sched
  imports HeapAlloc Machine
begin

text \<open>
  The scheduler and the process table, \<open>src/src/sched.c\<close>: the list of processes, the round-robin
  choice of the next process, process identifiers, and the table of resources of a process.

  Sections between \<open>save_irqdisable\<close> and \<open>irqrestore\<close> are atomic in the model, and so is a heap
  operation under the allocator's mutex.
\<close>

section \<open>State\<close>

datatype process_status = READY | RUNNING | BLOCKED | DEAD

datatype resource_type = EMPTY | PIPE | FILE

record resource =
  rs_type :: resource_type
  rs_res :: u64

text \<open>A saved processor state, as the interrupt entry pushes it.\<close>

record cpu_status =
  st_regs :: "u64 list"
  st_rip :: u64
  st_cs :: u64
  st_flags :: u64
  st_rsp :: u64
  st_ss :: u64

record process =
  p_cr3 :: u64
  p_status :: process_status
  p_context :: u64
  p_next :: u64
  p_wait_next :: u64
  p_pid :: i32
  p_kernel_stack :: u64
  p_resources :: u64
  p_resources_cap :: i32
  p_anon_allocate_end :: u64
  p_elf_end :: u32

record sched =
  procs :: "u64 \<Rightarrow> process"
  process_list :: u64
  current_process :: u64
  next_pid :: u32
  rtables :: "u64 \<Rightarrow> nat \<Rightarrow> resource"
  contexts :: "u64 \<Rightarrow> cpu_status"
  s_heap :: kheap
  s_cpu :: cpu

definition zero_process :: process where
  "zero_process = \<lparr>p_cr3 = 0, p_status = READY, p_context = NULL, p_next = NULL, p_wait_next = NULL,
     p_pid = 0, p_kernel_stack = NULL, p_resources = NULL, p_resources_cap = 0,
     p_anon_allocate_end = 0, p_elf_end = 0\<rparr>"

abbreviation sizeof_process :: u64 where "sizeof_process \<equiv> 88"
abbreviation sizeof_cpu_status :: u64 where "sizeof_cpu_status \<equiv> 160"
abbreviation sizeof_resource :: u64 where "sizeof_resource \<equiv> 16"

abbreviation set_proc :: "u64 \<Rightarrow> (process \<Rightarrow> process) \<Rightarrow> sched \<Rightarrow> sched" where
  "set_proc p f s \<equiv> s\<lparr>procs := upd p f (procs s)\<rparr>"

section \<open>Scheduling\<close>

definition not_runnable :: "process_status \<Rightarrow> bool" where
  "not_runnable st \<longleftrightarrow> st = DEAD \<or> st = BLOCKED"

text \<open>The next process in the list, or the first one after the last.\<close>

definition advance :: "sched \<Rightarrow> u64 \<Rightarrow> u64" where
  "advance s p = (if p_next (procs s p) \<noteq> NULL then p_next (procs s p) else process_list s)"

definition schedule :: "u64 \<Rightarrow> sched \<Rightarrow> (u64 \<times> sched) res" where
  "schedule context s =
     bind_res (deref (procs s) (current_process s)) (\<lambda>_.
       let cur = current_process s;
           s = set_proc cur (\<lambda>p. p\<lparr>p_context := context\<rparr>) s;
           s = (if p_status (procs s cur) \<noteq> DEAD \<and> p_status (procs s cur) \<noteq> BLOCKED
                then set_proc cur (\<lambda>p. p\<lparr>p_status := READY\<rparr>) s else s)
       in bind_res (returns (while_option (\<lambda>p. p \<noteq> NULL \<and> not_runnable (p_status (procs s p)))
              (advance s) (advance s cur))) (\<lambda>cur.
            bind_res (deref (procs s) cur) (\<lambda>_.
              let s = set_proc cur (\<lambda>p. p\<lparr>p_status := RUNNING\<rparr>) s\<lparr>current_process := cur\<rparr>
              in Inr (p_context (procs s cur), s))))"

text \<open>The software interrupt that enters the scheduler, with the stack pointer it saved.\<close>

definition yield :: "u64 \<Rightarrow> sched \<Rightarrow> (u64 \<times> sched) res" where
  "yield context s = schedule context s"

definition get_current_process :: "sched \<Rightarrow> u64" where
  "get_current_process s = current_process s"

definition mark_current_proc_as_dead :: "u64 \<Rightarrow> sched \<Rightarrow> (u64 \<times> sched) res" where
  "mark_current_proc_as_dead context s =
     bind_res (deref (procs s) (get_current_process s)) (\<lambda>_.
       yield context (set_proc (get_current_process s) (\<lambda>p. p\<lparr>p_status := DEAD\<rparr>) s))"

section \<open>The process list\<close>

definition insert_process :: "u64 \<Rightarrow> sched \<Rightarrow> sched res" where
  "insert_process p s =
     bind_res (deref (procs s) (process_list s)) (\<lambda>_.
       bind_res (returns (while_option (\<lambda>q. p_next (procs s q) \<noteq> NULL) (\<lambda>q. p_next (procs s q)) (process_list s)))
         (\<lambda>last. Inr (set_proc last (\<lambda>q. q\<lparr>p_next := p\<rparr>) s)))"

definition get_new_pid :: "sched \<Rightarrow> i32 \<times> sched" where
  "get_new_pid s =
     (let pid = next_pid s;
          s = s\<lparr>next_pid := next_pid s + 1\<rparr>
      in (pid, s\<lparr>s_heap := (s_heap s)\<lparr>klog := klog (s_heap s) @
            serial_log (''New Pid generated: %d'' @ [CHR 0x0A]) (scast pid)\<rparr>\<rparr>))"

definition get_proc_from_pid :: "i32 \<Rightarrow> sched \<Rightarrow> u64 res" where
  "get_proc_from_pid pid s =
     returns (chase (\<lambda>p. p_next (procs s p)) (\<lambda>p. p_pid (procs s p) = pid) (process_list s))"

definition remove_proc_from_list :: "u64 \<Rightarrow> sched \<Rightarrow> sched res" where
  "remove_proc_from_list p s =
     (if p = NULL \<or> process_list s = NULL then Inr s
      else if process_list s = p
      then Inr (set_proc p (\<lambda>q. q\<lparr>p_next := NULL\<rparr>) (s\<lparr>process_list := p_next (procs s p)\<rparr>))
      else bind_res (returns (while_option (\<lambda>q. p_next (procs s q) \<noteq> NULL \<and> p_next (procs s q) \<noteq> p)
             (\<lambda>q. p_next (procs s q)) (process_list s))) (\<lambda>q.
        if p_next (procs s q) = NULL then Inr s
        else Inr (set_proc p (\<lambda>r. r\<lparr>p_next := NULL\<rparr>)
               (set_proc q (\<lambda>r. r\<lparr>p_next := p_next (procs s p)\<rparr>) s))))"

section \<open>Creating processes\<close>

definition memset_null :: "u64 \<Rightarrow> unit res" where
  "memset_null p = (if p = NULL then Inl NullDeref else Inr ())"

definition add_process :: "allocator \<Rightarrow> u64 \<Rightarrow> sched \<Rightarrow> sched res" where
  "add_process al func s =
     bind_res (alloc al sizeof_process (s_heap s)) (\<lambda>(p, h).
     bind_res (alloc al 0x2000 h) (\<lambda>(stack, h).
     bind_res (memset_null p) (\<lambda>_.
     bind_res (memset_null stack) (\<lambda>_.
       let context = stack + 0x2000 - sizeof_cpu_status;
           ctx = \<lparr>st_regs = replicate 15 0, st_rip = func, st_cs = 0x8, st_flags = 0x202,
                  st_rsp = stack + 0x2000 - 0x10, st_ss = 0x10\<rparr>;
           proc = zero_process\<lparr>p_status := READY, p_pid := 0, p_kernel_stack := stack,
                  p_context := context, p_anon_allocate_end := 0x800000, p_elf_end := 0,
                  p_cr3 := read_cr3 (s_cpu s), p_resources := NULL\<rparr>
       in insert_process p (s\<lparr>s_heap := h, procs := (procs s)(p := proc),
            contexts := (contexts s)(context := ctx)\<rparr>)))))"

text \<open>The port writes of \<open>sched_init\<close>, each but the last three followed by a wait.\<close>

definition outw :: "u16 \<times> u8 \<Rightarrow> cpu \<Rightarrow> cpu" where
  "outw pv c = io_wait (outb (fst pv) (snd pv) c)"

definition sched_init :: "u64 \<Rightarrow> allocator \<Rightarrow> sched \<Rightarrow> sched res" where
  "sched_init timer_int_handler al s =
     (let c = idt_set_descriptor 0x20 timer_int_handler 0x8e 0 (s_cpu s);
          c = fold outw [(0x20, 0x10 OR 0x01), (0xA0, 0x10 OR 0x01), (0x21, 0x20), (0xA1, 0x28),
                (0x21, 0x04), (0xA1, 0x02), (0x21, 0x01), (0xA1, 0x01), (0x21, NOT 1), (0xA1, 0xff)] c;
          divisor = (of_nat (1193182 div 100) :: u16);
          c = outb 0x43 0x36 c;
          c = outb 0x40 (ucast (divisor AND 0xff)) c;
          c = outb 0x40 (ucast (drop_bit 8 divisor AND 0xff)) c
      in bind_res (alloc al sizeof_process (s_heap s)) (\<lambda>(p, h).
         bind_res (memset_null p) (\<lambda>_.
           Inr (s\<lparr>s_heap := h, s_cpu := c, process_list := p, current_process := p,
             procs := (procs s)(p := zero_process\<lparr>p_status := RUNNING, p_pid := - 1, p_cr3 := read_cr3 c\<rparr>)\<rparr>))))"

section \<open>Resources\<close>

definition resource_table_alloc :: "allocator \<Rightarrow> u64 \<Rightarrow> sched \<Rightarrow> (u64 \<times> sched) res" where
  "resource_table_alloc al cap s =
     bind_res (alloc al (cap * sizeof_resource) (s_heap s)) (\<lambda>(t, h). Inr (t, s\<lparr>s_heap := h\<rparr>))"

definition resource_table_free :: "allocator \<Rightarrow> u64 \<Rightarrow> sched \<Rightarrow> sched res" where
  "resource_table_free al t s = bind_res (free al t (s_heap s)) (\<lambda>h. Inr (s\<lparr>s_heap := h\<rparr>))"

text \<open>The capacity, an \<open>int\<close>, as the \<open>size_t\<close> it is compared with.\<close>

definition cap_of :: "process \<Rightarrow> u64" where
  "cap_of p = scast (p_resources_cap p)"

text \<open>One round of the loop of \<open>resource_add\<close>: a descriptor or an error, or the grown table.\<close>

definition resource_add_round ::
    "allocator \<Rightarrow> resource_type \<Rightarrow> u64 \<Rightarrow> sched \<Rightarrow> (i32 option \<times> sched) res" where
  "resource_add_round al type res s =
     (let proc = get_current_process s; tbl = p_resources (procs s proc) in
      case first_index (unat (cap_of (procs s proc))) (\<lambda>i. rs_type (rtables s tbl i) = EMPTY) of
        Some i \<Rightarrow> Inr (Some (of_nat i),
          s\<lparr>rtables := (rtables s)(tbl := (rtables s tbl)(i := \<lparr>rs_type = type, rs_res = res\<rparr>))\<rparr>)
      | None \<Rightarrow>
          let old_cap = cap_of (procs s proc); new_cap = old_cap * 2 in
          bind_res (resource_table_alloc al new_cap s) (\<lambda>(new_tbl, s).
            if new_tbl = NULL then Inr (Some (- 1), s)
            else if cap_of (procs s proc) \<noteq> old_cap
            then bind_res (resource_table_free al new_tbl s) (\<lambda>s. Inr (None, s))
            else let s = s\<lparr>rtables := (rtables s)(new_tbl :=
                       (\<lambda>i. if i < unat old_cap then rtables s tbl i else rtables s new_tbl i))\<rparr>;
                     s = set_proc proc (\<lambda>p. p\<lparr>p_resources := new_tbl, p_resources_cap := ucast new_cap\<rparr>) s
                 in bind_res (resource_table_free al tbl s) (\<lambda>s. Inr (None, s))))"

partial_function (option) resource_add_loop ::
    "allocator \<Rightarrow> resource_type \<Rightarrow> u64 \<Rightarrow> sched \<Rightarrow> (i32 \<times> sched) res option" where
  "resource_add_loop al type res s =
     (case resource_add_round al type res s of
        Inl e \<Rightarrow> Some (Inl e)
      | Inr (Some fd, s) \<Rightarrow> Some (Inr (fd, s))
      | Inr (None, s) \<Rightarrow> resource_add_loop al type res s)"

definition resource_add :: "allocator \<Rightarrow> resource_type \<Rightarrow> u64 \<Rightarrow> sched \<Rightarrow> (i32 \<times> sched) res" where
  "resource_add al type res s =
     (case resource_add_loop al type res s of None \<Rightarrow> Inl Hang | Some r \<Rightarrow> r)"

definition valid_fd :: "i32 \<Rightarrow> process \<Rightarrow> bool" where
  "valid_fd fd p \<longleftrightarrow> 0 \<le> sint fd \<and> (scast fd :: u64) < cap_of p"

definition resource_remove :: "i32 \<Rightarrow> sched \<Rightarrow> u64 \<times> sched" where
  "resource_remove fd s =
     (let proc = get_current_process s; tbl = p_resources (procs s proc); i = unat fd in
      if valid_fd fd (procs s proc)
      then (if rs_type (rtables s tbl i) \<noteq> EMPTY then rs_res (rtables s tbl i) else NULL,
            s\<lparr>rtables := (rtables s)(tbl := (rtables s tbl)(i := \<lparr>rs_type = EMPTY, rs_res = NULL\<rparr>))\<rparr>)
      else (NULL, s))"

definition resource_get :: "i32 \<Rightarrow> sched \<Rightarrow> resource option" where
  "resource_get fd s =
     (let proc = get_current_process s in
      if valid_fd fd (procs s proc)
      then Some (rtables s (p_resources (procs s proc)) (unat fd)) else None)"

text \<open>Reading and writing dispatch on the kind of resource, to the pipe and to the file functions.\<close>

definition resource_rw ::
    "(u64 \<Rightarrow> u64 \<Rightarrow> u64 \<Rightarrow> 's \<Rightarrow> (i32 \<times> 's) res) \<Rightarrow> (u64 \<Rightarrow> u64 \<Rightarrow> u64 \<Rightarrow> 's \<Rightarrow> (i32 \<times> 's) res) \<Rightarrow>
     sched \<Rightarrow> i32 \<Rightarrow> u64 \<Rightarrow> u64 \<Rightarrow> 's \<Rightarrow> (i32 \<times> 's) res" where
  "resource_rw pipe_op vfs_op s fd buf len t =
     (case resource_get fd s of None \<Rightarrow> Inr (- 1, t)
      | Some r \<Rightarrow> (case rs_type r of
            PIPE \<Rightarrow> pipe_op (rs_res r) buf len t
          | FILE \<Rightarrow> vfs_op (rs_res r) buf len t
          | EMPTY \<Rightarrow> Inr (- 1, t)))"

section \<open>Round robin\<close>

text \<open>The process \<open>d + 1\<close> places behind place \<open>i\<close>, in cyclic order.\<close>

definition ahead :: "u64 list \<Rightarrow> nat \<Rightarrow> nat \<Rightarrow> u64" where
  "ahead xs i d = xs ! ((i + Suc d) mod length xs)"

abbreviation proc_chain :: "sched \<Rightarrow> u64 list \<Rightarrow> bool" where
  "proc_chain s xs \<equiv> chain (\<lambda>p. p_next (procs s p)) (process_list s) xs NULL"

definition runnable :: "sched \<Rightarrow> u64 \<Rightarrow> bool" where
  "runnable s p \<longleftrightarrow> \<not> not_runnable (p_status (procs s p))"

lemma ahead_mem: "xs \<noteq> [] \<Longrightarrow> ahead xs i d \<in> set xs"
  by (simp add: ahead_def)

lemma advance_nth:
  assumes c: "proc_chain s xs" and j: "j < length xs"
  shows "advance s (xs ! j) = xs ! (Suc j mod length xs)"
proof (cases "Suc j < length xs")
  case True
  then have "p_next (procs s (xs ! j)) = xs ! Suc j" using chain_nth_next [OF c] by simp
  moreover have "xs ! Suc j \<noteq> NULL" using chain_nonnull [OF c] True by simp
  ultimately show ?thesis using True by (simp add: advance_def)
next
  case False
  then have last: "Suc j = length xs" "xs \<noteq> []" using j by auto
  then have "xs ! j = last xs" by (simp add: last_conv_nth flip: last(1))
  then show ?thesis
    using chain_last_next [OF c last(2)] chain_hd [OF c last(2)] last by (simp add: advance_def hd_conv_nth)
qed

lemma advance_ahead:
  assumes "proc_chain s xs" "xs \<noteq> []"
  shows "advance s (ahead xs i d) = ahead xs i (Suc d)"
  using advance_nth [OF assms(1), of "(i + Suc d) mod length xs"] assms(2)
  by (simp add: ahead_def mod_Suc_eq)

text \<open>The search loop stops at the first process ahead that can run, and never if there is none.\<close>

lemma schedule_search:
  assumes c: "proc_chain s xs" and xs: "xs \<noteq> []"
    and d: "runnable s (ahead xs i d)" "\<forall>e<d. \<not> runnable s (ahead xs i e)"
  shows "while_option (\<lambda>p. p \<noteq> NULL \<and> not_runnable (p_status (procs s p))) (advance s) (ahead xs i 0) =
    Some (ahead xs i d)"
proof -
  let ?P = "\<lambda>p. p \<noteq> NULL \<and> not_runnable (p_status (procs s p))"
  have "while_option ?P (advance s) (ahead xs i (d - k)) = Some (ahead xs i d)" if "k \<le> d" for k
    using that
  proof (induction k)
    case 0
    have "\<not> ?P (ahead xs i d)" using d(1) by (simp add: runnable_def)
    then show ?case by (subst while_option_unfold) auto
  next
    case (Suc k)
    have "?P (ahead xs i (d - Suc k))"
      using d(2) Suc.prems chain_nonnull [OF c ahead_mem [OF xs]] by (simp add: runnable_def)
    moreover have "advance s (ahead xs i (d - Suc k)) = ahead xs i (d - k)"
      using advance_ahead [OF c xs, of i "d - Suc k"] Suc.prems by (simp add: Suc_diff_Suc)
    ultimately show ?case using Suc by (subst while_option_unfold) simp
  qed
  from this [of d] show ?thesis by simp
qed

lemma schedule_search_forever:
  assumes c: "proc_chain s xs" and xs: "xs \<noteq> []" and no: "\<forall>p \<in> set xs. \<not> runnable s p"
  shows "while_option (\<lambda>p. p \<noteq> NULL \<and> not_runnable (p_status (procs s p))) (advance s) (ahead xs i 0) = None"
proof (cases "while_option (\<lambda>p. p \<noteq> NULL \<and> not_runnable (p_status (procs s p))) (advance s) (ahead xs i 0)")
  case (Some t)
  have "\<exists>d. t = ahead xs i d"
    by (rule while_option_rule [OF _ Some, of "\<lambda>t. \<exists>d. t = ahead xs i d"])
      (use advance_ahead [OF c xs, of i] in blast)+
  then have "t \<in> set xs" using ahead_mem [OF xs] by blast
  then show ?thesis
    using while_option_stop [OF Some] no chain_nonnull [OF c, of t] by (simp add: runnable_def)
qed

text \<open>The state in which the search runs: the current process is saved.\<close>

definition saved :: "u64 \<Rightarrow> sched \<Rightarrow> sched" where
  "saved context s = set_proc (current_process s) (\<lambda>p. p\<lparr>p_context := context,
     p_status := if not_runnable (p_status p) then p_status p else READY\<rparr>) s"

lemma schedule_saved:
  assumes "current_process s \<noteq> NULL"
  shows "schedule context s =
    bind_res (returns (while_option (\<lambda>p. p \<noteq> NULL \<and> not_runnable (p_status (procs (saved context s) p)))
        (advance (saved context s)) (advance (saved context s) (current_process s)))) (\<lambda>cur.
      bind_res (deref (procs (saved context s)) cur) (\<lambda>_.
        let t = set_proc cur (\<lambda>p. p\<lparr>p_status := RUNNING\<rparr>) (saved context s)\<lparr>current_process := cur\<rparr>
        in Inr (p_context (procs t cur), t)))"
proof -
  have "(let cur = current_process s;
           s = set_proc cur (\<lambda>p. p\<lparr>p_context := context\<rparr>) s
       in if p_status (procs s cur) \<noteq> DEAD \<and> p_status (procs s cur) \<noteq> BLOCKED
          then set_proc cur (\<lambda>p. p\<lparr>p_status := READY\<rparr>) s else s) = saved context s"
    by (auto simp: saved_def upd_def Let_def not_runnable_def)
  then show ?thesis using assms unfolding schedule_def Let_def by simp
qed

lemma saved_simps [simp]:
  "process_list (saved c s) = process_list s" "current_process (saved c s) = current_process s"
  "p_next (procs (saved c s) p) = p_next (procs s p)" "runnable (saved c s) p = runnable s p"
  by (auto simp: saved_def upd_def runnable_def not_runnable_def)

lemma advance_current:
  assumes "proc_chain s xs" "i < length xs" "current_process s = xs ! i"
  shows "advance s (current_process s) = ahead xs i 0"
  using advance_nth [OF assms(1,2)] assms(3) by (simp add: ahead_def)

lemma schedule_found:
  assumes c: "proc_chain s xs" and i: "i < length xs" "current_process s = xs ! i"
    and d: "runnable s (ahead xs i d)" "\<forall>e<d. \<not> runnable s (ahead xs i e)"
  shows "schedule context s = Inr (p_context (procs (saved context s) (ahead xs i d)),
    set_proc (ahead xs i d) (\<lambda>p. p\<lparr>p_status := RUNNING\<rparr>) (saved context s)\<lparr>current_process := ahead xs i d\<rparr>)"
proof -
  have xs: "xs \<noteq> []" using i by auto
  have c': "proc_chain (saved context s) xs" using c by simp
  have nn: "current_process s \<noteq> NULL" "ahead xs i d \<noteq> NULL"
    using chain_nonnull [OF c] i ahead_mem [OF xs] by auto
  have "while_option (\<lambda>p. p \<noteq> NULL \<and> not_runnable (p_status (procs (saved context s) p)))
      (advance (saved context s)) (advance (saved context s) (current_process s)) = Some (ahead xs i d)"
    using schedule_search [OF c' xs, of i d] d advance_current [OF c' i(1)] i(2) by simp
  then show ?thesis unfolding schedule_saved [OF nn(1)] using nn(2) by (simp add: Let_def upd_def)
qed

lemma schedule_none:
  assumes c: "proc_chain s xs" and i: "i < length xs" "current_process s = xs ! i"
    and no: "\<forall>p \<in> set xs. \<not> runnable s p"
  shows "schedule context s = Inl Hang"
proof -
  have xs: "xs \<noteq> []" using i by auto
  have c': "proc_chain (saved context s) xs" using c by simp
  have nn: "current_process s \<noteq> NULL" using chain_nonnull [OF c] i by auto
  have "while_option (\<lambda>p. p \<noteq> NULL \<and> not_runnable (p_status (procs (saved context s) p)))
      (advance (saved context s)) (advance (saved context s) (current_process s)) = None"
    using schedule_search_forever [OF c' xs, of i] no advance_current [OF c' i(1)] i(2) by simp
  then show ?thesis unfolding schedule_saved [OF nn] by simp
qed

text \<open>What a call of \<open>schedule\<close> changes.\<close>

lemma schedule_effect:
  assumes c: "proc_chain s xs" and i: "i < length xs" "current_process s = xs ! i"
    and d: "runnable s (ahead xs i d)" "\<forall>e<d. \<not> runnable s (ahead xs i e)"
  shows "\<exists>s'. schedule context s = Inr
      (if ahead xs i d = current_process s then context else p_context (procs s (ahead xs i d)), s') \<and>
    current_process s' = ahead xs i d \<and> process_list s' = process_list s \<and>
    (\<forall>p. p_next (procs s' p) = p_next (procs s p)) \<and>
    (\<forall>p. p_status (procs s' p) =
      (if p = ahead xs i d then RUNNING
       else if p = current_process s \<and> runnable s p then READY else p_status (procs s p))) \<and>
    (\<forall>p. runnable s' p = runnable s p)"
proof -
  let ?s = "set_proc (ahead xs i d) (\<lambda>p. p\<lparr>p_status := RUNNING\<rparr>) (saved context s)\<lparr>current_process := ahead xs i d\<rparr>"
  have "schedule context s = Inr (p_context (procs (saved context s) (ahead xs i d)), ?s)"
    by (rule schedule_found [OF assms])
  moreover have "p_context (procs (saved context s) (ahead xs i d)) =
      (if ahead xs i d = current_process s then context else p_context (procs s (ahead xs i d)))"
    by (simp add: saved_def upd_def)
  moreover have "p_status (procs ?s p) = (if p = ahead xs i d then RUNNING
       else if p = current_process s \<and> runnable s p then READY else p_status (procs s p))" for p
    by (simp add: saved_def upd_def runnable_def)
  moreover have "runnable ?s p = runnable s p" for p
    using d(1) by (auto simp: runnable_def not_runnable_def saved_def upd_def)
  moreover have "p_next (procs ?s p) = p_next (procs s p)" for p by (simp add: saved_def upd_def)
  ultimately show ?thesis by (intro exI [of _ ?s]) (auto simp: saved_def)
qed

lemma least_runnable:
  assumes "runnable s (ahead xs i D)"
  obtains d where "d \<le> D" "runnable s (ahead xs i d)" "\<forall>e<d. \<not> runnable s (ahead xs i e)"
  using assms exists_least_iff [of "\<lambda>d. runnable s (ahead xs i d)"] by (metis not_less)

lemma ahead_ahead: "ahead xs ((i + Suc d) mod length xs) e = ahead xs i (Suc (d + e))"
proof -
  have "((i + Suc d) mod length xs + Suc e) mod length xs = (i + Suc (Suc (d + e))) mod length xs"
    by (simp only: mod_add_left_eq) (simp add: ac_simps)
  then show ?thesis by (simp only: ahead_def)
qed

text \<open>Consecutive timer interrupts, each with the stack pointer of the interrupted process.\<close>

primrec ticks :: "u64 list \<Rightarrow> sched \<Rightarrow> sched res" where
  "ticks [] s = Inr s"
| "ticks (c # cs) s = bind_res (schedule c s) (\<lambda>(_, s). ticks cs s)"

lemma ticks_reach:
  assumes "proc_chain s xs" "i < length xs" "current_process s = xs ! i"
    and "runnable s (ahead xs i D)" "D < length ctxs"
  shows "\<exists>k \<le> Suc D. \<exists>s'. ticks (take k ctxs) s = Inr s' \<and> current_process s' = ahead xs i D"
  using assms
proof (induction D arbitrary: s i ctxs rule: less_induct)
  case (less D)
  obtain d where d: "d \<le> D" "runnable s (ahead xs i d)" "\<forall>e<d. \<not> runnable s (ahead xs i e)"
    by (rule least_runnable [OF less.prems(4)])
  obtain c cs where ctxs: "ctxs = c # cs" using less.prems(5) by (cases ctxs) auto
  obtain r s1 where s1: "schedule c s = Inr (r, s1)" "current_process s1 = ahead xs i d"
    "process_list s1 = process_list s" "\<forall>p. p_next (procs s1 p) = p_next (procs s p)"
    "\<forall>p. runnable s1 p = runnable s p"
    using schedule_effect [OF less.prems(1-3) d(2,3), of c] by blast
  show ?case
  proof (cases "d = D")
    case True
    then show ?thesis using s1(1,2) ctxs by (intro exI [of _ 1]) simp
  next
    case False
    let ?i = "(i + Suc d) mod length xs"
    have pos: "ahead xs ?i (D - Suc d) = ahead xs i D"
      unfolding ahead_ahead using False d(1) by simp
    have "\<exists>k \<le> Suc (D - Suc d). \<exists>s'. ticks (take k cs) s1 = Inr s' \<and> current_process s' = ahead xs ?i (D - Suc d)"
    proof (rule less.IH)
      show "D - Suc d < D" using False d(1) by simp
      show "proc_chain s1 xs" using less.prems(1) s1(3,4) by simp
      show "?i < length xs" using less.prems(2) by (intro mod_less_divisor) auto
      show "current_process s1 = xs ! ?i" using s1(2) by (simp add: ahead_def)
      show "runnable s1 (ahead xs ?i (D - Suc d))"
        unfolding pos using less.prems(4) s1(5) by simp
      show "D - Suc d < length cs" using less.prems(5) ctxs False d(1) by simp
    qed
    then obtain k s' where k: "k \<le> Suc (D - Suc d)" "ticks (take k cs) s1 = Inr s'"
      "current_process s' = ahead xs i D" unfolding pos by blast
    then show ?thesis using s1(1) ctxs False d(1) by (intro exI [of _ "Suc k"]) simp
  qed
qed

section \<open>The process list\<close>

lemma list_end:
  assumes "chain nx p xs NULL" "xs \<noteq> []"
  shows "while_option (\<lambda>q. nx q \<noteq> NULL) nx p = Some (last xs)"
  using assms
proof (induction xs arbitrary: p)
  case Nil
  then show ?case by simp
next
  case (Cons x xs)
  show ?case
  proof (cases "xs = []")
    case True
    then show ?thesis using Cons.prems by (subst while_option_unfold) simp
  next
    case False
    then have "nx x \<noteq> NULL" using Cons.prems(1) by (cases xs) auto
    then show ?thesis using Cons False by (subst while_option_unfold) simp
  qed
qed

lemma list_before:
  assumes "chain nx a (as @ q # p # bs) NULL" "p \<noteq> NULL"
  shows "while_option (\<lambda>r. nx r \<noteq> NULL \<and> nx r \<noteq> p) nx a = Some q \<and> nx q = p"
  using assms
proof (induction as arbitrary: a)
  case Nil
  then show ?case by (subst while_option_unfold) auto
next
  case (Cons x as)
  have "nx x \<noteq> NULL" using Cons.prems(1) by (cases as) auto
  moreover have "nx x \<noteq> p"
  proof -
    have "distinct (x # as @ q # p # bs)" using chain_distinct [OF Cons.prems(1)] by simp
    moreover have "nx x \<in> set (as @ [q])" using Cons.prems(1) by (cases as) auto
    ultimately show ?thesis by auto
  qed
  moreover have "chain nx (nx x) (as @ q # p # bs) NULL" "a = x" using Cons.prems(1) by auto
  ultimately show ?case using Cons.IH [OF _ Cons.prems(2), of "nx x"] by (subst while_option_unfold) simp
qed

lemma list_absent:
  assumes "chain nx a xs NULL" "xs \<noteq> []" "p \<notin> set xs"
  shows "\<exists>q. while_option (\<lambda>r. nx r \<noteq> NULL \<and> nx r \<noteq> p) nx a = Some q \<and> nx q = NULL"
  using assms
proof (induction xs arbitrary: a)
  case Nil
  then show ?case by simp
next
  case (Cons x xs)
  show ?case
  proof (cases "xs = []")
    case True
    then show ?thesis using Cons.prems by (subst while_option_unfold) simp
  next
    case False
    then have "nx x \<noteq> NULL" "nx x \<noteq> p" using Cons.prems by (cases xs; auto)+
    then show ?thesis using Cons False by (subst while_option_unfold) simp
  qed
qed

lemma insert_process_chain:
  assumes c: "proc_chain s xs" "xs \<noteq> []" and p: "p \<noteq> NULL" "p \<notin> set xs" "p_next (procs s p) = NULL"
  shows "\<exists>s'. insert_process p s = Inr s' \<and> proc_chain s' (xs @ [p]) \<and>
    current_process s' = current_process s \<and> (\<forall>q. p_status (procs s' q) = p_status (procs s q))"
proof -
  let ?s = "set_proc (last xs) (\<lambda>q. q\<lparr>p_next := p\<rparr>) s"
  have "process_list s \<noteq> NULL" using c chain_hd [OF c] chain_nonnull [OF c(1), of "hd xs"] by simp
  then have "insert_process p s = Inr ?s" using list_end [OF c] by (simp add: insert_process_def)
  moreover have "proc_chain ?s (xs @ [p])"
  proof -
    have xs: "xs = butlast xs @ [last xs]" using c(2) by simp
    have d: "last xs \<notin> set (butlast xs)" using chain_distinct [OF c(1)] xs by (metis distinct_butlast not_distinct_conv_prefix append_butlast_last_id c(2))
    have "chain (\<lambda>q. p_next (procs ?s q)) (process_list s) (butlast xs) (last xs)"
    proof -
      have "chain (\<lambda>q. p_next (procs s q)) (process_list s) (butlast xs) (last xs)"
        using c(1) by (subst (asm) xs) (auto simp: chain_append)
      then show ?thesis by (rule chain_transfer) (use d in \<open>auto simp: upd_def\<close>)
    qed
    moreover have "p \<noteq> last xs" "last xs \<noteq> NULL"
      using p(2) c(2) chain_nonnull [OF c(1), of "last xs"] last_in_set by auto
    then have "chain (\<lambda>q. p_next (procs ?s q)) (last xs) [last xs, p] NULL" using p by (simp add: upd_def)
    ultimately have "chain (\<lambda>q. p_next (procs ?s q)) (process_list s) (butlast xs @ [last xs, p]) NULL"
      unfolding chain_append by blast
    moreover have "butlast xs @ [last xs, p] = xs @ [p]" using c(2) by simp
    ultimately show ?thesis by simp
  qed
  ultimately show ?thesis by (auto simp: upd_def)
qed

lemma remove_proc_chain:
  assumes c: "proc_chain s (as @ p # bs)"
  shows "\<exists>s'. remove_proc_from_list p s = Inr s' \<and> proc_chain s' (as @ bs) \<and>
    current_process s' = current_process s \<and> (\<forall>q. p_status (procs s' q) = p_status (procs s q))"
proof -
  have d: "distinct (as @ p # bs)" and nn: "\<And>x. x \<in> set (as @ p # bs) \<Longrightarrow> x \<noteq> NULL"
    using chain_distinct [OF c] chain_nonnull [OF c] by blast+
  have bs: "chain (\<lambda>q. p_next (procs s q)) (p_next (procs s p)) bs NULL" using c by (auto simp: chain_append)
  show ?thesis
  proof (cases as rule: rev_cases)
    case Nil
    let ?s = "set_proc p (\<lambda>q. q\<lparr>p_next := NULL\<rparr>) (s\<lparr>process_list := p_next (procs s p)\<rparr>)"
    have "process_list s = p" using c Nil by simp
    then have "remove_proc_from_list p s = Inr ?s" using nn [of p] by (simp add: remove_proc_from_list_def)
    moreover have "proc_chain ?s bs"
      using chain_transfer [OF bs, of "\<lambda>q. p_next (procs ?s q)"] d by (force simp: upd_def)
    ultimately show ?thesis using Nil by (auto simp: upd_def)
  next
    case (snoc cs q)
    let ?s = "set_proc p (\<lambda>r. r\<lparr>p_next := NULL\<rparr>) (set_proc q (\<lambda>r. r\<lparr>p_next := p_next (procs s p)\<rparr>) s)"
    have c': "chain (\<lambda>q. p_next (procs s q)) (process_list s) (cs @ q # p # bs) NULL" using c snoc by simp
    have pq: "process_list s \<noteq> p" "process_list s \<noteq> NULL" "p \<noteq> q"
      using chain_hd [OF c'] d snoc nn by (cases cs; auto)+
    have "p_next (procs s q) = p" using list_before [OF c'] nn [of p] by simp
    then have "remove_proc_from_list p s = Inr ?s"
      using list_before [OF c'] nn [of p] pq by (simp add: remove_proc_from_list_def)
    moreover have "chain (\<lambda>r. p_next (procs ?s r)) (process_list s) cs q"
    proof -
      have "chain (\<lambda>r. p_next (procs s r)) (process_list s) cs q" using c' by (auto simp: chain_append)
      then show ?thesis by (rule chain_transfer) (use d snoc in \<open>auto simp: upd_def\<close>)
    qed
    moreover have "chain (\<lambda>r. p_next (procs ?s r)) (p_next (procs s p)) bs NULL"
      by (rule chain_transfer [OF bs]) (use d snoc in \<open>auto simp: upd_def\<close>)
    then have "chain (\<lambda>r. p_next (procs ?s r)) q (q # bs) NULL" using pq(3) nn [of q] snoc by (simp add: upd_def)
    ultimately show ?thesis using snoc by (auto simp: chain_append upd_def)
  qed
qed

section \<open>Properties\<close>


text \<open>Three processes, of which the second is blocked, for the witnesses.\<close>

definition sched_sample :: sched where
  "sched_sample = \<lparr>procs = (\<lambda>p. zero_process)(0x1000 := zero_process\<lparr>p_status := RUNNING, p_next := 0x2000\<rparr>,
       0x2000 := zero_process\<lparr>p_status := BLOCKED, p_next := 0x3000\<rparr>,
       0x3000 := zero_process\<lparr>p_context := 0x9000\<rparr>),
     process_list = 0x1000, current_process = 0x1000, next_pid = 0,
     rtables = (\<lambda>_ _. \<lparr>rs_type = EMPTY, rs_res = NULL\<rparr>), contexts = (\<lambda>_. undefined),
     s_heap = snd heap_sample,
     s_cpu = \<lparr>c_out = [], c_in = (\<lambda>_. 0), c_flags = 0, c_cr3 = 0, c_idt = (\<lambda>_. undefined), c_idtr = None\<rparr>\<rparr>"

lemma sched_sample_chain: "proc_chain sched_sample [0x1000, 0x2000, 0x3000]"
  by (simp add: sched_sample_def zero_process_def)

lemma sched_sample_runnable:
  "runnable sched_sample (ahead [0x1000, 0x2000, 0x3000] 0 1)"
  "\<forall>e<1. \<not> runnable sched_sample (ahead [0x1000, 0x2000, 0x3000] 0 e)"
  by (simp_all add: sched_sample_def ahead_def runnable_def not_runnable_def zero_process_def)


text \<open>
  If every process of the list is blocked or dead, \<open>schedule\<close> never returns.
\<close>

theorem schedule_hangs:
  assumes "proc_chain s xs" "i < length xs" "current_process s = xs ! i" "\<forall>p \<in> set xs. \<not> runnable s p"
  shows "schedule context s = Inl Hang"
  using schedule_none [OF assms] .

text \<open>
  (C32) The scheduler is fair: under consecutive timer interrupts every process that is neither
  blocked nor dead is running after at most as many interrupts as there are processes.
\<close>

theorem schedule_fair:
  assumes c: "proc_chain s xs" "i < length xs" "current_process s = xs ! i"
    and p: "p \<in> set xs" "runnable s p" and n: "length ctxs = length xs"
  shows "\<exists>k \<le> length xs. \<exists>s'. ticks (take k ctxs) s = Inr s' \<and> current_process s' = p"
proof -
  obtain j where j: "j < length xs" "p = xs ! j" using p(1) by (auto simp: in_set_conv_nth)
  define D where "D = (j + length xs - Suc i) mod length xs"
  have "D < length xs" using c(2) unfolding D_def by (intro mod_less_divisor) auto
  moreover have "ahead xs i D = p"
  proof -
    have "(i + Suc D) mod length xs = (Suc i + (j + length xs - Suc i)) mod length xs"
      unfolding D_def by (metis add_Suc_shift add.commute mod_add_right_eq)
    also have "Suc i + (j + length xs - Suc i) = j + length xs" using c(2) by simp
    also have "(j + length xs) mod length xs = j" using j(1) by simp
    finally show ?thesis using j(2) by (simp add: ahead_def)
  qed
  ultimately show ?thesis
    using ticks_reach [OF c, of D ctxs] p(2) n by (metis Suc_leI order_trans)
qed

theorem schedule_fair_witness:
  "\<exists>k \<le> 3. \<exists>s'. ticks (take k [1, 2, 3]) sched_sample = Inr s' \<and> current_process s' = 0x3000"
proof -
  have "current_process sched_sample = 0x1000" "runnable sched_sample 0x3000"
    by (simp_all add: sched_sample_def runnable_def not_runnable_def zero_process_def)
  then show ?thesis
    using schedule_fair [OF sched_sample_chain, of 0 "0x3000" "[1, 2, 3]"] by (simp add: numeral_3_eq_3)
qed

text \<open>
  \<open>insert_process\<close> appends a process to a non-empty process list, and
  \<open>remove_proc_from_list\<close> takes it out again, leaving the other processes in order; neither changes
  the current process or any status.
\<close>

theorem process_list_insert_remove:
  assumes c: "proc_chain s xs" "xs \<noteq> []" and p: "p \<noteq> NULL" "p \<notin> set xs" "p_next (procs s p) = NULL"
  shows "\<exists>s' s''. insert_process p s = Inr s' \<and> proc_chain s' (xs @ [p]) \<and>
    remove_proc_from_list p s' = Inr s'' \<and> proc_chain s'' xs \<and>
    current_process s'' = current_process s \<and> (\<forall>q. p_status (procs s'' q) = p_status (procs s q))"
proof -
  obtain s' where s': "insert_process p s = Inr s'" "proc_chain s' (xs @ [p])"
    "current_process s' = current_process s" "\<forall>q. p_status (procs s' q) = p_status (procs s q)"
    using insert_process_chain [OF assms] by blast
  from remove_proc_chain [of s' xs p "[]"] s' show ?thesis by auto
qed

theorem process_list_insert_remove_witness:
  "\<exists>s' s''. insert_process 0x4000 sched_sample = Inr s' \<and>
     proc_chain s' ([0x1000, 0x2000, 0x3000] @ [0x4000]) \<and>
     remove_proc_from_list 0x4000 s' = Inr s'' \<and> proc_chain s'' [0x1000, 0x2000, 0x3000]"
  using process_list_insert_remove [OF sched_sample_chain, of "0x4000"]
  by (auto simp: sched_sample_def zero_process_def)

text \<open>
  \<open>get_proc_from_pid\<close> returns the first process of the list with the identifier, and the null
  pointer exactly if there is none.
\<close>

theorem get_proc_from_pid_correct:
  assumes "proc_chain s xs"
  shows "get_proc_from_pid pid s = Inr (first_or_null (\<lambda>p. p_pid (procs s p) = pid) xs)"
  using chase_chain [OF assms] by (simp add: get_proc_from_pid_def)

section \<open>Resource tables\<close>

lemma unat_scast_fd: "0 \<le> sint (fd :: i32) \<Longrightarrow> unat (scast fd :: u64) = unat fd"
proof -
  assume nn: "0 \<le> sint fd"
  then have "(scast fd :: u64) = of_nat (nat (sint fd))" by (metis of_nat_nat of_int_of_nat_eq scast_eq)
  moreover have "nat (sint fd) < 2 ^ 64" using unat_i32_sint [OF nn] unat_i32_lt [of fd] by simp
  ultimately show ?thesis using unat_i32_sint [OF nn] unat_of_nat_u64 by metis
qed

text \<open>A table of positive capacity, as the kernel creates it, and its entries.\<close>

definition table_ok :: "sched \<Rightarrow> bool" where
  "table_ok s \<longleftrightarrow> 0 < sint (p_resources_cap (procs s (current_process s)))"

definition table_size :: "sched \<Rightarrow> nat" where
  "table_size s = unat (p_resources_cap (procs s (current_process s)))"

definition entry :: "sched \<Rightarrow> nat \<Rightarrow> resource" where
  "entry s i = rtables s (p_resources (procs s (current_process s))) i"

lemma cap_of_size: "table_ok s \<Longrightarrow> unat (cap_of (procs s (current_process s))) = table_size s"
  unfolding table_ok_def table_size_def cap_of_def by (rule unat_scast_fd) simp

lemma table_size_lt: "table_ok s \<Longrightarrow> table_size s < 2 ^ 31"
  unfolding table_ok_def table_size_def using sint_i32_nonneg by (metis less_imp_le)

lemma fd_i32: "i < 2 ^ 31 \<Longrightarrow> unat (of_nat i :: i32) = i \<and> 0 \<le> sint (of_nat i :: i32)"
proof -
  assume i: "i < 2 ^ 31"
  then have "unat (of_nat i :: i32) = i" by (simp add: unsigned_of_nat take_bit_nat_eq_self)
  then show ?thesis using i sint_i32_nonneg by metis
qed

lemma valid_fd_iff:
  assumes "table_ok s"
  shows "valid_fd fd (procs s (current_process s)) \<longleftrightarrow> 0 \<le> sint fd \<and> unat fd < table_size s"
  using cap_of_size [OF assms] unat_scast_fd [of fd] by (auto simp: valid_fd_def word_less_nat_alt)

lemma resource_get_entry:
  assumes "table_ok s" "i < table_size s"
  shows "resource_get (of_nat i) s = Some (entry s i)"
  using fd_i32 [of i] valid_fd_iff [OF assms(1)] table_size_lt [OF assms(1)] assms(2)
  by (simp add: resource_get_def entry_def get_current_process_def Let_def)

lemma resource_add_free:
  assumes ok: "table_ok s" and i: "i < table_size s" "rs_type (entry s i) = EMPTY"
    and least: "\<forall>j<i. rs_type (entry s j) \<noteq> EMPTY"
  shows "\<exists>s'. resource_add al type res s = Inr (of_nat i, s') \<and> table_ok s' \<and> table_size s' = table_size s \<and>
    current_process s' = current_process s \<and> procs s' = procs s \<and>
    entry s' = (entry s)(i := \<lparr>rs_type = type, rs_res = res\<rparr>)"
proof -
  let ?t = "p_resources (procs s (current_process s))"
  let ?s = "s\<lparr>rtables := (rtables s)(?t := (rtables s ?t)(i := \<lparr>rs_type = type, rs_res = res\<rparr>))\<rparr>"
  have "first_index (unat (cap_of (procs s (current_process s)))) (\<lambda>i. rs_type (rtables s ?t i) = EMPTY) = Some i"
    using i least cap_of_size [OF ok] by (simp add: first_index_Some entry_def)
  then have "resource_add_round al type res s = Inr (Some (of_nat i), ?s)"
    by (simp add: resource_add_round_def get_current_process_def Let_def)
  then have "resource_add al type res s = Inr (of_nat i, ?s)"
    by (simp add: resource_add_def resource_add_loop.simps)
  moreover have "entry ?s = (entry s)(i := \<lparr>rs_type = type, rs_res = res\<rparr>)"
    by (simp add: entry_def fun_eq_iff)
  ultimately show ?thesis using ok by (auto simp: table_ok_def table_size_def)
qed

text \<open>
  While the resource table of the current process has a free slot, \<open>resource_add\<close> returns the
  least free descriptor, \<open>resource_get\<close> finds the resource under it, every other descriptor keeps
  its entry, and \<open>resource_remove\<close> of the descriptor returns the resource and frees the slot.
\<close>

theorem resource_roundtrip:
  assumes ok: "table_ok s" and i: "i < table_size s" "rs_type (entry s i) = EMPTY"
    and least: "\<forall>j<i. rs_type (entry s j) \<noteq> EMPTY" and type: "type \<noteq> EMPTY"
  shows "\<exists>s' s''. resource_add al type res s = Inr (of_nat i, s') \<and>
    resource_get (of_nat i) s' = Some \<lparr>rs_type = type, rs_res = res\<rparr> \<and>
    (\<forall>j. j \<noteq> i \<longrightarrow> entry s' j = entry s j) \<and>
    resource_remove (of_nat i) s' = (res, s'') \<and>
    entry s'' = (entry s)(i := \<lparr>rs_type = EMPTY, rs_res = NULL\<rparr>)"
proof -
  obtain s' where s': "resource_add al type res s = Inr (of_nat i, s')" "table_ok s'"
    "table_size s' = table_size s" "entry s' = (entry s)(i := \<lparr>rs_type = type, rs_res = res\<rparr>)"
    using resource_add_free [OF ok i least] by blast
  have fd: "unat (of_nat i :: i32) = i" "valid_fd (of_nat i) (procs s' (current_process s'))"
    using fd_i32 [of i] i(1) table_size_lt [OF ok] valid_fd_iff [OF s'(2)] s'(3) by simp_all
  let ?t = "p_resources (procs s' (current_process s'))"
  have e: "rtables s' ?t i = \<lparr>rs_type = type, rs_res = res\<rparr>"
    using arg_cong [OF s'(4), of "\<lambda>f. f i"] by (simp add: entry_def)
  have "resource_get (of_nat i) s' = Some \<lparr>rs_type = type, rs_res = res\<rparr>"
    using fd e by (simp add: resource_get_def get_current_process_def Let_def)
  moreover have "\<exists>s''. resource_remove (of_nat i) s' = (res, s'') \<and>
      entry s'' = (entry s')(i := \<lparr>rs_type = EMPTY, rs_res = NULL\<rparr>)"
    using fd e type by (simp add: resource_remove_def get_current_process_def Let_def entry_def fun_eq_iff)
  ultimately show ?thesis using s'(1,4) by auto
qed

text \<open>A process with a table of two slots, the first of them taken, for the witness.\<close>

definition resource_sample :: sched where
  "resource_sample = sched_sample\<lparr>procs := (\<lambda>_. zero_process\<lparr>p_resources := 0x7000, p_resources_cap := 2\<rparr>),
     rtables := (\<lambda>_ i. if i = 0 then \<lparr>rs_type = PIPE, rs_res = 0x8000\<rparr> else \<lparr>rs_type = EMPTY, rs_res = 0\<rparr>)\<rparr>"

theorem resource_roundtrip_witness:
  "\<exists>s' s''. resource_add (fst heap_sample) FILE 0x9000 resource_sample = Inr (1, s') \<and>
     resource_get 1 s' = Some \<lparr>rs_type = FILE, rs_res = 0x9000\<rparr> \<and> resource_remove 1 s' = (0x9000, s'')"
proof -
  have "table_ok resource_sample" "table_size resource_sample = 2"
    "rs_type (entry resource_sample 0) = PIPE" "rs_type (entry resource_sample 1) = EMPTY"
    by (simp_all add: resource_sample_def table_ok_def table_size_def entry_def)
  then show ?thesis
    using resource_roundtrip [of resource_sample 1 FILE "fst heap_sample" "0x9000"] by auto
qed

end
