(* ===== verification/Semaphore.thy ===== *)
theory Semaphore
  imports Sched
begin

text \<open>
  Semaphores and mutexes, \<open>src/src/sem.c\<close> and \<open>include/sem.h\<close>.  Every function runs with interrupts
  disabled, so that it is one atomic step; \<open>sem_wait\<close> gives up the processor after its step when the
  process has to wait.
\<close>

section \<open>State and operations\<close>

record semaphore =
  sem_count :: i32
  sem_wait_head :: u64
  sem_wait_tail :: u64

record kstate =
  k_sched :: sched
  k_sems :: "u64 \<Rightarrow> semaphore"

abbreviation kprocs :: "kstate \<Rightarrow> u64 \<Rightarrow> process" where
  "kprocs k \<equiv> procs (k_sched k)"

abbreviation set_kproc :: "u64 \<Rightarrow> (process \<Rightarrow> process) \<Rightarrow> kstate \<Rightarrow> kstate" where
  "set_kproc p f k \<equiv> k\<lparr>k_sched := set_proc p f (k_sched k)\<rparr>"

abbreviation set_sem :: "u64 \<Rightarrow> (semaphore \<Rightarrow> semaphore) \<Rightarrow> kstate \<Rightarrow> kstate" where
  "set_sem sem f k \<equiv> k\<lparr>k_sems := upd sem f (k_sems k)\<rparr>"

definition sem_create :: "u64 \<Rightarrow> i32 \<Rightarrow> kstate \<Rightarrow> u64 \<times> kstate" where
  "sem_create sem initial_count k =
     (sem, k\<lparr>k_sems := (k_sems k)(sem := \<lparr>sem_count = initial_count, sem_wait_head = NULL, sem_wait_tail = NULL\<rparr>)\<rparr>)"

text \<open>
  The section of \<open>sem_wait\<close> with interrupts disabled; the result says whether the caller has to
  yield.
\<close>

definition sem_wait_enter :: "u64 \<Rightarrow> kstate \<Rightarrow> (bool \<times> kstate) res" where
  "sem_wait_enter sem k =
     (let k = set_sem sem (\<lambda>s. s\<lparr>sem_count := sem_count s - 1\<rparr>) k in
      if sint (sem_count (k_sems k sem)) < 0 then
        let cur = get_current_process (k_sched k) in
        bind_res (deref (kprocs k) cur) (\<lambda>_.
          let k = set_kproc cur (\<lambda>p. p\<lparr>p_status := BLOCKED\<rparr>) k;
              k = set_kproc cur (\<lambda>p. p\<lparr>p_wait_next := NULL\<rparr>) k;
              k = (if sem_wait_tail (k_sems k sem) \<noteq> NULL
                   then set_kproc (sem_wait_tail (k_sems k sem)) (\<lambda>p. p\<lparr>p_wait_next := cur\<rparr>) k
                   else set_sem sem (\<lambda>s. s\<lparr>sem_wait_head := cur\<rparr>) k);
              k = set_sem sem (\<lambda>s. s\<lparr>sem_wait_tail := cur\<rparr>) k
          in Inr (True, k))
      else Inr (False, k))"

text \<open>The whole function: the second component is the context switched to, if any.\<close>

definition sem_wait :: "u64 \<Rightarrow> u64 \<Rightarrow> kstate \<Rightarrow> (u64 option \<times> kstate) res" where
  "sem_wait context sem k =
     bind_res (sem_wait_enter sem k) (\<lambda>(blocked, k).
       if blocked
       then bind_res (yield context (k_sched k)) (\<lambda>(c, s). Inr (Some c, k\<lparr>k_sched := s\<rparr>))
       else Inr (None, k))"

definition sem_trywait :: "u64 \<Rightarrow> kstate \<Rightarrow> i32 \<times> kstate" where
  "sem_trywait sem k =
     (if sint (sem_count (k_sems k sem)) > 0
      then (1, set_sem sem (\<lambda>s. s\<lparr>sem_count := sem_count s - 1\<rparr>) k) else (0, k))"

definition sem_signal :: "u64 \<Rightarrow> kstate \<Rightarrow> kstate" where
  "sem_signal sem k =
     (let k = set_sem sem (\<lambda>s. s\<lparr>sem_count := sem_count s + 1\<rparr>) k in
      if sint (sem_count (k_sems k sem)) \<le> 0 \<and> sem_wait_head (k_sems k sem) \<noteq> NULL then
        let woken = sem_wait_head (k_sems k sem);
            k = set_sem sem (\<lambda>s. s\<lparr>sem_wait_head := p_wait_next (kprocs k woken)\<rparr>) k;
            k = (if sem_wait_head (k_sems k sem) = NULL
                 then set_sem sem (\<lambda>s. s\<lparr>sem_wait_tail := NULL\<rparr>) k else k);
            k = set_kproc woken (\<lambda>p. p\<lparr>p_wait_next := NULL\<rparr>) k
        in set_kproc woken (\<lambda>p. p\<lparr>p_status := READY\<rparr>) k
      else k)"

definition mutex_create :: "u64 \<Rightarrow> kstate \<Rightarrow> u64 \<times> kstate" where
  "mutex_create m = sem_create m 1"

section \<open>Processes that use a semaphore\<close>

text \<open>The atomic part of \<open>sem_wait\<close>, called by process \<open>p\<close>.\<close>

definition wait_as :: "u64 \<Rightarrow> u64 \<Rightarrow> kstate \<Rightarrow> (bool \<times> kstate) res" where
  "wait_as sem p k = sem_wait_enter sem (k\<lparr>k_sched := (k_sched k)\<lparr>current_process := p\<rparr>\<rparr>)"

definition is_blocked :: "kstate \<Rightarrow> u64 \<Rightarrow> bool" where
  "is_blocked k p \<longleftrightarrow> p_status (kprocs k p) = BLOCKED"

text \<open>A step of the rest of the kernel: it leaves the semaphore and the waiting processes alone.\<close>

definition sem_frame :: "u64 \<Rightarrow> u64 list \<Rightarrow> kstate \<Rightarrow> kstate \<Rightarrow> bool" where
  "sem_frame sem q k k' \<longleftrightarrow> k_sems k' sem = k_sems k sem \<and>
     (\<forall>p \<in> set q. p_status (kprocs k' p) = p_status (kprocs k p) \<and>
        p_wait_next (kprocs k' p) = p_wait_next (kprocs k p))"

text \<open>
  Processes that take and release units: \<open>H\<close> are the processes that hold a unit, and \<open>Q\<close> those that
  called \<open>wait\<close> and have not run since, in the order of their calls.  A process goes on after
  \<open>wait\<close> when the call did not block it, or when some \<open>signal\<close> has made it runnable again.
\<close>

inductive lock_step ::
    "(u64 \<Rightarrow> 'k \<Rightarrow> (bool \<times> 'k) res) \<Rightarrow> ('k \<Rightarrow> 'k) \<Rightarrow> ('k \<Rightarrow> u64 \<Rightarrow> bool) \<Rightarrow> (u64 list \<Rightarrow> 'k \<Rightarrow> 'k \<Rightarrow> bool) \<Rightarrow>
     u64 set \<Rightarrow> 'k \<times> u64 set \<times> u64 list \<Rightarrow> 'k \<times> u64 set \<times> u64 list \<Rightarrow> bool"
  for wait_op signal_op blocked frame P where
  lock_acquire: "p \<in> P \<Longrightarrow> p \<notin> H \<Longrightarrow> p \<notin> set Q \<Longrightarrow> wait_op p k = Inr (False, k') \<Longrightarrow>
    lock_step wait_op signal_op blocked frame P (k, H, Q) (k', insert p H, Q)"
| lock_wait: "p \<in> P \<Longrightarrow> p \<notin> H \<Longrightarrow> p \<notin> set Q \<Longrightarrow> wait_op p k = Inr (True, k') \<Longrightarrow>
    lock_step wait_op signal_op blocked frame P (k, H, Q) (k', H, Q @ [p])"
| lock_release: "p \<in> H \<Longrightarrow> k' = signal_op k \<Longrightarrow>
    lock_step wait_op signal_op blocked frame P (k, H, Q)
      (k', H - {p} \<union> {w \<in> set Q. \<not> blocked k' w}, filter (blocked k') Q)"
| lock_other: "frame Q k k' \<Longrightarrow> lock_step wait_op signal_op blocked frame P (k, H, Q) (k', H, Q)"

section \<open>The value and the queue of a semaphore\<close>

text \<open>
  \<open>sem_abs sem k v q\<close>: the semaphore has the value \<open>v\<close> and the processes \<open>q\<close> wait for it, in this
  order; they are blocked and linked from the head to the tail.  A negative value counts the
  waiting processes.
\<close>

definition sem_abs :: "u64 \<Rightarrow> kstate \<Rightarrow> int \<Rightarrow> u64 list \<Rightarrow> bool" where
  "sem_abs sem k v q \<longleftrightarrow> sint (sem_count (k_sems k sem)) = v \<and>
     chain (\<lambda>p. p_wait_next (kprocs k p)) (sem_wait_head (k_sems k sem)) q NULL \<and>
     sem_wait_tail (k_sems k sem) = (if q = [] then NULL else last q) \<and>
     (\<forall>p \<in> set q. p_status (kprocs k p) = BLOCKED) \<and>
     int (length q) = (if 0 \<le> v then 0 else - v)"

lemma sint_minus1:
  assumes "- (2 ^ 31) < sint (x :: i32)" shows "sint (x - 1) = sint x - 1"
proof -
  have "sint x < 2 ^ 31" using sint_lt [of x] by simp
  with assms have "signed_take_bit 31 (sint x - 1) = sint x - 1"
    by (intro signed_take_bit_int_eq_self) simp_all
  then show ?thesis by (simp add: sint_word_ariths)
qed

lemma sint_plus1:
  assumes "sint (x :: i32) < 2 ^ 31 - 1" shows "sint (x + 1) = sint x + 1"
proof -
  have "- (2 ^ 31) \<le> sint x" using sint_ge [of x] by simp
  with assms have "signed_take_bit 31 (sint x + 1) = sint x + 1"
    by (intro signed_take_bit_int_eq_self) simp_all
  then show ?thesis by (simp add: sint_word_ariths)
qed

lemma sem_create_abs: "0 \<le> sint n \<Longrightarrow> sem_abs sem (snd (sem_create sem n k)) (sint n) []"
  by (simp add: sem_abs_def sem_create_def)

text \<open>Appending to the queue: the tail's link is set, or the head if the queue is empty.\<close>

lemma chain_append_tail:
  assumes c: "chain nx h q NULL" and p: "p \<notin> set q" "p \<noteq> NULL"
  shows "chain (if q = [] then nx(p := NULL) else nx(p := NULL, last q := p))
    (if q = [] then p else h) (q @ [p]) NULL"
proof (cases q rule: rev_cases)
  case Nil
  then show ?thesis using p by simp
next
  case (snoc as t)
  have d: "t \<notin> set as" "p \<notin> set as" "t \<noteq> p" "t \<noteq> NULL"
    using chain_distinct [OF c] chain_nonnull [OF c, of t] p snoc by auto
  have "chain nx h as t" using c snoc by (auto simp: chain_append)
  then have "chain (nx(p := NULL, t := p)) h as t" by (rule chain_transfer) (use d in auto)
  then show ?thesis using d p snoc by (auto simp: chain_append)
qed

lemma sem_wait_blocks:
  assumes a: "sem_abs sem k v q" and v: "v \<le> 0" "- (2 ^ 31) < v"
    and cur: "current_process (k_sched k) = p" "p \<noteq> NULL" "p \<notin> set q"
  shows "\<exists>k'. sem_wait_enter sem k = Inr (True, k') \<and> sem_abs sem k' (v - 1) (q @ [p])"
proof -
  note A = a [unfolded sem_abs_def]
  have c: "sint (sem_count (k_sems k sem) - 1) = v - 1" using A v(2) sint_minus1 by simp
  have tail: "sem_wait_tail (k_sems k sem) = NULL \<longleftrightarrow> q = []"
    using A chain_nonnull [of _ _ q NULL "last q"] by (auto split: if_splits)
  show ?thesis
  proof (cases "q = []")
    case True
    then have "v = 0" using A v(1) by (auto split: if_splits)
    then show ?thesis
      using True A c cur tail by (auto simp: sem_wait_enter_def get_current_process_def sem_abs_def upd_def Let_def)
  next
    case False
    have t: "last q \<noteq> p" "sem_wait_tail (k_sems k sem) = last q" "last q \<noteq> NULL"
      using False cur(3) A tail last_in_set [OF False] by auto
    let ?nx = "(\<lambda>r. p_wait_next (kprocs k r))(p := NULL, last q := p)"
    have ch: "chain ?nx (sem_wait_head (k_sems k sem)) (q @ [p]) NULL"
      using chain_append_tail [of "\<lambda>r. p_wait_next (kprocs k r)" _ q p] A cur False by simp
    let ?k = "set_sem sem (\<lambda>s. s\<lparr>sem_wait_tail := p\<rparr>)
      (set_kproc (last q) (\<lambda>r. r\<lparr>p_wait_next := p\<rparr>)
      (set_kproc p (\<lambda>r. r\<lparr>p_wait_next := NULL\<rparr>)
      (set_kproc p (\<lambda>r. r\<lparr>p_status := BLOCKED\<rparr>)
      (set_sem sem (\<lambda>s. s\<lparr>sem_count := sem_count s - 1\<rparr>) k))))"
    have "sem_wait_enter sem k = Inr (True, ?k)"
      using c v cur t by (simp add: sem_wait_enter_def get_current_process_def upd_def Let_def)
    moreover have "(\<lambda>r. p_wait_next (kprocs ?k r)) = ?nx" using t(1) by (auto simp: upd_def)
    then have "chain (\<lambda>r. p_wait_next (kprocs ?k r)) (sem_wait_head (k_sems ?k sem)) (q @ [p]) NULL"
      using ch by (simp add: upd_def)
    moreover have "\<forall>r \<in> set (q @ [p]). p_status (kprocs ?k r) = BLOCKED" using A by (auto simp: upd_def)
    ultimately show ?thesis using A c v False by (auto simp: sem_abs_def upd_def)
  qed
qed


lemma sem_wait_passes:
  assumes a: "sem_abs sem k v q" and v: "0 < v"
  shows "\<exists>k'. sem_wait_enter sem k = Inr (False, k') \<and> sem_abs sem k' (v - 1) q \<and> k_sched k' = k_sched k"
proof -
  note A = a [unfolded sem_abs_def]
  have c: "sint (sem_count (k_sems k sem) - 1) = v - 1" using A v sint_minus1 by simp
  then show ?thesis using A v by (auto simp: sem_wait_enter_def sem_abs_def upd_def Let_def)
qed

lemma sem_signal_none:
  assumes a: "sem_abs sem k v []" and v: "v < 2 ^ 31 - 1"
  shows "sem_abs sem (sem_signal sem k) (v + 1) [] \<and> k_sched (sem_signal sem k) = k_sched k"
proof -
  note A = a [unfolded sem_abs_def]
  have c: "sint (sem_count (k_sems k sem) + 1) = v + 1" using A v sint_plus1 by simp
  then show ?thesis using A by (simp add: sem_signal_def sem_abs_def upd_def Let_def split: if_splits)
qed

text \<open>Signalling wakes the process at the head of the queue, and no other.\<close>

lemma sem_signal_first:
  assumes a: "sem_abs sem k v (p # q)"
  shows "sem_abs sem (sem_signal sem k) (v + 1) q \<and>
    (\<forall>r. p_status (kprocs (sem_signal sem k) r) = (if r = p then READY else p_status (kprocs k r)))"
proof -
  note A = a [unfolded sem_abs_def]
  have v: "v < 0" "int (length q) = - v - 1" using A by (auto split: if_splits)
  have c: "sint (sem_count (k_sems k sem) + 1) = v + 1" using A v sint_plus1 by simp
  have ch: "sem_wait_head (k_sems k sem) = p" "p \<noteq> NULL"
    "chain (\<lambda>r. p_wait_next (kprocs k r)) (p_wait_next (kprocs k p)) q NULL" using A by auto
  have p: "p \<notin> set q" using A chain_distinct by fastforce
  have nil: "p_wait_next (kprocs k p) = NULL \<longleftrightarrow> q = []"
    using ch(3) chain_nonnull [OF ch(3)] by (cases q) auto
  have n: "p_wait_next (kprocs (sem_signal sem k) r) = (if r = p then NULL else p_wait_next (kprocs k r))"
    "p_status (kprocs (sem_signal sem k) r) = (if r = p then READY else p_status (kprocs k r))" for r
    using c v ch(1,2) by (simp_all add: sem_signal_def upd_def Let_def)
  have s: "k_sems (sem_signal sem k) sem = (k_sems k sem)\<lparr>sem_count := sem_count (k_sems k sem) + 1,
      sem_wait_head := p_wait_next (kprocs k p),
      sem_wait_tail := if q = [] then NULL else sem_wait_tail (k_sems k sem)\<rparr>"
    using c v ch(1,2) nil by (simp add: sem_signal_def upd_def Let_def)
  have "chain (\<lambda>r. p_wait_next (kprocs (sem_signal sem k) r)) (p_wait_next (kprocs k p)) q NULL"
    by (rule chain_transfer [OF ch(3)]) (use p in \<open>auto simp: n\<close>)
  then have "sem_abs sem (sem_signal sem k) (v + 1) q"
    unfolding sem_abs_def s using A c p v by (auto simp: n)
  with n(2) show ?thesis by simp
qed

section \<open>The contract of a counting semaphore\<close>

text \<open>
  What a client relies on: \<open>wait\<close> takes a unit or queues the caller at the back, \<open>signal\<close> returns a
  unit or wakes the head of the queue and no one else, and the rest of the kernel does not interfere.
\<close>

locale counting_semaphore =
  fixes abs :: "'k \<Rightarrow> int \<Rightarrow> u64 list \<Rightarrow> bool"
    and wait_op :: "u64 \<Rightarrow> 'k \<Rightarrow> (bool \<times> 'k) res"
    and signal_op :: "'k \<Rightarrow> 'k"
    and blocked :: "'k \<Rightarrow> u64 \<Rightarrow> bool"
    and frame :: "u64 list \<Rightarrow> 'k \<Rightarrow> 'k \<Rightarrow> bool"
  assumes queue_length: "abs k v q \<Longrightarrow> int (length q) = (if 0 \<le> v then 0 else - v)"
    and queue_blocked: "abs k v q \<Longrightarrow> p \<in> set q \<Longrightarrow> blocked k p"
    and wait_free: "abs k v q \<Longrightarrow> 0 < v \<Longrightarrow> \<exists>k'. wait_op p k = Inr (False, k') \<and> abs k' (v - 1) q"
    and wait_block: "abs k v q \<Longrightarrow> v \<le> 0 \<Longrightarrow> - (2 ^ 31) < v \<Longrightarrow> p \<noteq> NULL \<Longrightarrow> p \<notin> set q \<Longrightarrow>
      \<exists>k'. wait_op p k = Inr (True, k') \<and> abs k' (v - 1) (q @ [p])"
    and signal_free: "abs k v [] \<Longrightarrow> v < 2 ^ 31 - 1 \<Longrightarrow> abs (signal_op k) (v + 1) []"
    and signal_wake: "abs k v (p # q) \<Longrightarrow> abs (signal_op k) (v + 1) q \<and> \<not> blocked (signal_op k) p"
    and frame_abs: "abs k v q \<Longrightarrow> frame q k k' \<Longrightarrow> abs k' v q"
begin

text \<open>Every unit is held or free, and processes wait only while no unit is free.\<close>

definition units :: "u64 set \<Rightarrow> int \<Rightarrow> 'k \<times> u64 set \<times> u64 list \<Rightarrow> bool" where
  "units P n = (\<lambda>(k, H, Q). \<exists>v. abs k v Q \<and> set Q \<subseteq> P \<and> H \<subseteq> P \<and> distinct Q \<and> H \<inter> set Q = {} \<and>
     int (card H) + max v 0 = n)"

abbreviation client_step where
  "client_step P \<equiv> lock_step wait_op signal_op blocked frame P"

lemma units_acquire:
  assumes u: "units P n (k, H, Q)" and P: "finite P" "card P < 2 ^ 31" "NULL \<notin> P"
    and p: "p \<in> P" "p \<notin> H" "p \<notin> set Q" and w: "wait_op p k = Inr (b, k')"
  shows "units P n (if b then (k', H, Q @ [p]) else (k', insert p H, Q))"
proof -
  obtain v where a: "abs k v Q" "set Q \<subseteq> P" "H \<subseteq> P" "distinct Q" "H \<inter> set Q = {}" "int (card H) + max v 0 = n"
    using u by (auto simp: units_def)
  have fin: "finite H" using a(3) P(1) finite_subset by blast
  have pn: "p \<noteq> NULL" using p(1) P(3) by auto
  show ?thesis
  proof (cases "0 < v")
    case True
    then have "\<not> b \<and> abs k' (v - 1) Q" using wait_free [OF a(1), of p] w by auto
    with True a p fin show ?thesis by (auto simp: units_def)
  next
    case False
    have "card (set Q) \<le> card P" using a(2) P(1) by (simp add: card_mono)
    then have "length Q < 2 ^ 31" using P(2) distinct_card [OF a(4)] by simp
    then have "- (2 ^ 31) < v" using queue_length [OF a(1)] by (auto split: if_splits)
    then have "b \<and> abs k' (v - 1) (Q @ [p])" using wait_block [OF a(1) _ _ pn p(3)] False w by auto
    with False a p show ?thesis by (auto simp: units_def intro!: exI [of _ "v - 1"])
  qed
qed

lemma units_release:
  assumes u: "units P n (k, H, Q)" and P: "finite P" and n: "n < 2 ^ 31" and p: "p \<in> H"
  shows "units P n (signal_op k, H - {p} \<union> {w \<in> set Q. \<not> blocked (signal_op k) w}, filter (blocked (signal_op k)) Q)"
proof -
  obtain v where a: "abs k v Q" "set Q \<subseteq> P" "H \<subseteq> P" "distinct Q" "H \<inter> set Q = {}" "int (card H) + max v 0 = n"
    using u by (auto simp: units_def)
  have fin: "finite H" using a(3) P finite_subset by blast
  have c: "int (card H) = int (card (H - {p})) + 1" using card.remove [OF fin p] by simp
  show ?thesis
  proof (cases Q)
    case Nil
    have v: "0 \<le> v" "v < 2 ^ 31 - 1" using queue_length [OF a(1)] Nil a(6) c n by (auto split: if_splits)
    with signal_free [of k v] a(1) Nil have "abs (signal_op k) (v + 1) []" by simp
    with Nil v(1) a c show ?thesis by (auto simp: units_def intro!: exI [of _ "v + 1"])
  next
    case (Cons w q)
    have v: "v < 0" using queue_length [OF a(1)] Cons by (auto split: if_splits)
    from signal_wake [of k v w q] a(1) Cons
    have s: "abs (signal_op k) (v + 1) q" "\<not> blocked (signal_op k) w" by simp_all
    have b: "\<forall>r \<in> set q. blocked (signal_op k) r" using queue_blocked [OF s(1)] by simp
    then have Q: "{r \<in> set Q. \<not> blocked (signal_op k) r} = {w}" "filter (blocked (signal_op k)) Q = q"
      using s(2) Cons by auto
    have "w \<notin> H - {p}" using a(5) Cons by auto
    then have "card (H - {p} \<union> {w}) = card H" using c fin by simp
    then show ?thesis
      unfolding Q units_def using s(1) v a Cons by (auto intro!: exI [of _ "v + 1"])
  qed
qed

lemma units_step:
  assumes "client_step P x y" "units P n x" "finite P" "card P < 2 ^ 31" "NULL \<notin> P" "n < 2 ^ 31"
  shows "units P n y"
  using assms(1,2)
proof (cases rule: lock_step.cases)
  case (lock_acquire p H Q k k')
  with units_acquire [of P n k H Q p False k'] assms show ?thesis by simp
next
  case (lock_wait p H Q k k')
  with units_acquire [of P n k H Q p True k'] assms show ?thesis by simp
next
  case (lock_release p H k' k Q)
  with units_release [of P n k H Q p] assms show ?thesis by simp
next
  case (lock_other Q k k' H)
  with assms(2) frame_abs show ?thesis by (force simp: units_def)
qed

lemma units_reachable:
  assumes "(client_step P)\<^sup>*\<^sup>* (k, {}, []) (k', H, Q)" "abs k n []" "0 \<le> n" "n < 2 ^ 31"
    and "finite P" "card P < 2 ^ 31" "NULL \<notin> P"
  shows "units P n (k', H, Q)"
  using assms(1)
proof (induction rule: rtranclp_induct)
  case base
  then show ?case using assms by (auto simp: units_def)
next
  case (step y z)
  then show ?case using units_step assms by blast
qed

text \<open>At most \<open>n\<close> processes hold a unit; while one waits exactly \<open>n\<close> do.\<close>

lemma holders_bounded:
  assumes "(client_step P)\<^sup>*\<^sup>* (k, {}, []) (k', H, Q)" "abs k n []" "0 \<le> n" "n < 2 ^ 31"
    and "finite P" "card P < 2 ^ 31" "NULL \<notin> P"
  shows "int (card H) \<le> n \<and> (Q \<noteq> [] \<longrightarrow> int (card H) = n) \<and> (\<forall>p \<in> set Q. blocked k' p)"
proof -
  obtain v where v: "abs k' v Q" "int (card H) + max v 0 = n"
    using units_reachable [OF assms] by (auto simp: units_def)
  have "Q \<noteq> [] \<longrightarrow> v < 0" using queue_length [OF v(1)] by (auto split: if_splits)
  then show ?thesis using v queue_blocked [OF v(1)] by auto
qed

end

lemma wait_as_laws:
  assumes "sem_abs sem k v q"
  shows "0 < v \<Longrightarrow> \<exists>k'. wait_as sem p k = Inr (False, k') \<and> sem_abs sem k' (v - 1) q"
    and "v \<le> 0 \<Longrightarrow> - (2 ^ 31) < v \<Longrightarrow> p \<noteq> NULL \<Longrightarrow> p \<notin> set q \<Longrightarrow>
      \<exists>k'. wait_as sem p k = Inr (True, k') \<and> sem_abs sem k' (v - 1) (q @ [p])"
proof -
  let ?k = "k\<lparr>k_sched := (k_sched k)\<lparr>current_process := p\<rparr>\<rparr>"
  have a: "sem_abs sem ?k v q" using assms by (simp add: sem_abs_def)
  show "0 < v \<Longrightarrow> \<exists>k'. wait_as sem p k = Inr (False, k') \<and> sem_abs sem k' (v - 1) q"
    using sem_wait_passes [OF a] by (auto simp: wait_as_def)
  show "v \<le> 0 \<Longrightarrow> - (2 ^ 31) < v \<Longrightarrow> p \<noteq> NULL \<Longrightarrow> p \<notin> set q \<Longrightarrow>
      \<exists>k'. wait_as sem p k = Inr (True, k') \<and> sem_abs sem k' (v - 1) (q @ [p])"
    using sem_wait_blocks [OF a] by (simp add: wait_as_def)
qed

lemma sem_frame_abs: "sem_abs sem k v q \<Longrightarrow> sem_frame sem q k k' \<Longrightarrow> sem_abs sem k' v q"
  using chain_transfer [of "\<lambda>p. p_wait_next (kprocs k p)" _ q NULL "\<lambda>p. p_wait_next (kprocs k' p)"]
  by (auto simp: sem_abs_def sem_frame_def)

interpretation ksem: counting_semaphore "sem_abs sem" "wait_as sem" "sem_signal sem" is_blocked "sem_frame sem"
  for sem
proof
  fix k k' v q p
  show "sem_abs sem k v q \<Longrightarrow> int (length q) = (if 0 \<le> v then 0 else - v)" by (simp add: sem_abs_def)
  show "sem_abs sem k v q \<Longrightarrow> p \<in> set q \<Longrightarrow> is_blocked k p" by (simp add: sem_abs_def is_blocked_def)
  show "sem_abs sem k v (p # q) \<Longrightarrow> sem_abs sem (sem_signal sem k) (v + 1) q \<and> \<not> is_blocked (sem_signal sem k) p"
    using sem_signal_first by (simp add: is_blocked_def)
qed (use wait_as_laws sem_signal_none sem_frame_abs in auto)

text \<open>The scheduler is a step of the rest of the kernel: it wakes no waiting process.\<close>

lemma schedule_wait_next:
  "schedule context s = Inr (c, s') \<Longrightarrow> p_wait_next (procs s' p) = p_wait_next (procs s p)"
  by (auto simp: schedule_def upd_def Let_def split: if_splits)

lemma schedule_frame:
  assumes "proc_chain (k_sched k) xs" "i < length xs" "current_process (k_sched k) = xs ! i"
    and "runnable (k_sched k) (ahead xs i d)" "\<forall>e<d. \<not> runnable (k_sched k) (ahead xs i e)"
    and q: "\<forall>p \<in> set q. is_blocked k p" and s: "schedule context (k_sched k) = Inr (c, s')"
  shows "sem_frame sem q k (k\<lparr>k_sched := s'\<rparr>)"
proof -
  have "p_status (procs s' p) = p_status (kprocs k p)" if "p \<in> set q" for p
    using schedule_effect [OF assms(1-5), of "context"] s q that assms(4)
    by (fastforce simp: is_blocked_def runnable_def not_runnable_def)
  then show ?thesis using schedule_wait_next [OF s] by (simp add: sem_frame_def)
qed

lemma sem_wait_enter_sched:
  assumes "sem_wait_enter sem k = Inr (True, k')"
  shows "process_list (k_sched k') = process_list (k_sched k)"
    "current_process (k_sched k') = current_process (k_sched k)"
    "p_next (kprocs k' r) = p_next (kprocs k r)" "p_context (kprocs k' r) = p_context (kprocs k r)"
    "p_status (kprocs k' r) = (if r = current_process (k_sched k) then BLOCKED else p_status (kprocs k r))"
  using assms by (auto simp: sem_wait_enter_def get_current_process_def upd_def Let_def split: if_splits)

section \<open>Properties\<close>

text \<open>
  \<open>sem_wait\<close> on a semaphore without a free unit queues the running process behind those that wait
  already, blocks it, and the processor goes on with the saved context of the next process in round-robin
  order that can run.
\<close>

theorem sem_wait_switches:
  assumes c: "proc_chain (k_sched k) xs" "i < length xs" "current_process (k_sched k) = xs ! i"
    and a: "sem_abs sem k v q" "v \<le> 0" "- (2 ^ 31) < v" and run: "runnable (k_sched k) (xs ! i)"
    and d: "runnable (k_sched k) (ahead xs i d)" "\<forall>e<d. \<not> runnable (k_sched k) (ahead xs i e)"
      "ahead xs i d \<noteq> xs ! i"
  shows "\<exists>k'. sem_wait context sem k = Inr (Some (p_context (kprocs k (ahead xs i d))), k') \<and>
    sem_abs sem k' (v - 1) (q @ [xs ! i]) \<and> is_blocked k' (xs ! i) \<and>
    current_process (k_sched k') = ahead xs i d"
proof -
  have cur: "xs ! i \<noteq> NULL" "xs ! i \<notin> set q"
    using chain_nonnull [OF c(1)] c(2) a(1) run by (auto simp: sem_abs_def runnable_def not_runnable_def)
  obtain k1 where k1: "sem_wait_enter sem k = Inr (True, k1)" "sem_abs sem k1 (v - 1) (q @ [xs ! i])"
    using sem_wait_blocks [OF a c(3) cur] by blast
  note f = sem_wait_enter_sched [OF k1(1)]
  have r: "runnable (k_sched k1) p = (p \<noteq> xs ! i \<and> runnable (k_sched k) p)" for p
    using c(3) by (simp add: runnable_def not_runnable_def f)
  have s: "proc_chain (k_sched k1) xs" "current_process (k_sched k1) = xs ! i"
    "runnable (k_sched k1) (ahead xs i d)" "\<forall>e<d. \<not> runnable (k_sched k1) (ahead xs i e)"
    using c d r by (simp_all add: f)
  obtain s' where s': "schedule context (k_sched k1) = Inr (p_context (kprocs k1 (ahead xs i d)), s')"
      "current_process s' = ahead xs i d"
    using schedule_effect [OF s(1) c(2) s(2-4), of "context"] d(3) s(2) by auto
  have b: "\<forall>p \<in> set (q @ [xs ! i]). is_blocked k1 p" using ksem.queue_blocked [OF k1(2)] by blast
  have fr: "sem_frame sem (q @ [xs ! i]) k1 (k1\<lparr>k_sched := s'\<rparr>)"
    by (rule schedule_frame [OF s(1) c(2) s(2-4) b s'(1)])
  note a' = sem_frame_abs [OF k1(2) fr]
  show ?thesis
    using k1(1) s' a' ksem.queue_blocked [OF a', of "xs ! i"] by (auto simp: sem_wait_def yield_def f)
qed

text \<open>
  \<open>sem_trywait\<close> never blocks: it takes a unit and returns 1 exactly if one is free.
\<close>

theorem sem_trywait_correct:
  assumes "sem_abs sem k v q"
  shows "(0 < v \<longrightarrow> fst (sem_trywait sem k) = 1 \<and> sem_abs sem (snd (sem_trywait sem k)) (v - 1) q) \<and>
    (v \<le> 0 \<longrightarrow> sem_trywait sem k = (0, k)) \<and> k_sched (snd (sem_trywait sem k)) = k_sched k"
proof -
  note A = assms [unfolded sem_abs_def]
  have "0 < v \<Longrightarrow> sint (sem_count (k_sems k sem) - 1) = v - 1" using A sint_minus1 by simp
  then show ?thesis using A by (auto simp: sem_trywait_def sem_abs_def upd_def)
qed

text \<open>
  \<open>sem_signal\<close> is first in, first out: if processes wait, the one that has waited longest becomes
  ready and leaves the queue, and the status of no other process changes; if none waits, a unit
  becomes free and no process changes.
\<close>

theorem sem_signal_fifo:
  assumes "sem_abs sem k v q" "v < 2 ^ 31 - 1"
  shows "sem_abs sem (sem_signal sem k) (v + 1) (tl q) \<and>
    (\<forall>r. p_status (kprocs (sem_signal sem k) r) =
      (if q \<noteq> [] \<and> r = hd q then READY else p_status (kprocs k r)))"
  using assms sem_signal_none sem_signal_first by (cases q) auto

text \<open>
  (C16) A semaphore created with \<open>n\<close> units never lets more than \<open>n\<close> processes in at a time, whatever the
  order of the waits, the signals and the steps of the rest of the kernel, and no wake-up is lost: as
  long as a process waits, all \<open>n\<close> units are held and the process is blocked.  With \<open>n = 1\<close> this is
  the mutual exclusion of \<open>mutex_create\<close>.
\<close>

theorem semaphore_bounded:
  assumes "(lock_step (wait_as sem) (sem_signal sem) is_blocked (sem_frame sem) P)\<^sup>*\<^sup>*
      (snd (sem_create sem n k), {}, []) (k', H, Q)"
    and "0 \<le> sint n" "finite P" "card P < 2 ^ 31" "NULL \<notin> P"
  shows "int (card H) \<le> sint n \<and> (Q \<noteq> [] \<longrightarrow> int (card H) = sint n) \<and> (\<forall>p \<in> set Q. is_blocked k' p)"
proof -
  have "sint n < 2 ^ 31" using sint_lt [of n] by simp
  then show ?thesis using ksem.holders_bounded [OF assms(1) sem_create_abs] assms(2-) by blast
qed

text \<open>The processes of the scheduler's sample; the second waits for a semaphore without units.\<close>

definition sem_sample :: kstate where
  "sem_sample = \<lparr>k_sched = sched_sample,
     k_sems = (\<lambda>_. \<lparr>sem_count = - 1, sem_wait_head = 0x2000, sem_wait_tail = 0x2000\<rparr>)\<rparr>"

lemma sem_sample_abs: "sem_abs 0x6000 sem_sample (- 1) [0x2000]"
  by (simp add: sem_abs_def sem_sample_def sched_sample_def zero_process_def)

theorem sem_wait_switches_witness:
  "\<exists>k'. sem_wait 0x5000 0x6000 sem_sample = Inr (Some 0x9000, k') \<and>
     sem_abs 0x6000 k' (- 2) [0x2000, 0x1000] \<and> current_process (k_sched k') = 0x3000"
proof -
  have k: "k_sched sem_sample = sched_sample" by (simp add: sem_sample_def)
  have "runnable sched_sample 0x1000" "current_process sched_sample = 0x1000"
    "ahead [0x1000, 0x2000, 0x3000] 0 1 = 0x3000" "p_context (procs sched_sample 0x3000) = 0x9000"
    by (simp_all add: sched_sample_def runnable_def not_runnable_def zero_process_def ahead_def)
  then show ?thesis
    using sem_wait_switches [of sem_sample _ 0 "0x6000" _ _ 1 "0x5000", unfolded k, OF sched_sample_chain _ _ sem_sample_abs
      _ _ _ sched_sample_runnable] by auto
qed

theorem sem_trywait_correct_witness: "sem_trywait 0x6000 sem_sample = (0, sem_sample)"
  using sem_trywait_correct [OF sem_sample_abs] by simp

theorem sem_signal_fifo_witness:
  "sem_abs 0x6000 (sem_signal 0x6000 sem_sample) 0 [] \<and>
   p_status (kprocs (sem_signal 0x6000 sem_sample) 0x2000) = READY"
  using sem_signal_fifo [OF sem_sample_abs] by simp

text \<open>One process takes a mutex and a second one has to wait.\<close>

theorem semaphore_bounded_witness:
  "\<exists>k'. (lock_step (wait_as 0x6000) (sem_signal 0x6000) is_blocked (sem_frame 0x6000) {0x1000, 0x2000})\<^sup>*\<^sup>*
       (snd (mutex_create 0x6000 sem_sample), {}, []) (k', {0x1000}, [0x2000]) \<and>
     card {0x1000 :: u64} = 1 \<and> is_blocked k' 0x2000"
proof -
  let ?step = "lock_step (wait_as 0x6000) (sem_signal 0x6000) is_blocked (sem_frame 0x6000) {0x1000, 0x2000}"
  let ?k = "snd (sem_create 0x6000 1 sem_sample)"
  have "sem_abs 0x6000 ?k 1 []" using sem_create_abs [of 1 "0x6000" sem_sample] by simp
  then obtain k1 where k1: "wait_as 0x6000 0x1000 ?k = Inr (False, k1)" "sem_abs 0x6000 k1 0 []"
    using wait_as_laws(1) by fastforce
  then obtain k2 where k2: "wait_as 0x6000 0x2000 k1 = Inr (True, k2)"
    using wait_as_laws(2) [OF k1(2), of "0x2000"] by auto
  have "?step (?k, {}, []) (k1, {0x1000}, [])" by (rule lock_acquire) (simp_all add: k1)
  moreover have "?step (k1, {0x1000}, []) (k2, {0x1000}, [] @ [0x2000])" by (rule lock_wait) (simp_all add: k2)
  ultimately have run: "?step\<^sup>*\<^sup>* (?k, {}, []) (k2, {0x1000}, [0x2000])" by simp
  then show ?thesis using semaphore_bounded [OF run] by (auto simp: mutex_create_def)
qed

end
