(* ===== verification/Pipe.thy ===== *)
theory Pipe
  imports Semaphore CString
begin

text \<open>
  Pipes, \<open>src/src/pipe.c\<close>: a ring buffer with a mutex and two semaphores, one counting the free and
  one the filled slots.

  \<open>pipe_write\<close> and \<open>pipe_read\<close> can lose the processor between any two statements and block in
  \<open>sem_wait\<close>, so that they are step functions: a call in progress is a record with a program counter and
  the local variables, and one step executes one statement of the source.  The caller's buffer is
  memory of the calling process and part of its call record.  \<open>pipe_try_write\<close> is called by the
  keyboard interrupt handler, with interrupts disabled, and is one step.
\<close>

section \<open>State\<close>

record pipe =
  pp_buffer :: u64
  pp_buffer_len :: u64
  pp_read_pos :: u64
  pp_write_pos :: u64
  pp_read_refs :: i32
  pp_write_refs :: i32
  pp_buf_lock :: u64
  pp_sem_empty :: u64
  pp_sem_full :: u64

record pstate =
  ps_k :: kstate
  ps_pipes :: "u64 \<Rightarrow> pipe"
  ps_mem :: mem

datatype ppc = IDLE
  | W_ENTER | W_LOOP | W_REFS | W_LOCK | W_STORE | W_ADVANCE | W_UNLOCK | W_SIGNAL
  | R_ENTER | R_WAIT | R_LOCK | R_LOAD | R_ADVANCE | R_UNLOCK | R_SIGNAL | R_LOOP
  | RET i32

record call =
  cl_pc :: ppc
  cl_i :: u64
  cl_len :: u64
  cl_buf :: "u64 \<Rightarrow> u8"

abbreviation sizeof_pipe :: u64 where "sizeof_pipe \<equiv> 64"
abbreviation sizeof_mutex :: u64 where "sizeof_mutex \<equiv> 24"

abbreviation set_pipe :: "u64 \<Rightarrow> (pipe \<Rightarrow> pipe) \<Rightarrow> pstate \<Rightarrow> pstate" where
  "set_pipe pp f st \<equiv> st\<lparr>ps_pipes := upd pp f (ps_pipes st)\<rparr>"

section \<open>Operations\<close>

definition pipe_create :: "allocator \<Rightarrow> u64 \<Rightarrow> pstate \<Rightarrow> (u64 \<times> pstate) res" where
  "pipe_create al buffer_len st =
     bind_res (alloc al sizeof_pipe (s_heap (k_sched (ps_k st)))) (\<lambda>(pp, h).
     bind_res (memset_null pp) (\<lambda>_.
     bind_res (alloc al buffer_len h) (\<lambda>(buf, h).
     bind_res (alloc al (sizeof_mutex * 3) h) (\<lambda>(s, h).
     bind_res (memset_null s) (\<lambda>_.
       let k = (ps_k st)\<lparr>k_sched := (k_sched (ps_k st))\<lparr>s_heap := h\<rparr>\<rparr>;
           (lock, k) = mutex_create s k;
           (empty, k) = sem_create (s + sizeof_mutex) (ucast buffer_len) k;
           (full, k) = sem_create (s + 2 * sizeof_mutex) 0 k
       in Inr (pp, st\<lparr>ps_k := k, ps_pipes := (ps_pipes st)(pp :=
            \<lparr>pp_buffer = buf, pp_buffer_len = buffer_len, pp_read_pos = 0, pp_write_pos = 0,
             pp_read_refs = 1, pp_write_refs = 1, pp_buf_lock = lock, pp_sem_empty = empty,
             pp_sem_full = full\<rparr>)\<rparr>))))))"

text \<open>A process calls \<open>sem_wait\<close>; it goes on behind the call when it is next scheduled.\<close>

definition psem_wait :: "u64 \<Rightarrow> u64 \<Rightarrow> pstate \<Rightarrow> pstate res" where
  "psem_wait sem p st = bind_res (wait_as sem p (ps_k st)) (\<lambda>(_, k). Inr (st\<lparr>ps_k := k\<rparr>))"

definition psem_signal :: "u64 \<Rightarrow> pstate \<Rightarrow> pstate" where
  "psem_signal sem st = st\<lparr>ps_k := sem_signal sem (ps_k st)\<rparr>"

definition store_byte :: "u64 \<Rightarrow> u8 \<Rightarrow> pstate \<Rightarrow> pstate" where
  "store_byte pp x st =
     st\<lparr>ps_mem := (ps_mem st)(pp_buffer (ps_pipes st pp) + pp_write_pos (ps_pipes st pp) := x)\<rparr>"

definition load_byte :: "u64 \<Rightarrow> pstate \<Rightarrow> u8" where
  "load_byte pp st = ps_mem st (pp_buffer (ps_pipes st pp) + pp_read_pos (ps_pipes st pp))"

definition advance_write :: "u64 \<Rightarrow> pstate \<Rightarrow> pstate" where
  "advance_write pp = set_pipe pp (\<lambda>q. q\<lparr>pp_write_pos := (pp_write_pos q + 1) mod pp_buffer_len q\<rparr>)"

definition advance_read :: "u64 \<Rightarrow> pstate \<Rightarrow> pstate" where
  "advance_read pp = set_pipe pp (\<lambda>q. q\<lparr>pp_read_pos := (pp_read_pos q + 1) mod pp_buffer_len q\<rparr>)"

definition go :: "ppc \<Rightarrow> call \<Rightarrow> call" where
  "go l c = c\<lparr>cl_pc := l\<rparr>"

definition pipe_write :: "u64 \<Rightarrow> u64 \<Rightarrow> call \<Rightarrow> pstate \<Rightarrow> (call \<times> pstate) res" where
  "pipe_write p pp c st = (let q = ps_pipes st pp in case cl_pc c of
       W_ENTER \<Rightarrow> Inr (if pp_read_refs q = 0 then go (RET (- 1)) c else go W_LOOP (c\<lparr>cl_i := 0\<rparr>), st)
     | W_LOOP \<Rightarrow>
         if cl_i c < cl_len c
         then bind_res (psem_wait (pp_sem_empty q) p st) (\<lambda>st. Inr (go W_REFS c, st))
         else Inr (go (RET (ucast (cl_len c))) c, st)
     | W_REFS \<Rightarrow> Inr (if pp_read_refs q = 0 then go (RET (ucast (cl_i c))) c else go W_LOCK c, st)
     | W_LOCK \<Rightarrow> bind_res (psem_wait (pp_buf_lock q) p st) (\<lambda>st. Inr (go W_STORE c, st))
     | W_STORE \<Rightarrow> Inr (go W_ADVANCE c, store_byte pp (cl_buf c (cl_i c)) st)
     | W_ADVANCE \<Rightarrow> Inr (go W_UNLOCK c, advance_write pp st)
     | W_UNLOCK \<Rightarrow> Inr (go W_SIGNAL c, psem_signal (pp_buf_lock q) st)
     | W_SIGNAL \<Rightarrow> Inr (go W_LOOP (c\<lparr>cl_i := cl_i c + 1\<rparr>), psem_signal (pp_sem_full q) st)
     | _ \<Rightarrow> Inr (c, st))"

text \<open>
  The first byte is waited for; the loop for the rest has the same body and only tries.  The function
  has no caller-visible state between the two, so that both use the same program counters.
\<close>

definition pipe_read :: "u64 \<Rightarrow> u64 \<Rightarrow> call \<Rightarrow> pstate \<Rightarrow> (call \<times> pstate) res" where
  "pipe_read p pp c st = (let q = ps_pipes st pp in case cl_pc c of
       R_ENTER \<Rightarrow>
         Inr (let c = c\<lparr>cl_i := 0\<rparr> in
              if cl_len c = 0 then go (RET 0) c
              else if pp_write_refs q = 0 \<and> sem_count (k_sems (ps_k st) (pp_sem_full q)) = 0 then go (RET 0) c
              else go R_WAIT c, st)
     | R_WAIT \<Rightarrow> bind_res (psem_wait (pp_sem_full q) p st) (\<lambda>st. Inr (go R_LOCK c, st))
     | R_LOCK \<Rightarrow> bind_res (psem_wait (pp_buf_lock q) p st) (\<lambda>st. Inr (go R_LOAD c, st))
     | R_LOAD \<Rightarrow> Inr (go R_ADVANCE (c\<lparr>cl_buf := (cl_buf c)(cl_i c := load_byte pp st)\<rparr>), st)
     | R_ADVANCE \<Rightarrow> Inr (go R_UNLOCK c, advance_read pp st)
     | R_UNLOCK \<Rightarrow> Inr (go R_SIGNAL c, psem_signal (pp_buf_lock q) st)
     | R_SIGNAL \<Rightarrow> Inr (go R_LOOP (c\<lparr>cl_i := cl_i c + 1\<rparr>), psem_signal (pp_sem_empty q) st)
     | R_LOOP \<Rightarrow>
         if cl_i c < cl_len c
         then let (r, k) = sem_trywait (pp_sem_full q) (ps_k st); st = st\<lparr>ps_k := k\<rparr>
              in Inr (if r = 0 then go (RET (ucast (cl_i c))) c else go R_LOCK c, st)
         else Inr (go (RET (ucast (cl_i c))) c, st)
     | _ \<Rightarrow> Inr (c, st))"

definition pipe_try_write :: "u64 \<Rightarrow> u8 \<Rightarrow> pstate \<Rightarrow> i32 \<times> pstate" where
  "pipe_try_write pp byte st =
     (if pp_read_refs (ps_pipes st pp) = 0 then (- 1, st)
      else let (r, k) = sem_trywait (pp_sem_empty (ps_pipes st pp)) (ps_k st); st = st\<lparr>ps_k := k\<rparr> in
      if r = 0 then (0, st)
      else (1, psem_signal (pp_sem_full (ps_pipes st pp)) (advance_write pp (store_byte pp byte st))))"

definition pipe_close :: "allocator \<Rightarrow> u64 \<Rightarrow> pstate \<Rightarrow> pstate res" where
  "pipe_close al pp st =
     bind_res (free al (pp_buf_lock (ps_pipes st pp)) (s_heap (k_sched (ps_k st)))) (\<lambda>h.
     bind_res (free al (pp_buffer (ps_pipes st pp)) h) (\<lambda>h.
     bind_res (free al pp h) (\<lambda>h.
       Inr (st\<lparr>ps_k := (ps_k st)\<lparr>k_sched := (k_sched (ps_k st))\<lparr>s_heap := h\<rparr>\<rparr>\<rparr>))))"

section \<open>Processes sharing a pipe\<close>

text \<open>
  The calls in progress, and the history of the bytes stored into and loaded from the buffer.
\<close>

record psys =
  sy_st :: pstate
  sy_calls :: "u64 \<Rightarrow> call"
  sy_written :: "u8 list"
  sy_read :: "u8 list"

fun in_write :: "ppc \<Rightarrow> bool" where
  "in_write W_ENTER = True" | "in_write W_LOOP = True" | "in_write W_REFS = True" | "in_write W_LOCK = True"
| "in_write W_STORE = True" | "in_write W_ADVANCE = True" | "in_write W_UNLOCK = True"
| "in_write W_SIGNAL = True" | "in_write _ = False"

fun in_read :: "ppc \<Rightarrow> bool" where
  "in_read R_ENTER = True" | "in_read R_WAIT = True" | "in_read R_LOCK = True" | "in_read R_LOAD = True"
| "in_read R_ADVANCE = True" | "in_read R_UNLOCK = True" | "in_read R_SIGNAL = True"
| "in_read R_LOOP = True" | "in_read _ = False"

text \<open>What the rest of the kernel leaves alone: the pipe, its buffer and the processes that wait.\<close>

definition pipe_frame :: "u64 set \<Rightarrow> u64 \<Rightarrow> pstate \<Rightarrow> pstate \<Rightarrow> bool" where
  "pipe_frame P pp st st' \<longleftrightarrow> (let q = ps_pipes st pp in
     ps_pipes st' pp = q \<and>
     (\<forall>s \<in> {pp_buf_lock q, pp_sem_empty q, pp_sem_full q}. k_sems (ps_k st') s = k_sems (ps_k st) s) \<and>
     (\<forall>p \<in> P. is_blocked (ps_k st') p = is_blocked (ps_k st) p \<and>
        p_wait_next (kprocs (ps_k st') p) = p_wait_next (kprocs (ps_k st) p)) \<and>
     (\<forall>i < pp_buffer_len q. ps_mem st' (pp_buffer q + i) = ps_mem st (pp_buffer q + i)))"

text \<open>
  The processes \<open>P\<close> call \<open>pipe_write\<close> and \<open>pipe_read\<close> any number of times; a blocked process does not
  run.  An interrupt may call \<open>pipe_try_write\<close> at any time; unless \<open>race\<close> holds, not while a process
  is between storing a byte and advancing the write position.
\<close>

inductive pipe_step :: "bool \<Rightarrow> u64 set \<Rightarrow> u64 \<Rightarrow> psys \<Rightarrow> psys \<Rightarrow> bool" for race P pp where
  pipe_call: "p \<in> P \<Longrightarrow> cl_pc (sy_calls y p) = IDLE \<or> (\<exists>r. cl_pc (sy_calls y p) = RET r) \<Longrightarrow>
    cl_pc c = W_ENTER \<or> cl_pc c = R_ENTER \<Longrightarrow>
    pipe_step race P pp y (y\<lparr>sy_calls := (sy_calls y)(p := c)\<rparr>)"
| pipe_writer: "p \<in> P \<Longrightarrow> \<not> is_blocked (ps_k (sy_st y)) p \<Longrightarrow> in_write (cl_pc (sy_calls y p)) \<Longrightarrow>
    pipe_write p pp (sy_calls y p) (sy_st y) = Inr (c, st) \<Longrightarrow>
    pipe_step race P pp y (y\<lparr>sy_st := st, sy_calls := (sy_calls y)(p := c),
      sy_written := (if cl_pc (sy_calls y p) = W_STORE
        then sy_written y @ [cl_buf (sy_calls y p) (cl_i (sy_calls y p))] else sy_written y)\<rparr>)"
| pipe_reader: "p \<in> P \<Longrightarrow> \<not> is_blocked (ps_k (sy_st y)) p \<Longrightarrow> in_read (cl_pc (sy_calls y p)) \<Longrightarrow>
    pipe_read p pp (sy_calls y p) (sy_st y) = Inr (c, st) \<Longrightarrow>
    pipe_step race P pp y (y\<lparr>sy_st := st, sy_calls := (sy_calls y)(p := c),
      sy_read := (if cl_pc (sy_calls y p) = R_LOAD
        then sy_read y @ [cl_buf c (cl_i (sy_calls y p))] else sy_read y)\<rparr>)"
| pipe_interrupt: "race \<or> (\<forall>p \<in> P. cl_pc (sy_calls y p) \<noteq> W_ADVANCE) \<Longrightarrow>
    pipe_try_write pp byte (sy_st y) = (r, st) \<Longrightarrow>
    pipe_step race P pp y (y\<lparr>sy_st := st,
      sy_written := (if r = 1 then sy_written y @ [byte] else sy_written y)\<rparr>)"
| pipe_other: "pipe_frame P pp (sy_st y) st \<Longrightarrow> pipe_step race P pp y (y\<lparr>sy_st := st\<rparr>)"

section \<open>Several semaphores\<close>

text \<open>A process waits for one semaphore at a time, so that operations on one leave the others alone.\<close>

definition sems_ok :: "u64 set \<Rightarrow> kstate \<Rightarrow> (u64 \<Rightarrow> int) \<Rightarrow> (u64 \<Rightarrow> u64 list) \<Rightarrow> bool" where
  "sems_ok S k V Q \<longleftrightarrow> (\<forall>s \<in> S. sem_abs s k (V s) (Q s)) \<and>
     (\<forall>s \<in> S. \<forall>t \<in> S. s \<noteq> t \<longrightarrow> set (Q s) \<inter> set (Q t) = {})"

lemma sems_okD: "sems_ok S k V Q \<Longrightarrow> s \<in> S \<Longrightarrow> sem_abs s k (V s) (Q s)"
  by (simp add: sems_ok_def)

lemma wait_as_frame:
  assumes a: "sem_abs s k v q" and w: "wait_as s p k = Inr (b, k')"
    and t: "t \<noteq> s" "p \<notin> set r" "set q \<inter> set r = {}"
  shows "sem_frame t r k k'"
proof -
  have "sem_wait_tail (k_sems k s) \<noteq> NULL \<Longrightarrow> sem_wait_tail (k_sems k s) \<in> set q"
    using a by (auto simp: sem_abs_def split: if_splits)
  then have "x \<in> set r \<Longrightarrow> sem_wait_tail (k_sems k s) = NULL \<or> x \<noteq> sem_wait_tail (k_sems k s)" for x
    using t(3) by auto
  moreover have "x \<in> set r \<Longrightarrow> x \<noteq> p" for x using t(2) by auto
  ultimately show ?thesis
    using w t(1) unfolding wait_as_def sem_wait_enter_def sem_frame_def get_current_process_def
    by (auto simp: upd_def Let_def split: if_splits)
qed

lemma sem_signal_frame:
  assumes a: "sem_abs s k v q" and t: "t \<noteq> s" "set q \<inter> set r = {}"
  shows "sem_frame t r k (sem_signal s k)"
proof -
  have "sem_wait_head (k_sems k s) \<noteq> NULL \<Longrightarrow> sem_wait_head (k_sems k s) \<in> set q"
    using a by (cases q) (auto simp: sem_abs_def)
  then have "x \<in> set r \<Longrightarrow> sem_wait_head (k_sems k s) = NULL \<or> x \<noteq> sem_wait_head (k_sems k s)" for x
    using t(2) by auto
  then show ?thesis
    using t(1) unfolding sem_signal_def sem_frame_def by (auto simp: upd_def Let_def)
qed

lemma wait_as_blocked:
  "wait_as s p k = Inr (b, k') \<Longrightarrow> is_blocked k' x = (is_blocked k x \<or> b \<and> x = p)"
  unfolding wait_as_def sem_wait_enter_def is_blocked_def get_current_process_def
  by (auto simp: upd_def Let_def split: if_splits)

lemma sem_signal_blocked:
  assumes "sem_abs s k v q"
  shows "is_blocked (sem_signal s k) x = (is_blocked k x \<and> (q = [] \<or> x \<noteq> hd q))"
proof (cases q)
  case Nil
  then have "sem_wait_head (k_sems k s) = NULL" using assms by (simp add: sem_abs_def)
  then show ?thesis using Nil by (simp add: sem_signal_def is_blocked_def upd_def Let_def)
next
  case (Cons w q')
  then show ?thesis using sem_signal_first [of s k v w q'] assms by (simp add: is_blocked_def)
qed

text \<open>The two effects on a family of semaphores.\<close>

lemma sems_wait:
  assumes ok: "sems_ok S k V Q" and s: "s \<in> S" and p: "p \<noteq> NULL" "\<forall>t \<in> S. p \<notin> set (Q t)"
    and b: "- (2 ^ 31) < V s"
  shows "\<exists>k'. wait_as s p k = Inr (V s \<le> 0, k') \<and>
    sems_ok S k' (V(s := V s - 1)) (if V s \<le> 0 then Q(s := Q s @ [p]) else Q) \<and>
    (\<forall>x. is_blocked k' x = (is_blocked k x \<or> V s \<le> 0 \<and> x = p))"
proof -
  have a: "sem_abs s k (V s) (Q s)" by (rule sems_okD [OF ok s])
  obtain k' where k': "wait_as s p k = Inr (V s \<le> 0, k')"
      "sem_abs s k' (V s - 1) (if V s \<le> 0 then Q s @ [p] else Q s)"
    using wait_as_laws [OF a, of p] p s b by (cases "V s \<le> 0") auto
  have "sem_abs t k' (V t) (Q t)" if "t \<in> S" "t \<noteq> s" for t
    using sem_frame_abs [OF _ wait_as_frame [OF a k'(1) that(2)], of "V t" "Q t"] ok p(2) s that
    by (auto simp: sems_ok_def)
  then have "sems_ok S k' (V(s := V s - 1)) (if V s \<le> 0 then Q(s := Q s @ [p]) else Q)"
    using ok k'(2) p(2) s by (auto simp: sems_ok_def)
  then show ?thesis using k'(1) wait_as_blocked [OF k'(1)] by auto
qed

lemma sems_signal:
  assumes ok: "sems_ok S k V Q" and s: "s \<in> S" and b: "V s < 2 ^ 31 - 1"
  shows "sems_ok S (sem_signal s k) (V(s := V s + 1)) (Q(s := tl (Q s))) \<and>
    (\<forall>x. is_blocked (sem_signal s k) x = (is_blocked k x \<and> (Q s = [] \<or> x \<noteq> hd (Q s))))"
proof -
  have a: "sem_abs s k (V s) (Q s)" by (rule sems_okD [OF ok s])
  have "sem_abs s (sem_signal s k) (V s + 1) (tl (Q s))"
    using a b sem_signal_none sem_signal_first by (cases "Q s") auto
  moreover have "sem_abs t (sem_signal s k) (V t) (Q t)" if "t \<in> S" "t \<noteq> s" for t
    using sem_frame_abs [OF _ sem_signal_frame [OF a that(2)], of "V t" "Q t"] ok s that
    by (auto simp: sems_ok_def)
  ultimately have "sem_abs t (sem_signal s k) ((V(s := V s + 1)) t) ((Q(s := tl (Q s))) t)" if "t \<in> S" for t
    using that by simp
  moreover have "set ((Q(s := tl (Q s))) t) \<subseteq> set (Q t)" for t by (cases "Q s") auto
  then have "t \<in> S \<Longrightarrow> u \<in> S \<Longrightarrow> t \<noteq> u \<Longrightarrow> set ((Q(s := tl (Q s))) t) \<inter> set ((Q(s := tl (Q s))) u) = {}" for t u
    using ok unfolding sems_ok_def by (meson disjoint_iff subsetD)
  ultimately show ?thesis using sem_signal_blocked [OF a] unfolding sems_ok_def by blast
qed

lemma sems_trywait:
  assumes ok: "sems_ok S k V Q" and s: "s \<in> S"
  shows "\<exists>k'. sem_trywait s k = (if 0 < V s then 1 else 0, k') \<and> k_sched k' = k_sched k \<and>
    sems_ok S k' (if 0 < V s then V(s := V s - 1) else V) Q"
proof -
  have a: "sem_abs s k (V s) (Q s)" by (rule sems_okD [OF ok s])
  have c: "0 < V s \<Longrightarrow> sint (sem_count (k_sems k s) - 1) = V s - 1"
    using a sint_minus1 by (simp add: sem_abs_def)
  let ?k = "set_sem s (\<lambda>x. x\<lparr>sem_count := sem_count x - 1\<rparr>) k"
  have t: "sem_abs t ?k (V t) (Q t)" if "t \<in> S" "t \<noteq> s" for t
    using ok that by (auto simp: sems_ok_def sem_abs_def upd_def)
  have v: "0 < V s \<longleftrightarrow> 0 < sint (sem_count (k_sems k s))" using a by (simp add: sem_abs_def)
  show ?thesis
  proof (cases "0 < V s")
    case True
    have "sem_abs s ?k (V s - 1) (Q s)" using True a c [OF True] by (auto simp: sem_abs_def upd_def)
    then have "sems_ok S ?k (V(s := V s - 1)) Q" using ok t unfolding sems_ok_def by simp
    then show ?thesis using True v by (simp add: sem_trywait_def)
  next
    case False
    then show ?thesis using ok v by (simp add: sem_trywait_def)
  qed
qed

section \<open>Counting processes by place\<close>

text \<open>
  The place of a process in the code: its program counter, and whether it is blocked.  A blocked
  process has already moved on behind its \<open>sem_wait\<close>; \<open>W\<close> gives the semaphore a process blocked at a
  program counter is waiting for.
\<close>

type_synonym place = "ppc \<times> bool"

definition tot :: "u64 set \<Rightarrow> (place \<Rightarrow> int) \<Rightarrow> (u64 \<Rightarrow> place) \<Rightarrow> int" where
  "tot P f g = (\<Sum>p \<in> P. f (g p))"

lemma tot_upd: "finite P \<Longrightarrow> p \<in> P \<Longrightarrow> tot P f (g(p := x)) = tot P f g - f (g p) + f x"
  unfolding tot_def by (simp add: sum.remove [of P p] cong: if_cong)

lemma tot_gap:
  assumes "finite P" "p \<in> P" and le: "\<And>x. f x \<le> h x"
  shows "tot P f g + (h (g p) - f (g p)) \<le> tot P h g"
proof -
  have "(\<Sum>q \<in> P - {p}. f (g q)) \<le> (\<Sum>q \<in> P - {p}. h (g q))" using le by (simp add: sum_mono)
  then show ?thesis using assms(1,2) unfolding tot_def by (simp add: sum.remove [of P p])
qed

lemma tot_mono: "(\<And>x. f x \<le> h x) \<Longrightarrow> tot P f g \<le> tot P h g"
  unfolding tot_def by (simp add: sum_mono)

lemma tot_nonneg: "(\<And>x. 0 \<le> f x) \<Longrightarrow> 0 \<le> tot P f g"
  unfolding tot_def by (simp add: sum_nonneg)

lemma tot_zero: "(\<And>p. p \<in> P \<Longrightarrow> f (g p) = 0) \<Longrightarrow> tot P f g = 0"
  unfolding tot_def by simp

definition queues_ok :: "u64 set \<Rightarrow> u64 set \<Rightarrow> (ppc \<Rightarrow> u64 option) \<Rightarrow> (u64 \<Rightarrow> place) \<Rightarrow> (u64 \<Rightarrow> u64 list) \<Rightarrow> bool" where
  "queues_ok P S W g Q \<longleftrightarrow>
     (\<forall>s \<in> S. \<forall>p. p \<in> set (Q s) \<longleftrightarrow> p \<in> P \<and> snd (g p) \<and> W (fst (g p)) = Some s) \<and>
     (\<forall>p \<in> P. snd (g p) \<longrightarrow> (\<exists>s \<in> S. W (fst (g p)) = Some s))"

definition places :: "(u64 \<Rightarrow> ppc) \<Rightarrow> kstate \<Rightarrow> u64 \<Rightarrow> place" where
  "places pc k p = (pc p, is_blocked k p)"

lemma queues_ok_move:
  "queues_ok P S W g Q \<Longrightarrow> \<not> snd (g p) \<Longrightarrow> queues_ok P S W (g(p := (l, False))) Q"
  by (auto simp: queues_ok_def)

lemma queue_bound:
  assumes "sems_ok S k V Q" "queues_ok P S W g Q" "s \<in> S" "finite P" "card P < 2 ^ 31"
  shows "- (2 ^ 31) < V s"
proof -
  have a: "sem_abs s k (V s) (Q s)" by (rule sems_okD [OF assms(1,3)])
  have "distinct (Q s)" using a chain_distinct by (auto simp: sem_abs_def)
  moreover have "set (Q s) \<subseteq> P" using assms(2,3) by (auto simp: queues_ok_def)
  ultimately have "length (Q s) \<le> card P" using card_mono [OF assms(4)] distinct_card by metis
  then have "length (Q s) < 2 ^ 31" using assms(5) by (rule order_le_less_trans)
  then show ?thesis using ksem.queue_length [OF a] by (auto split: if_splits)
qed

text \<open>A process moves to \<open>l\<close> behind a wait for \<open>s\<close>.\<close>

lemma places_wait:
  assumes ok: "sems_ok S k V Q" and q: "queues_ok P S W (places pc k) Q" and s: "s \<in> S"
    and p: "p \<in> P" "NULL \<notin> P" "\<not> is_blocked k p" "W l = Some s" and P: "finite P" "card P < 2 ^ 31"
  shows "\<exists>k' Q'. wait_as s p k = Inr (V s \<le> 0, k') \<and> sems_ok S k' (V(s := V s - 1)) Q' \<and>
    queues_ok P S W (places (pc(p := l)) k') Q' \<and>
    places (pc(p := l)) k' = (places pc k)(p := (l, V s \<le> 0))"
proof -
  have nq: "\<forall>t \<in> S. p \<notin> set (Q t)" using q p(3) by (auto simp: queues_ok_def places_def)
  have pn: "p \<noteq> NULL" using p by auto
  obtain k' where k': "wait_as s p k = Inr (V s \<le> 0, k')"
      "sems_ok S k' (V(s := V s - 1)) (if V s \<le> 0 then Q(s := Q s @ [p]) else Q)"
      "\<And>x. is_blocked k' x = (is_blocked k x \<or> V s \<le> 0 \<and> x = p)"
    using sems_wait [OF ok s pn nq queue_bound [OF ok q s P]] by auto
  have g: "places (pc(p := l)) k' = (places pc k)(p := (l, V s \<le> 0))"
    using p(3) by (auto simp: places_def k'(3))
  have "queues_ok P S W ((places pc k)(p := (l, V s \<le> 0))) (if V s \<le> 0 then Q(s := Q s @ [p]) else Q)"
    using q p s nq by (auto simp: queues_ok_def)
  then show ?thesis using k'(1,2) g by metis
qed

text \<open>A signal to \<open>s\<close> may wake a process \<open>w\<close>.\<close>

lemma places_wake:
  assumes ok: "sems_ok S k V Q" and q: "queues_ok P S W (places pc k) Q" and s: "s \<in> S"
    and b: "V s < 2 ^ 31 - 1"
  obtains Q' where "sems_ok S (sem_signal s k) (V(s := V s + 1)) Q'"
    "queues_ok P S W (places pc (sem_signal s k)) Q'"
    "(0 \<le> V s \<and> places pc (sem_signal s k) = places pc k) \<or>
     (\<exists>w \<in> P. V s < 0 \<and> is_blocked k w \<and> W (pc w) = Some s \<and>
        places pc (sem_signal s k) = (places pc k)(w := (pc w, False)))"
proof (rule that [of "Q(s := tl (Q s))"])
  have a: "sem_abs s k (V s) (Q s)" by (rule sems_okD [OF ok s])
  note S = sems_signal [where V = V, OF ok s b]
  note bl = S [THEN conjunct2, rule_format]
  show "sems_ok S (sem_signal s k) (V(s := V s + 1)) (Q(s := tl (Q s)))" using S by blast
  have d: "distinct (Q s)" using a chain_distinct by (auto simp: sem_abs_def)
  have qm: "x \<in> set (Q t) \<longleftrightarrow> x \<in> P \<and> is_blocked k x \<and> W (pc x) = Some t" if "t \<in> S" for x t
    using q that by (simp add: queues_ok_def places_def)
  show "(0 \<le> V s \<and> places pc (sem_signal s k) = places pc k) \<or>
     (\<exists>w \<in> P. V s < 0 \<and> is_blocked k w \<and> W (pc w) = Some s \<and>
        places pc (sem_signal s k) = (places pc k)(w := (pc w, False)))"
  proof (cases "Q s")
    case Nil
    then show ?thesis using ksem.queue_length [OF a] by (auto simp: places_def bl split: if_splits)
  next
    case (Cons w r)
    then have "w \<in> P" "is_blocked k w" "W (pc w) = Some s" using qm [OF s, of w] by auto
    moreover have "V s < 0" using Cons ksem.queue_length [OF a] by (auto split: if_splits)
    moreover have "places pc (sem_signal s k) = (places pc k)(w := (pc w, False))"
      using Cons by (auto simp: places_def bl)
    ultimately show ?thesis by blast
  qed
  have t: "x \<in> set (tl (Q s)) \<longleftrightarrow> x \<in> set (Q s) \<and> x \<noteq> hd (Q s)" for x
    using d by (cases "Q s") auto
  show "queues_ok P S W (places pc (sem_signal s k)) (Q(s := tl (Q s)))"
    unfolding queues_ok_def
  proof (intro conjI ballI allI impI)
    fix u x assume "u \<in> S"
    then show "x \<in> set ((Q(s := tl (Q s))) u) \<longleftrightarrow> x \<in> P \<and>
        snd (places pc (sem_signal s k) x) \<and> W (fst (places pc (sem_signal s k) x)) = Some u"
      using t [of x] qm [of u x] qm [OF s, of "hd (Q s)"] by (auto simp: places_def bl)
  next
    fix x assume "x \<in> P" "snd (places pc (sem_signal s k) x)"
    then show "\<exists>u \<in> S. W (fst (places pc (sem_signal s k) x)) = Some u"
      using q by (auto simp: queues_ok_def places_def bl)
  qed
qed

lemma places_move: "\<not> is_blocked k p \<Longrightarrow> places (pc(p := l)) k = (places pc k)(p := (l, False))"
  by (auto simp: places_def)

lemma places_here: "\<not> is_blocked k p \<Longrightarrow> places pc k p = (pc p, False)"
  by (simp add: places_def)

section \<open>The invariant of a pipe in use\<close>

text \<open>Where a blocked process waits.\<close>

fun waits_for :: "pipe \<Rightarrow> ppc \<Rightarrow> u64 option" where
  "waits_for q W_REFS = Some (pp_sem_empty q)"
| "waits_for q R_LOCK = Some (pp_sem_full q)"
| "waits_for q W_STORE = Some (pp_buf_lock q)"
| "waits_for q R_LOAD = Some (pp_buf_lock q)"
| "waits_for q _ = None"

text \<open>
  Processes that hold a unit of the semaphore of free slots or of filled slots, or the lock; readers
  that have a unit and have not loaded their byte; writers that have stored theirs; and processes
  about to advance a position.
\<close>

fun holds_empty :: "place \<Rightarrow> int" where
  "holds_empty (W_REFS, b) = (if b then 0 else 1)" | "holds_empty (W_LOCK, _) = 1" | "holds_empty (W_STORE, _) = 1"
| "holds_empty (W_ADVANCE, _) = 1" | "holds_empty (W_UNLOCK, _) = 1" | "holds_empty (W_SIGNAL, _) = 1"
| "holds_empty _ = 0"

fun holds_full :: "place \<Rightarrow> int" where
  "holds_full (R_LOCK, b) = (if b then 0 else 1)" | "holds_full (R_LOAD, _) = 1" | "holds_full (R_ADVANCE, _) = 1"
| "holds_full (R_UNLOCK, _) = 1" | "holds_full (R_SIGNAL, _) = 1" | "holds_full _ = 0"

fun loading :: "place \<Rightarrow> int" where
  "loading (R_LOCK, b) = (if b then 0 else 1)" | "loading (R_LOAD, _) = 1" | "loading _ = 0"

fun stored :: "place \<Rightarrow> int" where
  "stored (W_ADVANCE, _) = 1" | "stored (W_UNLOCK, _) = 1" | "stored (W_SIGNAL, _) = 1" | "stored _ = 0"

fun holds_lock :: "place \<Rightarrow> int" where
  "holds_lock (W_STORE, b) = (if b then 0 else 1)" | "holds_lock (W_ADVANCE, _) = 1" | "holds_lock (W_UNLOCK, _) = 1"
| "holds_lock (R_LOAD, b) = (if b then 0 else 1)" | "holds_lock (R_ADVANCE, _) = 1" | "holds_lock (R_UNLOCK, _) = 1"
| "holds_lock _ = 0"

fun adv_w :: "place \<Rightarrow> int" where "adv_w (W_ADVANCE, _) = 1" | "adv_w _ = 0"
fun adv_r :: "place \<Rightarrow> int" where "adv_r (R_ADVANCE, _) = 1" | "adv_r _ = 0"

text \<open>
  The units of the two counting semaphores add up to the size of the buffer; the bytes in the buffer are
  those some reader may still load; and the lock has one owner.
\<close>

definition counts :: "u64 set \<Rightarrow> nat \<Rightarrow> (u64 \<Rightarrow> place) \<Rightarrow> int \<Rightarrow> int \<Rightarrow> int \<Rightarrow> nat \<Rightarrow> nat \<Rightarrow> bool" where
  "counts P L g ve vf vb w r \<longleftrightarrow>
     max ve 0 + tot P holds_empty g + max vf 0 + tot P holds_full g = int L \<and>
     int w = int r + max vf 0 + tot P loading g + tot P stored g \<and>
     max vb 0 + tot P holds_lock g = 1"

definition ring :: "u64 set \<Rightarrow> nat \<Rightarrow> pipe \<Rightarrow> mem \<Rightarrow> (u64 \<Rightarrow> place) \<Rightarrow> u8 list \<Rightarrow> u8 list \<Rightarrow> bool" where
  "ring P L q m g ws rs \<longleftrightarrow>
     unat (pp_write_pos q) = nat (int (length ws) - tot P adv_w g) mod L \<and>
     unat (pp_read_pos q) = nat (int (length rs) - tot P adv_r g) mod L \<and>
     (\<forall>j. length rs \<le> j \<and> j < length ws \<longrightarrow> m (pp_buffer q + of_nat (j mod L)) = ws ! j) \<and>
     rs = take (length rs) ws \<and> tot P adv_r g \<le> int (length rs)"

text \<open>A usable pipe with a buffer of \<open>L\<close> bytes.\<close>

definition pipe_wf :: "nat \<Rightarrow> pipe \<Rightarrow> bool" where
  "pipe_wf L q \<longleftrightarrow> 0 < L \<and> L < 2 ^ 31 \<and> unat (pp_buffer_len q) = L \<and> pp_read_refs q \<noteq> 0 \<and>
     distinct [pp_buf_lock q, pp_sem_empty q, pp_sem_full q]"

abbreviation pipe_sems :: "pipe \<Rightarrow> u64 set" where
  "pipe_sems q \<equiv> {pp_buf_lock q, pp_sem_empty q, pp_sem_full q}"

definition pinv :: "u64 set \<Rightarrow> nat \<Rightarrow> pipe \<Rightarrow> kstate \<Rightarrow> mem \<Rightarrow> (u64 \<Rightarrow> ppc) \<Rightarrow> u8 list \<Rightarrow> u8 list \<Rightarrow> bool" where
  "pinv P L q k m pc ws rs \<longleftrightarrow> pipe_wf L q \<and>
     (\<exists>V Q. sems_ok (pipe_sems q) k V Q \<and> queues_ok P (pipe_sems q) (waits_for q) (places pc k) Q \<and>
       counts P L (places pc k) (V (pp_sem_empty q)) (V (pp_sem_full q)) (V (pp_buf_lock q)) (length ws) (length rs)) \<and>
     ring P L q m (places pc k) ws rs"

definition pipe_inv :: "u64 set \<Rightarrow> u64 \<Rightarrow> nat \<Rightarrow> psys \<Rightarrow> bool" where
  "pipe_inv P pp L y \<longleftrightarrow> pinv P L (ps_pipes (sy_st y) pp) (ps_k (sy_st y)) (ps_mem (sy_st y))
     (\<lambda>p. cl_pc (sy_calls y p)) (sy_written y) (sy_read y)"

subsection \<open>Arithmetic of the counters\<close>

lemma place_le:
  "loading x \<le> holds_full x" "stored x \<le> holds_empty x" "adv_w x \<le> holds_lock x" "adv_r x \<le> holds_lock x"
  "adv_w x \<le> stored x" "0 \<le> loading x" "0 \<le> stored x" "0 \<le> adv_w x" "0 \<le> adv_r x" "0 \<le> holds_lock x"
  "0 \<le> holds_empty x" "0 \<le> holds_full x" "adv_r x \<le> holds_full x - loading x"
  by (cases x; cases "fst x"; simp)+

lemma tot_le:
  "tot P loading g \<le> tot P holds_full g" "tot P stored g \<le> tot P holds_empty g"
  "tot P adv_w g \<le> tot P holds_lock g" "tot P adv_r g \<le> tot P holds_lock g" "tot P adv_w g \<le> tot P stored g"
  by (rule tot_mono, rule place_le)+

lemma tot_ge0:
  "0 \<le> tot P loading g" "0 \<le> tot P stored g" "0 \<le> tot P adv_w g" "0 \<le> tot P adv_r g"
  "0 \<le> tot P holds_lock g" "0 \<le> tot P holds_empty g" "0 \<le> tot P holds_full g"
  by (rule tot_nonneg, rule place_le)+

lemma tot_member: "finite P \<Longrightarrow> p \<in> P \<Longrightarrow> (\<And>x. 0 \<le> f x) \<Longrightarrow> f (g p) \<le> tot P f g"
  using tot_gap [of P p "\<lambda>_. 0" f g] by (simp add: tot_def)

lemma counts_order: "counts P L g ve vf vb w r \<Longrightarrow> r \<le> w"
  using tot_ge0(1,2) [of P g] by (auto simp: counts_def)

lemma counts_capacity: "counts P L g ve vf vb w r \<Longrightarrow> w \<le> r + L"
  using tot_le(1,2) [of P g] by (auto simp: counts_def)

lemma counts_store:
  assumes "counts P L g ve vf vb w r" "finite P" "p \<in> P" "g p = (W_STORE, False)"
  shows "w < r + L" "tot P adv_w g = 0"
proof -
  show "w < r + L"
    using assms tot_gap [OF assms(2,3), of stored holds_empty g] place_le(2) tot_le(1) [of P g] by (auto simp: counts_def)
  show "tot P adv_w g = 0"
    using assms tot_gap [OF assms(2,3), of adv_w holds_lock g] place_le(3) tot_ge0(3) [of P g] by (auto simp: counts_def)
qed

lemma counts_load:
  assumes "counts P L g ve vf vb w r" "finite P" "p \<in> P" "g p = (R_LOAD, False)"
  shows "r < w" "tot P adv_r g = 0"
proof -
  show "r < w"
    using assms tot_member [OF assms(2,3), of loading g] place_le(6) tot_ge0(2) [of P g] by (auto simp: counts_def)
  show "tot P adv_r g = 0"
    using assms tot_gap [OF assms(2,3), of adv_r holds_lock g] place_le(4) tot_ge0(4) [of P g] by (auto simp: counts_def)
qed

lemma counts_adv_w:
  assumes "counts P L g ve vf vb w r" "finite P" "p \<in> P" "g p = (W_ADVANCE, b)"
  shows "tot P adv_w g = 1" "1 \<le> w"
proof -
  show "tot P adv_w g = 1"
    using assms tot_member [OF assms(2,3), of adv_w g] place_le(8) tot_le(3) [of P g] by (auto simp: counts_def)
  then show "1 \<le> w"
    using assms(1) tot_le(5) [of P g] tot_ge0(1) [of P g] by (auto simp: counts_def)
qed

lemma counts_adv_r:
  assumes "counts P L g ve vf vb w r" "finite P" "p \<in> P" "g p = (R_ADVANCE, b)"
  shows "tot P adv_r g = 1"
  using assms tot_member [OF assms(2,3), of adv_r g] place_le(9) tot_le(4) [of P g] by (auto simp: counts_def)

text \<open>No signal can overflow its semaphore.\<close>

lemma counts_signal:
  assumes c: "counts P L g ve vf vb w r" "finite P" "p \<in> P" and L: "L < 2 ^ 31"
  shows "holds_empty (g p) = 1 \<Longrightarrow> vf < 2 ^ 31 - 1" "holds_full (g p) = 1 \<Longrightarrow> ve < 2 ^ 31 - 1"
    "holds_lock (g p) = 1 \<Longrightarrow> vb < 2 ^ 31 - 1"
proof -
  have L': "int L < 2 ^ 31" using L by simp
  show "holds_empty (g p) = 1 \<Longrightarrow> vf < 2 ^ 31 - 1"
    using c L' tot_member [OF c(2,3), of holds_empty g] place_le(11) tot_ge0(7) [of P g] by (auto simp: counts_def)
  show "holds_full (g p) = 1 \<Longrightarrow> ve < 2 ^ 31 - 1"
    using c L' tot_member [OF c(2,3), of holds_full g] place_le(12) tot_ge0(6) [of P g] by (auto simp: counts_def)
  show "holds_lock (g p) = 1 \<Longrightarrow> vb < 2 ^ 31 - 1"
    using c tot_ge0(5) [of P g] by (auto simp: counts_def)
qed

subsection \<open>The ring buffer\<close>

lemma advance_pos:
  assumes "unat (x :: u64) = a mod L" "unat l = L" "0 < L" "L < 2 ^ 31"
  shows "unat ((x + 1) mod l) = Suc a mod L"
proof -
  have "unat x < L" using assms by simp
  then have "unat (x + 1) = unat x + 1" using assms(4) unat_add_u64 [of x 1] by simp
  then show ?thesis using assms by (simp add: unat_mod mod_Suc_eq)
qed

lemma slot_small:
  assumes "0 < L" "L < 2 ^ 31" shows "j mod L < (2 ^ 64 :: nat)"
proof -
  have "j mod L < L" using assms(1) by simp
  also have "L < 2 ^ 31" by (rule assms(2))
  also have "(2 ^ 31 :: nat) < 2 ^ 64" by simp
  finally show ?thesis .
qed

lemma slot_inj:
  assumes "r \<le> j" "j < w" "w < r + L" "0 < L" "L < 2 ^ 31"
  shows "(b :: u64) + of_nat (j mod L) \<noteq> b + of_nat (w mod L)"
proof
  assume "b + of_nat (j mod L) = b + of_nat (w mod L)"
  then have "j mod L = w mod L" using of_nat_u64_inj [OF slot_small slot_small] assms(4,5) by simp
  then have "L dvd w - j" using mod_eq_dvd_iff_nat [of j w L] assms(2) by simp
  then show False using assms dvd_imp_le [of L "w - j"] by simp
qed

lemma ring_move:
  assumes "ring P L q m g ws rs" "tot P adv_w g' = tot P adv_w g" "tot P adv_r g' = tot P adv_r g"
  shows "ring P L q m g' ws rs"
  using assms by (simp add: ring_def)

lemma pos_of_nat: "unat (x :: u64) = n \<Longrightarrow> x = of_nat n"
  by auto

lemma ring_put:
  assumes r: "ring P L q m g ws rs" and L: "pipe_wf L q" and a: "tot P adv_w g = 0"
    and c: "length rs \<le> length ws" "length ws < length rs + L"
  shows "\<forall>j. length rs \<le> j \<and> j < length (ws @ [x]) \<longrightarrow>
      (m(pp_buffer q + pp_write_pos q := x)) (pp_buffer q + of_nat (j mod L)) = (ws @ [x]) ! j"
    "rs = take (length rs) (ws @ [x])"
proof -
  have wp: "pp_write_pos q = of_nat (length ws mod L)" using r a by (simp add: ring_def pos_of_nat)
  have "pp_buffer q + of_nat (j mod L) \<noteq> pp_buffer q + of_nat (length ws mod L)"
    if "length rs \<le> j" "j < length ws" for j
    using slot_inj [OF that c(2)] L by (simp add: pipe_wf_def)
  then show "\<forall>j. length rs \<le> j \<and> j < length (ws @ [x]) \<longrightarrow>
      (m(pp_buffer q + pp_write_pos q := x)) (pp_buffer q + of_nat (j mod L)) = (ws @ [x]) ! j"
    using r wp by (auto simp: ring_def nth_append less_Suc_eq)
  show "rs = take (length rs) (ws @ [x])" using r c(1) by (simp add: ring_def)
qed

lemma ring_store:
  assumes r: "ring P L q m g ws rs" and L: "pipe_wf L q" and c: "counts P L g ve vf vb (length ws) (length rs)"
    and p: "finite P" "p \<in> P" "g p = (W_STORE, False)"
  shows "ring P L q (m(pp_buffer q + pp_write_pos q := x)) (g(p := (W_ADVANCE, False))) (ws @ [x]) rs"
  using ring_put [OF r L counts_store(2) [OF c p] counts_order [OF c] counts_store(1) [OF c p], of x]
    r p counts_store(2) [OF c p] by (simp add: ring_def tot_upd)

lemma ring_advance_w:
  assumes r: "ring P L q m g ws rs" and L: "pipe_wf L q" and c: "counts P L g ve vf vb (length ws) (length rs)"
    and p: "finite P" "p \<in> P" "g p = (W_ADVANCE, False)"
  shows "ring P L (q\<lparr>pp_write_pos := (pp_write_pos q + 1) mod pp_buffer_len q\<rparr>) m
    (g(p := (W_UNLOCK, False))) ws rs"
proof -
  note a = counts_adv_w [OF c p]
  have "unat (pp_write_pos q) = (length ws - 1) mod L" using r a by (simp add: ring_def nat_diff_distrib)
  then have "unat ((pp_write_pos q + 1) mod pp_buffer_len q) = length ws mod L"
    using advance_pos [of "pp_write_pos q" "length ws - 1" L "pp_buffer_len q"] L a(2)
    by (cases "length ws") (simp_all add: pipe_wf_def)
  then show ?thesis using r p a by (simp add: ring_def tot_upd)
qed

lemma ring_load:
  assumes r: "ring P L q m g ws rs" and c: "counts P L g ve vf vb (length ws) (length rs)"
    and p: "finite P" "p \<in> P" "g p = (R_LOAD, False)"
  shows "ring P L q m (g(p := (R_ADVANCE, False))) ws (rs @ [m (pp_buffer q + pp_read_pos q)])"
proof -
  note l = counts_load [OF c p]
  have "pp_read_pos q = of_nat (length rs mod L)" using r l by (simp add: ring_def pos_of_nat)
  then have v: "m (pp_buffer q + pp_read_pos q) = ws ! length rs" using r l by (simp add: ring_def)
  have "rs @ [ws ! length rs] = take (Suc (length rs)) ws"
    using r l(1) by (simp add: ring_def take_Suc_conv_app_nth)
  then show ?thesis using r p l v by (simp add: ring_def tot_upd)
qed

lemma ring_advance_r:
  assumes r: "ring P L q m g ws rs" and L: "pipe_wf L q" and c: "counts P L g ve vf vb (length ws) (length rs)"
    and p: "finite P" "p \<in> P" "g p = (R_ADVANCE, False)"
  shows "ring P L (q\<lparr>pp_read_pos := (pp_read_pos q + 1) mod pp_buffer_len q\<rparr>) m
    (g(p := (R_UNLOCK, False))) ws rs"
proof -
  note a = counts_adv_r [OF c p]
  have l: "0 < length rs" using r a by (auto simp: ring_def)
  have "unat (pp_read_pos q) = (length rs - 1) mod L" using r a l by (simp add: ring_def nat_diff_distrib)
  then have "unat ((pp_read_pos q + 1) mod pp_buffer_len q) = length rs mod L"
    using advance_pos [of "pp_read_pos q" "length rs - 1" L "pp_buffer_len q"] L l by (simp add: pipe_wf_def)
  then show ?thesis using r p a by (simp add: ring_def tot_upd)
qed

subsection \<open>Every step keeps the invariant\<close>

lemma waits_for_pos [simp]:
  "waits_for (q\<lparr>pp_write_pos := x\<rparr>) l = waits_for q l" "waits_for (q\<lparr>pp_read_pos := x\<rparr>) l = waits_for q l"
  by (cases l; simp)+

lemma pipe_wf_pos [simp]:
  "pipe_wf L (q\<lparr>pp_write_pos := x\<rparr>) = pipe_wf L q" "pipe_wf L (q\<lparr>pp_read_pos := x\<rparr>) = pipe_wf L q"
  by (simp_all add: pipe_wf_def)

lemma pinvE:
  assumes "pinv P L q k m pc ws rs"
  obtains V Q where "pipe_wf L q" "sems_ok (pipe_sems q) k V Q"
    "queues_ok P (pipe_sems q) (waits_for q) (places pc k) Q"
    "counts P L (places pc k) (V (pp_sem_empty q)) (V (pp_sem_full q)) (V (pp_buf_lock q)) (length ws) (length rs)"
    "ring P L q m (places pc k) ws rs"
  using assms unfolding pinv_def by blast

lemma pinvI:
  assumes "pipe_wf L q" "sems_ok (pipe_sems q) k V Q" "queues_ok P (pipe_sems q) (waits_for q) (places pc k) Q"
    "counts P L (places pc k) (V (pp_sem_empty q)) (V (pp_sem_full q)) (V (pp_buf_lock q)) (length ws) (length rs)"
    "ring P L q m (places pc k) ws rs"
  shows "pinv P L q k m pc ws rs"
  using assms unfolding pinv_def by blast

text \<open>A process that moves between places that count the same.\<close>

lemma pinv_move:
  assumes inv: "pinv P L q k m pc ws rs" and p: "finite P" "p \<in> P" "\<not> is_blocked k p"
    and l: "\<forall>f \<in> {holds_empty, holds_full, loading, stored, holds_lock, adv_w, adv_r}. f (pc p, False) = f (l, False)"
  shows "pinv P L q k m (pc(p := l)) ws rs"
  using inv
proof (cases rule: pinvE)
  case (1 V Q)
  have t: "tot P f (places (pc(p := l)) k) = tot P f (places pc k)"
    if "f \<in> {holds_empty, holds_full, loading, stored, holds_lock, adv_w, adv_r}" for f
  proof -
    have "f (pc p, False) = f (l, False)" using that l by blast
    then show ?thesis using p by (simp add: places_move places_here tot_upd)
  qed
  show ?thesis
  proof (rule pinvI [OF 1(1,2)])
    show "queues_ok P (pipe_sems q) (waits_for q) (places (pc(p := l)) k) Q"
      unfolding places_move [OF p(3)] by (rule queues_ok_move [OF 1(3)]) (simp add: places_here p(3))
    show "counts P L (places (pc(p := l)) k) (V (pp_sem_empty q)) (V (pp_sem_full q)) (V (pp_buf_lock q))
        (length ws) (length rs)"
      using 1(4) t by (simp add: counts_def)
    show "ring P L q m (places (pc(p := l)) k) ws rs" using ring_move [OF 1(5) t t] by simp
  qed
qed

lemma pinv_wait:
  assumes inv: "pinv P L q k m pc ws rs" and P: "finite P" "card P < 2 ^ 31" "NULL \<notin> P"
    and p: "p \<in> P" "\<not> is_blocked k p"
    and s: "(s, pc p, l) \<in> {(pp_sem_empty q, W_LOOP, W_REFS), (pp_sem_full q, R_WAIT, R_LOCK),
      (pp_buf_lock q, W_LOCK, W_STORE), (pp_buf_lock q, R_LOCK, R_LOAD)}"
  shows "\<exists>b k'. wait_as s p k = Inr (b, k') \<and> pinv P L q k' m (pc(p := l)) ws rs"
  using inv
proof (cases rule: pinvE)
  case (1 V Q)
  have sl: "s \<in> pipe_sems q" "waits_for q l = Some s" using s by auto
  obtain k' Q' where k': "wait_as s p k = Inr (V s \<le> 0, k')" "sems_ok (pipe_sems q) k' (V(s := V s - 1)) Q'"
    "queues_ok P (pipe_sems q) (waits_for q) (places (pc(p := l)) k') Q'"
    and g: "places (pc(p := l)) k' = (places pc k)(p := (l, V s \<le> 0))"
    using places_wait [OF 1(2,3) sl(1) p(1) P(3) p(2) sl(2) P(1,2)] by blast
  have d: "pp_buf_lock q \<noteq> pp_sem_empty q" "pp_buf_lock q \<noteq> pp_sem_full q" "pp_sem_empty q \<noteq> pp_sem_full q"
    using 1(1) by (simp_all add: pipe_wf_def)
  note t = tot_upd [OF P(1) p(1), of _ "places pc k"] places_here [OF p(2)]
  have "pinv P L q k' m (pc(p := l)) ws rs"
  proof (rule pinvI [OF 1(1) k'(2,3)])
    show "counts P L (places (pc(p := l)) k') ((V(s := V s - 1)) (pp_sem_empty q)) ((V(s := V s - 1)) (pp_sem_full q))
        ((V(s := V s - 1)) (pp_buf_lock q)) (length ws) (length rs)"
      unfolding g using 1(4) s d by (elim insertE) (auto simp: counts_def t)
    show "ring P L q m (places (pc(p := l)) k') ws rs"
      unfolding g by (rule ring_move [OF 1(5)]) (use s in \<open>auto simp: t\<close>)
  qed
  then show ?thesis using k'(1) by blast
qed

lemma waits_for_Some:
  "waits_for q l = Some s \<longleftrightarrow> (l = W_REFS \<and> s = pp_sem_empty q) \<or> (l = R_LOCK \<and> s = pp_sem_full q) \<or>
     ((l = W_STORE \<or> l = R_LOAD) \<and> s = pp_buf_lock q)"
  by (cases l) auto

lemma pinv_signal:
  assumes inv: "pinv P L q k m pc ws rs" and P: "finite P" and p: "p \<in> P" "\<not> is_blocked k p"
    and s: "(s, pc p, l) \<in> {(pp_buf_lock q, W_UNLOCK, W_SIGNAL), (pp_buf_lock q, R_UNLOCK, R_SIGNAL),
      (pp_sem_full q, W_SIGNAL, W_LOOP), (pp_sem_empty q, R_SIGNAL, R_LOOP)}"
  shows "pinv P L q (sem_signal s k) m (pc(p := l)) ws rs"
  using inv
proof (cases rule: pinvE)
  case (1 V Q)
  let ?g = "places pc k" and ?g' = "places (pc(p := l)) (sem_signal s k)"
  have sl: "s \<in> pipe_sems q" using s by auto
  have d: "pp_buf_lock q \<noteq> pp_sem_empty q" "pp_buf_lock q \<noteq> pp_sem_full q" "pp_sem_empty q \<noteq> pp_sem_full q"
    and L: "L < 2 ^ 31" using 1(1) by (simp_all add: pipe_wf_def)
  note gp = places_here [OF p(2), of pc]
  have b: "V s < 2 ^ 31 - 1"
    using s counts_signal [OF 1(4) P p(1) L] by (elim insertE) (auto simp: gp)
  obtain Q' where k': "sems_ok (pipe_sems q) (sem_signal s k) (V(s := V s + 1)) Q'"
      "queues_ok P (pipe_sems q) (waits_for q) (places pc (sem_signal s k)) Q'"
    and g: "(0 \<le> V s \<and> places pc (sem_signal s k) = ?g) \<or>
     (\<exists>w \<in> P. V s < 0 \<and> is_blocked k w \<and> waits_for q (pc w) = Some s \<and>
        places pc (sem_signal s k) = ?g(w := (pc w, False)))"
    using places_wake [where V = V, OF 1(2,3) sl b] by blast
  have np: "\<not> is_blocked (sem_signal s k) p"
    using sem_signal_blocked [OF sems_okD [OF 1(2) sl]] p(2) by simp
  have q': "queues_ok P (pipe_sems q) (waits_for q) ?g' Q'"
    unfolding places_move [OF np] by (rule queues_ok_move [OF k'(2)]) (simp add: places_here np)
  have c: "counts P L ?g' ((V(s := V s + 1)) (pp_sem_empty q)) ((V(s := V s + 1)) (pp_sem_full q))
        ((V(s := V s + 1)) (pp_buf_lock q)) (length ws) (length rs) \<and>
      tot P adv_w ?g' = tot P adv_w ?g \<and> tot P adv_r ?g' = tot P adv_r ?g"
    using g
  proof (elim disjE bexE conjE)
    assume "0 \<le> V s" and "places pc (sem_signal s k) = ?g"
    then show ?thesis unfolding places_move [OF np]
      using 1(4) s d P p(1) by (elim insertE) (auto simp: counts_def tot_upd gp)
  next
    fix w assume w: "w \<in> P" "V s < 0" "is_blocked k w" "waits_for q (pc w) = Some s"
      and g': "places pc (sem_signal s k) = ?g(w := (pc w, False))"
    have gw: "?g w = (pc w, True)" using w by (simp add: places_def)
    have gp': "(?g(w := (pc w, False))) p = (pc p, False)" using p(2) gp by simp
    show ?thesis unfolding places_move [OF np] g' tot_upd [OF P p(1)] counts_def tot_upd [OF P w(1)] gw gp'
      using 1(4) s d w(2,4) by (elim insertE) (auto simp: counts_def waits_for_Some)
  qed
  show ?thesis by (rule pinvI [OF 1(1) k'(1) q']) (use c ring_move [OF 1(5)] in auto)
qed

lemma pinv_store:
  assumes inv: "pinv P L q k m pc ws rs" and p: "finite P" "p \<in> P" "\<not> is_blocked k p" "pc p = W_STORE"
  shows "pinv P L q k (m(pp_buffer q + pp_write_pos q := x)) (pc(p := W_ADVANCE)) (ws @ [x]) rs"
  using inv
proof (cases rule: pinvE)
  case (1 V Q)
  note g = places_move [OF p(3)] places_here [OF p(3), of pc, unfolded p(4)]
  show ?thesis
  proof (rule pinvI [OF 1(1,2)])
    show "queues_ok P (pipe_sems q) (waits_for q) (places (pc(p := W_ADVANCE)) k) Q"
      unfolding g(1) by (rule queues_ok_move [OF 1(3)]) (simp add: g)
    show "counts P L (places (pc(p := W_ADVANCE)) k) (V (pp_sem_empty q)) (V (pp_sem_full q)) (V (pp_buf_lock q))
        (length (ws @ [x])) (length rs)"
      using 1(4) p by (auto simp: counts_def g tot_upd)
    show "ring P L q (m(pp_buffer q + pp_write_pos q := x)) (places (pc(p := W_ADVANCE)) k) (ws @ [x]) rs"
      unfolding g(1) by (rule ring_store [OF 1(5,1,4) p(1,2) g(2)])
  qed
qed

lemma pinv_load:
  assumes inv: "pinv P L q k m pc ws rs" and p: "finite P" "p \<in> P" "\<not> is_blocked k p" "pc p = R_LOAD"
  shows "pinv P L q k m (pc(p := R_ADVANCE)) ws (rs @ [m (pp_buffer q + pp_read_pos q)])"
  using inv
proof (cases rule: pinvE)
  case (1 V Q)
  note g = places_move [OF p(3)] places_here [OF p(3), of pc, unfolded p(4)]
  show ?thesis
  proof (rule pinvI [OF 1(1,2)])
    show "queues_ok P (pipe_sems q) (waits_for q) (places (pc(p := R_ADVANCE)) k) Q"
      unfolding g(1) by (rule queues_ok_move [OF 1(3)]) (simp add: g)
    show "counts P L (places (pc(p := R_ADVANCE)) k) (V (pp_sem_empty q)) (V (pp_sem_full q)) (V (pp_buf_lock q))
        (length ws) (length (rs @ [m (pp_buffer q + pp_read_pos q)]))"
      using 1(4) p by (auto simp: counts_def g tot_upd)
    show "ring P L q m (places (pc(p := R_ADVANCE)) k) ws (rs @ [m (pp_buffer q + pp_read_pos q)])"
      unfolding g(1) by (rule ring_load [OF 1(5,4) p(1,2) g(2)])
  qed
qed

lemma pinv_advance:
  assumes inv: "pinv P L q k m pc ws rs" and p: "finite P" "p \<in> P" "\<not> is_blocked k p"
    and l: "(pc p, l, q') \<in> {(W_ADVANCE, W_UNLOCK, q\<lparr>pp_write_pos := (pp_write_pos q + 1) mod pp_buffer_len q\<rparr>),
      (R_ADVANCE, R_UNLOCK, q\<lparr>pp_read_pos := (pp_read_pos q + 1) mod pp_buffer_len q\<rparr>)}"
  shows "pinv P L q' k m (pc(p := l)) ws rs"
  using inv
proof (cases rule: pinvE)
  case (1 V Q)
  note g = places_move [OF p(3)] places_here [OF p(3), of pc]
  have q': "pp_buf_lock q' = pp_buf_lock q" "pp_sem_empty q' = pp_sem_empty q" "pp_sem_full q' = pp_sem_full q"
    "pipe_wf L q' = pipe_wf L q" "waits_for q' = waits_for q" using l by auto
  show ?thesis
  proof (rule pinvI [of L q' k V Q])
    have "queues_ok P (pipe_sems q) (waits_for q) (places (pc(p := l)) k) Q"
      unfolding g(1) by (rule queues_ok_move [OF 1(3)]) (simp add: g)
    then show "queues_ok P (pipe_sems q') (waits_for q') (places (pc(p := l)) k) Q" by (simp add: q')
    show "counts P L (places (pc(p := l)) k) (V (pp_sem_empty q')) (V (pp_sem_full q')) (V (pp_buf_lock q'))
        (length ws) (length rs)"
      using 1(4) p l unfolding q' by (auto simp: counts_def g tot_upd)
    show "ring P L q' m (places (pc(p := l)) k) ws rs"
      using l ring_advance_w [OF 1(5,1,4) p(1,2)] ring_advance_r [OF 1(5,1,4) p(1,2)] by (auto simp: g)
  qed (use 1 in \<open>simp_all add: q'\<close>)
qed

text \<open>The reader's attempt to take one more byte.\<close>

lemma pinv_trywait:
  assumes inv: "pinv P L q k m pc ws rs" and p: "finite P" "p \<in> P" "\<not> is_blocked k p" "pc p = R_LOOP"
  shows "\<exists>r k'. sem_trywait (pp_sem_full q) k = (r, k') \<and> k_sched k' = k_sched k \<and>
    pinv P L q k' m (pc(p := if r = 0 then RET i else R_LOCK)) ws rs"
  using inv
proof (cases rule: pinvE)
  case (1 V Q)
  let ?s = "pp_sem_full q"
  have sl: "?s \<in> pipe_sems q" by simp
  obtain k' where k': "sem_trywait ?s k = (if 0 < V ?s then 1 else 0, k')" "k_sched k' = k_sched k"
    "sems_ok (pipe_sems q) k' (if 0 < V ?s then V(?s := V ?s - 1) else V) Q"
    using sems_trywait [OF 1(2) sl] by blast
  define l where "l = (if 0 < V ?s then R_LOCK else RET i)"
  have b: "is_blocked k' = is_blocked k" using k'(2) by (simp add: is_blocked_def fun_eq_iff)
  have pl: "places (pc(p := l)) k' = (places pc k)(p := (l, False))"
    using p(3) b by (auto simp: places_def)
  note gp = places_here [OF p(3), of pc, unfolded p(4)]
  have d: "pp_buf_lock q \<noteq> pp_sem_full q" "pp_sem_empty q \<noteq> pp_sem_full q"
    using 1(1) by (simp_all add: pipe_wf_def)
  have "pinv P L q k' m (pc(p := l)) ws rs"
  proof (rule pinvI [OF 1(1) k'(3)])
    show "queues_ok P (pipe_sems q) (waits_for q) (places (pc(p := l)) k') Q"
      unfolding pl by (rule queues_ok_move [OF 1(3)]) (simp add: gp)
    show "counts P L (places (pc(p := l)) k') ((if 0 < V ?s then V(?s := V ?s - 1) else V) (pp_sem_empty q))
        ((if 0 < V ?s then V(?s := V ?s - 1) else V) ?s)
        ((if 0 < V ?s then V(?s := V ?s - 1) else V) (pp_buf_lock q)) (length ws) (length rs)"
      unfolding pl using 1(4) p(1,2) d gp by (auto simp: counts_def tot_upd l_def)
    show "ring P L q m (places (pc(p := l)) k') ws rs"
      unfolding pl by (rule ring_move [OF 1(5)]) (use p gp in \<open>auto simp: tot_upd l_def\<close>)
  qed
  then show ?thesis using k' by (auto simp: l_def)
qed

text \<open>An interrupt that writes a byte, while no process is about to advance the write position.\<close>

lemma ring_try_write:
  assumes r: "ring P L q m g ws rs" and L: "pipe_wf L q" and a: "tot P adv_w g = 0"
    and c: "length rs \<le> length ws" "length ws < length rs + L"
    and g': "tot P adv_w g' = 0" "tot P adv_r g' = tot P adv_r g"
  shows "ring P L (q\<lparr>pp_write_pos := (pp_write_pos q + 1) mod pp_buffer_len q\<rparr>)
    (m(pp_buffer q + pp_write_pos q := x)) g' (ws @ [x]) rs"
proof -
  have "unat ((pp_write_pos q + 1) mod pp_buffer_len q) = Suc (length ws) mod L"
    by (rule advance_pos) (use r a L in \<open>simp_all add: ring_def pipe_wf_def\<close>)
  then show ?thesis using ring_put [OF r L a c, of x] r g' by (simp add: ring_def nat_add_distrib)
qed

lemma adv_w_if: "adv_w (l, b) = (if l = W_ADVANCE then 1 else 0)"
  by (cases l) auto

lemma counts_try_write:
  assumes c: "counts P L g ve vf vb w r" "finite P" "0 < ve"
    and g: "(0 \<le> vf \<and> g' = g) \<or> (\<exists>x \<in> P. vf < 0 \<and> g x = (R_LOCK, True) \<and> g' = g(x := (R_LOCK, False)))"
  shows "counts P L g' (ve - 1) (vf + 1) vb (Suc w) r" "tot P adv_w g' = tot P adv_w g"
    "tot P adv_r g' = tot P adv_r g"
  using g c by (auto simp: counts_def tot_upd)

lemma pinv_try_write:
  assumes inv: "pinv P L (ps_pipes st pp) (ps_k st) (ps_mem st) pc ws rs" and P: "finite P"
    and na: "\<forall>p \<in> P. pc p \<noteq> W_ADVANCE" and w: "pipe_try_write pp byte st = (r, st')"
  shows "pinv P L (ps_pipes st' pp) (ps_k st') (ps_mem st') pc (if r = 1 then ws @ [byte] else ws) rs"
  using inv
proof (cases rule: pinvE)
  case (1 V Q)
  let ?q = "ps_pipes st pp"
  let ?E = "pp_sem_empty ?q" and ?F = "pp_sem_full ?q" and ?g = "places pc (ps_k st)"
  have d: "pp_buf_lock ?q \<noteq> ?E" "pp_buf_lock ?q \<noteq> ?F" "?E \<noteq> ?F" "pp_read_refs ?q \<noteq> 0" and L: "int L < 2 ^ 31"
    using 1(1) by (simp_all add: pipe_wf_def)
  have sl: "?E \<in> pipe_sems ?q" "?F \<in> pipe_sems ?q" by simp_all
  obtain k1 where k1: "sem_trywait ?E (ps_k st) = (if 0 < V ?E then 1 else 0, k1)" "k_sched k1 = k_sched (ps_k st)"
    "sems_ok (pipe_sems ?q) k1 (if 0 < V ?E then V(?E := V ?E - 1) else V) Q"
    using sems_trywait [OF 1(2) sl(1)] by blast
  have b: "is_blocked k1 = is_blocked (ps_k st)" using k1(2) by (simp add: is_blocked_def fun_eq_iff)
  then have g1: "places pc k1 = ?g" by (simp add: places_def fun_eq_iff)
  have adv: "tot P adv_w ?g = 0"
    by (rule tot_zero) (use na in \<open>simp add: places_def adv_w_if\<close>)
  show ?thesis
  proof (cases "0 < V ?E")
    case False
    then have "r = 0" "st' = st\<lparr>ps_k := k1\<rparr>" using w k1(1) d by (simp_all add: pipe_try_write_def)
    then show ?thesis using 1 k1(3) False by (auto simp: g1 intro!: pinvI)
  next
    case True
    define V1 where "V1 = V(?E := V ?E - 1)"
    have ok1: "sems_ok (pipe_sems ?q) k1 V1 Q" using k1(3) True by (simp add: V1_def)
    have bnd: "V1 ?F < 2 ^ 31 - 1" "length ws < length rs + L"
      using 1(4) L True d tot_ge0(6,7) [of P ?g] tot_le(1,2) [of P ?g] by (auto simp: counts_def V1_def)
    obtain Q' where k': "sems_ok (pipe_sems ?q) (sem_signal ?F k1) (V1(?F := V1 ?F + 1)) Q'"
        "queues_ok P (pipe_sems ?q) (waits_for ?q) (places pc (sem_signal ?F k1)) Q'"
      and g: "(0 \<le> V1 ?F \<and> places pc (sem_signal ?F k1) = places pc k1) \<or>
       (\<exists>w \<in> P. V1 ?F < 0 \<and> is_blocked k1 w \<and> waits_for ?q (pc w) = Some ?F \<and>
          places pc (sem_signal ?F k1) = (places pc k1)(w := (pc w, False)))"
      using places_wake [where V = V1, OF ok1 1(3) [folded g1] sl(2) bnd(1)] by blast
    then have "(0 \<le> V ?F \<and> places pc (sem_signal ?F k1) = ?g) \<or> (\<exists>x \<in> P. V ?F < 0 \<and>
        ?g x = (R_LOCK, True) \<and> places pc (sem_signal ?F k1) = ?g(x := (R_LOCK, False)))"
      using d b by (auto simp: g1 V1_def places_def waits_for_Some)
    note c = counts_try_write [OF 1(4) P True this]
    let ?q' = "?q\<lparr>pp_write_pos := (pp_write_pos ?q + 1) mod pp_buffer_len ?q\<rparr>"
    have st': "r = 1" "ps_pipes st' pp = ?q'" "ps_k st' = sem_signal ?F k1"
      "ps_mem st' = (ps_mem st)(pp_buffer ?q + pp_write_pos ?q := byte)"
      using w k1(1) d True
      by (auto simp: pipe_try_write_def psem_signal_def advance_write_def store_byte_def upd_def Let_def)
    have rg: "ring P L ?q' (ps_mem st') (places pc (sem_signal ?F k1)) (ws @ [byte]) rs"
      unfolding st'(4) by (rule ring_try_write [OF 1(5,1) adv counts_order [OF 1(4)] bnd(2)]) (use c adv in auto)
    have "pinv P L ?q' (sem_signal ?F k1) (ps_mem st') pc (ws @ [byte]) rs"
    proof (rule pinvI [of L ?q' _ "V1(?F := V1 ?F + 1)" Q'])
      have "waits_for ?q' = waits_for ?q" by (simp add: fun_eq_iff)
      then show "queues_ok P (pipe_sems ?q') (waits_for ?q') (places pc (sem_signal ?F k1)) Q'" using k'(2) by simp
    qed (use 1(1) k'(1) c(1) d rg in \<open>simp_all add: V1_def\<close>)
    then show ?thesis by (simp add: st')
  qed
qed

lemma pinv_frame:
  assumes inv: "pinv P L (ps_pipes st pp) (ps_k st) (ps_mem st) pc ws rs" and fr: "pipe_frame P pp st st'"
  shows "pinv P L (ps_pipes st' pp) (ps_k st') (ps_mem st') pc ws rs"
  using inv
proof (cases rule: pinvE)
  case (1 V Q)
  let ?q = "ps_pipes st pp"
  have f: "ps_pipes st' pp = ?q" "\<And>s. s \<in> pipe_sems ?q \<Longrightarrow> k_sems (ps_k st') s = k_sems (ps_k st) s"
    "\<And>p. p \<in> P \<Longrightarrow> is_blocked (ps_k st') p = is_blocked (ps_k st) p"
    "\<And>p. p \<in> P \<Longrightarrow> p_wait_next (kprocs (ps_k st') p) = p_wait_next (kprocs (ps_k st) p)"
    "\<And>i. i < pp_buffer_len ?q \<Longrightarrow> ps_mem st' (pp_buffer ?q + i) = ps_mem st (pp_buffer ?q + i)"
    using fr by (auto simp: pipe_frame_def Let_def)
  have QP: "p \<in> P \<and> is_blocked (ps_k st) p" if "s \<in> pipe_sems ?q" "p \<in> set (Q s)" for s p
    using 1(3) that unfolding queues_ok_def places_def by auto
  have sems: "sem_abs s (ps_k st') (V s) (Q s)" if "s \<in> pipe_sems ?q" for s
  proof (rule sem_frame_abs [OF sems_okD [OF 1(2) that]])
    show "sem_frame s (Q s) (ps_k st) (ps_k st')"
      using f(2) [OF that] f(3,4) QP [OF that] by (simp add: sem_frame_def is_blocked_def)
  qed
  have "sems_ok (pipe_sems ?q) (ps_k st') V Q" using sems 1(2) unfolding sems_ok_def by blast
  moreover have t: "tot P h (places pc (ps_k st')) = tot P h (places pc (ps_k st))" for h
    unfolding tot_def by (rule sum.cong) (simp_all add: places_def f(3))
  moreover have "queues_ok P (pipe_sems ?q) (waits_for ?q) (places pc (ps_k st')) Q"
    using 1(3) f(3) unfolding queues_ok_def places_def fst_conv snd_conv by metis
  moreover have "ps_mem st' (pp_buffer ?q + of_nat (j mod L)) = ps_mem st (pp_buffer ?q + of_nat (j mod L))" for j
  proof -
    have "unat (of_nat (j mod L) :: u64) < unat (pp_buffer_len ?q)"
      using 1(1) unat_of_nat_u64 [OF slot_small] by (simp add: pipe_wf_def)
    then show ?thesis by (intro f(5)) (simp add: word_less_nat_alt)
  qed
  ultimately show ?thesis using 1 unfolding f(1) by (intro pinvI [of L ?q _ V Q]) (simp_all add: counts_def ring_def)
qed

lemma psem_wait_Inr:
  "psem_wait s p st = Inr st' \<longleftrightarrow> (\<exists>b k. wait_as s p (ps_k st) = Inr (b, k) \<and> st' = st\<lparr>ps_k := k\<rparr>)"
  by (auto simp: psem_wait_def)

lemma pipe_write_inv:
  assumes inv: "pinv P L (ps_pipes st pp) (ps_k st) (ps_mem st) pc ws rs"
    and P: "finite P" "card P < 2 ^ 31" "NULL \<notin> P" and p: "p \<in> P" "\<not> is_blocked (ps_k st) p"
    and c: "pc p = cl_pc c" "in_write (cl_pc c)" and w: "pipe_write p pp c st = Inr (c', st')"
  shows "pinv P L (ps_pipes st' pp) (ps_k st') (ps_mem st') (pc(p := cl_pc c'))
    (if cl_pc c = W_STORE then ws @ [cl_buf c (cl_i c)] else ws) rs"
proof -
  note move = pinv_move [OF inv P(1) p] and wait = pinv_wait [OF inv P p] and signal = pinv_signal [OF inv P(1) p]
  have refs: "pp_read_refs (ps_pipes st pp) \<noteq> 0" using inv by (auto elim!: pinvE simp: pipe_wf_def)
  show ?thesis
  proof (cases "cl_pc c")
    case W_STORE
    then show ?thesis using pinv_store [OF inv P(1) p] w c by (auto simp: pipe_write_def store_byte_def go_def)
  next
    case W_ADVANCE
    then show ?thesis using pinv_advance [OF inv P(1) p, of W_UNLOCK] w c
      by (auto simp: pipe_write_def advance_write_def go_def upd_def)
  next
    case W_LOOP
    then show ?thesis using w c move [of "RET _"] wait [of "pp_sem_empty (ps_pipes st pp)" W_REFS]
      by (auto simp: pipe_write_def psem_wait_Inr go_def split: if_splits)
  next
    case W_LOCK
    then show ?thesis using w c wait [of "pp_buf_lock (ps_pipes st pp)" W_STORE]
      by (auto simp: pipe_write_def psem_wait_Inr go_def)
  next
    case W_UNLOCK
    then show ?thesis using w c signal [of "pp_buf_lock (ps_pipes st pp)" W_SIGNAL]
      by (auto simp: pipe_write_def psem_signal_def go_def)
  next
    case W_SIGNAL
    then show ?thesis using w c signal [of "pp_sem_full (ps_pipes st pp)" W_LOOP]
      by (auto simp: pipe_write_def psem_signal_def go_def)
  next
    case W_ENTER
    then show ?thesis using w c refs move [of W_LOOP] by (auto simp: pipe_write_def go_def)
  next
    case W_REFS
    then show ?thesis using w c refs move [of W_LOCK] by (auto simp: pipe_write_def go_def)
  qed (use c in simp_all)
qed

lemma pipe_read_inv:
  assumes inv: "pinv P L (ps_pipes st pp) (ps_k st) (ps_mem st) pc ws rs"
    and P: "finite P" "card P < 2 ^ 31" "NULL \<notin> P" and p: "p \<in> P" "\<not> is_blocked (ps_k st) p"
    and c: "pc p = cl_pc c" "in_read (cl_pc c)" and w: "pipe_read p pp c st = Inr (c', st')"
  shows "pinv P L (ps_pipes st' pp) (ps_k st') (ps_mem st') (pc(p := cl_pc c')) ws
    (if cl_pc c = R_LOAD then rs @ [cl_buf c' (cl_i c)] else rs)"
proof -
  note move = pinv_move [OF inv P(1) p] and wait = pinv_wait [OF inv P p] and signal = pinv_signal [OF inv P(1) p]
  show ?thesis
  proof (cases "cl_pc c")
    case R_LOAD
    then show ?thesis using pinv_load [OF inv P(1) p] w c by (auto simp: pipe_read_def load_byte_def go_def)
  next
    case R_ADVANCE
    then show ?thesis using pinv_advance [OF inv P(1) p, of R_UNLOCK] w c
      by (auto simp: pipe_read_def advance_read_def go_def upd_def)
  next
    case R_WAIT
    then show ?thesis using w c wait [of "pp_sem_full (ps_pipes st pp)" R_LOCK]
      by (auto simp: pipe_read_def psem_wait_Inr go_def)
  next
    case R_LOCK
    then show ?thesis using w c wait [of "pp_buf_lock (ps_pipes st pp)" R_LOAD]
      by (auto simp: pipe_read_def psem_wait_Inr go_def)
  next
    case R_UNLOCK
    then show ?thesis using w c signal [of "pp_buf_lock (ps_pipes st pp)" R_SIGNAL]
      by (auto simp: pipe_read_def psem_signal_def go_def)
  next
    case R_SIGNAL
    then show ?thesis using w c signal [of "pp_sem_empty (ps_pipes st pp)" R_LOOP]
      by (auto simp: pipe_read_def psem_signal_def go_def)
  next
    case R_ENTER
    then show ?thesis using w c move [of R_WAIT] move [of "RET 0"]
      by (auto simp: pipe_read_def go_def Let_def split: if_splits)
  next
    case R_LOOP
    then show ?thesis using w c move [of "RET _"] pinv_trywait [OF inv P(1) p, of "ucast (cl_i c)"]
      by (auto simp: pipe_read_def go_def Let_def split: if_splits prod.splits)
  qed (use c in simp_all)
qed

lemma pinv_blocked:
  "pinv P L q k m pc ws rs \<Longrightarrow> p \<in> P \<Longrightarrow> is_blocked k p \<Longrightarrow> waits_for q (pc p) \<noteq> None"
  by (elim pinvE) (fastforce simp only: queues_ok_def places_def fst_conv snd_conv)

lemma pcs_upd: "(\<lambda>x. cl_pc ((f(p := c)) x)) = (\<lambda>x. cl_pc (f x))(p := cl_pc c)"
  by auto

lemma pipe_step_inv:
  assumes "pipe_step False P pp y y'" "pipe_inv P pp L y" and P: "finite P" "card P < 2 ^ 31" "NULL \<notin> P"
  shows "pipe_inv P pp L y'"
  using assms(1,2)
proof (cases rule: pipe_step.cases)
  case (pipe_call p c)
  have inv: "pinv P L (ps_pipes (sy_st y) pp) (ps_k (sy_st y)) (ps_mem (sy_st y)) (\<lambda>p. cl_pc (sy_calls y p))
      (sy_written y) (sy_read y)" using assms(2) by (simp add: pipe_inv_def)
  then have "\<not> is_blocked (ps_k (sy_st y)) p"
    using pipe_call(2,3) pinv_blocked [OF inv] by fastforce
  from pinv_move [OF inv P(1) pipe_call(2) this, of "cl_pc c"] pipe_call show ?thesis
    unfolding pipe_inv_def by (auto simp: pcs_upd simp del: fun_upd_apply)
next
  case (pipe_writer p c st)
  from pipe_write_inv [OF _ P pipe_writer(2,3) _ pipe_writer(4,5)] assms(2) pipe_writer(1) show ?thesis
    unfolding pipe_inv_def by (simp add: pcs_upd del: fun_upd_apply)
next
  case (pipe_reader p c st)
  from pipe_read_inv [OF _ P pipe_reader(2,3) _ pipe_reader(4,5)] assms(2) pipe_reader(1) show ?thesis
    unfolding pipe_inv_def by (simp add: pcs_upd del: fun_upd_apply)
next
  case (pipe_interrupt byte r st)
  from pinv_try_write [OF _ P(1) _ pipe_interrupt(3)] assms(2) pipe_interrupt(1,2) show ?thesis
    unfolding pipe_inv_def by simp
next
  case (pipe_other st)
  from pinv_frame [OF _ pipe_other(2)] assms(2) pipe_other(1) show ?thesis by (simp add: pipe_inv_def)
qed

text \<open>A new pipe, which no process has used yet.\<close>

definition pipe_start :: "pstate \<Rightarrow> (u64 \<Rightarrow> call) \<Rightarrow> psys" where
  "pipe_start st calls = \<lparr>sy_st = st, sy_calls = calls, sy_written = [], sy_read = []\<rparr>"

lemma pipe_create_effect:
  assumes "pipe_create al n st0 = Inr (pp, st)"
  shows "\<exists>buf s. ps_pipes st pp = \<lparr>pp_buffer = buf, pp_buffer_len = n, pp_read_pos = 0, pp_write_pos = 0,
      pp_read_refs = 1, pp_write_refs = 1, pp_buf_lock = s, pp_sem_empty = s + 24, pp_sem_full = s + 48\<rparr> \<and>
    sem_abs s (ps_k st) 1 [] \<and> sem_abs (s + 48) (ps_k st) 0 [] \<and>
    (unat n < 2 ^ 31 \<longrightarrow> sem_abs (s + 24) (ps_k st) (int (unat n)) []) \<and>
    is_blocked (ps_k st) = is_blocked (ps_k st0)"
proof -
  have n: "unat n < 2 ^ 31 \<Longrightarrow> sint (ucast n :: i32) = int (unat n)"
  proof -
    assume a: "unat n < 2 ^ 31"
    then have "unat (ucast n :: i32) = unat n" by (simp add: unsigned_ucast_eq take_bit_nat_eq_self)
    then show ?thesis using a by (simp add: sint_i32)
  qed
  show ?thesis using assms n
    by (auto simp: pipe_create_def mutex_create_def sem_create_def sem_abs_def is_blocked_def memset_null_def
        fun_eq_iff split: if_splits)
qed

lemma pipe_unused_inv:
  fixes st pp
  defines "q \<equiv> ps_pipes st pp"
  assumes q: "pipe_wf L q" "pp_read_pos q = 0" "pp_write_pos q = 0"
    and a: "sem_abs (pp_buf_lock q) (ps_k st) 1 []" "sem_abs (pp_sem_empty q) (ps_k st) (int L) []"
      "sem_abs (pp_sem_full q) (ps_k st) 0 []"
    and P: "\<forall>p \<in> P. \<not> is_blocked (ps_k st) p \<and> cl_pc (calls p) = IDLE"
  shows "pipe_inv P pp L (pipe_start st calls)"
proof -
  let ?V = "(\<lambda>_. 0)(pp_buf_lock q := 1, pp_sem_empty q := int L)"
  let ?g = "places (\<lambda>p. cl_pc (calls p)) (ps_k st)"
  have d: "pp_sem_empty q \<noteq> pp_buf_lock q" "pp_sem_full q \<noteq> pp_buf_lock q" "pp_sem_full q \<noteq> pp_sem_empty q"
    using q(1) by (auto simp: pipe_wf_def)
  have g: "?g p = (IDLE, False)" if "p \<in> P" for p using P that by (simp add: places_def)
  have t: "tot P f ?g = 0" if "f (IDLE, False) = 0" for f using tot_zero g that by metis
  have "pinv P L q (ps_k st) (ps_mem st) (\<lambda>p. cl_pc (calls p)) [] []"
  proof (rule pinvI [of _ q _ ?V "\<lambda>_. []"])
    show "sems_ok (pipe_sems q) (ps_k st) ?V (\<lambda>_. [])" using a d by (simp add: sems_ok_def)
    show "counts P L ?g (?V (pp_sem_empty q)) (?V (pp_sem_full q)) (?V (pp_buf_lock q)) (length []) (length [])"
      using d by (simp add: counts_def t)
    show "queues_ok P (pipe_sems q) (waits_for q) ?g (\<lambda>_. [])" using g by (auto simp: queues_ok_def)
    show "ring P L q (ps_mem st) ?g [] []" by (simp add: ring_def q t)
  qed (rule q)
  then show ?thesis by (simp add: pipe_inv_def pipe_start_def q_def)
qed

lemma pipe_start_inv:
  assumes c: "pipe_create al n st0 = Inr (pp, st)" and n: "0 < unat n" "unat n < 2 ^ 31"
    and P: "\<forall>p \<in> P. \<not> is_blocked (ps_k st0) p \<and> cl_pc (calls p) = IDLE"
  shows "pipe_inv P pp (unat n) (pipe_start st calls)"
proof -
  obtain buf s where "ps_pipes st pp = \<lparr>pp_buffer = buf, pp_buffer_len = n, pp_read_pos = 0, pp_write_pos = 0,
      pp_read_refs = 1, pp_write_refs = 1, pp_buf_lock = s, pp_sem_empty = s + 24, pp_sem_full = s + 48\<rparr>"
    "sem_abs s (ps_k st) 1 []" "sem_abs (s + 48) (ps_k st) 0 []" "sem_abs (s + 24) (ps_k st) (int (unat n)) []"
    "is_blocked (ps_k st) = is_blocked (ps_k st0)"
    using pipe_create_effect [OF c] n(2) by auto
  then show ?thesis using n P by (intro pipe_unused_inv) (simp_all add: pipe_wf_def)
qed

lemma pipe_reachable_inv:
  assumes "(pipe_step False P pp)\<^sup>*\<^sup>* y y'" "pipe_inv P pp L y" "finite P" "card P < 2 ^ 31" "NULL \<notin> P"
  shows "pipe_inv P pp L y'"
  using assms(1)
proof (induction rule: rtranclp_induct)
  case base
  show ?case by (rule assms(2))
next
  case (step y z)
  then show ?case using pipe_step_inv assms(3-) by blast
qed

text \<open>A state in which every process is outside the code of the pipe or blocked.\<close>

lemma pinv_waits_justified:
  assumes inv: "pinv P L q k m pc ws rs"
    and quiet: "\<forall>p \<in> P. in_write (pc p) \<or> in_read (pc p) \<longrightarrow> is_blocked k p" and p: "p \<in> P" "is_blocked k p"
  shows "(pc p = W_REFS \<and> length ws = length rs + L) \<or> (pc p = R_LOCK \<and> rs = ws)"
  using inv
proof (cases rule: pinvE)
  case (1 V Q)
  let ?g = "places pc k"
  have qm: "x \<in> set (Q s) \<longleftrightarrow> x \<in> P \<and> is_blocked k x \<and> waits_for q (pc x) = Some s" if "s \<in> pipe_sems q" for x s
    using 1(3) that unfolding queues_ok_def places_def by auto
  have neg: "V s < 0" if "s \<in> pipe_sems q" "x \<in> P" "is_blocked k x" "waits_for q (pc x) = Some s" for x s
    using ksem.queue_length [OF sems_okD [OF 1(2) that(1)]] qm [OF that(1), of x] that
    by (auto split: if_splits)
  have bl: "is_blocked k x \<Longrightarrow> pc x \<in> {W_REFS, R_LOCK, W_STORE, R_LOAD}" if "x \<in> P" for x
    using pinv_blocked [OF inv that] by (cases "pc x") auto
  have place: "(\<not> is_blocked k x \<and> (pc x = IDLE \<or> (\<exists>r. pc x = RET r))) \<or>
      (is_blocked k x \<and> pc x \<in> {W_REFS, R_LOCK, W_STORE, R_LOAD})" if "x \<in> P" for x
    using bl [OF that] quiet that by (cases "pc x") auto
  have "holds_lock (?g x) = 0" if "x \<in> P" for x using place [OF that] by (auto simp: places_def)
  then have "tot P holds_lock ?g = 0" by (rule tot_zero)
  then have "0 < V (pp_buf_lock q)" using 1(4) by (auto simp: counts_def)
  then have lock: "is_blocked k x \<Longrightarrow> pc x \<noteq> W_STORE \<and> pc x \<noteq> R_LOAD" if "x \<in> P" for x
    using neg [of "pp_buf_lock q" x] that by auto
  have zero: "holds_empty (?g x) = 0" "holds_full (?g x) = 0" "loading (?g x) = 0" "stored (?g x) = 0"
    if "x \<in> P" for x using place [OF that] lock [OF that] by (auto simp: places_def)
  have "tot P holds_empty ?g = 0" "tot P holds_full ?g = 0" "tot P loading ?g = 0" "tot P stored ?g = 0"
    by (rule tot_zero, erule zero)+
  then have c: "max (V (pp_sem_empty q)) 0 + max (V (pp_sem_full q)) 0 = int L"
    "int (length ws) = int (length rs) + max (V (pp_sem_full q)) 0" using 1(4) by (simp_all add: counts_def)
  have "pc p = W_REFS \<or> pc p = R_LOCK" using bl [OF p] lock [OF p] by auto
  moreover have "pc p = W_REFS \<Longrightarrow> length ws = length rs + L" using neg [of "pp_sem_empty q" p] p c by simp
  moreover have "pc p = R_LOCK \<Longrightarrow> length ws = length rs" using neg [of "pp_sem_full q" p] p c by simp
  then have "pc p = R_LOCK \<Longrightarrow> rs = ws" using 1(5) by (simp add: ring_def)
  ultimately show ?thesis by blast
qed

section \<open>Properties\<close>

lemma pipe_inv_fifo:
  assumes "pipe_inv P pp L y"
  shows "sy_read y = take (length (sy_read y)) (sy_written y) \<and> length (sy_written y) \<le> length (sy_read y) + L"
proof -
  obtain V where c: "counts P L (places (\<lambda>p. cl_pc (sy_calls y p)) (ps_k (sy_st y)))
      (V (pp_sem_empty (ps_pipes (sy_st y) pp))) (V (pp_sem_full (ps_pipes (sy_st y) pp)))
      (V (pp_buf_lock (ps_pipes (sy_st y) pp))) (length (sy_written y)) (length (sy_read y))"
    and r: "sy_read y = take (length (sy_read y)) (sy_written y)"
    using assms unfolding pipe_inv_def ring_def by (elim pinvE) (auto simp: ring_def)
  with counts_capacity [OF c] show ?thesis by blast
qed

text \<open>
  (C4) A pipe is a bounded first-in first-out queue: whatever the number of processes that write
  and read at the same time and however their statements interleave, with interrupts that write outside
  the window between storing a byte and advancing the position, the bytes read are always a prefix of
  the bytes written, in order, and never more than the size of the buffer is in transit.
\<close>

theorem pipe_fifo:
  assumes "pipe_create al n st0 = Inr (pp, st)" "0 < unat n" "unat n < 2 ^ 31"
    and "finite P" "card P < 2 ^ 31" "NULL \<notin> P"
    and "\<forall>p \<in> P. \<not> is_blocked (ps_k st0) p \<and> cl_pc (calls p) = IDLE"
    and "(pipe_step False P pp)\<^sup>*\<^sup>* (pipe_start st calls) y"
  shows "sy_read y = take (length (sy_read y)) (sy_written y) \<and>
    length (sy_written y) \<le> length (sy_read y) + unat n"
  by (rule pipe_inv_fifo [OF pipe_reachable_inv [OF assms(8) pipe_start_inv [OF assms(1-3,7)] assms(4-6)]])

text \<open>
  (C36) No process waits without need: when every process in the middle of a call is blocked, none
  of them waits for the lock, a writer waits only if the buffer is full, and a reader only if everything
  written has been read.
\<close>

theorem pipe_waits_justified:
  assumes "pipe_create al n st0 = Inr (pp, st)" "0 < unat n" "unat n < 2 ^ 31"
    and P: "finite P" "card P < 2 ^ 31" "NULL \<notin> P"
    and "\<forall>p \<in> P. \<not> is_blocked (ps_k st0) p \<and> cl_pc (calls p) = IDLE"
    and "(pipe_step False P pp)\<^sup>*\<^sup>* (pipe_start st calls) y"
    and quiet: "\<forall>p \<in> P. in_write (cl_pc (sy_calls y p)) \<or> in_read (cl_pc (sy_calls y p)) \<longrightarrow> is_blocked (ps_k (sy_st y)) p"
    and p: "p \<in> P" "is_blocked (ps_k (sy_st y)) p"
  shows "(cl_pc (sy_calls y p) = W_REFS \<and> length (sy_written y) = length (sy_read y) + unat n) \<or>
    (cl_pc (sy_calls y p) = R_LOCK \<and> sy_read y = sy_written y)"
proof -
  have inv: "pipe_inv P pp (unat n) y"
    using pipe_reachable_inv [OF assms(8) pipe_start_inv [OF assms(1-3,7)] P] .
  then show ?thesis unfolding pipe_inv_def using pinv_waits_justified quiet p by blast
qed

section \<open>Concrete runs\<close>

text \<open>Sequences of steps as a function, for runs on concrete states.\<close>

datatype pevent = Call u64 call | Run u64 | Interrupt u8

fun pipe_event :: "bool \<Rightarrow> u64 list \<Rightarrow> u64 \<Rightarrow> pevent \<Rightarrow> psys \<Rightarrow> psys option" where
  "pipe_event race ps pp (Call p c) y =
     (if p \<in> set ps \<and> cl_pc (sy_calls y p) = IDLE \<and> (cl_pc c = W_ENTER \<or> cl_pc c = R_ENTER)
      then Some (y\<lparr>sy_calls := (sy_calls y)(p := c)\<rparr>) else None)"
| "pipe_event race ps pp (Run p) y =
     (let c = sy_calls y p in
      if p \<in> set ps \<and> \<not> is_blocked (ps_k (sy_st y)) p \<and> in_write (cl_pc c) then
        (case pipe_write p pp c (sy_st y) of Inl _ \<Rightarrow> None | Inr (c', st) \<Rightarrow>
           Some (y\<lparr>sy_st := st, sy_calls := (sy_calls y)(p := c'),
             sy_written := (if cl_pc c = W_STORE then sy_written y @ [cl_buf c (cl_i c)] else sy_written y)\<rparr>))
      else if p \<in> set ps \<and> \<not> is_blocked (ps_k (sy_st y)) p \<and> in_read (cl_pc c) then
        (case pipe_read p pp c (sy_st y) of Inl _ \<Rightarrow> None | Inr (c', st) \<Rightarrow>
           Some (y\<lparr>sy_st := st, sy_calls := (sy_calls y)(p := c'),
             sy_read := (if cl_pc c = R_LOAD then sy_read y @ [cl_buf c' (cl_i c)] else sy_read y)\<rparr>))
      else None)"
| "pipe_event race ps pp (Interrupt byte) y =
     (if race \<or> list_all (\<lambda>p. cl_pc (sy_calls y p) \<noteq> W_ADVANCE) ps then
        let (r, st) = pipe_try_write pp byte (sy_st y) in
        Some (y\<lparr>sy_st := st, sy_written := (if r = 1 then sy_written y @ [byte] else sy_written y)\<rparr>)
      else None)"

primrec pipe_run :: "bool \<Rightarrow> u64 list \<Rightarrow> u64 \<Rightarrow> pevent list \<Rightarrow> psys \<Rightarrow> psys option" where
  "pipe_run race ps pp [] y = Some y"
| "pipe_run race ps pp (e # es) y =
     (case pipe_event race ps pp e y of None \<Rightarrow> None | Some y \<Rightarrow> pipe_run race ps pp es y)"

lemma pipe_event_step: "pipe_event race ps pp e y = Some y' \<Longrightarrow> pipe_step race (set ps) pp y y'"
proof (induction race ps pp e y rule: pipe_event.induct)
  case (1 race ps pp p c y)
  then show ?case using pipe_call [of p "set ps" y c race pp] by (auto split: if_splits)
next
  case (2 race ps pp p y)
  then show ?case using pipe_writer [of p "set ps" y pp _ _ race] pipe_reader [of p "set ps" y pp _ _ race]
    by (auto simp: Let_def split: if_splits sum.splits prod.splits)
next
  case (3 race ps pp byte y)
  then show ?case using pipe_interrupt [of race "set ps" y pp byte]
    by (auto simp: list_all_iff split: if_splits prod.splits)
qed

lemma pipe_run_steps: "pipe_run race ps pp es y = Some y' \<Longrightarrow> (pipe_step race (set ps) pp)\<^sup>*\<^sup>* y y'"
proof (induction es arbitrary: y)
  case (Cons e es)
  then obtain y1 where "pipe_event race ps pp e y = Some y1" "pipe_run race ps pp es y1 = Some y'"
    by (auto split: option.splits)
  then show ?case using Cons.IH pipe_event_step by (meson converse_rtranclp_into_rtranclp)
qed simp

definition pipe_sample_state :: pstate where
  "pipe_sample_state = \<lparr>ps_k = sem_sample, ps_pipes = (\<lambda>_. undefined), ps_mem = (\<lambda>_. 0)\<rparr>"

definition pipe_sample :: pstate where
  "pipe_sample = snd (projr (pipe_create (fst heap_sample) 2 pipe_sample_state))"

definition idle_calls :: "u64 \<Rightarrow> call" where
  "idle_calls _ = \<lparr>cl_pc = IDLE, cl_i = 0, cl_len = 0, cl_buf = (\<lambda>_. 0)\<rparr>"

definition one_byte :: "ppc \<Rightarrow> u8 \<Rightarrow> call" where
  "one_byte l x = \<lparr>cl_pc = l, cl_i = 0, cl_len = 1, cl_buf = (\<lambda>_. x)\<rparr>"

lemma pipe_sample_create:
  "pipe_create (fst heap_sample) 2 pipe_sample_state = Inr (0x1020, pipe_sample)"
proof -
  have "(case pipe_create (fst heap_sample) 2 pipe_sample_state of Inl _ \<Rightarrow> False | Inr (pp, _) \<Rightarrow> pp = 0x1020)"
    by code_simp
  then show ?thesis unfolding pipe_sample_def by (auto split: sum.splits prod.splits)
qed

lemma pipe_sample_unblocked:
  "\<forall>p \<in> {0x1000, 0x3000}. \<not> is_blocked (ps_k pipe_sample_state) p \<and> cl_pc (idle_calls p) = IDLE"
  by (simp add: pipe_sample_state_def is_blocked_def sem_sample_def sched_sample_def idle_calls_def zero_process_def)

text \<open>One process writes the byte 7, an interrupt the byte 5, and a second process starts to read.\<close>

definition sample_events :: "pevent list" where
  "sample_events = Call 0x1000 (one_byte W_ENTER 7) # replicate 8 (Run 0x1000) @ [Interrupt 5] @
     [Call 0x3000 (one_byte R_ENTER 0)] @ replicate 4 (Run 0x3000)"

lemma sample_run:
  "\<exists>y. pipe_run False [0x1000, 0x3000] 0x1020 sample_events (pipe_start pipe_sample idle_calls) = Some y \<and>
     sy_written y = [7, 5] \<and> sy_read y = [7]"
proof -
  have "(case pipe_run False [0x1000, 0x3000] 0x1020 sample_events (pipe_start pipe_sample idle_calls) of
      None \<Rightarrow> False | Some y \<Rightarrow> sy_written y = [7, 5] \<and> sy_read y = [7])"
    by code_simp
  then show ?thesis by (auto split: option.splits)
qed

theorem pipe_fifo_witness:
  "\<exists>y. (pipe_step False {0x1000, 0x3000} 0x1020)\<^sup>*\<^sup>* (pipe_start pipe_sample idle_calls) y \<and>
     sy_written y = [7, 5] \<and> sy_read y = [7] \<and> sy_read y = take (length (sy_read y)) (sy_written y) \<and>
     length (sy_written y) \<le> length (sy_read y) + 2"
proof -
  obtain y where y: "pipe_run False [0x1000, 0x3000] 0x1020 sample_events (pipe_start pipe_sample idle_calls) = Some y"
    "sy_written y = [7, 5]" "sy_read y = [7]" using sample_run by blast
  have r: "(pipe_step False {0x1000, 0x3000} 0x1020)\<^sup>*\<^sup>* (pipe_start pipe_sample idle_calls) y"
    using pipe_run_steps [OF y(1)] by simp
  show ?thesis
    using pipe_fifo [OF pipe_sample_create _ _ _ _ _ pipe_sample_unblocked r] r y(2,3) by auto
qed

text \<open>A reader of the empty pipe waits.\<close>

definition wait_events :: "pevent list" where
  "wait_events = [Call 0x3000 (one_byte R_ENTER 0), Run 0x3000, Run 0x3000]"

lemma wait_run:
  "\<exists>y. pipe_run False [0x3000] 0x1020 wait_events
       (pipe_start pipe_sample idle_calls) = Some y \<and>
     is_blocked (ps_k (sy_st y)) 0x3000 \<and> cl_pc (sy_calls y 0x3000) = R_LOCK"
proof -
  have "(case pipe_run False [0x3000] 0x1020 wait_events
      (pipe_start pipe_sample idle_calls) of None \<Rightarrow> False
    | Some y \<Rightarrow> is_blocked (ps_k (sy_st y)) 0x3000 \<and> cl_pc (sy_calls y 0x3000) = R_LOCK)"
    by code_simp
  then show ?thesis by (auto split: option.splits)
qed

theorem pipe_waits_justified_witness:
  "\<exists>y. (pipe_step False {0x3000} 0x1020)\<^sup>*\<^sup>* (pipe_start pipe_sample idle_calls) y \<and>
     is_blocked (ps_k (sy_st y)) 0x3000 \<and> sy_read y = sy_written y"
proof -
  obtain y where y: "pipe_run False [0x3000] 0x1020 wait_events
       (pipe_start pipe_sample idle_calls) = Some y"
    "is_blocked (ps_k (sy_st y)) 0x3000" "cl_pc (sy_calls y 0x3000) = R_LOCK" using wait_run by blast
  have r: "(pipe_step False {0x3000} 0x1020)\<^sup>*\<^sup>* (pipe_start pipe_sample idle_calls) y"
    using pipe_run_steps [OF y(1)] by simp
  have u: "\<forall>p \<in> {0x3000}. \<not> is_blocked (ps_k pipe_sample_state) p \<and> cl_pc (idle_calls p) = IDLE"
    using pipe_sample_unblocked by simp
  show ?thesis
    using pipe_waits_justified [OF pipe_sample_create _ _ _ _ _ u r, of "0x3000"] r y(2,3) by auto
qed

text \<open>
  With an interrupt between storing a byte and advancing the position, the pipe is not a
  queue: \<open>pipe_try_write\<close> does not take the lock, so that it overwrites the byte just stored; a byte is lost
  and the reader gets the bytes in the wrong order.
\<close>

definition race_events :: "pevent list" where
  "race_events = Call 0x1000 (one_byte W_ENTER 7) # replicate 5 (Run 0x1000) @ [Interrupt 5] @
     replicate 3 (Run 0x1000) @ [Call 0x3000 (one_byte R_ENTER 0)] @ replicate 4 (Run 0x3000)"

theorem pipe_try_write_race:
  "\<exists>y. (pipe_step True {0x1000, 0x3000} 0x1020)\<^sup>*\<^sup>* (pipe_start pipe_sample idle_calls) y \<and>
     sy_written y = [7, 5] \<and> sy_read y = [5]"
proof -
  have "(case pipe_run True [0x1000, 0x3000] 0x1020 race_events (pipe_start pipe_sample idle_calls) of
      None \<Rightarrow> False | Some y \<Rightarrow> sy_written y = [7, 5] \<and> sy_read y = [5])"
    by code_simp
  then obtain y where y: "pipe_run True [0x1000, 0x3000] 0x1020 race_events (pipe_start pipe_sample idle_calls) = Some y"
    "sy_written y = [7, 5]" "sy_read y = [5]" by (auto split: option.splits)
  then show ?thesis using pipe_run_steps [OF y(1)] by auto
qed

end
