(* ===== verification/Initramfs.thy ===== *)
theory Initramfs
  imports HeapAlloc CString
begin

text \<open>
  The initial file system, \<open>src/src/fs/initramfs.c\<close>: looking up a file in the tar archive that the boot
  loader placed in memory, and the file operations on it.

  The address of the archive (\<open>module_request.response->modules[0]->address\<close>) is an argument.
  \<open>initramfs_lookup\<close> leaves its output argument alone when it finds nothing, so that the callers' local
  variables are arguments, too: \<open>out\<close> is what an uninitialised variable happens to hold.
\<close>

section \<open>State\<close>

record file_t =
  fl_path :: u64
  fl_offset :: u64
  fl_filesz :: u64

record fstate =
  fs_mem :: mem
  fs_heap :: kheap
  fs_files :: "u64 \<Rightarrow> file_t"

abbreviation sizeof_file_t :: u64 where "sizeof_file_t \<equiv> 24"

section \<open>Operations\<close>

definition oct2bin :: "mem \<Rightarrow> u64 \<Rightarrow> i32 \<Rightarrow> i32" where
  "oct2bin m str len =
     for_loop (nat (sint len)) (\<lambda>i n. n * 8 + (ucast (m (str + of_nat i)) - 0x30)) 0"

text \<open>The division of C, which rounds towards zero.\<close>

definition c_div :: "i32 \<Rightarrow> int \<Rightarrow> i32" where
  "c_div x d = (if 0 \<le> sint x then word_of_int (sint x div d) else word_of_int (- ((- sint x) div d)))"

definition is_ustar :: "mem \<Rightarrow> u64 \<Rightarrow> bool" where
  "is_ustar m p \<longleftrightarrow> bytes_at m (p + 257) 5 = map of_char ''ustar''"

definition tar_next :: "mem \<Rightarrow> u64 \<Rightarrow> u64" where
  "tar_next m p = p + scast ((c_div (oct2bin m (p + 0x7c) 11 + 511) 512 + 1) * 512)"

definition initramfs_lookup :: "mem \<Rightarrow> u64 \<Rightarrow> u64 \<Rightarrow> u64 \<Rightarrow> (i32 \<times> u64) res" where
  "initramfs_lookup m archive filename out =
     (if filename = NULL then Inr (- 1, out)
      else if \<not> is_ustar m archive then Inr (0, out)
      else bind_res (returns (strlen m filename)) (\<lambda>len.
        bind_res (returns (while_option
            (\<lambda>p. is_ustar m p \<and> memcmp m (p + 1) filename (len + 1) \<noteq> 0) (tar_next m) archive)) (\<lambda>p.
          if is_ustar m p then Inr (oct2bin m (p + 0x7c) 11, p + 512) else Inr (0, out))))"

definition initramfs_open :: "allocator \<Rightarrow> u64 \<Rightarrow> u64 \<Rightarrow> u64 \<Rightarrow> i32 \<Rightarrow> fstate \<Rightarrow> (u64 \<times> fstate) res" where
  "initramfs_open al archive out path flags s =
     bind_res (initramfs_lookup (fs_mem s) archive path out) (\<lambda>(filesz, out).
       if filesz = 0 \<or> out = NULL then Inr (NULL, s)
       else bind_res (alloc al sizeof_file_t (fs_heap s)) (\<lambda>(file, h).
         let s = s\<lparr>fs_heap := h\<rparr> in
         if file = NULL then Inr (NULL, s)
         else bind_res (returns (strlen (fs_mem s) path)) (\<lambda>len.
           bind_res (alloc al (len + 1) (fs_heap s)) (\<lambda>(fpath, h).
             let s = s\<lparr>fs_heap := h, fs_files := upd file (\<lambda>f. f\<lparr>fl_path := fpath\<rparr>) (fs_files s)\<rparr> in
             if fpath = NULL
             then bind_res (free al file (fs_heap s)) (\<lambda>h. Inr (NULL, s\<lparr>fs_heap := h\<rparr>))
             else bind_res (returns (strcpy (fs_mem s) fpath path)) (\<lambda>(_, m).
               Inr (file, s\<lparr>fs_mem := m, fs_files :=
                 upd file (\<lambda>f. f\<lparr>fl_offset := 0, fl_filesz := scast filesz\<rparr>) (fs_files s)\<rparr>))))))"

definition initramfs_read :: "u64 \<Rightarrow> u64 \<Rightarrow> u64 \<Rightarrow> u64 \<Rightarrow> u64 \<Rightarrow> fstate \<Rightarrow> (u64 \<times> fstate) res" where
  "initramfs_read archive file_buf file buf count s =
     bind_res (initramfs_lookup (fs_mem s) archive (fl_path (fs_files s file)) file_buf) (\<lambda>(filesz, file_buf).
       let offset = fl_offset (fs_files s file) in
       if offset \<ge> scast filesz then Inr (0, s)
       else let remaining = scast filesz - offset;
                to_copy = (if count < remaining then count else remaining)
            in Inr (to_copy, s\<lparr>fs_mem := snd (memcpy (fs_mem s) buf (file_buf + offset) to_copy),
                 fs_files := upd file (\<lambda>f. f\<lparr>fl_offset := fl_offset f + to_copy\<rparr>) (fs_files s)\<rparr>))"

definition initramfs_write :: "u64 \<Rightarrow> u64 \<Rightarrow> u64 \<Rightarrow> fstate \<Rightarrow> (u64 \<times> fstate) res" where
  "initramfs_write file buf count s = Inr (0, s)"

text \<open>The function has no \<open>return\<close>: its result \<open>ret\<close> is undetermined.\<close>

definition initramfs_close :: "allocator \<Rightarrow> i32 \<Rightarrow> u64 \<Rightarrow> fstate \<Rightarrow> (i32 \<times> fstate) res" where
  "initramfs_close al ret file s =
     bind_res (free al (fl_path (fs_files s file)) (fs_heap s)) (\<lambda>h.
     bind_res (free al file h) (\<lambda>h. Inr (ret, s\<lparr>fs_heap := h\<rparr>)))"

section \<open>Archives\<close>

text \<open>The digits of a number, most significant first, and reading them back.\<close>

primrec octal :: "nat \<Rightarrow> nat \<Rightarrow> u8 list" where
  "octal 0 n = []"
| "octal (Suc k) n = octal k (n div 8) @ [0x30 + of_nat (n mod 8)]"

text \<open>
  An archive at address \<open>p\<close> with the given names and contents.  A name is stored behind one
  byte, the dot of \<open>./usr/bin/init\<close>; the archive ends at the first block without the magic string.
\<close>

definition blocks_of :: "nat \<Rightarrow> nat" where
  "blocks_of n = 512 * Suc ((n + 511) div 512)"

primrec tar_at :: "mem \<Rightarrow> u64 \<Rightarrow> (u8 list \<times> u8 list) list \<Rightarrow> bool" where
  "tar_at m p [] = (\<not> is_ustar m p)"
| "tar_at m p (e # es) = (is_ustar m p \<and> cstring m (p + 1) (fst e) \<and> length (fst e) < 99 \<and>
     length (snd e) < 2 ^ 31 - 1024 \<and>
     bytes_at m (p + 0x7c) 11 = octal 11 (length (snd e)) \<and> bytes_at m (p + 512) (length (snd e)) = snd e \<and>
     tar_at m (p + of_nat (blocks_of (length (snd e)))) es)"

primrec tar_size :: "(u8 list \<times> u8 list) list \<Rightarrow> nat" where
  "tar_size [] = 512"
| "tar_size (e # es) = blocks_of (length (snd e)) + tar_size es"

lemma oct2bin_foldl:
  "oct2bin m s n = foldl (\<lambda>a d. a * 8 + (ucast d - 0x30)) 0 (bytes_at m s (nat (sint n)))"
proof -
  have "for_loop k (\<lambda>i n. n * 8 + (ucast (m (s + of_nat i)) - 0x30)) 0 =
      foldl (\<lambda>a d. a * 8 + (ucast d - 0x30)) (0 :: i32) (bytes_at m s k)" for k
    by (induction k) (simp_all add: bytes_at_def)
  then show ?thesis by (simp add: oct2bin_def)
qed

lemma octal_digit: "(ucast (0x30 + of_nat (n mod 8) :: u8) - 0x30 :: i32) = of_nat (n mod 8)"
proof -
  have "\<forall>d \<in> set [0..<8]. n mod 8 = d \<longrightarrow> (ucast (0x30 + of_nat (n mod 8) :: u8) - 0x30 :: i32) = of_nat (n mod 8)"
    by (simp add: upt_rec)
  then show ?thesis by simp
qed

lemma foldl_octal: "foldl (\<lambda>a d. a * 8 + (ucast d - 0x30)) (0 :: i32) (octal k n) = of_nat (n mod 8 ^ k)"
proof (induction k arbitrary: n)
  case 0
  then show ?case by simp
next
  case (Suc k)
  have "n mod 8 ^ Suc k = 8 * (n div 8 mod 8 ^ k) + n mod 8" by (simp add: mod_mult2_eq)
  then have "(of_nat (n mod 8 ^ Suc k) :: i32) = of_nat (n div 8 mod 8 ^ k) * 8 + of_nat (n mod 8)"
    by (simp only: of_nat_add of_nat_mult of_nat_numeral mult.commute)
  then show ?case using Suc octal_digit [of n] by simp
qed

lemma octal_size:
  assumes "bytes_at m s 11 = octal 11 n" "n < 2 ^ 31" shows "oct2bin m s 11 = of_nat n"
proof -
  have "oct2bin m s 11 = of_nat (n mod 8 ^ 11)"
    using foldl_octal [of 11 n] assms(1) by (simp add: oct2bin_foldl del: octal.simps foldl_append)
  moreover have "n mod 8 ^ 11 = n" using assms(2) by (intro mod_less) simp
  ultimately show ?thesis by simp
qed

lemma c_div_small: "k < 2 ^ 31 \<Longrightarrow> 0 < d \<Longrightarrow> c_div (of_nat k) (int d) = of_nat (k div d)"
  using sint_small [of k] by (simp add: c_div_def flip: of_nat_div)

lemma tar_next_blocks:
  assumes "oct2bin m (p + 0x7c) 11 = of_nat n" "n < 2 ^ 31 - 1024"
  shows "tar_next m p = p + of_nat (blocks_of n)"
proof -
  have b: "blocks_of n < 2 ^ 31"
  proof -
    have "512 * ((n + 511) div 512) \<le> n + 511" by simp
    then show ?thesis using assms(2) by (simp add: blocks_of_def)
  qed
  have "(oct2bin m (p + 0x7c) 11 + 511 :: i32) = of_nat (n + 511)" using assms(1) by simp
  then have "c_div (oct2bin m (p + 0x7c) 11 + 511) 512 = of_nat ((n + 511) div 512)"
    using c_div_small [of "n + 511" 512] assms(2) by simp
  then have "(c_div (oct2bin m (p + 0x7c) 11 + 511) 512 + 1) * 512 = of_nat (blocks_of n)"
    by (simp add: blocks_of_def algebra_simps)
  then show ?thesis using scast_small [OF b] by (simp add: tar_next_def)
qed

lemma cstring_shift:
  "cstring m b ys \<Longrightarrow> (\<And>i. i \<le> length ys \<Longrightarrow> m' (a + of_nat i) = m (b + of_nat i)) \<Longrightarrow> cstring m' a ys"
proof (induction ys arbitrary: a b)
  case Nil
  then show ?case by force
next
  case (Cons y ys)
  have "cstring m' (a + 1) ys"
  proof (rule Cons.IH)
    show "cstring m (b + 1) ys" using Cons.prems(1) by simp
    show "m' (a + 1 + of_nat i) = m (b + 1 + of_nat i)" if "i \<le> length ys" for i
      using Cons.prems(2) [of "Suc i"] that by (simp add: add.assoc)
  qed
  then show ?case using Cons.prems(1) Cons.prems(2) [of 0] by simp
qed

lemma memcmp_name:
  assumes a: "cstring m a xs" and b: "cstring m b ys" and n: "length ys + 1 < 2 ^ 64"
  shows "memcmp m a b (of_nat (length ys) + 1) = 0 \<longleftrightarrow> xs = ys"
proof -
  have len: "unat (of_nat (length ys) + 1 :: u64) = length ys + 1"
    using n unat_of_nat_u64 [of "length ys + 1"] by (simp add: add.commute)
  have "memcmp m a b (of_nat (length ys) + 1) = 0 \<longleftrightarrow> (\<forall>i < length ys + 1. m (a + of_nat i) = m (b + of_nat i))"
    unfolding memcmp_zero len by (rule bytes_at_eq_iff)
  also have "\<dots> \<longleftrightarrow> xs = ys"
  proof
    assume e: "\<forall>i < length ys + 1. m (a + of_nat i) = m (b + of_nat i)"
    have "cstring m a ys"
      using b by (rule cstring_shift) (use e in auto)
    then show "xs = ys" using a cstring_unique by blast
  next
    assume "xs = ys"
    then show "\<forall>i < length ys + 1. m (a + of_nat i) = m (b + of_nat i)"
      using cstring_nth [OF a] cstring_nth [OF b] cstring_length [OF a] cstring_length [OF b]
      by (auto simp: less_Suc_eq)
  qed
  finally show ?thesis .
qed

text \<open>The search loop on an archive.\<close>

lemma lookup_loop:
  assumes f: "cstring m fn nm" "length nm + 1 < 2 ^ 64"
  defines "c \<equiv> \<lambda>p. is_ustar m p \<and> memcmp m (p + 1) fn (of_nat (length nm) + 1) \<noteq> 0"
  shows "tar_at m p es \<Longrightarrow> \<exists>k. while_option c (tar_next m) p = Some (p + of_nat k) \<and>
    (case find (\<lambda>e. fst e = nm) es of None \<Rightarrow> \<not> is_ustar m (p + of_nat k)
     | Some e \<Rightarrow> is_ustar m (p + of_nat k) \<and> oct2bin m (p + of_nat k + 0x7c) 11 = of_nat (length (snd e)) \<and>
         bytes_at m (p + of_nat k + 512) (length (snd e)) = snd e \<and> length (snd e) < 2 ^ 31 \<and>
         k + 512 + length (snd e) \<le> tar_size es)"
proof (induction es arbitrary: p)
  case Nil
  then have "while_option c (tar_next m) p = Some (p + of_nat 0)" by (subst while_option_unfold) (simp add: c_def)
  then show ?case using Nil by (intro exI [of _ 0]) simp
next
  case (Cons e es)
  let ?b = "blocks_of (length (snd e))"
  from Cons.prems have e: "is_ustar m p" "cstring m (p + 1) (fst e)" "length (snd e) < 2 ^ 31 - 1024"
    "bytes_at m (p + 0x7c) 11 = octal 11 (length (snd e))" "bytes_at m (p + 512) (length (snd e)) = snd e"
    "tar_at m (p + of_nat ?b) es" by (simp_all del: octal.simps)
  have sz: "oct2bin m (p + 0x7c) 11 = of_nat (length (snd e))" using octal_size [OF e(4)] e(3) by simp
  have bl: "512 + length (snd e) \<le> ?b" unfolding blocks_of_def by simp
  note mc = memcmp_name [OF e(2) f]
  show ?case
  proof (cases "fst e = nm")
    case True
    then have "while_option c (tar_next m) p = Some (p + of_nat 0)"
      using mc by (subst while_option_unfold) (simp add: c_def)
    then show ?thesis using e sz bl True by (intro exI [of _ 0]) simp
  next
    case False
    have eq: "p + of_nat ?b + of_nat k = p + of_nat (?b + k)" for k by simp
    from Cons.IH [OF e(6)] obtain k where k: "while_option c (tar_next m) (p + of_nat ?b) = Some (p + of_nat (?b + k))"
      "case find (\<lambda>e. fst e = nm) es of None \<Rightarrow> \<not> is_ustar m (p + of_nat (?b + k))
       | Some e \<Rightarrow> is_ustar m (p + of_nat (?b + k)) \<and> oct2bin m (p + of_nat (?b + k) + 0x7c) 11 = of_nat (length (snd e)) \<and>
         bytes_at m (p + of_nat (?b + k) + 512) (length (snd e)) = snd e \<and> length (snd e) < 2 ^ 31 \<and>
         k + 512 + length (snd e) \<le> tar_size es"
      unfolding eq by blast
    have "while_option c (tar_next m) p = Some (p + of_nat (?b + k))"
      using k(1) False mc e(1) tar_next_blocks [OF sz e(3)] by (subst while_option_unfold) (simp add: c_def)
    then show ?thesis using k(2) False by (intro exI [of _ "?b + k"]) (auto split: option.splits)
  qed
qed

lemma initramfs_lookup_found:
  assumes "tar_at m archive es" "cstring m fn nm" "length nm + 1 < 2 ^ 64" "fn \<noteq> NULL"
  shows "case find (\<lambda>e. fst e = nm) es of
      None \<Rightarrow> initramfs_lookup m archive fn out = Inr (0, out)
    | Some e \<Rightarrow> \<exists>k. initramfs_lookup m archive fn out = Inr (of_nat (length (snd e)), archive + of_nat k) \<and>
        k + length (snd e) \<le> tar_size es \<and> bytes_at m (archive + of_nat k) (length (snd e)) = snd e \<and>
        length (snd e) < 2 ^ 31"
proof -
  obtain k where k: "while_option (\<lambda>p. is_ustar m p \<and> memcmp m (p + 1) fn (of_nat (length nm) + 1) \<noteq> 0)
      (tar_next m) archive = Some (archive + of_nat k)"
    "case find (\<lambda>e. fst e = nm) es of None \<Rightarrow> \<not> is_ustar m (archive + of_nat k)
     | Some e \<Rightarrow> is_ustar m (archive + of_nat k) \<and>
         oct2bin m (archive + of_nat k + 0x7c) 11 = of_nat (length (snd e)) \<and>
         bytes_at m (archive + of_nat k + 512) (length (snd e)) = snd e \<and> length (snd e) < 2 ^ 31 \<and>
         k + 512 + length (snd e) \<le> tar_size es"
    using lookup_loop [OF assms(2,3,1)] by blast
  have "es \<noteq> [] \<Longrightarrow> is_ustar m archive" using assms(1) by (cases es) auto
  moreover have "archive + of_nat k + 512 = archive + of_nat (k + 512)" by simp
  ultimately show ?thesis using k assms(1,4) strlen_cstring [OF assms(2)]
    by (cases "es = []")
      (auto simp: initramfs_lookup_def add.assoc split: option.splits intro!: exI [of _ "k + 512"])
qed

lemma bytes_at_part:
  assumes "bytes_at m a l = xs" "d + n \<le> l"
  shows "bytes_at m (a + of_nat d) n = take n (drop d xs)"
proof (rule nth_equalityI)
  show "length (bytes_at m (a + of_nat d) n) = length (take n (drop d xs))"
    using assms by (simp add: assms(1) [symmetric])
next
  fix i assume "i < length (bytes_at m (a + of_nat d) n)"
  then have i: "i < n" by simp
  have "xs ! (d + i) = m (a + of_nat (d + i))"
    using assms i nth_bytes_at [of "d + i" l m a] by simp
  then show "bytes_at m (a + of_nat d) n ! i = take n (drop d xs) ! i"
    using i assms by (auto simp: add.assoc)
qed

text \<open>Reading a file, at any offset.\<close>

lemma initramfs_read_found:
  assumes t: "tar_at (fs_mem s) archive es" and e: "find (\<lambda>e. fst e = nm) es = Some e"
    and path: "cstring (fs_mem s) (fl_path (fs_files s file)) nm" "length nm + 1 < 2 ^ 64" "fl_path (fs_files s file) \<noteq> NULL"
    and o: "unat (fl_offset (fs_files s file)) = d" "d \<le> length (snd e)"
    and buf: "\<And>x. in_range x archive (tar_size es) \<Longrightarrow> \<not> in_range x buf (unat count)"
  defines "n \<equiv> min (unat count) (length (snd e) - d)"
  shows "\<exists>s'. initramfs_read archive g file buf count s = Inr (of_nat n, s') \<and>
    bytes_at (fs_mem s') buf n = take n (drop d (snd e)) \<and>
    (\<forall>x. \<not> in_range x buf n \<longrightarrow> fs_mem s' x = fs_mem s x) \<and>
    fs_files s' = upd file (\<lambda>f. f\<lparr>fl_offset := of_nat (d + n)\<rparr>) (fs_files s) \<and> fs_heap s' = fs_heap s"
proof -
  obtain k where k: "initramfs_lookup (fs_mem s) archive (fl_path (fs_files s file)) g =
      Inr (of_nat (length (snd e)), archive + of_nat k)" "k + length (snd e) \<le> tar_size es"
    "bytes_at (fs_mem s) (archive + of_nat k) (length (snd e)) = snd e" "length (snd e) < 2 ^ 31"
    using initramfs_lookup_found [OF t path, of g] e by auto
  have sz: "(scast (of_nat (length (snd e)) :: i32) :: u64) = of_nat (length (snd e))" by (rule scast_small [OF k(4)])
  have off: "fl_offset (fs_files s file) = of_nat d" using o(1) by auto
  have lt: "d < 2 ^ 64" "length (snd e) < 2 ^ 64" "length (snd e) - d < 2 ^ 64" using o(2) k(4) by simp_all
  have n: "n \<le> unat count" "d + n \<le> length (snd e)" "n < 2 ^ 64" using o(2) lt by (auto simp: n_def)
  have cmp: "fl_offset (fs_files s file) \<ge> of_nat (length (snd e)) \<longleftrightarrow> d = length (snd e)"
    using o lt by (auto simp: word_le_nat_alt unat_of_nat_u64 off)
  let ?m = "snd (memcpy (fs_mem s) buf (archive + of_nat k + of_nat d) (of_nat n))"
  have src: "\<not> in_range (archive + of_nat k + of_nat d + of_nat i) buf (unat (of_nat n :: u64))"
    if "i < unat (of_nat n :: u64)" for i
  proof -
    have i: "i < n" using that n(3) by (simp add: unat_of_nat_u64)
    have "archive + of_nat k + of_nat d + of_nat i = archive + of_nat (k + d + i)" by simp
    then have "in_range (archive + of_nat k + of_nat d + of_nat i) archive (tar_size es)"
      using i n(2) k(2) in_range_offset [of "k + d + i" "tar_size es" archive]
      by (simp add: add.assoc)
    then show ?thesis using buf n(1,3) by (auto simp: unat_of_nat_u64 in_range_def)
  qed
  have b: "bytes_at ?m buf n = bytes_at (fs_mem s) (archive + of_nat k + of_nat d) n"
    "\<And>x. \<not> in_range x buf n \<Longrightarrow> ?m x = fs_mem s x"
    using memcpy_block [OF src] n(3) by (simp_all add: unat_of_nat_u64)
  have "bytes_at (fs_mem s) (archive + of_nat k + of_nat d) n = take n (drop d (snd e))"
    by (rule bytes_at_part [OF k(3) n(2)])
  moreover have "initramfs_read archive g file buf count s = Inr (of_nat n,
      s\<lparr>fs_mem := ?m, fs_files := upd file (\<lambda>f. f\<lparr>fl_offset := of_nat (d + n)\<rparr>) (fs_files s)\<rparr>)"
  proof (cases "d = length (snd e)")
    case True
    then have "n = 0" by (simp add: n_def)
    moreover have "upd file (\<lambda>f. f\<lparr>fl_offset := of_nat d\<rparr>) (fs_files s) = fs_files s"
      unfolding upd_def off [symmetric] by simp
    ultimately show ?thesis using True cmp k(1) sz by (simp add: initramfs_read_def memcpy_def)
  next
    case False
    have r: "of_nat (length (snd e)) - fl_offset (fs_files s file) = (of_nat (length (snd e) - d) :: u64)"
      using o(2) by (simp add: off of_nat_diff)
    have tc: "(if count < of_nat (length (snd e)) - fl_offset (fs_files s file) then count
        else of_nat (length (snd e)) - fl_offset (fs_files s file)) = of_nat n"
      unfolding r using lt(3) by (auto simp: n_def word_less_nat_alt unat_of_nat_u64 min_def)
    have "fl_offset (fs_files s file) + of_nat n = of_nat (d + n)" by (simp add: off)
    moreover have "\<not> fl_offset (fs_files s file) \<ge> of_nat (length (snd e))" using False cmp by simp
    ultimately show ?thesis
      unfolding initramfs_read_def k(1) bind_res_simps prod.case Let_def sz tc upd_def by (simp add: off)
  qed
  ultimately show ?thesis using b by auto
qed

text \<open>Changes outside the archive leave it alone.\<close>

lemma bytes_at_frame:
  assumes "\<And>x. in_range x p l \<Longrightarrow> m' x = m x" "d + n \<le> l"
  shows "bytes_at m' (p + of_nat d) n = bytes_at m (p + of_nat d) n"
proof (rule bytes_at_cong)
  fix i assume "i < n"
  then have "in_range (p + of_nat (d + i)) p l" using assms(2) by (intro in_range_offset) simp
  then show "m' (p + of_nat d + of_nat i) = m (p + of_nat d + of_nat i)" using assms(1) by (simp add: add.assoc)
qed

lemma tar_at_frame:
  "tar_at m p es \<Longrightarrow> (\<And>x. in_range x p (tar_size es) \<Longrightarrow> m' x = m x) \<Longrightarrow> tar_at m' p es"
proof (induction es arbitrary: p)
  case Nil
  then show ?case using bytes_at_frame [of p 512 m' m 257 5] by (simp add: is_ustar_def)
next
  case (Cons e es)
  let ?b = "blocks_of (length (snd e))"
  have b: "512 + length (snd e) \<le> ?b" by (simp add: blocks_of_def)
  have fr: "bytes_at m' (p + of_nat d) n = bytes_at m (p + of_nat d) n" if "d + n \<le> ?b" for d n
    by (rule bytes_at_frame [of p "tar_size (e # es)"]) (use Cons.prems(2) that in auto)
  have "is_ustar m' p = is_ustar m p" using fr [of 257 5] b by (simp add: is_ustar_def)
  moreover have "cstring m' (p + 1) (fst e)" if "cstring m (p + 1) (fst e)" "length (fst e) < 99"
    using that(1)
  proof (rule cstring_frame)
    fix i assume "i \<le> length (fst e)"
    then have "Suc i < tar_size (e # es)" using that(2) b by simp
    from Cons.prems(2) [OF in_range_offset [OF this]] show "m' (p + 1 + of_nat i) = m (p + 1 + of_nat i)"
      by (simp add: add.assoc)
  qed
  moreover have "tar_at m' (p + of_nat ?b) es"
  proof (rule Cons.IH)
    show "tar_at m (p + of_nat ?b) es" using Cons.prems(1) by simp
    fix x assume "in_range x (p + of_nat ?b) (tar_size es)"
    then obtain i where "i < tar_size es" "x = p + of_nat (?b + i)" by (auto simp: in_range_def add.assoc)
    then show "m' x = m x" using Cons.prems(2) in_range_offset [of "?b + i" "tar_size (e # es)" p] by simp
  qed
  moreover have "bytes_at m' (p + 0x7c) 11 = bytes_at m (p + 0x7c) 11"
    "bytes_at m' (p + 512) (length (snd e)) = bytes_at m (p + 512) (length (snd e))"
    using fr [of 124 11] fr [of 512 "length (snd e)"] b by simp_all
  ultimately show ?case using Cons.prems(1) by (simp del: octal.simps)
qed

lemma initramfs_open_found:
  assumes t: "tar_at (fs_mem s) archive es" and e: "find (\<lambda>e. fst e = nm) es = Some e" "snd e \<noteq> []"
    and path: "cstring (fs_mem s) path nm" "length nm + 1 < 2 ^ 64" "path \<noteq> NULL"
    and lo: "unat archive + tar_size es < 2 ^ 64" "archive \<noteq> NULL"
    and al: "alloc al 24 (fs_heap s) = Inr (file, h1)" "file \<noteq> NULL"
      "alloc al (of_nat (length nm) + 1) h1 = Inr (fpath, h2)" "fpath \<noteq> NULL"
    and src: "\<And>i. i \<le> length nm \<Longrightarrow> \<not> in_range (path + of_nat i) fpath (length nm + 1)"
  shows "\<exists>s'. initramfs_open al archive g path flags s = Inr (file, s') \<and> cstring (fs_mem s') fpath nm \<and>
    (\<forall>x. \<not> in_range x fpath (length nm + 1) \<longrightarrow> fs_mem s' x = fs_mem s x) \<and> fs_heap s' = h2 \<and>
    fs_files s' = (fs_files s)(file := (fs_files s file)\<lparr>fl_path := fpath, fl_offset := 0,
      fl_filesz := of_nat (length (snd e))\<rparr>)"
proof -
  obtain k where k: "initramfs_lookup (fs_mem s) archive path g = Inr (of_nat (length (snd e)), archive + of_nat k)"
    "k + length (snd e) \<le> tar_size es" "length (snd e) < 2 ^ 31"
    using initramfs_lookup_found [OF t path, of g] e by auto
  have "sint (of_nat (length (snd e)) :: i32) = int (length (snd e))" by (rule sint_small [OF k(3)])
  then have nz: "(of_nat (length (snd e)) :: i32) \<noteq> 0" using e(2) by auto
  have "unat (archive + of_nat k) = unat archive + k"
    using lo(1) k(2) e(2) by (intro unat_add_of_nat_u64) (cases "snd e"; simp)
  moreover have "0 < unat archive" using lo(2) by (simp add: unat_gt_0)
  ultimately have np: "archive + of_nat k \<noteq> NULL" by auto
  have "length nm < 2 ^ 64" using path(2) by simp
  then obtain m' where m': "strcpy (fs_mem s) fpath path = Some (fpath, m')" "cstring m' fpath nm"
    "\<forall>x. \<not> in_range x fpath (length nm + 1) \<longrightarrow> m' x = fs_mem s x"
    using strcpy_cstring [OF path(1) _ src] by (auto simp: strcpy_def)
  show ?thesis
    using k(1) nz np al m' strlen_cstring [OF path(1)] scast_small [OF k(3)]
    by (simp add: initramfs_open_def upd_def Let_def)
qed

section \<open>Files as streams\<close>

text \<open>Consecutive reads into one buffer, and the bytes they deliver.\<close>

primrec read_seq :: "(u64 \<Rightarrow> 's \<Rightarrow> (u64 \<times> 's) res) \<Rightarrow> (nat \<Rightarrow> 's \<Rightarrow> u8 list) \<Rightarrow> u64 list \<Rightarrow> 's \<Rightarrow> (u8 list \<times> 's) res" where
  "read_seq rd bb [] s = Inr ([], s)"
| "read_seq rd bb (c # cs) s =
     bind_res (rd c s) (\<lambda>(n, s).
     bind_res (read_seq rd bb cs s) (\<lambda>(bs, s'). Inr (bb (unat n) s @ bs, s')))"

text \<open>
  The contract of reading an open file: \<open>holds data d s\<close> says that in state \<open>s\<close> the file has the
  contents \<open>data\<close> and stands at offset \<open>d\<close>.
\<close>

locale byte_stream =
  fixes rd :: "u64 \<Rightarrow> 's \<Rightarrow> (u64 \<times> 's) res"
    and bb :: "nat \<Rightarrow> 's \<Rightarrow> u8 list"
    and holds :: "u8 list \<Rightarrow> nat \<Rightarrow> 's \<Rightarrow> bool"
    and N :: nat
  assumes rd_law: "holds data d s \<Longrightarrow> unat c \<le> N \<Longrightarrow>
      \<exists>s'. rd c s = Inr (of_nat (min (unat c) (length data - d)), s') \<and>
        bb (min (unat c) (length data - d)) s' = take (min (unat c) (length data - d)) (drop d data) \<and>
        holds data (d + min (unat c) (length data - d)) s'"
begin

lemma read_seq_delivers:
  "holds data d s \<Longrightarrow> \<forall>c \<in> set cs. unat c \<le> N \<Longrightarrow>
   \<exists>s' d'. read_seq rd bb cs s = Inr (take (sum_list (map unat cs)) (drop d data), s') \<and> holds data d' s'"
proof (induction cs arbitrary: s d)
  case Nil
  then show ?case by auto
next
  case (Cons c cs)
  define n where "n = min (unat c) (length data - d)"
  have n: "n < 2 ^ 64" using unat_u64_lt [of c] by (simp add: n_def)
  obtain s1 where s1: "rd c s = Inr (of_nat n, s1)" "bb n s1 = take n (drop d data)" "holds data (d + n) s1"
    using rd_law [OF Cons.prems(1), of c] Cons.prems(2) unfolding n_def by auto
  obtain s' d' where s': "read_seq rd bb cs s1 = Inr (take (sum_list (map unat cs)) (drop (d + n) data), s')"
    "holds data d' s'" using Cons.IH [OF s1(3)] Cons.prems(2) by auto
  have "take n (drop d data) @ take (sum_list (map unat cs)) (drop (d + n) data) =
      take (unat c + sum_list (map unat cs)) (drop d data)"
    by (cases "unat c \<le> length data - d") (auto simp: n_def take_add add.commute)
  then show ?case using s1(1,2) s' n by (auto simp: unat_of_nat_u64)
qed

end

text \<open>An open file of the archive, and a buffer of \<open>N\<close> bytes apart from the archive and the path.\<close>

definition initramfs_file ::
    "u64 \<Rightarrow> (u8 list \<times> u8 list) list \<Rightarrow> u8 list \<Rightarrow> u64 \<Rightarrow> u64 \<Rightarrow> u64 \<Rightarrow> nat \<Rightarrow> u8 list \<Rightarrow> nat \<Rightarrow> fstate \<Rightarrow> bool" where
  "initramfs_file archive es nm fpath file buf N data d s \<longleftrightarrow>
     tar_at (fs_mem s) archive es \<and> (\<exists>e. find (\<lambda>e. fst e = nm) es = Some e \<and> snd e = data) \<and>
     cstring (fs_mem s) fpath nm \<and> length nm + 1 < 2 ^ 64 \<and> fpath \<noteq> NULL \<and> fl_path (fs_files s file) = fpath \<and>
     unat (fl_offset (fs_files s file)) = d \<and> d \<le> length data \<and>
     (\<forall>x. in_range x archive (tar_size es) \<or> in_range x fpath (length nm + 1) \<longrightarrow> \<not> in_range x buf N)"

lemma initramfs_file_read:
  assumes f: "initramfs_file archive es nm fpath file buf N data d s" and c: "unat c \<le> N"
  defines "n \<equiv> min (unat c) (length data - d)"
  shows "\<exists>s'. initramfs_read archive g file buf c s = Inr (of_nat n, s') \<and>
    bytes_at (fs_mem s') buf n = take n (drop d data) \<and>
    initramfs_file archive es nm fpath file buf N data (d + n) s' \<and>
    (\<forall>x. \<not> in_range x buf N \<longrightarrow> fs_mem s' x = fs_mem s x) \<and> fs_heap s' = fs_heap s \<and>
    (\<forall>h. fl_path (fs_files s' h) = fl_path (fs_files s h) \<and> fl_filesz (fs_files s' h) = fl_filesz (fs_files s h))"
proof -
  note F = f [unfolded initramfs_file_def]
  from F obtain e where e: "find (\<lambda>e. fst e = nm) es = Some e" "snd e = data" by blast
  have nN: "n \<le> N" "d + n \<le> length data" using c F by (auto simp: n_def)
  have t: "tar_at (fs_mem s) archive es" and path: "cstring (fs_mem s) (fl_path (fs_files s file)) nm"
      "length nm + 1 < 2 ^ 64" "fl_path (fs_files s file) \<noteq> NULL"
    and off: "unat (fl_offset (fs_files s file)) = d" "d \<le> length (snd e)" using F e(2) by auto
  have buf: "\<not> in_range x buf (unat c)" if "in_range x archive (tar_size es)" for x
    using F that in_range_mono [OF _ c] by blast
  obtain s1 where s1: "initramfs_read archive g file buf c s = Inr (of_nat n, s1)"
    "bytes_at (fs_mem s1) buf n = take n (drop d data)"
    "\<forall>x. \<not> in_range x buf n \<longrightarrow> fs_mem s1 x = fs_mem s x"
    "fs_files s1 = upd file (\<lambda>f. f\<lparr>fl_offset := of_nat (d + n)\<rparr>) (fs_files s)" "fs_heap s1 = fs_heap s"
    using initramfs_read_found [OF t e(1) path off buf, of g] unfolding n_def e(2) by blast
  have fr: "fs_mem s1 x = fs_mem s x" if "\<not> in_range x buf N" for x
    using s1(3) in_range_mono [OF _ nN(1)] that by blast
  have "length data < 2 ^ 31" using initramfs_lookup_found [OF t path, of 0] e by auto
  then have d': "unat (of_nat (d + n) :: u64) = d + n" using nN(2) by (intro unat_of_nat_u64) simp
  have "tar_at (fs_mem s1) archive es" by (rule tar_at_frame [OF t]) (use F fr in auto)
  moreover have "cstring (fs_mem s1) fpath nm"
  proof (rule cstring_frame)
    show "cstring (fs_mem s) fpath nm" using F by blast
    show "fs_mem s1 (fpath + of_nat i) = fs_mem s (fpath + of_nat i)" if "i \<le> length nm" for i
      using F fr in_range_offset [of i "length nm + 1" fpath] that by auto
  qed
  ultimately have "initramfs_file archive es nm fpath file buf N data (d + n) s1"
    using F s1(4) d' nN(2) by (auto simp: initramfs_file_def upd_def simp del: of_nat_add)
  then show ?thesis using s1 fr by (auto simp: upd_def)
qed

interpretation initramfs_stream: byte_stream "initramfs_read archive g fp buf" "\<lambda>n s. bytes_at (fs_mem s) buf n"
  "initramfs_file archive es nm fpath fp buf N" N
  for archive g fp buf es nm fpath N
  by unfold_locales (use initramfs_file_read in \<open>blast\<close>)

section \<open>Properties\<close>

text \<open>
  On a well-formed archive \<open>initramfs_lookup\<close> ends and finds the first file with the name: it
  returns its length and the address of its contents; for a name that is not in the archive it returns 0
  and leaves the output variable as it was.
\<close>

theorem initramfs_lookup_correct:
  assumes "tar_at m archive es" "cstring m filename nm" "length nm + 1 < 2 ^ 64" "filename \<noteq> NULL"
  shows "case find (\<lambda>e. fst e = nm) es of
      None \<Rightarrow> initramfs_lookup m archive filename out = Inr (0, out)
    | Some e \<Rightarrow> \<exists>p. initramfs_lookup m archive filename out = Inr (of_nat (length (snd e)), p) \<and>
        bytes_at m p (length (snd e)) = snd e"
  using initramfs_lookup_found [OF assms, of out] by (auto split: option.splits)

text \<open>
  Opening a non-empty file of the archive and reading it in pieces of any sizes delivers its
  contents in order, without a gap, up to its end.
\<close>

theorem initramfs_open_read:
  assumes t: "tar_at (fs_mem s) archive es" and e: "find (\<lambda>e. fst e = nm) es = Some e" "snd e \<noteq> []"
    and path: "cstring (fs_mem s) path nm" "length nm + 1 < 2 ^ 64" "path \<noteq> NULL"
    and lo: "unat archive + tar_size es < 2 ^ 64" "archive \<noteq> NULL"
    and al: "alloc al 24 (fs_heap s) = Inr (file, h1)" "file \<noteq> NULL"
      "alloc al (of_nat (length nm) + 1) h1 = Inr (fpath, h2)" "fpath \<noteq> NULL"
    and src: "\<And>i. i \<le> length nm \<Longrightarrow> \<not> in_range (path + of_nat i) fpath (length nm + 1)"
    and arch: "\<And>x. in_range x archive (tar_size es) \<Longrightarrow> \<not> in_range x buf N \<and> \<not> in_range x fpath (length nm + 1)"
    and buf: "\<And>x. in_range x fpath (length nm + 1) \<Longrightarrow> \<not> in_range x buf N" and N: "\<forall>c \<in> set cs. unat c \<le> N"
  shows "\<exists>s1 s2. initramfs_open al archive g path flags s = Inr (file, s1) \<and>
    read_seq (initramfs_read archive g' file buf) (\<lambda>n s. bytes_at (fs_mem s) buf n) cs s1 =
      Inr (take (sum_list (map unat cs)) (snd e), s2)"
proof -
  obtain s1 where s1: "initramfs_open al archive g path flags s = Inr (file, s1)" "cstring (fs_mem s1) fpath nm"
    "\<forall>x. \<not> in_range x fpath (length nm + 1) \<longrightarrow> fs_mem s1 x = fs_mem s x"
    "fl_path (fs_files s1 file) = fpath" "fl_offset (fs_files s1 file) = 0"
    using initramfs_open_found [OF t e path lo al src, of g flags] by auto
  have "tar_at (fs_mem s1) archive es" by (rule tar_at_frame [OF t]) (use arch s1(3) in auto)
  then have "initramfs_file archive es nm fpath file buf N (snd e) 0 s1"
    using e(1) s1 path(2) al(4) arch buf by (auto simp: initramfs_file_def)
  from initramfs_stream.read_seq_delivers [OF this N, of g'] s1(1) show ?thesis by auto
qed

text \<open>An archive with one file, \<open>/a\<close>, and its name elsewhere in memory, for the witnesses.\<close>

definition tar_sample :: mem where
  "tar_sample = (\<lambda>x. if 0x1007c \<le> x \<and> x < 0x10086 then 0x30 else 0)(0x10001 := 0x2f, 0x10002 := 0x61,
     0x10086 := 0x33, 0x10101 := 0x75, 0x10102 := 0x73, 0x10103 := 0x74, 0x10104 := 0x61, 0x10105 := 0x72,
     0x10200 := 1, 0x10201 := 2, 0x10202 := 3, 0x20000 := 0x2f, 0x20001 := 0x61)"

definition fs_sample :: fstate where
  "fs_sample = \<lparr>fs_mem = tar_sample, fs_heap = snd heap_sample, fs_files = (\<lambda>_. undefined)\<rparr>"

lemma octal_numeral:
  "octal (numeral k) n = octal (pred_numeral k) (n div 8) @ [0x30 + of_nat (n mod 8)]"
  by (subst numeral_eq_Suc) (rule octal.simps(2))

lemma octal_sample: "octal 11 3 = [0x30, 0x30, 0x30, 0x30, 0x30, 0x30, 0x30, 0x30, 0x30, 0x30, 0x33]"
  by (simp add: octal_numeral)

lemma tar_sample_at: "tar_at tar_sample 0x10000 [([0x2f, 0x61], [1, 2, 3])]"
proof -
  have "bytes_at tar_sample 0x1007c 11 = octal 11 3"
    unfolding octal_sample by (simp add: bytes_at_def tar_sample_def upt_rec)
  moreover have "is_ustar tar_sample 0x10000" "\<not> is_ustar tar_sample 0x10400"
    by (simp_all add: is_ustar_def bytes_at_def tar_sample_def upt_rec)
  moreover have "cstring tar_sample 0x10001 [0x2f, 0x61]" "bytes_at tar_sample 0x10200 3 = [1, 2, 3]"
    by (simp_all add: bytes_at_def tar_sample_def upt_rec)
  ultimately show ?thesis by (simp add: blocks_of_def flip: numeral_2_eq_2 del: octal.simps)
qed

lemma tar_sample_path: "cstring tar_sample 0x20000 [0x2f, 0x61]"
  by (simp add: tar_sample_def)

theorem initramfs_lookup_correct_witness:
  "\<exists>p. initramfs_lookup tar_sample 0x10000 0x20000 0 = Inr (3, p) \<and>
     bytes_at tar_sample p (length [1, 2, 3 :: u8]) = [1, 2, 3]"
  using initramfs_lookup_correct [OF tar_sample_at tar_sample_path, of 0] by simp

lemma fs_sample_alloc:
  "\<exists>h1 h2. alloc (fst heap_sample) 24 (snd heap_sample) = Inr (0x1020, h1) \<and>
     alloc (fst heap_sample) 3 h1 = Inr (0x1060, h2)"
proof -
  have "(case alloc (fst heap_sample) 24 (snd heap_sample) of Inl _ \<Rightarrow> False | Inr (p, h1) \<Rightarrow> p = 0x1020 \<and>
      (case alloc (fst heap_sample) 3 h1 of Inl _ \<Rightarrow> False | Inr (q, h2) \<Rightarrow> q = 0x1060))" by code_simp
  then obtain h1 where h1: "alloc (fst heap_sample) 24 (snd heap_sample) = Inr (0x1020, h1)"
    "(case alloc (fst heap_sample) 3 h1 of Inl _ \<Rightarrow> False | Inr (q, h2) \<Rightarrow> q = 0x1060)"
    by (cases "alloc (fst heap_sample) 24 (snd heap_sample)") auto
  then show ?thesis by (cases "alloc (fst heap_sample) 3 h1") auto
qed

theorem initramfs_open_read_witness:
  "\<exists>s1 s2. initramfs_open (fst heap_sample) 0x10000 0 0x20000 0 fs_sample = Inr (0x1020, s1) \<and>
     read_seq (initramfs_read 0x10000 0 0x1020 0x30000) (\<lambda>n s. bytes_at (fs_mem s) 0x30000 n) [2, 2] s1 =
       Inr ([1, 2, 3], s2)"
proof -
  obtain h1 h2 where h: "alloc (fst heap_sample) 24 (snd heap_sample) = Inr (0x1020, h1)"
    "alloc (fst heap_sample) 3 h1 = Inr (0x1060, h2)" using fs_sample_alloc by blast
  have d: "in_range x 0x10000 1536 \<Longrightarrow> \<not> in_range x 0x30000 2" "in_range x 0x1060 3 \<Longrightarrow> \<not> in_range x 0x10000 1536"
    "in_range x 0x1060 3 \<Longrightarrow> \<not> in_range x 0x30000 2" "in_range x 0x1060 3 \<Longrightarrow> \<not> in_range x 0x20000 3" for x
    by (rule disjoint_ranges; simp)+
  have p: "\<not> in_range (0x20000 + of_nat i) 0x1060 3" if "i \<le> 2" for i
    using d(4) in_range_offset [of i 3 "0x20000"] that by auto
  have "\<exists>s1 s2. initramfs_open (fst heap_sample) 0x10000 0 0x20000 0 fs_sample = Inr (0x1020, s1) \<and>
      read_seq (initramfs_read 0x10000 0 0x1020 0x30000) (\<lambda>n s. bytes_at (fs_mem s) 0x30000 n) [2, 2] s1 =
        Inr (take (sum_list (map unat [2, 2 :: u64])) (snd ([0x2f, 0x61 :: u8], [1, 2, 3])), s2)"
  proof (rule initramfs_open_read [where nm = "[0x2f, 0x61]" and N = 2 and ?h1.0 = h1 and ?h2.0 = h2])
    show "tar_at (fs_mem fs_sample) 0x10000 [([0x2f, 0x61], [1, 2, 3])]" using tar_sample_at by (simp add: fs_sample_def)
    show "cstring (fs_mem fs_sample) 0x20000 [0x2f, 0x61]" using tar_sample_path by (simp add: fs_sample_def)
  qed (use h d p in \<open>auto simp: fs_sample_def blocks_of_def simp flip: numeral_2_eq_2\<close>)
  then show ?thesis by simp
qed

end
