(* ===== verification/Vfs.thy ===== *)
theory Vfs
  imports Initramfs LinkedList
begin

text \<open>
  The virtual file system, \<open>src/src/fs/vfs.c\<close>: the list of mount points, the choice of the mount
  point for a path, and the dispatch of the file operations to the file system mounted there.

  The mutexes of the mount list and of the heap make the functions atomic; their state is not part of
  this model.
\<close>

section \<open>State\<close>

text \<open>The operations of a file system work on the memory, the heap and the open files.\<close>

record fs_operations_t =
  op_open :: "u64 \<Rightarrow> i32 \<Rightarrow> fstate \<Rightarrow> (u64 \<times> fstate) res"
  op_read :: "u64 \<Rightarrow> u64 \<Rightarrow> u64 \<Rightarrow> fstate \<Rightarrow> (u64 \<times> fstate) res"
  op_write :: "u64 \<Rightarrow> u64 \<Rightarrow> u64 \<Rightarrow> fstate \<Rightarrow> (u64 \<times> fstate) res"
  op_close :: "u64 \<Rightarrow> fstate \<Rightarrow> (i32 \<times> fstate) res"

record mountpoint_t =
  mp_device :: u64
  mp_path :: u64
  mp_operations :: fs_operations_t

record vstate =
  vs_fs :: fstate
  vs_lists :: "u64 \<Rightarrow> ll_t"
  vs_nodes :: "u64 \<Rightarrow> ll_node_t"
  vs_mps :: "u64 \<Rightarrow> mountpoint_t"
  mountpoint_list :: u64

abbreviation sizeof_mountpoint_t :: u64 where "sizeof_mountpoint_t \<equiv> 24"
abbreviation sizeof_vfs_mutex :: u64 where "sizeof_vfs_mutex \<equiv> 24"

abbreviation vmem :: "vstate \<Rightarrow> mem" where
  "vmem v \<equiv> fs_mem (vs_fs v)"

abbreviation vheap :: "vstate \<Rightarrow> kheap" where
  "vheap v \<equiv> fs_heap (vs_fs v)"

abbreviation set_vheap :: "kheap \<Rightarrow> vstate \<Rightarrow> vstate" where
  "set_vheap h v \<equiv> v\<lparr>vs_fs := (vs_fs v)\<lparr>fs_heap := h\<rparr>\<rparr>"

text \<open>The part of the state that the list functions of \<open>ll.c\<close> work on.\<close>

definition get_ll :: "vstate \<Rightarrow> ll_state" where
  "get_ll v = \<lparr>lists = vs_lists v, lnodes = vs_nodes v, lheap = vheap v\<rparr>"

definition put_ll :: "ll_state \<Rightarrow> vstate \<Rightarrow> vstate" where
  "put_ll l v = set_vheap (lheap l) v\<lparr>vs_lists := lists l, vs_nodes := lnodes l\<rparr>"

section \<open>Operations\<close>

definition vfs_mount :: "allocator \<Rightarrow> u64 \<Rightarrow> u64 \<Rightarrow> fs_operations_t \<Rightarrow> vstate \<Rightarrow> (i32 \<times> vstate) res" where
  "vfs_mount al device path operations v =
     bind_res (alloc al sizeof_mountpoint_t (vheap v)) (\<lambda>(mp, h).
       let v = set_vheap h v in
       if mp = NULL then Inr (- 1, v)
       else
         let v = v\<lparr>vs_mps := upd mp (\<lambda>m. m\<lparr>mp_device := device, mp_operations := operations\<rparr>) (vs_mps v)\<rparr> in
         bind_res (returns (strlen (vmem v) path)) (\<lambda>len.
         bind_res (alloc al (len + 1) (vheap v)) (\<lambda>(mpath, h).
           let v = set_vheap h v\<lparr>vs_mps := upd mp (\<lambda>m. m\<lparr>mp_path := mpath\<rparr>) (vs_mps v)\<rparr> in
           if mpath = NULL then bind_res (free al mp (vheap v)) (\<lambda>h. Inr (- 1, set_vheap h v))
           else
             bind_res (returns (strcpy (vmem v) mpath path)) (\<lambda>(_, m).
             let v = v\<lparr>vs_fs := (vs_fs v)\<lparr>fs_mem := m\<rparr>\<rparr> in
             bind_res (ll_add_back (Some al) (mountpoint_list v) mp (get_ll v)) (\<lambda>(res, l).
               let v = put_ll l v in
               if res \<noteq> 0
               then bind_res (free al (mp_path (vs_mps v mp)) (vheap v)) (\<lambda>h.
                    bind_res (free al mp h) (\<lambda>h. Inr (- 1, set_vheap h v)))
               else Inr (0, v))))))"

text \<open>
  The comparison of a path with the path of a mount point of length \<open>len\<close>, and the loop over the
  list from index \<open>i\<close> with the best match so far.
\<close>

definition mp_matches :: "mem \<Rightarrow> u64 \<Rightarrow> u64 \<Rightarrow> u64 \<Rightarrow> bool" where
  "mp_matches m path mpath len \<longleftrightarrow> strncmp m path mpath len = 0 \<and>
     (len = 1 \<or> m (path + len) = 0 \<or> m (path + len) = 0x2f)"

primrec mp_loop :: "vstate \<Rightarrow> u64 \<Rightarrow> u64 \<Rightarrow> nat \<Rightarrow> nat \<Rightarrow> u64 \<Rightarrow> u64 \<Rightarrow> u64 res" where
  "mp_loop v ll path 0 i best best_len = Inr best"
| "mp_loop v ll path (Suc k) i best best_len =
     bind_res (ll_get (get_ll v) ll (of_nat i)) (\<lambda>mp.
       if mp = NULL \<or> mp_path (vs_mps v mp) = NULL then mp_loop v ll path k (Suc i) best best_len
       else bind_res (returns (strlen (vmem v) (mp_path (vs_mps v mp)))) (\<lambda>len.
         if mp_matches (vmem v) path (mp_path (vs_mps v mp)) len \<and> (best = NULL \<or> best_len < len)
         then mp_loop v ll path k (Suc i) mp len
         else mp_loop v ll path k (Suc i) best best_len))"

definition vfs_get_mountpoint :: "u64 \<Rightarrow> u64 \<Rightarrow> vstate \<Rightarrow> u64 res" where
  "vfs_get_mountpoint ll path v =
     (if path = NULL then Inr NULL
      else mp_loop v ll path (unat (ll_size (get_ll v) ll)) 0 NULL 0)"

text \<open>On success the function has no \<open>return\<close>: its result \<open>ret\<close> is undetermined.\<close>

definition vfs_umount :: "allocator \<Rightarrow> i32 \<Rightarrow> u64 \<Rightarrow> vstate \<Rightarrow> (i32 \<times> vstate) res" where
  "vfs_umount al ret path v =
     bind_res (vfs_get_mountpoint (mountpoint_list v) path v) (\<lambda>mp.
       if mp = NULL then Inr (- 1, v)
       else bind_res (free al (mp_path (vs_mps v mp)) (vheap v)) (\<lambda>h.
         bind_res (free al mp h) (\<lambda>h.
         bind_res (ll_remove_pointer (Some al) (mountpoint_list v) mp (get_ll (set_vheap h v))) (\<lambda>l.
           Inr (ret, put_ll l v)))))"

definition vfs_open :: "u64 \<Rightarrow> i32 \<Rightarrow> vstate \<Rightarrow> (u64 \<times> vstate) res" where
  "vfs_open path flags v =
     (if path = NULL then Inr (NULL, v)
      else bind_res (vfs_get_mountpoint (mountpoint_list v) path v) (\<lambda>mp.
        if mp = NULL then Inr (NULL, v)
        else bind_res (op_open (mp_operations (vs_mps v mp)) path flags (vs_fs v)) (\<lambda>(r, s).
               Inr (r, v\<lparr>vs_fs := s\<rparr>))))"

definition vfs_read :: "u64 \<Rightarrow> u64 \<Rightarrow> u64 \<Rightarrow> vstate \<Rightarrow> (u64 \<times> vstate) res" where
  "vfs_read file buf count v =
     bind_res (vfs_get_mountpoint (mountpoint_list v) (fl_path (fs_files (vs_fs v) file)) v) (\<lambda>mp.
       if mp = NULL then Inr (0, v)
       else bind_res (op_read (mp_operations (vs_mps v mp)) file buf count (vs_fs v)) (\<lambda>(r, s).
              Inr (r, v\<lparr>vs_fs := s\<rparr>)))"

definition vfs_write :: "u64 \<Rightarrow> u64 \<Rightarrow> u64 \<Rightarrow> vstate \<Rightarrow> (u64 \<times> vstate) res" where
  "vfs_write file buf count v =
     bind_res (vfs_get_mountpoint (mountpoint_list v) (fl_path (fs_files (vs_fs v) file)) v) (\<lambda>mp.
       if mp = NULL then Inr (0, v)
       else bind_res (op_write (mp_operations (vs_mps v mp)) file buf count (vs_fs v)) (\<lambda>(r, s).
              Inr (r, v\<lparr>vs_fs := s\<rparr>)))"

definition vfs_close :: "u64 \<Rightarrow> vstate \<Rightarrow> (i32 \<times> vstate) res" where
  "vfs_close file v =
     bind_res (vfs_get_mountpoint (mountpoint_list v) (fl_path (fs_files (vs_fs v) file)) v) (\<lambda>mp.
       if mp = NULL then Inr (- 1, v)
       else bind_res (op_close (mp_operations (vs_mps v mp)) file (vs_fs v)) (\<lambda>(r, s).
              Inr (r, v\<lparr>vs_fs := s\<rparr>)))"

text \<open>The table of the initial file system; \<open>g\<close> and \<open>ret\<close> are its undetermined values.\<close>

definition initramfs_operations :: "allocator \<Rightarrow> u64 \<Rightarrow> u64 \<Rightarrow> i32 \<Rightarrow> fs_operations_t" where
  "initramfs_operations al archive g ret =
     \<lparr>op_open = initramfs_open al archive g, op_read = initramfs_read archive g,
      op_write = initramfs_write, op_close = initramfs_close al ret\<rparr>"

text \<open>\<open>root\<close> is the address of the string literal \<open>"/"\<close>.\<close>

definition vfs_init :: "allocator \<Rightarrow> u64 \<Rightarrow> fs_operations_t \<Rightarrow> vstate \<Rightarrow> vstate res" where
  "vfs_init al root operations v =
     bind_res (ll_create (Some al) (get_ll v)) (\<lambda>(ll, l).
       let v = put_ll l v\<lparr>mountpoint_list := ll\<rparr> in
       bind_res (alloc al sizeof_vfs_mutex (vheap v)) (\<lambda>(mut, h).
         let v = set_vheap h v in
         if mut = NULL then Inl NullDeref
         else bind_res (vfs_mount al NULL root operations v) (\<lambda>(ret, v).
           if ret \<noteq> 0 then Inl Halted else Inr v)))"

section \<open>Choosing the mount point\<close>

text \<open>
  A mount point covers the paths that its own path is a prefix of, up to the end of the path or a
  slash; a mount path of one character covers every path that begins with it.
\<close>

definition covers :: "u8 list \<Rightarrow> u8 list \<Rightarrow> bool" where
  "covers mp path \<longleftrightarrow> take (length mp) path = mp \<and>
     (length mp = 1 \<or> length mp = length path \<or> length mp < length path \<and> path ! length mp = 0x2f)"

lemma mp_matches_covers:
  assumes path: "cstring m path cs" and mp: "cstring m mpath ms" "length ms < 2 ^ 64"
  shows "mp_matches m path mpath (of_nat (length ms)) \<longleftrightarrow> covers ms cs"
proof -
  have len: "unat (of_nat (length ms) :: u64) = length ms" by (rule unat_of_nat_u64 [OF mp(2)])
  have one: "(of_nat (length ms) :: u64) = 1 \<longleftrightarrow> length ms = 1"
    using of_nat_u64_inj [OF mp(2), of 1] by simp
  show ?thesis
  proof (cases "take (length ms) cs = ms")
    case True
    then have "min (length cs) (length ms) = length ms" by (metis length_take)
    then have le: "length ms \<le> length cs" by simp
    have "m (path + of_nat (length ms)) = 0 \<or> m (path + of_nat (length ms)) = 0x2f \<longleftrightarrow>
        length ms = length cs \<or> length ms < length cs \<and> cs ! length ms = 0x2f"
    proof (cases "length ms = length cs")
      case True
      then show ?thesis using cstring_length [OF path] by simp
    next
      case False
      then show ?thesis using le cstring_nth [OF path, of "length ms"] by auto
    qed
    then show ?thesis using True by (simp add: mp_matches_def covers_def strncmp_prefix [OF path mp(1) len] one)
  next
    case False
    then show ?thesis by (simp add: mp_matches_def covers_def strncmp_prefix [OF path mp(1) len])
  qed
qed

text \<open>The mount points of a list, with their paths \<open>nm\<close>.\<close>

definition mounted :: "vstate \<Rightarrow> u64 \<Rightarrow> u64 list \<Rightarrow> (u64 \<Rightarrow> u8 list) \<Rightarrow> bool" where
  "mounted v ll mps nm \<longleftrightarrow> (\<exists>xs. ll_inv (get_ll v) ll xs \<and> ll_contents (get_ll v) xs = mps) \<and>
     (\<forall>mp \<in> set mps. mp \<noteq> NULL \<and> mp_path (vs_mps v mp) \<noteq> NULL \<and>
        cstring (vmem v) (mp_path (vs_mps v mp)) (nm mp) \<and> length (nm mp) < 2 ^ 64)"

primrec pick_mount :: "(u64 \<Rightarrow> u8 list) \<Rightarrow> u8 list \<Rightarrow> u64 list \<Rightarrow> u64 \<Rightarrow> u64" where
  "pick_mount nm path [] best = best"
| "pick_mount nm path (mp # mps) best = pick_mount nm path mps
     (if covers (nm mp) path \<and> (best = NULL \<or> length (nm best) < length (nm mp)) then mp else best)"

lemma mounted_get:
  assumes "mounted v ll mps nm"
  shows "i < 2 ^ 64 \<Longrightarrow> ll_get (get_ll v) ll (of_nat i) = Inr (if i < length mps then mps ! i else NULL)"
    and "unat (ll_size (get_ll v) ll) = length mps"
proof -
  obtain xs where xs: "ll_inv (get_ll v) ll xs" "ll_contents (get_ll v) xs = mps"
    using assms by (auto simp: mounted_def)
  have n: "ll \<noteq> NULL" "unat (ll_count (lists (get_ll v) ll)) = length xs" "length mps = length xs"
    using xs by (auto simp: ll_inv_def ll_contents_def)
  show "ll_get (get_ll v) ll (of_nat i) = Inr (if i < length mps then mps ! i else NULL)" if "i < 2 ^ 64"
    using ll_get_chain [OF ll_inv_chain [OF xs(1)] n(1,2), of "of_nat i"] unat_of_nat_u64 [OF that] xs(2) n(3) by simp
  show "unat (ll_size (get_ll v) ll) = length mps" using n by (simp add: ll_size_def)
qed

lemma mp_loop_pick:
  assumes M: "mounted v ll mps nm" and path: "cstring (vmem v) path cs"
  shows "i + k = length mps \<Longrightarrow> (best \<noteq> NULL \<Longrightarrow> best_len = of_nat (length (nm best)) \<and> length (nm best) < 2 ^ 64) \<Longrightarrow>
    mp_loop v ll path k i best best_len = Inr (pick_mount nm cs (drop i mps) best)"
proof (induction k arbitrary: i best best_len)
  case 0
  then show ?case by simp
next
  case (Suc k)
  define mp where "mp = mps ! i"
  have i: "i < length mps" "length mps < 2 ^ 64"
    using Suc.prems(1) mounted_get(2) [OF M] unat_u64_lt [of "ll_size (get_ll v) ll"] by auto
  have mp: "mp \<noteq> NULL" "mp_path (vs_mps v mp) \<noteq> NULL" "cstring (vmem v) (mp_path (vs_mps v mp)) (nm mp)"
    "length (nm mp) < 2 ^ 64" using M i(1) by (auto simp: mounted_def mp_def)
  have get: "ll_get (get_ll v) ll (of_nat i) = Inr mp" using mounted_get(1) [OF M, of i] i by (simp add: mp_def)
  have d: "drop i mps = mp # drop (Suc i) mps" using i(1) by (simp add: Cons_nth_drop_Suc mp_def)
  have lt: "best \<noteq> NULL \<Longrightarrow> best_len < of_nat (length (nm mp)) \<longleftrightarrow> length (nm best) < length (nm mp)"
    using Suc.prems(2) mp(4) by (simp add: word_less_nat_alt unat_of_nat_u64)
  show ?case
    using get mp Suc lt mp_matches_covers [OF path mp(3,4)] strlen_cstring [OF mp(3)] by (auto simp: d)
qed

lemma vfs_get_mountpoint_pick:
  assumes "mounted v ll mps nm" "cstring (vmem v) path cs" "path \<noteq> NULL"
  shows "vfs_get_mountpoint ll path v = Inr (pick_mount nm cs mps NULL)"
  using mp_loop_pick [OF assms(1,2), of 0 "length mps" NULL 0] mounted_get(2) [OF assms(1)] assms(3)
  by (simp add: vfs_get_mountpoint_def)

lemma pick_mount_longest:
  assumes "\<forall>mp \<in> set mps. mp \<noteq> NULL" "best = NULL \<or> covers (nm best) path"
  shows "(pick_mount nm path mps best = NULL \<longleftrightarrow> best = NULL \<and> (\<forall>mp \<in> set mps. \<not> covers (nm mp) path)) \<and>
    (pick_mount nm path mps best \<noteq> NULL \<longrightarrow> pick_mount nm path mps best \<in> insert best (set mps) \<and>
       covers (nm (pick_mount nm path mps best)) path \<and>
       (\<forall>mp \<in> insert best (set mps). mp \<noteq> NULL \<and> covers (nm mp) path \<longrightarrow>
          length (nm mp) \<le> length (nm (pick_mount nm path mps best))))"
  using assms
proof (induction mps arbitrary: best)
  case Nil
  then show ?case by auto
next
  case (Cons mp mps)
  define b where "b = (if covers (nm mp) path \<and> (best = NULL \<or> length (nm best) < length (nm mp)) then mp else best)"
  have "b = NULL \<or> covers (nm b) path" using Cons.prems(2) by (auto simp: b_def)
  with Cons.IH [of b] Cons.prems(1) have IH: "(pick_mount nm path mps b = NULL \<longleftrightarrow> b = NULL \<and> (\<forall>mp \<in> set mps. \<not> covers (nm mp) path)) \<and>
    (pick_mount nm path mps b \<noteq> NULL \<longrightarrow> pick_mount nm path mps b \<in> insert b (set mps) \<and>
       covers (nm (pick_mount nm path mps b)) path \<and>
       (\<forall>mp \<in> insert b (set mps). mp \<noteq> NULL \<and> covers (nm mp) path \<longrightarrow>
          length (nm mp) \<le> length (nm (pick_mount nm path mps b))))" by simp
  have c: "pick_mount nm path (mp # mps) best = pick_mount nm path mps b" by (simp add: b_def)
  show ?case
  proof (cases "covers (nm mp) path \<and> (best = NULL \<or> length (nm best) < length (nm mp))")
    case True
    then have b: "b = mp" by (simp add: b_def)
    show ?thesis unfolding c using IH True Cons.prems unfolding b by fastforce
  next
    case False
    then have b: "b = best" by (auto simp: b_def)
    show ?thesis unfolding c using IH False Cons.prems unfolding b by fastforce
  qed
qed

section \<open>The initial file system at the root\<close>

text \<open>The state behind \<open>vfs_init\<close>: one mount point, for \<open>/\<close>, with the operations of \<open>initramfs.c\<close>.\<close>

definition root_mounted :: "fs_operations_t \<Rightarrow> u64 \<Rightarrow> vstate \<Rightarrow> bool" where
  "root_mounted ops mp v \<longleftrightarrow> mounted v (mountpoint_list v) [mp] (\<lambda>_. [0x2f]) \<and> mp_operations (vs_mps v mp) = ops"

lemma covers_root: "covers [0x2f] cs \<longleftrightarrow> cs \<noteq> [] \<and> hd cs = 0x2f"
  by (cases cs) (auto simp: covers_def)

lemma root_mountpoint:
  assumes r: "root_mounted ops mp v" and path: "cstring (vmem v) path cs" "path \<noteq> NULL"
  shows "vfs_get_mountpoint (mountpoint_list v) path v = Inr (if cs \<noteq> [] \<and> hd cs = 0x2f then mp else NULL)"
  using vfs_get_mountpoint_pick [of v "mountpoint_list v" "[mp]" "\<lambda>_. [0x2f]" path cs] assms
  by (simp add: root_mounted_def covers_root)

text \<open>Steps that keep the mount list and the path of the mount point.\<close>

lemma root_mounted_frame:
  assumes r: "root_mounted ops mp v" and s: "\<And>x. in_range x (mp_path (vs_mps v mp)) 2 \<Longrightarrow> fs_mem s x = vmem v x"
  shows "root_mounted ops mp (v\<lparr>vs_fs := s\<rparr>)"
proof -
  let ?v = "v\<lparr>vs_fs := s\<rparr>"
  have M: "mounted v (mountpoint_list v) [mp] (\<lambda>_. [0x2f])" using r by (simp add: root_mounted_def)
  have "cstring (vmem ?v) (mp_path (vs_mps v mp)) [0x2f]"
  proof (rule cstring_frame)
    show "cstring (vmem v) (mp_path (vs_mps v mp)) [0x2f]" using M by (simp add: mounted_def)
    show "vmem ?v (mp_path (vs_mps v mp) + of_nat i) = vmem v (mp_path (vs_mps v mp) + of_nat i)"
      if "i \<le> length [0x2f :: u8]" for i
      using s [OF in_range_offset [of i 2]] that by simp
  qed
  moreover have "\<exists>xs. ll_inv (get_ll ?v) (mountpoint_list v) xs \<and> ll_contents (get_ll ?v) xs = [mp]"
    using M by (auto simp: mounted_def ll_inv_def ll_contents_def get_ll_def)
  ultimately show ?thesis using r by (simp add: root_mounted_def mounted_def)
qed

text \<open>An open file below the root, and a buffer apart from the path of the mount point.\<close>

definition vfs_file ::
    "fs_operations_t \<Rightarrow> u64 \<Rightarrow> u64 \<Rightarrow> (u8 list \<times> u8 list) list \<Rightarrow> u8 list \<Rightarrow> u64 \<Rightarrow> u64 \<Rightarrow> u64 \<Rightarrow> nat \<Rightarrow>
     u8 list \<Rightarrow> nat \<Rightarrow> vstate \<Rightarrow> bool" where
  "vfs_file ops mp archive es nm fpath file buf N data d v \<longleftrightarrow>
     root_mounted ops mp v \<and> initramfs_file archive es nm fpath file buf N data d (vs_fs v) \<and>
     nm \<noteq> [] \<and> hd nm = 0x2f \<and> (\<forall>x. in_range x (mp_path (vs_mps v mp)) 2 \<longrightarrow> \<not> in_range x buf N)"

lemma vfs_file_read:
  assumes f: "vfs_file (initramfs_operations al archive g ret) mp archive es nm fpath file buf N data d v"
    and c: "unat c \<le> N"
  defines "n \<equiv> min (unat c) (length data - d)"
  shows "\<exists>v'. vfs_read file buf c v = Inr (of_nat n, v') \<and> bytes_at (vmem v') buf n = take n (drop d data) \<and>
    vfs_file (initramfs_operations al archive g ret) mp archive es nm fpath file buf N data (d + n) v' \<and>
    (\<exists>s'. v' = v\<lparr>vs_fs := s'\<rparr> \<and> (\<forall>x. \<not> in_range x buf N \<longrightarrow> fs_mem s' x = vmem v x) \<and> fs_heap s' = vheap v \<and>
      (\<forall>h. fl_filesz (fs_files s' h) = fl_filesz (fs_files (vs_fs v) h)))"
proof -
  let ?ops = "initramfs_operations al archive g ret"
  have r: "root_mounted ?ops mp v" and i: "initramfs_file archive es nm fpath file buf N data d (vs_fs v)"
    and nm: "nm \<noteq> []" "hd nm = 0x2f" and b: "\<And>x. in_range x (mp_path (vs_mps v mp)) 2 \<Longrightarrow> \<not> in_range x buf N"
    using f by (auto simp: vfs_file_def)
  have m: "vfs_get_mountpoint (mountpoint_list v) (fl_path (fs_files (vs_fs v) file)) v = Inr mp"
    using root_mountpoint [OF r, of "fl_path (fs_files (vs_fs v) file)" nm] i nm by (simp add: initramfs_file_def)
  have mp: "mp \<noteq> NULL" "mp_operations (vs_mps v mp) = ?ops" using r by (auto simp: root_mounted_def mounted_def)
  obtain s' where s': "initramfs_read archive g file buf c (vs_fs v) = Inr (of_nat n, s')"
    "bytes_at (fs_mem s') buf n = take n (drop d data)"
    "initramfs_file archive es nm fpath file buf N data (d + n) s'"
    "\<forall>x. \<not> in_range x buf N \<longrightarrow> fs_mem s' x = vmem v x" "fs_heap s' = vheap v"
    "\<forall>h. fl_filesz (fs_files s' h) = fl_filesz (fs_files (vs_fs v) h)"
    using initramfs_file_read [OF i c, of g] unfolding n_def by blast
  have "root_mounted ?ops mp (v\<lparr>vs_fs := s'\<rparr>)" by (rule root_mounted_frame [OF r]) (use s'(4) b in auto)
  then have "vfs_file ?ops mp archive es nm fpath file buf N data (d + n) (v\<lparr>vs_fs := s'\<rparr>)"
    using s'(3) nm b by (simp add: vfs_file_def)
  moreover have "vfs_read file buf c v = Inr (of_nat n, v\<lparr>vs_fs := s'\<rparr>)"
    using m mp s'(1) by (simp add: vfs_read_def initramfs_operations_def)
  ultimately show ?thesis using s'(2,4-6) by auto
qed

interpretation vfs_stream: byte_stream "vfs_read fp buf" "\<lambda>n v. bytes_at (vmem v) buf n"
  "vfs_file (initramfs_operations al archive g ret) mp archive es nm fpath fp buf N" N
  for al archive g ret mp fp buf es nm fpath N
  by unfold_locales (use vfs_file_read in \<open>blast\<close>)

text \<open>Opening a file of the archive by its path.\<close>

lemma vfs_open_found:
  assumes r: "root_mounted (initramfs_operations al archive g ret) mp v"
    and t: "tar_at (vmem v) archive es" and e: "find (\<lambda>e. fst e = nm) es = Some e" "snd e \<noteq> []"
    and path: "cstring (vmem v) path nm" "length nm + 1 < 2 ^ 64" "path \<noteq> NULL" "nm \<noteq> []" "hd nm = 0x2f"
    and lo: "unat archive + tar_size es < 2 ^ 64" "archive \<noteq> NULL"
    and al: "alloc al 24 (vheap v) = Inr (file, h1)" "file \<noteq> NULL"
      "alloc al (of_nat (length nm) + 1) h1 = Inr (fpath, h2)" "fpath \<noteq> NULL"
    and src: "\<And>i. i \<le> length nm \<Longrightarrow> \<not> in_range (path + of_nat i) fpath (length nm + 1)"
  shows "\<exists>s1. vfs_open path flags v = Inr (file, v\<lparr>vs_fs := s1\<rparr>) \<and> cstring (fs_mem s1) fpath nm \<and>
    (\<forall>x. \<not> in_range x fpath (length nm + 1) \<longrightarrow> fs_mem s1 x = vmem v x) \<and> fs_heap s1 = h2 \<and>
    fl_path (fs_files s1 file) = fpath \<and> fl_offset (fs_files s1 file) = 0 \<and>
    fl_filesz (fs_files s1 file) = of_nat (length (snd e))"
proof -
  obtain s1 where s1: "initramfs_open al archive g path flags (vs_fs v) = Inr (file, s1)" "cstring (fs_mem s1) fpath nm"
    "\<forall>x. \<not> in_range x fpath (length nm + 1) \<longrightarrow> fs_mem s1 x = vmem v x" "fs_heap s1 = h2"
    "fl_path (fs_files s1 file) = fpath" "fl_offset (fs_files s1 file) = 0" "fl_filesz (fs_files s1 file) = of_nat (length (snd e))"
    using initramfs_open_found [OF t e path(1-3) lo al src, of g flags] by auto
  have mp: "mp \<noteq> NULL" "mp_operations (vs_mps v mp) = initramfs_operations al archive g ret"
    using r by (auto simp: root_mounted_def mounted_def)
  have "vfs_open path flags v = Inr (file, v\<lparr>vs_fs := s1\<rparr>)"
    using root_mountpoint [OF r path(1,3)] path(3-5) mp s1(1) by (simp add: vfs_open_def initramfs_operations_def)
  then show ?thesis using s1(2-7) by blast
qed

section \<open>Properties\<close>

text \<open>
  \<open>vfs_get_mountpoint\<close> chooses the longest match: of the mount points whose path covers the
  given one it returns one with the longest path, and the null pointer exactly if none covers it.
\<close>

theorem vfs_get_mountpoint_correct:
  assumes "mounted v ll mps nm" "cstring (vmem v) path cs" "path \<noteq> NULL"
  shows "\<exists>mp. vfs_get_mountpoint ll path v = Inr mp \<and>
    (mp = NULL \<longleftrightarrow> (\<forall>m \<in> set mps. \<not> covers (nm m) cs)) \<and>
    (mp \<noteq> NULL \<longrightarrow> mp \<in> set mps \<and> covers (nm mp) cs \<and>
       (\<forall>m \<in> set mps. covers (nm m) cs \<longrightarrow> length (nm m) \<le> length (nm mp)))"
proof -
  have nn: "\<forall>mp \<in> set mps. mp \<noteq> NULL" using assms(1) by (simp add: mounted_def)
  have "(pick_mount nm cs mps NULL = NULL \<longleftrightarrow> (\<forall>mp \<in> set mps. \<not> covers (nm mp) cs)) \<and>
    (pick_mount nm cs mps NULL \<noteq> NULL \<longrightarrow> pick_mount nm cs mps NULL \<in> set mps \<and>
       covers (nm (pick_mount nm cs mps NULL)) cs \<and>
       (\<forall>mp \<in> set mps. covers (nm mp) cs \<longrightarrow> length (nm mp) \<le> length (nm (pick_mount nm cs mps NULL))))"
    using pick_mount_longest [OF nn, of NULL nm cs] nn by auto
  then show ?thesis using vfs_get_mountpoint_pick [OF assms] by blast
qed

text \<open>
  (C26) With the initial file system mounted at the root, opening a non-empty file by its path and
  reading it through \<open>vfs_read\<close> in pieces of any sizes delivers its contents in order.
\<close>

theorem vfs_open_read:
  assumes r: "root_mounted (initramfs_operations al archive g ret) mp v"
    and t: "tar_at (vmem v) archive es" and e: "find (\<lambda>e. fst e = nm) es = Some e" "snd e \<noteq> []"
    and path: "cstring (vmem v) path nm" "length nm + 1 < 2 ^ 64" "path \<noteq> NULL" "nm \<noteq> []" "hd nm = 0x2f"
    and lo: "unat archive + tar_size es < 2 ^ 64" "archive \<noteq> NULL"
    and al: "alloc al 24 (vheap v) = Inr (file, h1)" "file \<noteq> NULL"
      "alloc al (of_nat (length nm) + 1) h1 = Inr (fpath, h2)" "fpath \<noteq> NULL"
    and src: "\<And>i. i \<le> length nm \<Longrightarrow> \<not> in_range (path + of_nat i) fpath (length nm + 1)"
    and arch: "\<And>x. in_range x archive (tar_size es) \<or> in_range x (mp_path (vs_mps v mp)) 2 \<Longrightarrow>
      \<not> in_range x buf N \<and> \<not> in_range x fpath (length nm + 1)"
    and buf: "\<And>x. in_range x fpath (length nm + 1) \<Longrightarrow> \<not> in_range x buf N" and N: "\<forall>c \<in> set cs. unat c \<le> N"
  shows "\<exists>v1 v2. vfs_open path flags v = Inr (file, v1) \<and>
    read_seq (vfs_read file buf) (\<lambda>n v. bytes_at (vmem v) buf n) cs v1 =
      Inr (take (sum_list (map unat cs)) (snd e), v2)"
proof -
  let ?ops = "initramfs_operations al archive g ret"
  obtain s1 where o: "vfs_open path flags v = Inr (file, v\<lparr>vs_fs := s1\<rparr>)" and s1: "cstring (fs_mem s1) fpath nm"
    "fl_path (fs_files s1 file) = fpath" "\<forall>x. \<not> in_range x fpath (length nm + 1) \<longrightarrow> fs_mem s1 x = vmem v x"
    "fl_offset (fs_files s1 file) = 0" using vfs_open_found [OF r t e path lo al src, of flags] by blast
  have "tar_at (fs_mem s1) archive es" by (rule tar_at_frame [OF t]) (use arch s1(3) in auto)
  moreover have "root_mounted ?ops mp (v\<lparr>vs_fs := s1\<rparr>)" by (rule root_mounted_frame [OF r]) (use arch s1(3) in auto)
  ultimately have "vfs_file ?ops mp archive es nm fpath file buf N (snd e) 0 (v\<lparr>vs_fs := s1\<rparr>)"
    using e(1) s1 path al(4) arch buf by (auto simp: vfs_file_def initramfs_file_def)
  from vfs_stream.read_seq_delivers [OF this N] o show ?thesis by auto
qed

text \<open>The effect of a mount for which every allocation succeeds.\<close>

lemma vfs_mount_effect:
  assumes path: "cstring (vmem v) path nm" "length nm < 2 ^ 64" and ll: "mountpoint_list v \<noteq> NULL"
    and al: "alloc al 24 (vheap v) = Inr (mp, h1)" "mp \<noteq> NULL"
      "alloc al (of_nat (length nm) + 1) h1 = Inr (mpath, h2)" "mpath \<noteq> NULL"
      "alloc al 24 h2 = Inr (node, h3)" "node \<noteq> NULL"
    and src: "\<And>i. i \<le> length nm \<Longrightarrow> \<not> in_range (path + of_nat i) mpath (length nm + 1)"
  shows "\<exists>v'. vfs_mount al device path ops v = Inr (0, v') \<and> cstring (vmem v') mpath nm \<and>
    (\<forall>x. \<not> in_range x mpath (length nm + 1) \<longrightarrow> vmem v' x = vmem v x) \<and> vheap v' = h3 \<and>
    mountpoint_list v' = mountpoint_list v \<and>
    vs_mps v' = (vs_mps v)(mp := (vs_mps v mp)\<lparr>mp_device := device, mp_operations := ops, mp_path := mpath\<rparr>) \<and>
    vs_nodes v' = (vs_nodes v)(node := \<lparr>lln_content = mp, lln_next = NULL,
      lln_prev = ll_last (vs_lists v (mountpoint_list v))\<rparr>) \<and>
    ll_first (vs_lists v' (mountpoint_list v)) = (if ll_first (vs_lists v (mountpoint_list v)) = NULL then node
        else ll_first (vs_lists v (mountpoint_list v))) \<and>
    ll_last (vs_lists v' (mountpoint_list v)) = node \<and>
    ll_count (vs_lists v' (mountpoint_list v)) = ll_count (vs_lists v (mountpoint_list v)) + 1"
proof -
  obtain m' where m': "strcpy (vmem v) mpath path = Some (mpath, m')" "cstring m' mpath nm"
    "\<forall>x. \<not> in_range x mpath (length nm + 1) \<longrightarrow> m' x = vmem v x"
    using strcpy_cstring [OF path src] by (auto simp: strcpy_def)
  show ?thesis
    using al m' ll strlen_cstring [OF path(1)]
    by (simp add: vfs_mount_def get_ll_def put_ll_def ll_add_back_def upd_def Let_def)
qed

lemma vfs_init_effect:
  assumes root: "cstring (vmem v) root [0x2f]"
    and al: "alloc al 24 (vheap v) = Inr (ll, h1)" "ll \<noteq> NULL" "alloc al 24 h1 = Inr (mut, h2)" "mut \<noteq> NULL"
      "alloc al 24 h2 = Inr (mp, h3)" "mp \<noteq> NULL" "alloc al 2 h3 = Inr (mpath, h4)" "mpath \<noteq> NULL"
      "alloc al 24 h4 = Inr (node, h5)" "node \<noteq> NULL"
    and src: "\<And>x. in_range x root 2 \<Longrightarrow> \<not> in_range x mpath 2"
    and garbage: "ll_last (vs_lists v ll) = NULL" "ll_count (vs_lists v ll) = 0"
  shows "\<exists>v'. vfs_init al root ops v = Inr v' \<and> root_mounted ops mp v' \<and> vheap v' = h5 \<and>
    (\<forall>x. \<not> in_range x mpath 2 \<longrightarrow> vmem v' x = vmem v x)"
proof -
  let ?v = "v\<lparr>vs_lists := upd ll (\<lambda>l. l\<lparr>ll_first := NULL\<rparr>) (vs_lists v), mountpoint_list := ll,
    vs_fs := (vs_fs v)\<lparr>fs_heap := h2\<rparr>\<rparr>"
  have "\<not> in_range (root + of_nat i) mpath (length [0x2f :: u8] + 1)" if "i \<le> length [0x2f :: u8]" for i
    using src in_range_offset [of i 2 root] that by (simp add: numeral_2_eq_2)
  then obtain v' where v': "vfs_mount al NULL root ops ?v = Inr (0, v')" "cstring (vmem v') mpath [0x2f]"
    "\<forall>x. \<not> in_range x mpath (length [0x2f :: u8] + 1) \<longrightarrow> vmem v' x = vmem v x" "vheap v' = h5" "mountpoint_list v' = ll"
    "vs_mps v' = (vs_mps v)(mp := (vs_mps v mp)\<lparr>mp_device := NULL, mp_operations := ops, mp_path := mpath\<rparr>)"
    "vs_nodes v' = (vs_nodes v)(node := \<lparr>lln_content = mp, lln_next = NULL, lln_prev = NULL\<rparr>)"
    "ll_first (vs_lists v' ll) = node" "ll_last (vs_lists v' ll) = node" "ll_count (vs_lists v' ll) = 1"
    using vfs_mount_effect [of ?v root "[0x2f]" al mp h3 mpath h4 node h5 NULL ops] root al garbage
    by (auto simp: upd_def)
  have "vfs_init al root ops v = Inr v'"
    using al v'(1) by (simp add: vfs_init_def ll_create_def get_ll_def put_ll_def upd_def)
  moreover have "ll_inv (get_ll v') ll [node]" "ll_contents (get_ll v') [node] = [mp]"
    using v' al by (simp_all add: ll_inv_def ll_contents_def get_ll_def)
  then have "root_mounted ops mp v'" using v' al by (auto simp: root_mounted_def mounted_def)
  ultimately show ?thesis using v'(3,4) by (auto simp: numeral_2_eq_2)
qed

text \<open>
  \<open>vfs_init\<close> mounts the initial file system at the root, if its five allocations succeed and the
  two fields of the new list header that \<open>ll_create\<close> does not clear happen to be zero.
\<close>

theorem vfs_init_correct:
  assumes root: "cstring (vmem v) root [0x2f]"
    and al: "alloc al 24 (vheap v) = Inr (ll, h1)" "ll \<noteq> NULL" "alloc al 24 h1 = Inr (mut, h2)" "mut \<noteq> NULL"
      "alloc al 24 h2 = Inr (mp, h3)" "mp \<noteq> NULL" "alloc al 2 h3 = Inr (mpath, h4)" "mpath \<noteq> NULL"
      "alloc al 24 h4 = Inr (node, h5)" "node \<noteq> NULL"
    and src: "\<And>x. in_range x root 2 \<Longrightarrow> \<not> in_range x mpath 2"
    and garbage: "ll_last (vs_lists v ll) = NULL" "ll_count (vs_lists v ll) = 0"
  shows "\<exists>v'. vfs_init al root ops v = Inr v' \<and> root_mounted ops mp v'"
  using vfs_init_effect [OF assms(1-11) src garbage] by blast

text \<open>
  A second mount succeeds and makes the file system unusable: the list function does not link
  the new node, so that every later look-up of a path follows a null pointer.
\<close>

theorem vfs_mount_second:
  assumes r: "root_mounted ops mp v" and x: "ll_inv (get_ll v) (mountpoint_list v) [x]" "node \<noteq> x"
    and path: "cstring (vmem v) path nm" "length nm < 2 ^ 64"
    and al: "alloc al 24 (vheap v) = Inr (mp', h1)" "mp' \<noteq> NULL" "mp' \<noteq> mp"
      "alloc al (of_nat (length nm) + 1) h1 = Inr (mpath, h2)" "mpath \<noteq> NULL"
      "alloc al 24 h2 = Inr (node, h3)" "node \<noteq> NULL"
    and src: "\<And>i. i \<le> length nm \<Longrightarrow> \<not> in_range (path + of_nat i) mpath (length nm + 1)"
    and mem: "\<And>x. in_range x (mp_path (vs_mps v mp)) 2 \<Longrightarrow> \<not> in_range x mpath (length nm + 1)"
  shows "\<exists>v'. vfs_mount al device path ops' v = Inr (0, v') \<and>
    (\<forall>p flags. p \<noteq> NULL \<longrightarrow> vfs_open p flags v' = Inl NullDeref)"
proof -
  have ll: "mountpoint_list v \<noteq> NULL" and first: "ll_first (vs_lists v (mountpoint_list v)) = x" "x \<noteq> NULL"
      "lln_next (vs_nodes v x) = NULL" and c1: "unat (ll_count (vs_lists v (mountpoint_list v))) = 1"
    using x(1) by (auto simp: ll_inv_def get_ll_def)
  have cnt: "ll_count (vs_lists v (mountpoint_list v)) = 1" using c1 by (simp add: word_unat_eq_iff)
  have mp: "mp \<noteq> NULL" "mp_path (vs_mps v mp) \<noteq> NULL" "cstring (vmem v) (mp_path (vs_mps v mp)) [0x2f]"
    using r by (auto simp: root_mounted_def mounted_def)
  have "ll_contents (get_ll v) [x] = [mp]"
    using r x(1) chain_unique [OF ll_inv_chain ll_inv_chain] by (force simp: root_mounted_def mounted_def)
  then have cx: "lln_content (vs_nodes v x) = mp" by (simp add: ll_contents_def get_ll_def)
  obtain v' where v': "vfs_mount al device path ops' v = Inr (0, v')"
    "\<forall>x. \<not> in_range x mpath (length nm + 1) \<longrightarrow> vmem v' x = vmem v x" "mountpoint_list v' = mountpoint_list v"
    "vs_mps v' mp = vs_mps v mp" "vs_nodes v' x = vs_nodes v x"
    "ll_first (vs_lists v' (mountpoint_list v)) = x" "ll_count (vs_lists v' (mountpoint_list v)) = 2"
    using vfs_mount_effect [OF path ll al(1,2,4-7) src, of device ops'] first al(3) x(2) cnt
    by auto
  have "cstring (vmem v') (mp_path (vs_mps v mp)) [0x2f]"
  proof (rule cstring_frame [OF mp(3)])
    show "vmem v' (mp_path (vs_mps v mp) + of_nat i) = vmem v (mp_path (vs_mps v mp) + of_nat i)"
      if "i \<le> length [0x2f :: u8]" for i
      using v'(2) mem [OF in_range_offset [of i 2]] that by simp
  qed
  then have len: "strlen (vmem v') (mp_path (vs_mps v mp)) = Some 1" using strlen_cstring by fastforce
  have g: "ll_get (get_ll v') (mountpoint_list v) 0 = Inr mp" "ll_get (get_ll v') (mountpoint_list v) 1 = Inl NullDeref"
    using v'(5-7) first ll cx by (simp_all add: ll_get_def ll_size_def get_ll_def word_le_nat_alt)
  have "vfs_get_mountpoint (mountpoint_list v') p v' = Inl NullDeref" if "p \<noteq> NULL" for p
  proof -
    have "unat (ll_size (get_ll v') (mountpoint_list v)) = Suc (Suc 0)" using v'(7) ll by (simp add: ll_size_def get_ll_def)
    then show ?thesis using that g len mp(1,2) v'(3,4) by (simp add: vfs_get_mountpoint_def)
  qed
  then show ?thesis using v'(1) by (auto simp: vfs_open_def)
qed

text \<open>A state with the initial file system of the sample archive at the root, for the witnesses.\<close>

definition vfs_sample :: vstate where
  "vfs_sample = \<lparr>vs_fs = fs_sample\<lparr>fs_mem := tar_sample(0x6000 := 0x2f)\<rparr>,
     vs_lists = (\<lambda>_. \<lparr>ll_first = 0x7100, ll_last = 0x7100, ll_count = 1\<rparr>),
     vs_nodes = (\<lambda>_. \<lparr>lln_content = 0x5000, lln_next = NULL, lln_prev = NULL\<rparr>),
     vs_mps = (\<lambda>_. \<lparr>mp_device = NULL, mp_path = 0x6000,
       mp_operations = initramfs_operations (fst heap_sample) 0x10000 0 0\<rparr>),
     mountpoint_list = 0x7000\<rparr>"

lemma vfs_sample_root: "root_mounted (initramfs_operations (fst heap_sample) 0x10000 0 0) 0x5000 vfs_sample"
proof -
  have "ll_inv (get_ll vfs_sample) 0x7000 [0x7100]" "ll_contents (get_ll vfs_sample) [0x7100] = [0x5000]"
    by (simp_all add: ll_inv_def ll_contents_def get_ll_def vfs_sample_def)
  then show ?thesis by (auto simp: root_mounted_def mounted_def vfs_sample_def tar_sample_def)
qed

lemma vfs_sample_mem:
  "vmem vfs_sample = tar_sample(0x6000 := 0x2f)" "vheap vfs_sample = snd heap_sample"
  "mp_path (vs_mps vfs_sample mp) = 0x6000"
  by (simp_all add: vfs_sample_def fs_sample_def)

lemma vfs_sample_path: "cstring (vmem vfs_sample) 0x20000 [0x2f, 0x61]"
  by (simp add: vfs_sample_mem tar_sample_def)

lemma vfs_sample_tar: "tar_at (vmem vfs_sample) 0x10000 [([0x2f, 0x61], [1, 2, 3])]"
proof (rule tar_at_frame [OF tar_sample_at])
  fix x assume "in_range x 0x10000 (tar_size [([0x2f, 0x61], [1, 2, 3])])"
  moreover have "in_range 0x6000 0x6000 1" by (simp add: in_range_def)
  then have "\<not> in_range 0x6000 0x10000 1536" by (rule disjoint_ranges [rotated 2]) simp_all
  ultimately have "x \<noteq> 0x6000" by (auto simp: blocks_of_def)
  then show "vmem vfs_sample x = tar_sample x" by (simp add: vfs_sample_mem)
qed

theorem vfs_get_mountpoint_correct_witness:
  "\<exists>mp. vfs_get_mountpoint 0x7000 0x20000 vfs_sample = Inr mp \<and> mp = 0x5000"
proof -
  have M: "mounted vfs_sample 0x7000 [0x5000] (\<lambda>_. [0x2f])"
    using vfs_sample_root by (simp add: root_mounted_def vfs_sample_def)
  show ?thesis using vfs_get_mountpoint_correct [OF M vfs_sample_path] by (auto simp: covers_root)
qed

theorem vfs_open_read_witness:
  "\<exists>v1 v2. vfs_open 0x20000 0 vfs_sample = Inr (0x1020, v1) \<and>
     read_seq (vfs_read 0x1020 0x30000) (\<lambda>n v. bytes_at (vmem v) 0x30000 n) [2, 2] v1 = Inr ([1, 2, 3], v2)"
proof -
  obtain h1 h2 where h: "alloc (fst heap_sample) 24 (snd heap_sample) = Inr (0x1020, h1)"
    "alloc (fst heap_sample) 3 h1 = Inr (0x1060, h2)" using fs_sample_alloc by blast
  have d: "in_range x 0x10000 1536 \<Longrightarrow> \<not> in_range x 0x30000 2" "in_range x 0x1060 3 \<Longrightarrow> \<not> in_range x 0x10000 1536"
    "in_range x 0x1060 3 \<Longrightarrow> \<not> in_range x 0x30000 2" "in_range x 0x1060 3 \<Longrightarrow> \<not> in_range x 0x20000 3"
    "in_range x 0x1060 3 \<Longrightarrow> \<not> in_range x 0x6000 2" "in_range x 0x6000 2 \<Longrightarrow> \<not> in_range x 0x30000 2" for x
    by (rule disjoint_ranges; simp)+
  have p: "\<not> in_range (0x20000 + of_nat i) 0x1060 3" if "i \<le> 2" for i
    using d(4) in_range_offset [of i 3 "0x20000"] that by auto
  have "\<exists>v1 v2. vfs_open 0x20000 0 vfs_sample = Inr (0x1020, v1) \<and>
      read_seq (vfs_read 0x1020 0x30000) (\<lambda>n v. bytes_at (vmem v) 0x30000 n) [2, 2] v1 =
        Inr (take (sum_list (map unat [2, 2 :: u64])) (snd ([0x2f, 0x61 :: u8], [1, 2, 3])), v2)"
    by (rule vfs_open_read [OF vfs_sample_root vfs_sample_tar _ _ vfs_sample_path, where N = 2 and ?h1.0 = h1 and ?h2.0 = h2])
      (use h d p in \<open>auto simp: vfs_sample_mem blocks_of_def simp flip: numeral_2_eq_2\<close>)
  then show ?thesis by simp
qed

definition vfs_blank :: vstate where
  "vfs_blank = \<lparr>vs_fs = \<lparr>fs_mem = (\<lambda>_. 0)(0x6000 := 0x2f), fs_heap = snd heap_sample, fs_files = (\<lambda>_. undefined)\<rparr>,
     vs_lists = (\<lambda>_. \<lparr>ll_first = 0, ll_last = 0, ll_count = 0\<rparr>), vs_nodes = (\<lambda>_. undefined),
     vs_mps = (\<lambda>_. undefined), mountpoint_list = NULL\<rparr>"

lemma result_atD: "(case r of Inl _ \<Rightarrow> False | Inr (p, h) \<Rightarrow> p = q \<and> P h) \<Longrightarrow> \<exists>h. r = Inr (q, h) \<and> P h"
  by (cases r) auto

lemma vfs_blank_alloc:
  "\<exists>h1 h2 h3 h4 h5. alloc (fst heap_sample) 24 (snd heap_sample) = Inr (0x1020, h1) \<and>
     alloc (fst heap_sample) 24 h1 = Inr (0x1060, h2) \<and> alloc (fst heap_sample) 24 h2 = Inr (0x10a0, h3) \<and>
     alloc (fst heap_sample) 2 h3 = Inr (0x10e0, h4) \<and> alloc (fst heap_sample) 24 h4 = Inr (0x1120, h5)"
proof -
  let ?a = "alloc (fst heap_sample)"
  have "(case ?a 24 (snd heap_sample) of Inl _ \<Rightarrow> False | Inr (p1, h1) \<Rightarrow> p1 = 0x1020 \<and>
    (case ?a 24 h1 of Inl _ \<Rightarrow> False | Inr (p2, h2) \<Rightarrow> p2 = 0x1060 \<and>
    (case ?a 24 h2 of Inl _ \<Rightarrow> False | Inr (p3, h3) \<Rightarrow> p3 = 0x10a0 \<and>
    (case ?a 2 h3 of Inl _ \<Rightarrow> False | Inr (p4, h4) \<Rightarrow> p4 = 0x10e0 \<and>
    (case ?a 24 h4 of Inl _ \<Rightarrow> False | Inr (p5, h5) \<Rightarrow> p5 = 0x1120 \<and> True)))))" by code_simp
  then show ?thesis by - ((drule result_atD, elim exE conjE)+, blast)
qed

theorem vfs_init_correct_witness:
  "\<exists>v'. vfs_init (fst heap_sample) 0x6000 (initramfs_operations (fst heap_sample) 0x10000 0 0) vfs_blank = Inr v' \<and>
     root_mounted (initramfs_operations (fst heap_sample) 0x10000 0 0) 0x10a0 v'"
proof -
  obtain h1 h2 h3 h4 h5 where h: "alloc (fst heap_sample) 24 (snd heap_sample) = Inr (0x1020, h1)"
     "alloc (fst heap_sample) 24 h1 = Inr (0x1060, h2)" "alloc (fst heap_sample) 24 h2 = Inr (0x10a0, h3)"
     "alloc (fst heap_sample) 2 h3 = Inr (0x10e0, h4)" "alloc (fst heap_sample) 24 h4 = Inr (0x1120, h5)"
    using vfs_blank_alloc by blast
  have "in_range x 0x10e0 2 \<Longrightarrow> \<not> in_range x 0x6000 2" for x by (rule disjoint_ranges; simp)
  then have "in_range x 0x6000 2 \<Longrightarrow> \<not> in_range x 0x10e0 2" for x by blast
  then show ?thesis
    using vfs_init_correct [of vfs_blank "0x6000" "fst heap_sample" "0x1020" h1 "0x1060" h2 "0x10a0" h3 "0x10e0" h4 "0x1120" h5] h
    by (auto simp: vfs_blank_def)
qed

end
