(* ===== verification/Framebuffer.thy ===== *)
theory Framebuffer
  imports CString
begin

text \<open>
  The text console on the linear framebuffer, \<open>src/src/framebuffer.c\<close>: the cursor, drawing of
  glyphs, line breaks and clearing.  Memory is byte-addressed; the address of the font image that
  is linked into the kernel is the parameter \<open>font\<close>.
\<close>

section \<open>State and operations\<close>

text \<open>The fields of the boot loader's description that the kernel reads.\<close>

record limine_framebuffer =
  lf_address :: u64
  lf_width :: u64
  lf_height :: u64
  lf_pitch :: u64
  lf_bpp :: u16

record framebuffer =
  info_width :: u64
  info_height :: u64
  info_bpp :: u64
  info_pitch :: u64
  x_pos :: u64
  y_pos :: u64
  fb_buffer :: u64
  fb_putchar_fn :: u64

definition LINE_SPACING :: u64 where "LINE_SPACING = 2"
definition LETTER_SPACING :: u64 where "LETTER_SPACING = 0"
definition BORDER_PADDING :: u64 where "BORDER_PADDING = 1"
definition CHAR_RASTER_HEIGHT :: nat where "CHAR_RASTER_HEIGHT = 16"
definition CHAR_RASTER_WIDTH :: nat where "CHAR_RASTER_WIDTH = 8"

abbreviation sizeof_PSF1_header :: u64 where "sizeof_PSF1_header \<equiv> 4"

definition fb_width :: "framebuffer \<Rightarrow> u64" where
  "fb_width fb = info_width fb"

definition fb_height :: "framebuffer \<Rightarrow> u64" where
  "fb_height fb = info_height fb"

definition carriage_return :: "framebuffer \<Rightarrow> framebuffer" where
  "carriage_return fb = fb\<lparr>x_pos := BORDER_PADDING\<rparr>"

definition newline :: "framebuffer \<Rightarrow> framebuffer" where
  "newline fb = carriage_return (fb\<lparr>y_pos := y_pos fb + (of_nat CHAR_RASTER_HEIGHT + LINE_SPACING)\<rparr>)"

definition clear :: "framebuffer \<times> mem \<Rightarrow> framebuffer \<times> mem" where
  "clear = (\<lambda>(fb, m).
     let size' = info_bpp fb div 8 * fb_width fb * fb_height fb
     in (fb\<lparr>x_pos := BORDER_PADDING, y_pos := BORDER_PADDING\<rparr>, snd (memset m (fb_buffer fb) 0 size')))"

text \<open>A 32-bit word is stored with its least significant byte first.\<close>

definition store32 :: "u64 \<Rightarrow> u32 \<Rightarrow> mem \<Rightarrow> mem" where
  "store32 a w = for_loop 4 (\<lambda>i m. m(a + of_nat i := ucast (drop_bit (8 * i) w)))"

definition write_pixel :: "framebuffer \<Rightarrow> u64 \<Rightarrow> u64 \<Rightarrow> u32 \<Rightarrow> mem \<Rightarrow> mem" where
  "write_pixel fb x y color = store32 (fb_buffer fb + 4 * (x + y * (info_pitch fb div 4))) color"

definition write_char :: "u64 \<Rightarrow> u8 \<Rightarrow> u32 \<Rightarrow> framebuffer \<times> mem \<Rightarrow> framebuffer \<times> mem" where
  "write_char font c color = (\<lambda>(fb, m).
     let bytes_per_glyph = of_nat ((CHAR_RASTER_WIDTH * CHAR_RASTER_HEIGHT) div 8);
         glyph = font + sizeof_PSF1_header + ucast c * bytes_per_glyph;
         m = for_loop CHAR_RASTER_HEIGHT (\<lambda>y m.
               let pixel_row = m (glyph + of_nat y) in
               for_loop CHAR_RASTER_WIDTH (\<lambda>x m.
                 if (ucast pixel_row :: i32) AND push_bit (7 - x) 1 \<noteq> 0
                 then write_pixel fb (x_pos fb + of_nat x) (y_pos fb + of_nat y) color m else m) m) m
     in (fb\<lparr>x_pos := x_pos fb + (of_nat CHAR_RASTER_WIDTH + LETTER_SPACING)\<rparr>, m))"

text \<open>The function \<open>putchar\<close> of this file, as opposed to that of \<open>printk.c\<close>; it returns \<open>0\<close>.\<close>

definition fb_putchar :: "u64 \<Rightarrow> i32 \<Rightarrow> framebuffer \<times> mem \<Rightarrow> i32 \<times> framebuffer \<times> mem" where
  "fb_putchar font c = (\<lambda>(fb, m).
     (0, if c = 10 then (newline fb, m)
         else if c = 13 then (carriage_return fb, m)
         else let new_xpos = x_pos fb + of_nat CHAR_RASTER_WIDTH;
                  fb = (if new_xpos \<ge> fb_width fb then newline fb else fb);
                  new_ypos = y_pos fb + of_nat CHAR_RASTER_HEIGHT + BORDER_PADDING;
                  (fb, m) = (if new_ypos \<ge> fb_height fb then clear (fb, m) else (fb, m))
              in write_char font (ucast c) 0xffffffff (fb, m)))"

definition framebuffer_init :: "u64 \<Rightarrow> limine_framebuffer \<Rightarrow> framebuffer \<times> mem \<Rightarrow> framebuffer \<times> mem" where
  "framebuffer_init putchar_addr i = (\<lambda>(fb, m).
     clear (fb\<lparr>info_width := lf_width i, info_height := lf_height i, info_bpp := ucast (lf_bpp i),
       info_pitch := lf_pitch i, fb_buffer := lf_address i, fb_putchar_fn := putchar_addr\<rparr>, m))"

text \<open>
  The body of the loop of \<open>framebuffer_print_process\<close> once the pipe has delivered a byte and the
  framebuffer's mutex is held.
\<close>

definition framebuffer_print :: "u64 \<Rightarrow> u8 \<Rightarrow> framebuffer \<times> mem \<Rightarrow> framebuffer \<times> mem" where
  "framebuffer_print font buf s = snd (fb_putchar font (ucast buf) s)"

section \<open>Pixels and the abstract screen\<close>

definition load32 :: "mem \<Rightarrow> u64 \<Rightarrow> u32" where
  "load32 m a = ucast (m a) OR push_bit 8 (ucast (m (a + 1))) OR push_bit 16 (ucast (m (a + 2))) OR
     push_bit 24 (ucast (m (a + 3)))"

definition pixel :: "framebuffer \<Rightarrow> mem \<Rightarrow> nat \<Rightarrow> nat \<Rightarrow> u32" where
  "pixel fb m x y = load32 m (fb_buffer fb + 4 * (of_nat x + of_nat y * (info_pitch fb div 4)))"

text \<open>
  A usable mode: four bytes for a pixel, lines at least as long as the visible part, room for one
  character within the border, and a buffer that does not wrap around the address space.
\<close>

definition fb_mode :: "framebuffer \<Rightarrow> bool" where
  "fb_mode fb \<longleftrightarrow> info_bpp fb = 32 \<and> unat (info_pitch fb) mod 4 = 0 \<and>
     4 * unat (info_width fb) \<le> unat (info_pitch fb) \<and> 9 \<le> unat (info_width fb) \<and> 17 \<le> unat (info_height fb) \<and>
     unat (fb_buffer fb) + unat (info_pitch fb) * unat (info_height fb) < 2 ^ 64"

definition in_buffer :: "framebuffer \<Rightarrow> u64 \<Rightarrow> bool" where
  "in_buffer fb a \<longleftrightarrow> in_range a (fb_buffer fb) (unat (info_pitch fb) * unat (info_height fb))"

text \<open>The screen as a cursor and a picture, and what a character does to it.\<close>

type_synonym screen = "nat \<times> nat \<times> (nat \<Rightarrow> nat \<Rightarrow> u32)"

definition screen_of :: "framebuffer \<times> mem \<Rightarrow> screen" where
  "screen_of = (\<lambda>(fb, m). (unat (x_pos fb), unat (y_pos fb),
     \<lambda>x y. if x < unat (info_width fb) \<and> y < unat (info_height fb) then pixel fb m x y else 0))"

definition screen_char :: "(nat \<Rightarrow> u8) \<Rightarrow> nat \<Rightarrow> nat \<Rightarrow> screen \<Rightarrow> screen" where
  "screen_char g w h = (\<lambda>(x, y, p).
     let (x, y) = (if w \<le> x + 8 then (1, y + 18) else (x, y));
         (x, y, p) = (if h \<le> y + 17 then (1, 1, \<lambda>_ _. 0) else (x, y, p))
     in (x + 8, y, \<lambda>i j. if x \<le> i \<and> i < x + 8 \<and> y \<le> j \<and> j < y + 16 \<and> bit (g (j - y)) (7 - (i - x))
          then 0xffffffff else p i j))"

definition screen_put :: "(u8 \<Rightarrow> nat \<Rightarrow> u8) \<Rightarrow> nat \<Rightarrow> nat \<Rightarrow> i32 \<Rightarrow> screen \<Rightarrow> screen" where
  "screen_put glyphs w h c = (\<lambda>(x, y, p).
     if c = 10 then (1, y + 18, p) else if c = 13 then (1, y, p)
     else screen_char (glyphs (ucast c)) w h (x, y, p))"

definition glyph_of :: "u64 \<Rightarrow> mem \<Rightarrow> u8 \<Rightarrow> nat \<Rightarrow> u8" where
  "glyph_of font m c y = m (font + 4 + ucast c * 16 + of_nat y)"

section \<open>Addresses of pixels\<close>

lemma fb_modeD:
  assumes "fb_mode fb"
  obtains P where "unat (info_pitch fb div 4) = P" "unat (info_pitch fb) = 4 * P" "unat (info_width fb) \<le> P"
    "unat (fb_buffer fb) + 4 * P * unat (info_height fb) < 2 ^ 64"
proof
  show "unat (info_pitch fb div 4) = unat (info_pitch fb) div 4" by (simp add: unat_div)
  show "unat (info_pitch fb) = 4 * (unat (info_pitch fb) div 4)" using assms by (auto simp: fb_mode_def)
  show "unat (info_width fb) \<le> unat (info_pitch fb) div 4" using assms by (auto simp: fb_mode_def)
  show "unat (fb_buffer fb) + 4 * (unat (info_pitch fb) div 4) * unat (info_height fb) < 2 ^ 64"
    using assms by (auto simp: fb_mode_def)
qed

definition pixel_at :: "framebuffer \<Rightarrow> nat \<Rightarrow> nat \<Rightarrow> nat" where
  "pixel_at fb x y = 4 * (x + y * (unat (info_pitch fb) div 4))"

lemma pixel_at_bound:
  assumes "fb_mode fb" "x < unat (info_width fb)" "y < unat (info_height fb)"
  shows "pixel_at fb x y + 4 \<le> unat (info_pitch fb) * unat (info_height fb)"
proof -
  obtain P where P: "unat (info_pitch fb) = 4 * P" "unat (info_width fb) \<le> P" using fb_modeD [OF assms(1)] by metis
  have "x + 1 + y * P \<le> P + y * P" using assms(2) P(2) by simp
  also have "\<dots> = Suc y * P" by simp
  also have "\<dots> \<le> unat (info_height fb) * P" using assms(3) by (intro mult_le_mono1) simp
  finally show ?thesis using P(1) by (simp add: pixel_at_def algebra_simps)
qed

lemma pixel_addr:
  assumes "fb_mode fb"
  shows "fb_buffer fb + 4 * (of_nat x + of_nat y * (info_pitch fb div 4)) = fb_buffer fb + of_nat (pixel_at fb x y)"
proof -
  have "info_pitch fb div 4 = of_nat (unat (info_pitch fb) div 4)"
    using unat_u64_lt [of "info_pitch fb"] by (simp add: word_unat_eq_iff unat_div unat_of_nat_u64)
  then show ?thesis by (simp add: pixel_at_def)
qed

lemma pixel_at_inj:
  assumes "fb_mode fb" "x < unat (info_width fb)" "x' < unat (info_width fb)"
    "k < 4" "k' < 4" "pixel_at fb x y + k = pixel_at fb x' y' + k'"
  shows "x = x' \<and> y = y'"
proof -
  define P where "P = unat (info_pitch fb) div 4"
  have P: "unat (info_width fb) \<le> P" using assms(1) by (auto simp: fb_mode_def P_def)
  have "(4 * (x + y * P) + k) div 4 = (4 * (x' + y' * P) + k') div 4" using assms(6) by (simp add: pixel_at_def P_def)
  then have eq: "x + y * P = x' + y' * P" using assms(4,5) by (simp only: div_mult_self4 div_mult_self1 div_less)
  have "(x + y * P) mod P = x" "(x' + y' * P) mod P = x'" "(x + y * P) div P = y" "(x' + y' * P) div P = y'"
    using assms(2,3) P by simp_all
  then show ?thesis using eq by metis
qed

section \<open>Writing pixels\<close>

lemma store32_other: "\<not> in_range x a 4 \<Longrightarrow> store32 a w m x = m x"
  unfolding store32_def
  by (rule for_loop_invariant [where P = "\<lambda>_ t. t x = m x"]) (auto dest: not_in_rangeD)

lemma store32_at: "k < 4 \<Longrightarrow> store32 a w m (a + of_nat k) = ucast (drop_bit (8 * k) w)"
proof -
  have "\<forall>k<n. for_loop n (\<lambda>i m. m(a + of_nat i := ucast (drop_bit (8 * i) w))) m (a + of_nat k) =
      ucast (drop_bit (8 * k) w)" if "n \<le> 4" for n
    using that by (induction n) (auto simp: of_nat_u64_inj less_Suc_eq)
  then show "k < 4 \<Longrightarrow> ?thesis" by (simp add: store32_def)
qed

lemma load32_store32: "load32 (store32 a w m) a = w"
proof -
  have "store32 a w m a = ucast w" "store32 a w m (a + 1) = ucast (drop_bit 8 w)"
    "store32 a w m (a + 2) = ucast (drop_bit 16 w)" "store32 a w m (a + 3) = ucast (drop_bit 24 w)"
    using store32_at [of 0 a w m] store32_at [of 1 a w m] store32_at [of 2 a w m] store32_at [of 3 a w m] by simp_all
  moreover have "ucast (ucast w :: u8) OR push_bit 8 (ucast (ucast (drop_bit 8 w) :: u8)) OR
      push_bit 16 (ucast (ucast (drop_bit 16 w) :: u8)) OR push_bit 24 (ucast (ucast (drop_bit 24 w) :: u8) :: u32) = w"
  proof (rule bit_word_eqI)
    fix n assume "n < LENGTH(32)"
    then consider "n < 8" | "8 \<le> n" "n < 16" | "16 \<le> n" "n < 24" | "24 \<le> n" "n < 32" by force
    then show "bit (ucast (ucast w :: u8) OR push_bit 8 (ucast (ucast (drop_bit 8 w) :: u8)) OR
      push_bit 16 (ucast (ucast (drop_bit 16 w) :: u8)) OR push_bit 24 (ucast (ucast (drop_bit 24 w) :: u8) :: u32)) n = bit w n"
      by cases (auto simp: bit_simps)
  qed
  ultimately show ?thesis by (simp add: load32_def)
qed

lemma load32_cong:
  assumes "\<And>k. k < 4 \<Longrightarrow> m' (a + of_nat k) = m (a + of_nat k)"
  shows "load32 m' a = load32 m a"
  using assms [of 0] assms [of 1] assms [of 2] assms [of 3] by (simp add: load32_def)

lemma buffer_offset:
  assumes "fb_mode fb" "i < unat (info_pitch fb) * unat (info_height fb)"
  shows "i < 2 ^ 64"
  using assms by (auto simp: fb_mode_def)

lemma write_pixel_addr:
  "fb_mode fb \<Longrightarrow> write_pixel fb (of_nat x) (of_nat y) col = store32 (fb_buffer fb + of_nat (pixel_at fb x y)) col"
  unfolding write_pixel_def by (simp only: pixel_addr)

lemma pixel_eq: "fb_mode fb \<Longrightarrow> pixel fb m x y = load32 m (fb_buffer fb + of_nat (pixel_at fb x y))"
  unfolding pixel_def by (simp only: pixel_addr)

lemma write_pixel_frame:
  assumes "fb_mode fb" "x < unat (info_width fb)" "y < unat (info_height fb)" "\<not> in_buffer fb a"
  shows "write_pixel fb (of_nat x) (of_nat y) col m a = m a"
proof -
  have "\<not> in_range a (fb_buffer fb + of_nat (pixel_at fb x y)) 4"
  proof
    assume "in_range a (fb_buffer fb + of_nat (pixel_at fb x y)) 4"
    then obtain k where "k < 4" "a = fb_buffer fb + of_nat (pixel_at fb x y + k)" by (auto simp: in_range_def add.assoc)
    moreover have "pixel_at fb x y + k < unat (info_pitch fb) * unat (info_height fb)"
      using pixel_at_bound [OF assms(1-3)] \<open>k < 4\<close> by simp
    ultimately show False using assms(4) unfolding in_buffer_def in_range_def by blast
  qed
  then show ?thesis using assms(1) by (simp add: write_pixel_addr store32_other)
qed

lemma write_pixel_pixel:
  assumes "fb_mode fb" "x < unat (info_width fb)" "y < unat (info_height fb)"
    "x' < unat (info_width fb)" "y' < unat (info_height fb)"
  shows "pixel fb (write_pixel fb (of_nat x) (of_nat y) col m) x' y' = (if x' = x \<and> y' = y then col else pixel fb m x' y')"
proof (cases "x' = x \<and> y' = y")
  case True
  then show ?thesis using assms(1) by (simp add: pixel_eq write_pixel_addr load32_store32)
next
  case False
  have "\<not> in_range (fb_buffer fb + of_nat (pixel_at fb x' y') + of_nat k) (fb_buffer fb + of_nat (pixel_at fb x y)) 4"
    if "k < 4" for k
  proof
    assume "in_range (fb_buffer fb + of_nat (pixel_at fb x' y') + of_nat k) (fb_buffer fb + of_nat (pixel_at fb x y)) 4"
    then obtain j where j: "j < 4" "fb_buffer fb + of_nat (pixel_at fb x' y' + k) = fb_buffer fb + of_nat (pixel_at fb x y + j)"
      by (auto simp: in_range_def add.assoc)
    have "pixel_at fb x' y' + k < 2 ^ 64" "pixel_at fb x y + j < 2 ^ 64"
      using pixel_at_bound [OF assms(1,2,3)] pixel_at_bound [OF assms(1,4,5)] that j(1)
      by (intro buffer_offset [OF assms(1)]; linarith)+
    then have "pixel_at fb x' y' + k = pixel_at fb x y + j" using j(2) by (simp only: add_of_nat_inj)
    then show False using pixel_at_inj [OF assms(1,4,2) that j(1)] False by blast
  qed
  then have "pixel fb (write_pixel fb (of_nat x) (of_nat y) col m) x' y' = pixel fb m x' y'"
    unfolding pixel_eq [OF assms(1)] write_pixel_addr [OF assms(1)] by (intro load32_cong store32_other) blast
  then show ?thesis using False by auto
qed

section \<open>Drawing a character\<close>

lemma pixel_row_bit: "x < 8 \<Longrightarrow> (ucast (r :: u8) :: i32) AND push_bit (7 - x) 1 \<noteq> 0 \<longleftrightarrow> bit r (7 - x)"
  unfolding bit_iff_and_push_bit_not_eq_0 [symmetric] by (auto simp: bit_simps)

text \<open>The picture when the rows before \<open>r\<close> and the first \<open>c\<close> columns of row \<open>r\<close> are drawn.\<close>

definition drawn :: "framebuffer \<Rightarrow> (nat \<Rightarrow> u8) \<Rightarrow> u32 \<Rightarrow> mem \<Rightarrow> nat \<Rightarrow> nat \<Rightarrow> mem \<Rightarrow> bool" where
  "drawn fb g col m0 r c m \<longleftrightarrow>
     (\<forall>i j. i < unat (info_width fb) \<longrightarrow> j < unat (info_height fb) \<longrightarrow>
        pixel fb m i j = (if unat (x_pos fb) \<le> i \<and> i < unat (x_pos fb) + 8 \<and> unat (y_pos fb) \<le> j \<and>
            (j < unat (y_pos fb) + r \<or> j = unat (y_pos fb) + r \<and> i < unat (x_pos fb) + c) \<and>
            bit (g (j - unat (y_pos fb))) (7 - (i - unat (x_pos fb)))
          then col else pixel fb m0 i j)) \<and>
     (\<forall>a. \<not> in_buffer fb a \<longrightarrow> m a = m0 a)"

definition cell_fits :: "framebuffer \<Rightarrow> bool" where
  "cell_fits fb \<longleftrightarrow> unat (x_pos fb) + 8 \<le> unat (info_width fb) \<and> unat (y_pos fb) + 16 \<le> unat (info_height fb)"

lemma drawn_column:
  assumes fb: "fb_mode fb" "cell_fits fb" and d: "drawn fb g col m0 r c m" and "r < 16" "c < 8"
  shows "drawn fb g col m0 r (Suc c) (if bit (g r) (7 - c)
    then write_pixel fb (x_pos fb + of_nat c) (y_pos fb + of_nat r) col m else m)"
proof -
  let ?x = "unat (x_pos fb) + c" and ?y = "unat (y_pos fb) + r"
  have xy: "?x < unat (info_width fb)" "?y < unat (info_height fb)" using assms by (auto simp: cell_fits_def)
  have eq: "write_pixel fb (x_pos fb + of_nat c) (y_pos fb + of_nat r) = write_pixel fb (of_nat ?x) (of_nat ?y)" by simp
  let ?m = "if bit (g r) (7 - c) then write_pixel fb (of_nat ?x) (of_nat ?y) col m else m"
  have px: "pixel fb ?m i j = (if bit (g r) (7 - c) \<and> i = ?x \<and> j = ?y then col else pixel fb m i j)"
    if "i < unat (info_width fb)" "j < unat (info_height fb)" for i j
    by (cases "bit (g r) (7 - c)") (simp_all only: if_True if_False simp_thms write_pixel_pixel [OF fb(1) xy that])
  have "pixel fb ?m i j = (if unat (x_pos fb) \<le> i \<and> i < unat (x_pos fb) + 8 \<and> unat (y_pos fb) \<le> j \<and>
      (j < ?y \<or> j = ?y \<and> i < unat (x_pos fb) + Suc c) \<and> bit (g (j - unat (y_pos fb))) (7 - (i - unat (x_pos fb)))
      then col else pixel fb m0 i j)" if "i < unat (info_width fb)" "j < unat (info_height fb)" for i j
    using that d px [OF that] assms(5) by (auto simp: drawn_def less_Suc_eq)
  moreover have "?m a = m0 a" if "\<not> in_buffer fb a" for a
    using that d write_pixel_frame [OF fb(1) xy that] by (auto simp: drawn_def)
  ultimately show ?thesis unfolding eq by (simp add: drawn_def)
qed

lemma drawn_row:
  assumes "fb_mode fb" "cell_fits fb" "drawn fb g col m0 r 0 m" "r < 16"
  shows "drawn fb g col m0 (Suc r) 0 (for_loop 8 (\<lambda>x m. if bit (g r) (7 - x)
    then write_pixel fb (x_pos fb + of_nat x) (y_pos fb + of_nat r) col m else m) m)"
    (is "drawn _ _ _ _ _ _ ?m")
proof -
  have "drawn fb g col m0 r 8 ?m"
    by (rule for_loop_invariant [where P = "drawn fb g col m0 r"]) (use assms drawn_column in auto)
  then show ?thesis unfolding drawn_def by (auto simp: less_Suc_eq)
qed

lemma for_loop_cong: "(\<And>i t. i < n \<Longrightarrow> f i t = g i t) \<Longrightarrow> for_loop n f s = for_loop n g s"
  by (induction n) auto

lemma write_char_drawn:
  assumes fb: "fb_mode fb" "cell_fits fb" and font: "\<And>y. y < 16 \<Longrightarrow> \<not> in_buffer fb (font + 4 + ucast c * 16 + of_nat y)"
  shows "\<exists>m'. write_char font c col (fb, m) = (fb\<lparr>x_pos := x_pos fb + 8\<rparr>, m') \<and>
    drawn fb (glyph_of font m c) col m 16 0 m'"
proof -
  let ?row = "\<lambda>y r m. for_loop 8 (\<lambda>x m. if (ucast (r :: u8) :: i32) AND push_bit (7 - x) 1 \<noteq> 0
    then write_pixel fb (x_pos fb + of_nat x) (y_pos fb + of_nat y) col m else m) m"
  have "drawn fb (glyph_of font m c) col m 16 0
      (for_loop 16 (\<lambda>y m. ?row y (m (font + 4 + ucast c * 16 + of_nat y)) m) m)"
  proof (rule for_loop_invariant [where P = "\<lambda>r. drawn fb (glyph_of font m c) col m r 0"])
    show "drawn fb (glyph_of font m c) col m 0 0 m" by (auto simp: drawn_def)
    fix r t assume r: "r < 16" "drawn fb (glyph_of font m c) col m r 0 t"
    then have "t (font + 4 + ucast c * 16 + of_nat r) = glyph_of font m c r"
      using font by (simp add: drawn_def glyph_of_def)
    moreover have "?row r (glyph_of font m c r) t = for_loop 8 (\<lambda>x n. if bit (glyph_of font m c r) (7 - x)
        then write_pixel fb (x_pos fb + of_nat x) (y_pos fb + of_nat r) col n else n) t"
      by (rule for_loop_cong) (simp only: pixel_row_bit)
    ultimately show "drawn fb (glyph_of font m c) col m (Suc r) 0 (?row r (t (font + 4 + ucast c * 16 + of_nat r)) t)"
      using drawn_row [OF fb r(2,1)] by simp
  qed
  then show ?thesis
    by (simp add: write_char_def CHAR_RASTER_HEIGHT_def CHAR_RASTER_WIDTH_def LETTER_SPACING_def)
qed

section \<open>Clearing and printing\<close>

definition same_mode :: "framebuffer \<Rightarrow> framebuffer \<Rightarrow> bool" where
  "same_mode fb fb' \<longleftrightarrow> info_width fb' = info_width fb \<and> info_height fb' = info_height fb \<and> info_bpp fb' = info_bpp fb \<and>
     info_pitch fb' = info_pitch fb \<and> fb_buffer fb' = fb_buffer fb"

text \<open>Where the cursor can be after \<open>k\<close> characters; line feeds alone never clear the screen.\<close>

definition cursor_ok :: "nat \<Rightarrow> framebuffer \<Rightarrow> bool" where
  "cursor_ok k fb \<longleftrightarrow> unat (x_pos fb) \<le> unat (info_width fb) \<and> unat (y_pos fb) \<le> unat (info_height fb) + 18 * k"

lemma same_mode_fb_mode: "same_mode fb fb' \<Longrightarrow> fb_mode fb' = fb_mode fb"
  by (simp add: same_mode_def fb_mode_def)

lemma same_mode_in_buffer: "same_mode fb fb' \<Longrightarrow> in_buffer fb' = in_buffer fb"
  by (simp add: same_mode_def in_buffer_def fun_eq_iff)

lemma same_mode_pixel: "same_mode fb fb' \<Longrightarrow> pixel fb' = pixel fb"
  by (simp add: same_mode_def pixel_def fun_eq_iff)

lemma same_mode_trans: "same_mode fb fb' \<Longrightarrow> same_mode fb' fb'' \<Longrightarrow> same_mode fb fb''"
  by (simp add: same_mode_def)

lemma clear_size:
  assumes "fb_mode fb"
  shows "unat (info_bpp fb div 8 * info_width fb * info_height fb) = 4 * unat (info_width fb) * unat (info_height fb)"
    "4 * unat (info_width fb) * unat (info_height fb) \<le> unat (info_pitch fb) * unat (info_height fb)"
proof -
  show le: "4 * unat (info_width fb) * unat (info_height fb) \<le> unat (info_pitch fb) * unat (info_height fb)"
    using assms by (intro mult_le_mono1) (simp add: fb_mode_def)
  moreover have "unat (info_pitch fb) * unat (info_height fb) < 2 ^ 64" using assms unfolding fb_mode_def by linarith
  ultimately have "4 * unat (info_width fb) * unat (info_height fb) < 2 ^ 64" by (rule le_less_trans)
  moreover have "info_bpp fb div 8 = of_nat 4" using assms by (simp add: fb_mode_def word_unat_eq_iff unat_div)
  then have "info_bpp fb div 8 * info_width fb * info_height fb =
      of_nat (4 * unat (info_width fb) * unat (info_height fb))" by simp
  ultimately show "unat (info_bpp fb div 8 * info_width fb * info_height fb) = 4 * unat (info_width fb) * unat (info_height fb)"
    by (simp only: unat_of_nat_u64)
qed

lemma clear_effect:
  assumes fb: "fb_mode fb"
  shows "\<exists>m'. clear (fb, m) = (fb\<lparr>x_pos := 1, y_pos := 1\<rparr>, m') \<and> (\<forall>a. \<not> in_buffer fb a \<longrightarrow> m' a = m a) \<and>
    (info_pitch fb = 4 * info_width fb \<longrightarrow>
       (\<forall>i j. i < unat (info_width fb) \<longrightarrow> j < unat (info_height fb) \<longrightarrow> pixel fb m' i j = 0))"
proof -
  let ?n = "info_bpp fb div 8 * info_width fb * info_height fb"
  let ?m = "snd (memset m (fb_buffer fb) 0 ?n)"
  note n = clear_size [OF fb]
  have "?m a = m a" if "\<not> in_buffer fb a" for a
  proof -
    have "\<not> in_range a (fb_buffer fb) (unat ?n)" 
      using that in_range_mono [OF _ n(2), of a] unfolding n(1) in_buffer_def by blast
    then show ?thesis by (rule memset_block(2))
  qed
  moreover have "pixel fb ?m i j = 0"
    if p: "info_pitch fb = 4 * info_width fb" and "i < unat (info_width fb)" "j < unat (info_height fb)" for i j
  proof -
    have "unat (info_pitch fb) \<le> 4 * unat (info_width fb)" unfolding p by (simp add: unat_word_ariths)
    then have "pixel_at fb i j + 4 \<le> unat ?n"
      using pixel_at_bound [OF fb that(2,3)] n(1) by (metis order_trans mult_le_mono1)
    moreover have z: "?m (fb_buffer fb + of_nat k) = 0" if "k < unat ?n" for k
    proof -
      have "bytes_at ?m (fb_buffer fb) (unat ?n) ! k = 0"
        unfolding memset_block(1) nth_replicate [OF that] by simp
      then show ?thesis using that by (simp only: nth_bytes_at)
    qed
    ultimately have "?m (fb_buffer fb + of_nat (pixel_at fb i j) + of_nat k) = 0" if "k < 4" for k
      using that z [of "pixel_at fb i j + k"] by (simp add: add.assoc)
    then have "load32 ?m (fb_buffer fb + of_nat (pixel_at fb i j)) = load32 (\<lambda>_. 0) (fb_buffer fb + of_nat (pixel_at fb i j))"
      by (intro load32_cong) simp
    then show ?thesis unfolding pixel_eq [OF fb] by (simp add: load32_def)
  qed
  ultimately show ?thesis
    by (simp add: clear_def BORDER_PADDING_def fb_width_def fb_height_def Let_def)
qed

text \<open>The font occupies 4096 bytes behind its header.\<close>

definition font_apart :: "u64 \<Rightarrow> framebuffer \<Rightarrow> bool" where
  "font_apart font fb \<longleftrightarrow> (\<forall>i<4096. \<not> in_buffer fb (font + 4 + of_nat i))"

lemma font_apart_glyph:
  assumes "font_apart font fb" "y < 16"
  shows "\<not> in_buffer fb (font + 4 + ucast (c :: u8) * 16 + of_nat y)"
proof -
  have "unat c < 256" using unsigned_less [of c] by simp
  then have "unat c * 16 + y < 4096" using assms(2) by simp
  then have "\<not> in_buffer fb (font + 4 + of_nat (unat c * 16 + y))" using assms(1) unfolding font_apart_def by blast
  moreover have "(of_nat (unat c) :: u64) = ucast c" by simp
  ultimately show ?thesis by (simp only: of_nat_add of_nat_mult of_nat_numeral add.assoc not_False_eq_True)
qed

lemma glyph_of_frame:
  assumes "font_apart font fb" "\<forall>a. \<not> in_buffer fb a \<longrightarrow> m' a = m a" "y < 16"
  shows "glyph_of font m' c y = glyph_of font m c y"
  using assms(2) font_apart_glyph [OF assms(1,3)] by (simp add: glyph_of_def)

text \<open>Drawing at a cursor that fits, as a step of the abstract screen.\<close>

lemma write_char_screen:
  assumes fb: "fb_mode fb" "cell_fits fb" and font: "font_apart font fb"
  shows "\<exists>m'. write_char font c 0xffffffff (fb, m) = (fb\<lparr>x_pos := x_pos fb + 8\<rparr>, m') \<and>
    (\<forall>a. \<not> in_buffer fb a \<longrightarrow> m' a = m a) \<and> unat (x_pos fb + 8) = unat (x_pos fb) + 8 \<and>
    screen_of (fb\<lparr>x_pos := x_pos fb + 8\<rparr>, m') = (unat (x_pos fb) + 8, unat (y_pos fb),
      \<lambda>i j. if unat (x_pos fb) \<le> i \<and> i < unat (x_pos fb) + 8 \<and> unat (y_pos fb) \<le> j \<and> j < unat (y_pos fb) + 16 \<and>
          bit (glyph_of font m c (j - unat (y_pos fb))) (7 - (i - unat (x_pos fb)))
        then 0xffffffff else snd (snd (screen_of (fb, m))) i j)"
proof -
  obtain m' where m': "write_char font c 0xffffffff (fb, m) = (fb\<lparr>x_pos := x_pos fb + 8\<rparr>, m')"
    "drawn fb (glyph_of font m c) 0xffffffff m 16 0 m'"
    using write_char_drawn [OF fb font_apart_glyph [OF font]] by blast
  have "unat (x_pos fb) + 8 < 2 ^ 64"
    using fb unat_u64_lt [of "info_pitch fb"] unfolding fb_mode_def cell_fits_def by linarith
  then have x: "unat (x_pos fb + 8) = unat (x_pos fb) + 8" using unat_add_u64 [of "x_pos fb" 8] by simp
  have same: "same_mode fb (fb\<lparr>x_pos := x_pos fb + 8\<rparr>)" by (simp add: same_mode_def)
  have "screen_of (fb\<lparr>x_pos := x_pos fb + 8\<rparr>, m') = (unat (x_pos fb) + 8, unat (y_pos fb),
      \<lambda>i j. if unat (x_pos fb) \<le> i \<and> i < unat (x_pos fb) + 8 \<and> unat (y_pos fb) \<le> j \<and> j < unat (y_pos fb) + 16 \<and>
          bit (glyph_of font m c (j - unat (y_pos fb))) (7 - (i - unat (x_pos fb)))
        then 0xffffffff else snd (snd (screen_of (fb, m))) i j)"
    using m'(2) fb(2) x by (auto simp: screen_of_def same_mode_pixel [OF same] drawn_def cell_fits_def fun_eq_iff)
  then show ?thesis using m' x by (auto simp: drawn_def)
qed

text \<open>One character: what it does to the mode, the cursor, the memory outside the buffer and the picture.\<close>

lemma newline_effect:
  assumes "unat (y_pos fb) + 18 < 2 ^ 64"
  shows "newline fb = fb\<lparr>y_pos := y_pos fb + 18, x_pos := 1\<rparr>" "unat (y_pos fb + 18) = unat (y_pos fb) + 18"
  using assms unat_add_u64 [of "y_pos fb" 18]
  by (simp_all add: newline_def carriage_return_def BORDER_PADDING_def CHAR_RASTER_HEIGHT_def LINE_SPACING_def)

lemma pixel_cursor [simp]: "pixel (fb\<lparr>x_pos := x\<rparr>) = pixel fb" "pixel (fb\<lparr>y_pos := y\<rparr>) = pixel fb"
  by (simp_all add: pixel_def fun_eq_iff)

lemma screen_of_cursor:
  "screen_of (fb\<lparr>x_pos := x\<rparr>, m) = (unat x, snd (screen_of (fb, m)))"
  "screen_of (fb\<lparr>y_pos := y\<rparr>, m) = (unat (x_pos fb), unat y, snd (snd (screen_of (fb, m))))"
  by (simp_all add: screen_of_def cong: if_cong)

text \<open>The two tests before a glyph is drawn leave a cursor at which it fits.\<close>

lemma wrap_line:
  assumes fb: "fb_mode fb" "cursor_ok k fb" and k: "unat (info_height fb) + 18 * k + 64 < 2 ^ 64"
  defines "fb1 \<equiv> if x_pos fb + 8 \<ge> info_width fb then newline fb else fb"
  shows "same_mode fb fb1 \<and> unat (x_pos fb1) + 8 \<le> unat (info_width fb) \<and> cursor_ok (Suc k) fb1 \<and>
    screen_of (fb1, m) = (case screen_of (fb, m) of (x, y, p) \<Rightarrow>
      if unat (info_width fb) \<le> x + 8 then (1, y + 18, p) else (x, y, p))"
proof -
  have y: "unat (y_pos fb) + 18 < 2 ^ 64" using fb(2) k unfolding cursor_ok_def by linarith
  have "unat (x_pos fb) + 8 < 2 ^ 64"
    using fb unat_u64_lt [of "info_pitch fb"] unfolding fb_mode_def cursor_ok_def by linarith
  then have x: "x_pos fb + 8 \<ge> info_width fb \<longleftrightarrow> unat (info_width fb) \<le> unat (x_pos fb) + 8"
    using unat_add_u64 [of "x_pos fb" 8] by (simp add: word_le_nat_alt)
  show ?thesis
  proof (cases "unat (info_width fb) \<le> unat (x_pos fb) + 8")
    case True
    then have "fb1 = fb\<lparr>y_pos := y_pos fb + 18, x_pos := 1\<rparr>" using x newline_effect(1) [OF y] by (simp add: fb1_def)
    then show ?thesis using True newline_effect(2) [OF y] fb
      by (auto simp: same_mode_def cursor_ok_def screen_of_cursor screen_of_def fb_mode_def cong: if_cong)
  next
    case False
    then have "fb1 = fb" using x by (simp add: fb1_def)
    then show ?thesis using False fb by (auto simp: same_mode_def cursor_ok_def screen_of_def)
  qed
qed

lemma fits_or_clears:
  assumes fb: "fb_mode fb" "cursor_ok k fb" "unat (x_pos fb) + 8 \<le> unat (info_width fb)"
    and k: "unat (info_height fb) + 18 * k + 46 < 2 ^ 64"
  shows "\<exists>fb1 m1. (if y_pos fb + 16 + 1 \<ge> info_height fb then clear (fb, m) else (fb, m)) = (fb1, m1) \<and>
    same_mode fb fb1 \<and> cell_fits fb1 \<and> cursor_ok k fb1 \<and> (\<forall>a. \<not> in_buffer fb a \<longrightarrow> m1 a = m a) \<and>
    (info_pitch fb = 4 * info_width fb \<longrightarrow> screen_of (fb1, m1) = (case screen_of (fb, m) of (x, y, p) \<Rightarrow>
      if unat (info_height fb) \<le> y + 17 then (1, 1, \<lambda>_ _. 0) else (x, y, p)))"
proof -
  have y: "y_pos fb + 16 + 1 \<ge> info_height fb \<longleftrightarrow> unat (info_height fb) \<le> unat (y_pos fb) + 17"
    using fb(2) k unat_add_u64 [of "y_pos fb" 17] by (simp add: word_le_nat_alt cursor_ok_def add.assoc)
  show ?thesis
  proof (cases "unat (info_height fb) \<le> unat (y_pos fb) + 17")
    case True
    obtain m1 where m1: "clear (fb, m) = (fb\<lparr>x_pos := 1, y_pos := 1\<rparr>, m1)" "\<forall>a. \<not> in_buffer fb a \<longrightarrow> m1 a = m a"
      "info_pitch fb = 4 * info_width fb \<longrightarrow>
         (\<forall>i j. i < unat (info_width fb) \<longrightarrow> j < unat (info_height fb) \<longrightarrow> pixel fb m1 i j = 0)"
      using clear_effect [OF fb(1)] by blast
    have "snd (snd (screen_of (fb, m1))) = (\<lambda>_ _. 0)" if "info_pitch fb = 4 * info_width fb"
      using m1(3) that by (auto simp: screen_of_def fun_eq_iff)
    then show ?thesis using True y m1(1,2) fb(1)
      by (auto simp: same_mode_def cell_fits_def cursor_ok_def screen_of_cursor fb_mode_def) (auto simp: screen_of_def)
  next
    case False
    then show ?thesis using y fb by (auto simp: same_mode_def cell_fits_def cursor_ok_def screen_of_def)
  qed
qed

definition fb_step :: "u64 \<Rightarrow> nat \<Rightarrow> i32 \<Rightarrow> framebuffer \<times> mem \<Rightarrow> framebuffer \<times> mem \<Rightarrow> bool" where
  "fb_step font k c s s' \<longleftrightarrow> same_mode (fst s) (fst s') \<and> cursor_ok (Suc k) (fst s') \<and>
     (\<forall>a. \<not> in_buffer (fst s) a \<longrightarrow> snd s' a = snd s a) \<and>
     (info_pitch (fst s) = 4 * info_width (fst s) \<longrightarrow> screen_of s' =
        screen_put (glyph_of font (snd s)) (unat (info_width (fst s))) (unat (info_height (fst s))) c (screen_of s))"

lemma screen_of_split:
  obtains p where "screen_of (fb, m) = (unat (x_pos fb), unat (y_pos fb), p)"
  by (simp add: screen_of_def)

lemma screen_char_cong:
  "(\<And>y. y < 16 \<Longrightarrow> g y = g' y) \<Longrightarrow> screen_char g w h s = screen_char g' w h s"
  unfolding screen_char_def by (auto simp: fun_eq_iff split: prod.splits)

lemma fb_putchar_step:
  assumes fb: "fb_mode fb" "cursor_ok k fb" "font_apart font fb"
    and k: "unat (info_height fb) + 18 * k + 64 < 2 ^ 64"
  shows "fb_step font k c (fb, m) (snd (fb_putchar font c (fb, m)))"
proof -
  have y: "unat (y_pos fb) + 18 < 2 ^ 64" using fb(2) k unfolding cursor_ok_def by linarith
  consider (nl) "c = 10" | (cr) "c = 13" | (char) "c \<noteq> 10" "c \<noteq> 13" by blast
  then show ?thesis
  proof cases
    case nl
    obtain p where "screen_of (fb, m) = (unat (x_pos fb), unat (y_pos fb), p)" by (rule screen_of_split)
    moreover have "snd (fb_putchar font c (fb, m)) = (newline fb, m)" using nl by (simp add: fb_putchar_def)
    ultimately show ?thesis using nl fb newline_effect [OF y]
      by (simp add: fb_step_def same_mode_def cursor_ok_def fb_mode_def screen_put_def screen_of_cursor)
  next
    case cr
    obtain p where "screen_of (fb, m) = (unat (x_pos fb), unat (y_pos fb), p)" by (rule screen_of_split)
    moreover have "snd (fb_putchar font c (fb, m)) = (fb\<lparr>x_pos := 1\<rparr>, m)"
      using cr by (simp add: fb_putchar_def carriage_return_def BORDER_PADDING_def)
    ultimately show ?thesis using cr fb
      by (simp add: fb_step_def same_mode_def cursor_ok_def fb_mode_def screen_put_def screen_of_cursor)
  next
    case char
    define fb1 where "fb1 = (if x_pos fb + 8 \<ge> info_width fb then newline fb else fb)"
    have 1: "same_mode fb fb1" "unat (x_pos fb1) + 8 \<le> unat (info_width fb)" "cursor_ok (Suc k) fb1"
      "screen_of (fb1, m) = (case screen_of (fb, m) of (x, y, p) \<Rightarrow>
         if unat (info_width fb) \<le> x + 8 then (1, y + 18, p) else (x, y, p))"
      using wrap_line [OF fb(1,2) k] by (auto simp: fb1_def)
    have m1: "fb_mode fb1" "unat (info_height fb1) = unat (info_height fb)" "unat (info_width fb1) = unat (info_width fb)"
      using 1(1) fb(1) same_mode_fb_mode [OF 1(1)] by (simp_all add: same_mode_def)
    obtain fb2 m2 where 2: "(if y_pos fb1 + 16 + 1 \<ge> info_height fb1 then clear (fb1, m) else (fb1, m)) = (fb2, m2)"
      "same_mode fb1 fb2" "cell_fits fb2" "cursor_ok (Suc k) fb2" "\<forall>a. \<not> in_buffer fb1 a \<longrightarrow> m2 a = m a"
      "info_pitch fb1 = 4 * info_width fb1 \<longrightarrow> screen_of (fb2, m2) = (case screen_of (fb1, m) of (x, y, p) \<Rightarrow>
         if unat (info_height fb1) \<le> y + 17 then (1, 1, \<lambda>_ _. 0) else (x, y, p))"
    proof -
      have "unat (x_pos fb1) + 8 \<le> unat (info_width fb1)" "unat (info_height fb1) + 18 * Suc k + 46 < 2 ^ 64"
        using 1(2) k m1(2,3) by simp_all
      from fits_or_clears [OF m1(1) 1(3) this, of m] show thesis by (elim exE conjE) (rule that)
    qed
    have same: "same_mode fb fb2" using 1(1) 2(2) by (rule same_mode_trans)
    have font: "font_apart font fb2" using fb(3) same by (simp add: font_apart_def same_mode_in_buffer)
    obtain m3 where 3: "write_char font (ucast c) 0xffffffff (fb2, m2) = (fb2\<lparr>x_pos := x_pos fb2 + 8\<rparr>, m3)"
      "\<forall>a. \<not> in_buffer fb2 a \<longrightarrow> m3 a = m2 a" "unat (x_pos fb2 + 8) = unat (x_pos fb2) + 8"
      "screen_of (fb2\<lparr>x_pos := x_pos fb2 + 8\<rparr>, m3) = (unat (x_pos fb2) + 8, unat (y_pos fb2),
        \<lambda>i j. if unat (x_pos fb2) \<le> i \<and> i < unat (x_pos fb2) + 8 \<and> unat (y_pos fb2) \<le> j \<and> j < unat (y_pos fb2) + 16 \<and>
            bit (glyph_of font m2 (ucast c) (j - unat (y_pos fb2))) (7 - (i - unat (x_pos fb2)))
          then 0xffffffff else snd (snd (screen_of (fb2, m2))) i j)"
      using write_char_screen [OF same_mode_fb_mode [OF same, THEN iffD2, OF fb(1)] 2(3) font] by blast
    have run: "snd (fb_putchar font c (fb, m)) = (fb2\<lparr>x_pos := x_pos fb2 + 8\<rparr>, m3)"
      using char 2(1) 3(1) by (simp add: fb_putchar_def fb_width_def fb_height_def CHAR_RASTER_WIDTH_def
        CHAR_RASTER_HEIGHT_def BORDER_PADDING_def flip: fb1_def)
    have frame: "\<forall>a. \<not> in_buffer fb a \<longrightarrow> m3 a = m a" "\<forall>a. \<not> in_buffer fb a \<longrightarrow> m2 a = m a"
      using 2(5) 3(2) same_mode_in_buffer [OF same] same_mode_in_buffer [OF 1(1)] by auto
    have "screen_of (fb2\<lparr>x_pos := x_pos fb2 + 8\<rparr>, m3) = screen_char (glyph_of font m2 (ucast c))
        (unat (info_width fb)) (unat (info_height fb)) (screen_of (fb, m))" if "info_pitch fb = 4 * info_width fb"
    proof -
      have "info_pitch fb1 = 4 * info_width fb1" using that 1(1) by (simp add: same_mode_def)
      then have s2: "screen_of (fb2, m2) = (case screen_of (fb1, m) of (x, y, p) \<Rightarrow>
         if unat (info_height fb) \<le> y + 17 then (1, 1, \<lambda>_ _. 0) else (x, y, p))" using 2(6) m1(2) by simp
      have c2: "unat (x_pos fb2) = fst (screen_of (fb2, m2))" "unat (y_pos fb2) = fst (snd (screen_of (fb2, m2)))"
        by (simp_all add: screen_of_def)
      obtain x y p where "screen_of (fb, m) = (x, y, p)" by (cases "screen_of (fb, m)")
      then show ?thesis unfolding 3(4) c2 s2 1(4) by (simp add: screen_char_def cong: if_cong)
    qed
    moreover have "screen_char (glyph_of font m2 (ucast c)) (unat (info_width fb)) (unat (info_height fb)) (screen_of (fb, m)) =
        screen_char (glyph_of font m (ucast c)) (unat (info_width fb)) (unat (info_height fb)) (screen_of (fb, m))"
      by (rule screen_char_cong) (rule glyph_of_frame [OF fb(3) frame(2)])
    ultimately show ?thesis using same 2(3,4) 3(3) frame(1) char unfolding run
      by (auto simp: fb_step_def same_mode_def cursor_ok_def cell_fits_def screen_put_def)
  qed
qed

definition put_text :: "u64 \<Rightarrow> i32 list \<Rightarrow> framebuffer \<times> mem \<Rightarrow> framebuffer \<times> mem" where
  "put_text font cs s = fold (\<lambda>c s. snd (fb_putchar font c s)) cs s"

lemma put_text_steps:
  assumes "fb_mode fb" "cursor_ok k fb" "font_apart font fb"
    "unat (info_height fb) + 18 * (k + length cs) + 64 < 2 ^ 64"
  shows "(\<forall>a. \<not> in_buffer fb a \<longrightarrow> snd (put_text font cs (fb, m)) a = m a) \<and>
    (info_pitch fb = 4 * info_width fb \<longrightarrow> screen_of (put_text font cs (fb, m)) =
      fold (screen_put (\<lambda>c y. if y < 16 then glyph_of font m c y else 0) (unat (info_width fb)) (unat (info_height fb))) cs (screen_of (fb, m)))"
  using assms
proof (induction cs arbitrary: fb m k)
  case Nil
  then show ?case by (simp add: put_text_def)
next
  case (Cons c cs)
  obtain fb1 m1 where s: "snd (fb_putchar font c (fb, m)) = (fb1, m1)" by (cases "snd (fb_putchar font c (fb, m))")
  then have step: "fb_step font k c (fb, m) (fb1, m1)" using fb_putchar_step [of fb k font c m] Cons.prems by simp
  then have same: "same_mode fb fb1" and "cursor_ok (Suc k) fb1" and frame: "\<forall>a. \<not> in_buffer fb a \<longrightarrow> m1 a = m a"
    by (auto simp: fb_step_def)
  have apart: "font_apart font fb1" using Cons.prems(3) same by (simp add: font_apart_def same_mode_in_buffer)
  have dims: "info_height fb1 = info_height fb" "info_width fb1 = info_width fb" "info_pitch fb1 = info_pitch fb"
    using same by (auto simp: same_mode_def)
  have g: "(\<lambda>c y. if y < 16 then glyph_of font m1 c y else 0) = (\<lambda>c y. if y < 16 then glyph_of font m c y else 0)"
    using glyph_of_frame [OF Cons.prems(3) frame] by (auto simp: fun_eq_iff)
  have sp: "screen_put (glyph_of font m) w h c s = screen_put (\<lambda>c y. if y < 16 then glyph_of font m c y else 0) w h c s" for w h s
    by (cases s) (auto simp: screen_put_def intro: screen_char_cong)
  show ?case
    using Cons.IH [OF same_mode_fb_mode [OF same, THEN iffD2, OF Cons.prems(1)] \<open>cursor_ok (Suc k) fb1\<close> apart, of m1]
      Cons.prems(4) step frame
    by (simp add: put_text_def s dims g same_mode_in_buffer [OF same] fb_step_def sp)
qed

lemma framebuffer_init_effect:
  assumes init: "framebuffer_init putchar_addr i (fb, m) = (fb1, m1)" and mode: "fb_mode fb1"
  shows "info_height fb1 = lf_height i" "info_width fb1 = lf_width i" "cursor_ok 0 fb1"
    "\<forall>a. \<not> in_buffer fb1 a \<longrightarrow> m1 a = m a" "info_pitch fb1 = lf_pitch i"
    "lf_pitch i = 4 * lf_width i \<Longrightarrow> screen_of (fb1, m1) = (1, 1, \<lambda>_ _. 0)"
proof -
  obtain fb0 where c: "clear (fb0, m) = (fb1, m1)" and f: "info_height fb0 = lf_height i" "info_width fb0 = lf_width i"
    "info_pitch fb0 = lf_pitch i" using init by (simp add: framebuffer_init_def)
  have fb1: "fb1 = fb0\<lparr>x_pos := 1, y_pos := 1\<rparr>" using c by (auto simp: clear_def BORDER_PADDING_def Let_def)
  then have same: "same_mode fb0 fb1" by (simp add: same_mode_def)
  then have "fb_mode fb0" using mode same_mode_fb_mode by blast
  then have e: "\<forall>a. \<not> in_buffer fb0 a \<longrightarrow> m1 a = m a" "info_pitch fb0 = 4 * info_width fb0 \<longrightarrow>
      (\<forall>x y. x < unat (info_width fb0) \<longrightarrow> y < unat (info_height fb0) \<longrightarrow> pixel fb0 m1 x y = 0)"
    using clear_effect [of fb0 m] c by auto
  show h: "info_height fb1 = lf_height i" "info_width fb1 = lf_width i" "info_pitch fb1 = lf_pitch i" using f fb1 by simp_all
  show "\<forall>a. \<not> in_buffer fb1 a \<longrightarrow> m1 a = m a" using e(1) by (simp only: same_mode_in_buffer [OF same])
  show "cursor_ok 0 fb1" using mode fb1 by (simp add: cursor_ok_def fb_mode_def)
  show "screen_of (fb1, m1) = (1, 1, \<lambda>_ _. 0)" if "lf_pitch i = 4 * lf_width i"
  proof -
    have "\<forall>x y. x < unat (info_width fb0) \<longrightarrow> y < unat (info_height fb0) \<longrightarrow> pixel fb0 m1 x y = 0" using e(2) f that by simp
    then show ?thesis using fb1 by (auto simp: screen_of_def fun_eq_iff)
  qed
qed

lemma put_text_screen:
  assumes init: "framebuffer_init putchar_addr i (fb, m) = (fb1, m1)"
    and mode: "fb_mode fb1" "lf_pitch i = 4 * lf_width i" and font: "font_apart font fb1"
    and len: "unat (lf_height i) + 18 * length cs + 64 < 2 ^ 64"
  shows "screen_of (put_text font cs (fb1, m1)) =
    fold (screen_put (\<lambda>c y. if y < 16 then glyph_of font m c y else 0) (unat (lf_width i)) (unat (lf_height i))) cs
      (1, 1, \<lambda>_ _. 0)"
proof -
  note i = framebuffer_init_effect [OF init mode(1)]
  have "(\<lambda>c y. if y < 16 then glyph_of font m1 c y else 0) = (\<lambda>c y. if y < 16 then glyph_of font m c y else 0)"
    using glyph_of_frame [OF font i(4)] by (auto simp: fun_eq_iff)
  then show ?thesis using put_text_steps [OF mode(1) i(3) font, of cs m1] len mode(2) i(1,2,5,6) by simp
qed

section \<open>Properties\<close>

text \<open>
  (C25) After initialisation, printing any text changes no memory outside the framebuffer: every pixel
  of every glyph, and every clearing, stays within \<open>pitch * height\<close> bytes of the buffer, for every mode
  with room for a character, as long as the count of characters cannot wrap the cursor around.
\<close>

theorem framebuffer_bounds:
  assumes init: "framebuffer_init putchar_addr i (fb, m) = (fb1, m1)"
    and mode: "fb_mode fb1" and font: "font_apart font fb1"
    and len: "unat (lf_height i) + 18 * length cs + 64 < 2 ^ 64"
    and a: "\<not> in_buffer fb1 a"
  shows "snd (put_text font cs (fb1, m1)) a = m a"
proof -
  note i = framebuffer_init_effect [OF init mode]
  show ?thesis using put_text_steps [OF mode i(3) font, of cs m1] len a i(1,4) by simp
qed

text \<open>
  (C24) For a mode without padding between the lines, the console refines the abstract screen: from a
  black picture with the cursor at the border, the framebuffer shows after any text exactly what the
  abstract screen shows, glyph by glyph, with line breaks at the right border and clearing at the bottom.
\<close>

theorem framebuffer_refines_screen:
  assumes init: "framebuffer_init putchar_addr i (fb, m) = (fb1, m1)"
    and mode: "fb_mode fb1" "lf_pitch i = 4 * lf_width i" and font: "font_apart font fb1"
    and len: "unat (lf_height i) + 18 * length cs + 64 < 2 ^ 64"
  shows "screen_of (put_text font cs (fb1, m1)) =
    fold (screen_put (\<lambda>c y. if y < 16 then glyph_of font m c y else 0) (unat (lf_width i)) (unat (lf_height i))) cs
      (1, 1, \<lambda>_ _. 0)"
  by (rule put_text_screen [OF assms])

text \<open>
  Clearing counts the bytes of a line by the width, not by the pitch: with padding between the lines
  the last pixel of the picture is never cleared.
\<close>

theorem clear_ignores_pitch:
  assumes fb: "fb_mode fb" and pad: "unat (info_pitch fb) > 4 * unat (info_width fb)"
  shows "pixel fb (snd (clear (fb, m))) (unat (info_width fb) - 1) (unat (info_height fb) - 1) =
    pixel fb m (unat (info_width fb) - 1) (unat (info_height fb) - 1)"
proof -
  let ?w = "unat (info_width fb)" and ?h = "unat (info_height fb)" and ?P = "unat (info_pitch fb) div 4"
  let ?n = "info_bpp fb div 8 * info_width fb * info_height fb"
  have P: "?w + 1 \<le> ?P" using fb pad by (auto simp: fb_mode_def)
  have w: "9 \<le> ?w" "17 \<le> ?h" using fb by (simp_all add: fb_mode_def)
  have "(?h - 1) * (?w + 1) \<le> (?h - 1) * ?P" using P by (rule mult_le_mono2)
  moreover have "?w * ?h \<le> ?w - 1 + (?h - 1) * (?w + 1)"
    using w by (cases ?h) (auto simp: algebra_simps)
  ultimately have "?w * ?h \<le> ?w - 1 + (?h - 1) * ?P" by linarith
  then have "4 * (?w * ?h) \<le> 4 * (?w - 1 + (?h - 1) * ?P)" by (rule mult_le_mono2)
  then have ge: "unat ?n \<le> pixel_at fb (?w - 1) (?h - 1)"
    unfolding clear_size(1) [OF fb] pixel_at_def by (simp only: mult.assoc)
  have "snd (memset m (fb_buffer fb) 0 ?n) (fb_buffer fb + of_nat (pixel_at fb (?w - 1) (?h - 1)) + of_nat k) =
      m (fb_buffer fb + of_nat (pixel_at fb (?w - 1) (?h - 1)) + of_nat k)" if "k < 4" for k
  proof (rule memset_block(2), unfold in_range_def, safe)
    fix j assume j: "j < unat ?n" "fb_buffer fb + of_nat (pixel_at fb (?w - 1) (?h - 1)) + of_nat k = fb_buffer fb + of_nat j"
    have "pixel_at fb (?w - 1) (?h - 1) + k < 2 ^ 64"
      using pixel_at_bound [OF fb, of "?w - 1" "?h - 1"] w that by (intro buffer_offset [OF fb]) linarith
    moreover have "j < 2 ^ 64" using j(1) unat_u64_lt [of ?n] by linarith
    moreover have "fb_buffer fb + of_nat (pixel_at fb (?w - 1) (?h - 1) + k) = fb_buffer fb + of_nat j"
      using j(2) by (simp add: add.assoc)
    ultimately have "pixel_at fb (?w - 1) (?h - 1) + k = j" by (simp only: add_of_nat_inj)
    then show False using ge j(1) by linarith
  qed
  then show ?thesis unfolding pixel_eq [OF fb] by (intro load32_cong) (simp add: clear_def fb_width_def fb_height_def Let_def)
qed

text \<open>A small screen for the witnesses.\<close>

definition mode_sample :: limine_framebuffer where
  "mode_sample = \<lparr>lf_address = 0x1000, lf_width = 16, lf_height = 32, lf_pitch = 64, lf_bpp = 32\<rparr>"

definition fb_sample :: framebuffer where
  "fb_sample = \<lparr>info_width = 0, info_height = 0, info_bpp = 0, info_pitch = 0, x_pos = 0, y_pos = 0, fb_buffer = 0,
     fb_putchar_fn = 0\<rparr>"

lemma fb_sample_init:
  "\<exists>fb1 m1. framebuffer_init 0 mode_sample (fb_sample, m) = (fb1, m1) \<and> fb_mode fb1 \<and> font_apart 0x10000 fb1 \<and>
     \<not> in_buffer fb1 0x5000"
proof -
  obtain fb1 m1 where i: "framebuffer_init 0 mode_sample (fb_sample, m) = (fb1, m1)"
    by (cases "framebuffer_init 0 mode_sample (fb_sample, m)")
  then have fb1: "fb1 = \<lparr>info_width = 16, info_height = 32, info_bpp = 32, info_pitch = 64, x_pos = 1, y_pos = 1,
      fb_buffer = 0x1000, fb_putchar_fn = 0\<rparr>"
    by (auto simp: framebuffer_init_def clear_def Let_def fb_sample_def mode_sample_def BORDER_PADDING_def)
  have "\<not> in_buffer fb1 (0x10000 + 4 + of_nat i)" if "i < 4096" for i
  proof
    assume "in_buffer fb1 (0x10000 + 4 + of_nat i)"
    then have "in_range (0x10004 + of_nat i) 0x1000 2048" using fb1 by (simp add: in_buffer_def)
    then have "\<not> in_range (0x10004 + of_nat i) 0x10004 4096" by (rule disjoint_ranges [rotated 2]) simp_all
    then show False using that in_range_offset by blast
  qed
  moreover have "\<not> in_buffer fb1 0x5000"
  proof
    assume "in_buffer fb1 0x5000"
    then have "in_range 0x5000 0x1000 2048" using fb1 by (simp add: in_buffer_def)
    then have "\<not> in_range 0x5000 0x5000 1" by (rule disjoint_ranges [rotated 2]) simp_all
    then show False by (simp add: in_range_def)
  qed
  moreover have "fb_mode fb1" using fb1 by (simp add: fb_mode_def)
  ultimately show ?thesis using i by (auto simp: font_apart_def)
qed

theorem framebuffer_bounds_witness:
  "snd (put_text 0x10000 [65, 10, 66] (framebuffer_init 0 mode_sample (fb_sample, \<lambda>_. 7))) 0x5000 = 7"
proof -
  obtain fb1 m1 where i: "framebuffer_init 0 mode_sample (fb_sample, \<lambda>_. 7) = (fb1, m1)" "fb_mode fb1"
    "font_apart 0x10000 fb1" "\<not> in_buffer fb1 0x5000" using fb_sample_init by blast
  show ?thesis using framebuffer_bounds [OF i(1-3) _ i(4), of "[65, 10, 66]"] i(1) by (simp add: mode_sample_def)
qed

theorem framebuffer_refines_screen_witness:
  "screen_of (put_text 0x10000 [65] (framebuffer_init 0 mode_sample (fb_sample, \<lambda>_. 1))) =
     (9, 1, \<lambda>i j. if i = 8 \<and> 1 \<le> j \<and> j < 17 then 0xffffffff else 0)"
proof -
  obtain fb1 m1 where i: "framebuffer_init 0 mode_sample (fb_sample, \<lambda>_. 1) = (fb1, m1)" "fb_mode fb1"
    "font_apart 0x10000 fb1" using fb_sample_init by blast
  have g: "glyph_of 0x10000 (\<lambda>_. 1) c y = 1" for c y by (simp add: glyph_of_def)
  have b: "Suc 0 \<le> i \<and> i < 9 \<and> Suc 0 \<le> j \<and> j < 17 \<and> bit (if j - Suc 0 < 16 then 1 else 0 :: u8) (7 - (i - Suc 0)) \<longleftrightarrow>
      i = 8 \<and> Suc 0 \<le> j \<and> j < 17" for i j
    by (auto simp: bit_1_iff)
  have "screen_of (put_text 0x10000 [65] (fb1, m1)) = (9, 1, \<lambda>i j. if Suc 0 \<le> i \<and> i < 9 \<and> Suc 0 \<le> j \<and> j < 17 \<and>
      bit (if j - Suc 0 < 16 then 1 else 0 :: u8) (7 - (i - Suc 0)) then 0xffffffff else 0)"
    using framebuffer_refines_screen [OF i(1,2) _ i(3), of "[65]"]
    by (simp add: mode_sample_def screen_put_def screen_char_def g cong: if_cong)
  then show ?thesis unfolding b i(1) by simp
qed

end
