(* ===== verification/Keyboard.thy ===== *)
theory Keyboard
  imports Pipe
begin

text \<open>
  The keyboard driver, \<open>src/src/keyboard.c\<close>: the translation of scan codes, the interrupt handler
  that feeds a pipe, and its initialisation.  The address of the assembly stub that calls the handler
  is a parameter.
\<close>

section \<open>Operations\<close>

text \<open>The cases of the \<open>switch\<close>, in the order of the source.\<close>

definition keymap :: "(u8 \<times> char) list" where
  "keymap = [(0x02, CHR ''1''), (0x03, CHR ''2''), (0x04, CHR ''3''), (0x05, CHR ''4''), (0x06, CHR ''5''),
     (0x07, CHR ''6''), (0x08, CHR ''7''), (0x09, CHR ''8''), (0x0A, CHR ''9''), (0x0B, CHR ''0''),
     (0x10, CHR ''q''), (0x11, CHR ''w''), (0x12, CHR ''e''), (0x13, CHR ''r''), (0x14, CHR ''t''),
     (0x15, CHR ''y''), (0x16, CHR ''u''), (0x17, CHR ''i''), (0x18, CHR ''o''), (0x19, CHR ''p''),
     (0x1E, CHR ''a''), (0x1F, CHR ''s''), (0x20, CHR ''d''), (0x21, CHR ''f''), (0x22, CHR ''g''),
     (0x23, CHR ''h''), (0x24, CHR ''j''), (0x25, CHR ''k''), (0x26, CHR ''l''),
     (0x2C, CHR ''z''), (0x2D, CHR ''x''), (0x2E, CHR ''c''), (0x2F, CHR ''v''), (0x30, CHR ''b''),
     (0x31, CHR ''n''), (0x32, CHR ''m''), (0x39, CHR '' ''), (0x1c, CHR 0x0A)]"

definition scancode_to_ascii :: "u8 \<Rightarrow> u8" where
  "scancode_to_ascii scancode = (case map_of keymap scancode of Some c \<Rightarrow> of_char c | None \<Rightarrow> 0)"

definition keyboard_handler :: "u64 \<Rightarrow> u8 \<Rightarrow> pstate \<Rightarrow> pstate" where
  "keyboard_handler g_keyboard_pipe scancode st =
     (let ascii = scancode_to_ascii scancode in
      if ascii \<noteq> 0 then snd (pipe_try_write g_keyboard_pipe ascii st) else st)"

abbreviation set_cpu :: "(cpu \<Rightarrow> cpu) \<Rightarrow> pstate \<Rightarrow> pstate" where
  "set_cpu f st \<equiv> st\<lparr>ps_k := (ps_k st)\<lparr>k_sched := (k_sched (ps_k st))\<lparr>s_cpu := f (s_cpu (k_sched (ps_k st)))\<rparr>\<rparr>\<rparr>"

text \<open>Returns the pipe that becomes \<open>g_keyboard_pipe\<close>; the driver's line is unmasked last.\<close>

definition keyboard_process_init :: "u64 \<Rightarrow> allocator \<Rightarrow> pstate \<Rightarrow> (u64 \<times> pstate) res" where
  "keyboard_process_init keyboard_stub al st =
     bind_res (pipe_create al 0x200 (set_cpu (idt_set_descriptor 0x21 keyboard_stub 0x8e 0) st)) (\<lambda>(pp, st).
       let value = inb 0x21 (s_cpu (k_sched (ps_k st))) AND NOT (push_bit 1 1)
       in Inr (pp, set_cpu (outb 0x21 value) st))"

section \<open>Keys and readers\<close>

text \<open>A key is accepted when it has a character and the pipe has room for it.\<close>

definition accepted :: "u64 \<Rightarrow> u8 \<Rightarrow> pstate \<Rightarrow> bool" where
  "accepted pp sc st \<longleftrightarrow> scancode_to_ascii sc \<noteq> 0 \<and> fst (pipe_try_write pp (scancode_to_ascii sc) st) = 1"

text \<open>
  The system of the keyboard interrupt and the processes \<open>P\<close> that read the pipe, with the history
  of the keys that were accepted.  Processes do not write to the pipe.
\<close>

inductive keyboard_step :: "u64 set \<Rightarrow> u64 \<Rightarrow> psys \<times> u8 list \<Rightarrow> psys \<times> u8 list \<Rightarrow> bool" for P pp where
  key: "keyboard_step P pp (y, keys)
    (y\<lparr>sy_st := keyboard_handler pp sc (sy_st y),
       sy_written := (if accepted pp sc (sy_st y) then sy_written y @ [scancode_to_ascii sc] else sy_written y)\<rparr>,
     if accepted pp sc (sy_st y) then keys @ [sc] else keys)"
| reader: "pipe_step False P pp y y' \<Longrightarrow> (\<forall>p \<in> P. \<not> in_write (cl_pc (sy_calls y' p))) \<Longrightarrow>
    sy_written y' = sy_written y \<Longrightarrow> keyboard_step P pp (y, keys) (y', keys)"

lemma key_pipe_step:
  assumes "\<forall>p \<in> P. \<not> in_write (cl_pc (sy_calls y p))"
  shows "(pipe_step False P pp)\<^sup>*\<^sup>* y (y\<lparr>sy_st := keyboard_handler pp sc (sy_st y),
    sy_written := (if accepted pp sc (sy_st y) then sy_written y @ [scancode_to_ascii sc] else sy_written y)\<rparr>)"
proof (cases "scancode_to_ascii sc = 0")
  case True
  then show ?thesis by (simp add: keyboard_handler_def accepted_def)
next
  case False
  obtain r st where t: "pipe_try_write pp (scancode_to_ascii sc) (sy_st y) = (r, st)" by fastforce
  have "\<forall>p \<in> P. cl_pc (sy_calls y p) \<noteq> W_ADVANCE" using assms by (metis in_write.simps(6))
  then have "pipe_step False P pp y (y\<lparr>sy_st := st,
      sy_written := (if r = 1 then sy_written y @ [scancode_to_ascii sc] else sy_written y)\<rparr>)"
    using pipe_interrupt [OF _ t] by blast
  then show ?thesis using t False by (simp add: keyboard_handler_def accepted_def r_into_rtranclp)
qed

lemma keyboard_reach:
  assumes "(keyboard_step P pp)\<^sup>*\<^sup>* (y0, keys0) (y, keys)" "\<forall>p \<in> P. \<not> in_write (cl_pc (sy_calls y0 p))"
    "sy_written y0 = map scancode_to_ascii keys0"
  shows "(pipe_step False P pp)\<^sup>*\<^sup>* y0 y \<and> (\<forall>p \<in> P. \<not> in_write (cl_pc (sy_calls y p))) \<and>
    sy_written y = map scancode_to_ascii keys"
  using assms(1)
proof (induction rule: rtranclp_induct2)
  case refl
  then show ?case using assms(2,3) by simp
next
  case (step y1 keys1 y2 keys2)
  from step(2) show ?case
  proof cases
    case (key sc)
    then show ?thesis using step.IH key_pipe_step [of P y1 pp sc] by (auto intro: rtranclp_trans)
  next
    case reader
    then show ?thesis using step.IH by (auto intro: rtranclp.rtrancl_into_rtrancl)
  qed
qed

lemma keyboard_reads:
  assumes inv: "pipe_inv P pp L (pipe_start st calls)" and P: "finite P" "card P < 2 ^ 31" "NULL \<notin> P"
    and idle: "\<forall>p \<in> P. cl_pc (calls p) = IDLE" and run: "(keyboard_step P pp)\<^sup>*\<^sup>* (pipe_start st calls, []) (y, keys)"
  shows "sy_read y = take (length (sy_read y)) (map scancode_to_ascii keys) \<and> length keys \<le> length (sy_read y) + L"
proof -
  have r: "(pipe_step False P pp)\<^sup>*\<^sup>* (pipe_start st calls) y" "sy_written y = map scancode_to_ascii keys"
    using keyboard_reach [OF run] idle by (auto simp: pipe_start_def)
  show ?thesis using pipe_inv_fifo [OF pipe_reachable_inv [OF r(1) inv P]] r(2) by simp
qed

section \<open>Properties\<close>


text \<open>
  From the initialisation on, whatever the interleaving of key presses and reading processes, the
  processes read the characters of the accepted keys, each once and in the order of the key presses,
  and at most 512 are waiting.
\<close>

theorem keyboard_input_order:
  assumes init: "keyboard_process_init stub al st0 = Inr (pp, st)"
    and P: "finite P" "card P < 2 ^ 31" "NULL \<notin> P"
    and start: "\<forall>p \<in> P. \<not> is_blocked (ps_k st0) p \<and> cl_pc (calls p) = IDLE"
    and run: "(keyboard_step P pp)\<^sup>*\<^sup>* (pipe_start st calls, []) (y, keys)"
  shows "sy_read y = take (length (sy_read y)) (map scancode_to_ascii keys) \<and>
    length keys \<le> length (sy_read y) + 512"
proof -
  define st1 where "st1 = set_cpu (idt_set_descriptor 0x21 stub 0x8e 0) st0"
  obtain st2 where c: "pipe_create al 0x200 st1 = Inr (pp, st2)"
    and st: "\<exists>value. st = set_cpu (outb 0x21 value) st2"
    using init by (auto simp: keyboard_process_init_def st1_def Let_def)
  have "\<forall>p \<in> P. \<not> is_blocked (ps_k st1) p \<and> cl_pc (calls p) = IDLE"
    using start by (simp add: st1_def is_blocked_def)
  then have "pipe_inv P pp (unat (0x200 :: u64)) (pipe_start st2 calls)" by (intro pipe_start_inv [OF c]) simp_all
  moreover have "pipe_step False P pp (pipe_start st2 calls) (pipe_start st calls)"
    using pipe_other [of P pp "pipe_start st2 calls" st False] st
    by (auto simp: pipe_start_def pipe_frame_def is_blocked_def Let_def)
  ultimately have inv: "pipe_inv P pp 512 (pipe_start st calls)" using pipe_step_inv P by simp
  show ?thesis using keyboard_reads [OF inv P _ run] start by blast
qed

text \<open>Executable runs, for the witness.\<close>

datatype kevent = Key u8 | Proc pevent

fun keyboard_event :: "u64 list \<Rightarrow> u64 \<Rightarrow> kevent \<Rightarrow> psys \<times> u8 list \<Rightarrow> (psys \<times> u8 list) option" where
  "keyboard_event ps pp (Key sc) (y, keys) = Some
     (y\<lparr>sy_st := keyboard_handler pp sc (sy_st y),
        sy_written := (if accepted pp sc (sy_st y) then sy_written y @ [scancode_to_ascii sc] else sy_written y)\<rparr>,
      if accepted pp sc (sy_st y) then keys @ [sc] else keys)"
| "keyboard_event ps pp (Proc e) (y, keys) = (case pipe_event False ps pp e y of None \<Rightarrow> None
     | Some y' \<Rightarrow> if list_all (\<lambda>p. \<not> in_write (cl_pc (sy_calls y' p))) ps \<and> sy_written y' = sy_written y
         then Some (y', keys) else None)"

primrec keyboard_run :: "u64 list \<Rightarrow> u64 \<Rightarrow> kevent list \<Rightarrow> psys \<times> u8 list \<Rightarrow> (psys \<times> u8 list) option" where
  "keyboard_run ps pp [] s = Some s"
| "keyboard_run ps pp (e # es) s =
     (case keyboard_event ps pp e s of None \<Rightarrow> None | Some s \<Rightarrow> keyboard_run ps pp es s)"

lemma keyboard_event_step: "keyboard_event ps pp e s = Some s' \<Longrightarrow> keyboard_step (set ps) pp s s'"
proof (induction ps pp e s rule: keyboard_event.induct)
  case (1 ps pp sc y keys)
  then show ?case using keyboard_step.key [of "set ps" pp y keys sc] by simp
next
  case (2 ps pp e y keys)
  then show ?case using pipe_event_step
    by (auto simp: list_all_iff split: option.splits if_splits intro!: keyboard_step.reader)
qed

lemma keyboard_run_steps: "keyboard_run ps pp es s = Some s' \<Longrightarrow> (keyboard_step (set ps) pp)\<^sup>*\<^sup>* s s'"
proof (induction es arbitrary: s)
  case (Cons e es)
  then obtain s1 where "keyboard_event ps pp e s = Some s1" "keyboard_run ps pp es s1 = Some s'"
    by (auto split: option.splits)
  then show ?case using Cons.IH keyboard_event_step by (meson converse_rtranclp_into_rtranclp)
qed simp

text \<open>The key \<open>a\<close> is pressed and released, then \<open>b\<close> is pressed, and a process reads one byte.\<close>

definition key_events :: "kevent list" where
  "key_events = [Key 0x1e, Key 0x9e, Key 0x30, Proc (Call 0x3000 (one_byte R_ENTER 0))] @ replicate 4 (Proc (Run 0x3000))"

definition keyboard_sample :: pstate where
  "keyboard_sample = snd (projr (keyboard_process_init 0x9000 (fst heap_sample) pipe_sample_state))"

lemma keyboard_sample_init:
  "keyboard_process_init 0x9000 (fst heap_sample) pipe_sample_state = Inr (0x1020, keyboard_sample)"
proof -
  have "(case keyboard_process_init 0x9000 (fst heap_sample) pipe_sample_state of Inl _ \<Rightarrow> False | Inr (pp, _) \<Rightarrow> pp = 0x1020)"
    by code_simp
  then show ?thesis unfolding keyboard_sample_def by (auto split: sum.splits prod.splits)
qed

lemma keyboard_sample_run:
  "\<exists>y. keyboard_run [0x3000] 0x1020 key_events (pipe_start keyboard_sample idle_calls, []) = Some (y, [0x1e, 0x30]) \<and>
     sy_read y = [97]"
proof -
  have "(case keyboard_run [0x3000] 0x1020 key_events (pipe_start keyboard_sample idle_calls, []) of
      None \<Rightarrow> False | Some (y, keys) \<Rightarrow> keys = [0x1e, 0x30] \<and> sy_read y = [97])"
    by code_simp
  then show ?thesis by (auto split: option.splits)
qed

theorem keyboard_input_order_witness:
  "\<exists>y. (keyboard_step {0x3000} 0x1020)\<^sup>*\<^sup>* (pipe_start keyboard_sample idle_calls, []) (y, [0x1e, 0x30]) \<and>
     sy_read y = [97] \<and> sy_read y = take 1 (map scancode_to_ascii [0x1e, 0x30])"
proof -
  obtain y where y: "keyboard_run [0x3000] 0x1020 key_events (pipe_start keyboard_sample idle_calls, []) = Some (y, [0x1e, 0x30])"
    "sy_read y = [97]" using keyboard_sample_run by blast
  have r: "(keyboard_step {0x3000} 0x1020)\<^sup>*\<^sup>* (pipe_start keyboard_sample idle_calls, []) (y, [0x1e, 0x30])"
    using keyboard_run_steps [OF y(1)] by simp
  have u: "\<forall>p \<in> {0x3000}. \<not> is_blocked (ps_k pipe_sample_state) p \<and> cl_pc (idle_calls p) = IDLE"
    using pipe_sample_unblocked by simp
  show ?thesis using keyboard_input_order [OF keyboard_sample_init _ _ _ u r] r y(2) by auto
qed

end
