(* ===== verification/VirtualMemory.thy ===== *)
theory VirtualMemory
  imports Paging
begin

text \<open>
  Memory as the kernel's C code sees it when it follows a pointer into a user process, or copies
  between such memory and its own: addresses are translated by the page tables that \<open>cr3\<close> selects.

  Lower-half addresses go through the modelled tables; the upper half is set up by the boot loader,
  and its translation is the parameter \<open>kmap\<close>.  An access to an address that is not mapped raises a
  page fault, whose handler halts.  Protection bits are not modelled.
\<close>

section \<open>Loops that may fail\<close>

primrec for_res :: "nat \<Rightarrow> (nat \<Rightarrow> 's \<Rightarrow> 's res) \<Rightarrow> 's \<Rightarrow> 's res" where
  "for_res 0 body s = Inr s"
| "for_res (Suc n) body s = bind_res (for_res n body s) (body n)"

lemma for_res_invariant:
  assumes "P 0 s" and "\<And>i t. i < n \<Longrightarrow> P i t \<Longrightarrow> \<exists>t'. body i t = Inr t' \<and> P (Suc i) t'"
  shows "\<exists>t. for_res n body s = Inr t \<and> P n t"
  using assms by (induction n) fastforce+

section \<open>Access through the page tables\<close>

definition mmu :: "(u64 \<Rightarrow> u64 option) \<Rightarrow> u64 \<Rightarrow> vm \<Rightarrow> u64 \<Rightarrow> u64 option" where
  "mmu kmap cr3 st va =
     (if user_va va then map_option (\<lambda>f. f + (va AND 0xfff)) (translate (vm_pt st) cr3 va) else kmap va)"

definition vread :: "(u64 \<Rightarrow> u64 option) \<Rightarrow> u64 \<Rightarrow> vm \<Rightarrow> u64 \<Rightarrow> u8 res" where
  "vread kmap cr3 st va = (case mmu kmap cr3 st va of None \<Rightarrow> Inl Halted | Some pa \<Rightarrow> Inr (vm_mem st pa))"

definition vwrite :: "(u64 \<Rightarrow> u64 option) \<Rightarrow> u64 \<Rightarrow> u64 \<Rightarrow> u8 \<Rightarrow> vm \<Rightarrow> vm res" where
  "vwrite kmap cr3 va b st = (case mmu kmap cr3 st va of None \<Rightarrow> Inl Halted
     | Some pa \<Rightarrow> Inr (st\<lparr>vm_mem := (vm_mem st)(pa := b)\<rparr>))"

text \<open>A little-endian integer of \<open>n\<close> bytes.\<close>

primrec vread_le :: "(u64 \<Rightarrow> u64 option) \<Rightarrow> u64 \<Rightarrow> vm \<Rightarrow> nat \<Rightarrow> u64 \<Rightarrow> u64 res" where
  "vread_le kmap cr3 st 0 va = Inr 0"
| "vread_le kmap cr3 st (Suc n) va =
     bind_res (vread kmap cr3 st va) (\<lambda>b. bind_res (vread_le kmap cr3 st n (va + 1)) (\<lambda>r.
       Inr (ucast b OR push_bit 8 r)))"

primrec vwrite_le :: "(u64 \<Rightarrow> u64 option) \<Rightarrow> u64 \<Rightarrow> nat \<Rightarrow> u64 \<Rightarrow> u64 \<Rightarrow> vm \<Rightarrow> vm res" where
  "vwrite_le kmap cr3 0 va w st = Inr st"
| "vwrite_le kmap cr3 (Suc n) va w st =
     bind_res (vwrite kmap cr3 va (ucast w) st) (\<lambda>st. vwrite_le kmap cr3 n (va + 1) (drop_bit 8 w) st)"

text \<open>The loops of \<open>memcpy\<close> and \<open>memset\<close> on such memory.\<close>

definition vmemcpy :: "(u64 \<Rightarrow> u64 option) \<Rightarrow> u64 \<Rightarrow> u64 \<Rightarrow> u64 \<Rightarrow> u64 \<Rightarrow> vm \<Rightarrow> vm res" where
  "vmemcpy kmap cr3 dest src n = for_res (unat n) (\<lambda>i st.
     bind_res (vread kmap cr3 st (src + of_nat i)) (\<lambda>b. vwrite kmap cr3 (dest + of_nat i) b st))"

definition vmemset :: "(u64 \<Rightarrow> u64 option) \<Rightarrow> u64 \<Rightarrow> u64 \<Rightarrow> i32 \<Rightarrow> u64 \<Rightarrow> vm \<Rightarrow> vm res" where
  "vmemset kmap cr3 s c n = for_res (unat n) (\<lambda>i st. vwrite kmap cr3 (s + of_nat i) (ucast c) st)"

section \<open>The contract of a byte store\<close>

text \<open>
  A store is viewed as a partial map from addresses to bytes; on the addresses \<open>R\<close> a write changes
  the byte at its own address only.  \<open>same\<close> is what else a write keeps.
\<close>

locale byte_store =
  fixes ok :: "'s \<Rightarrow> bool" and view :: "'s \<Rightarrow> u64 \<Rightarrow> u8 option" and rd :: "'s \<Rightarrow> u64 \<Rightarrow> u8 res"
    and wr :: "u64 \<Rightarrow> u8 \<Rightarrow> 's \<Rightarrow> 's res" and same :: "'s \<Rightarrow> 's \<Rightarrow> bool" and R :: "u64 set"
  assumes read_view: "view s x = Some b \<Longrightarrow> rd s x = Inr b"
    and write_view: "ok s \<Longrightarrow> d \<in> R \<Longrightarrow> view s d \<noteq> None \<Longrightarrow>
      \<exists>s'. wr d b s = Inr s' \<and> ok s' \<and> same s s' \<and> (\<forall>x \<in> R. view s' x = (if x = d then Some b else view s x))"
    and same_refl: "same s s"
    and same_comp: "same s t \<Longrightarrow> same t u \<Longrightarrow> same s u"
begin

text \<open>A loop that writes byte \<open>g i\<close> to address \<open>d + i\<close>, where \<open>g i\<close> is what it reads from the store.\<close>

lemma write_loop:
  assumes s: "ok s" and n: "n \<le> 2 ^ 64"
    and d: "\<And>i. i < n \<Longrightarrow> d + of_nat i \<in> R \<and> view s (d + of_nat i) \<noteq> None"
    and g: "\<And>i t. i < n \<Longrightarrow> ok t \<Longrightarrow> (\<forall>x \<in> R. \<not> in_range x d n \<longrightarrow> view t x = view s x) \<Longrightarrow>
      body i t = wr (d + of_nat i) (g i) t"
  shows "\<exists>s'. for_res n body s = Inr s' \<and> ok s' \<and> same s s' \<and>
    (\<forall>i<n. view s' (d + of_nat i) = Some (g i)) \<and> (\<forall>x \<in> R. \<not> in_range x d n \<longrightarrow> view s' x = view s x)"
proof -
  define P where "P k t \<longleftrightarrow> ok t \<and> same s t \<and> (\<forall>i<n. view t (d + of_nat i) \<noteq> None) \<and>
    (\<forall>i<k. view t (d + of_nat i) = Some (g i)) \<and> (\<forall>x \<in> R. \<not> in_range x d n \<longrightarrow> view t x = view s x)" for k t
  have "\<exists>s'. for_res n body s = Inr s' \<and> P n s'"
  proof (rule for_res_invariant)
    show "P 0 s" using s d same_refl by (simp add: P_def)
    fix i t assume i: "i < n" "P i t"
    then obtain t' where t': "wr (d + of_nat i) (g i) t = Inr t'" "ok t'" "same t t'"
      "\<forall>x \<in> R. view t' x = (if x = d + of_nat i then Some (g i) else view t x)"
      using write_view [of t "d + of_nat i" "g i"] d by (auto simp: P_def)
    have v: "view t' (d + of_nat j) = (if j = i then Some (g i) else view t (d + of_nat j))" if "j < n" for j
      using t'(4) d [OF that] that i(1) n add_of_nat_inj [of j i d] by auto
    have "P (Suc i) t'"
      using i t'(2,3,4) v n same_comp [of s t t'] in_range_offset [OF i(1), of d] unfolding P_def by (auto simp: less_Suc_eq)
    then show "\<exists>t'. body i t = Inr t' \<and> P (Suc i) t'" using g [OF i(1), of t] i(2) t'(1) by (auto simp: P_def)
  qed
  then show ?thesis by (auto simp: P_def)
qed

end

section \<open>The store of a process\<close>

text \<open>
  The pages of a process come from the page allocator.  Kernel addresses \<open>K\<close> that are used together
  with user memory have their bytes in page frames that do not belong to the page allocator.
\<close>

definition frame_of :: "u64 \<Rightarrow> nat" where
  "frame_of pa = unat pa div 0x1000"

definition frames_managed :: "u64 \<Rightarrow> vm \<Rightarrow> bool" where
  "frames_managed cr3 st \<longleftrightarrow> (\<forall>va f. user_va va \<longrightarrow> translate (vm_pt st) cr3 va = Some f \<longrightarrow> f \<in> ba_managed (vm_ba st))"

definition kernel_image :: "(u64 \<Rightarrow> u64 option) \<Rightarrow> u64 set \<Rightarrow> vm \<Rightarrow> bool" where
  "kernel_image kmap K st \<longleftrightarrow> inj_on kmap K \<and> (\<forall>x \<in> K. \<not> user_va x \<and> (\<exists>pa. kmap x = Some pa \<and>
     (\<forall>p \<in> ba_managed (vm_ba st). frame_of p \<noteq> frame_of pa)))"

definition space_ok :: "(u64 \<Rightarrow> u64 option) \<Rightarrow> u64 \<Rightarrow> u64 set \<Rightarrow> vm \<Rightarrow> bool" where
  "space_ok kmap cr3 K st \<longleftrightarrow> vm_inv cr3 st \<and> frames_managed cr3 st \<and> kernel_image kmap K st"

lemma space_ok_change:
  assumes "space_ok kmap cr3 K st" "vm_inv cr3 st'" "ba_managed (vm_ba st') = ba_managed (vm_ba st)"
    and "\<And>va f. user_va va \<Longrightarrow> translate (vm_pt st') cr3 va = Some f \<Longrightarrow>
      translate (vm_pt st) cr3 va = Some f \<or> f \<in> ba_managed (vm_ba st)"
  shows "space_ok kmap cr3 K st'"
  using assms unfolding space_ok_def frames_managed_def kernel_image_def by metis

definition vbyte :: "(u64 \<Rightarrow> u64 option) \<Rightarrow> u64 \<Rightarrow> vm \<Rightarrow> u64 \<Rightarrow> u8 option" where
  "vbyte kmap cr3 st va = map_option (vm_mem st) (mmu kmap cr3 st va)"

lemma page_offset: "(va :: u64) AND 0xfff = of_nat (unat va mod 0x1000)"
proof -
  have "(0xfff :: u64) = mask 12" by (simp add: mask_eq_exp_minus_1)
  then have "va AND 0xfff = take_bit 12 va" by (simp add: take_bit_eq_mask)
  then have "unat (va AND 0xfff) = unat va mod 0x1000" by (simp add: take_bit_eq_mod unat_mod)
  moreover have "unat va mod 0x1000 < 2 ^ 64" by (rule less_trans [OF mod_less_divisor]) simp_all
  ultimately show ?thesis by (simp add: word_unat_eq_iff unat_of_nat_u64)
qed

lemma frame_offset:
  assumes "unat f mod 0x1000 = 0"
  shows "unat (f + (va AND 0xfff)) = unat f + unat va mod 0x1000" "frame_of (f + (va AND 0xfff)) = unat f div 0x1000"
proof -
  obtain k where k: "unat f = 0x1000 * k" using assms unfolding mod_eq_0_iff_dvd by (elim dvdE)
  have "k < 2 ^ 52" using unat_u64_lt [of f] k by simp
  then have "unat f + unat va mod 0x1000 < 2 ^ 64" using k mod_less_divisor [of "0x1000" "unat va"] by simp
  then show "unat (f + (va AND 0xfff)) = unat f + unat va mod 0x1000"
    unfolding page_offset by (rule unat_add_of_nat_u64)
  then show "frame_of (f + (va AND 0xfff)) = unat f div 0x1000" using k by (simp add: frame_of_def)
qed

lemma mmu_inj:
  assumes ok: "space_ok kmap cr3 K st" and x: "user_va x \<or> x \<in> K" and y: "user_va y \<or> y \<in> K"
    and pa: "mmu kmap cr3 st x = Some pa" "mmu kmap cr3 st y = Some pa"
  shows "x = y"
proof -
  have inv: "vm_inv cr3 st" and ki: "kernel_image kmap K st" and fm: "frames_managed cr3 st"
    using ok by (simp_all add: space_ok_def)
  have user: "\<exists>f. translate (vm_pt st) cr3 v = Some f \<and> unat f mod 0x1000 = 0 \<and> pa = f + (v AND 0xfff)"
    if "user_va v" "mmu kmap cr3 st v = Some pa" for v
    using that translate_aligned [OF inv that(1)] by (auto simp: mmu_def)
  have kern: "\<forall>vb f. user_va vb \<longrightarrow> translate (vm_pt st) cr3 vb = Some f \<longrightarrow> frame_of f \<noteq> frame_of pa"
    if "v \<in> K" "mmu kmap cr3 st v = Some pa" for v
    using that ki fm by (fastforce simp: mmu_def kernel_image_def frames_managed_def)
  have mixed: False if "user_va v" "mmu kmap cr3 st v = Some pa" "w \<in> K" "mmu kmap cr3 st w = Some pa" for v w
    using user [OF that(1,2)] kern [OF that(3,4)] that(1) frame_offset(2) by (fastforce simp: frame_of_def)
  have notuser: "v \<in> K \<Longrightarrow> \<not> user_va v" for v using ki by (auto simp: kernel_image_def)
  show ?thesis
  proof (cases "user_va x \<and> user_va y")
    case True
    then obtain f g where f: "translate (vm_pt st) cr3 x = Some f" "unat f mod 0x1000 = 0" "pa = f + (x AND 0xfff)"
      and g: "translate (vm_pt st) cr3 y = Some g" "unat g mod 0x1000 = 0" "pa = g + (y AND 0xfff)"
      using user pa by meson
    have e: "unat f + unat x mod 0x1000 = unat g + unat y mod 0x1000" using f(3) g(3) frame_offset(1) [OF f(2)] frame_offset(1) [OF g(2)] by metis
    moreover have "unat f div 0x1000 = unat g div 0x1000" using f g frame_offset(2) by metis
    ultimately have "unat f = unat g" "unat x mod 0x1000 = unat y mod 0x1000"
      using f(2) g(2) by (metis mod_div_decomp add.right_neutral, metis mod_div_decomp add.right_neutral add_left_cancel)
    then have fg: "f = g" by (simp add: word_unat_eq_iff)
    have "path x = path y"
      using pt_invD(4) [OF _ upath_path _ upath_path, of "vm_pt st" "vm_ba st" cr3 x f y] inv True f(1) g(1) fg
      unfolding vm_inv_def translate_def by blast
    then have "drop_bit 12 x = drop_bit 12 y" using path_eq_iff True by blast
    then have "unat (drop_bit 12 x) = unat (drop_bit 12 y)" by simp
    then have "unat x div 0x1000 = unat y div 0x1000" by (simp add: drop_bit_eq_div unat_div)
    then have "unat x = unat y" using \<open>unat x mod 0x1000 = unat y mod 0x1000\<close> by (metis mod_div_decomp)
    then show ?thesis by (simp add: word_unat_eq_iff)
  next
    case False
    then have "x \<in> K \<and> y \<in> K" using x y mixed pa by blast
    moreover have "kmap x = kmap y" using calculation pa notuser by (simp add: mmu_def)
    moreover have "inj_on kmap K" using ki by (simp add: kernel_image_def)
    ultimately show ?thesis by (auto dest: inj_onD)
  qed
qed

section \<open>Isolation\<close>

text \<open>
  An operation on the address space \<open>cr3\<close> is isolated when every well-formed address space over pages of the
  allocator that shares no frame with it stays so, and keeps its tables and the contents of its memory.
\<close>

definition isolated :: "(u64 \<Rightarrow> u64 option) \<Rightarrow> u64 \<Rightarrow> vm \<Rightarrow> vm \<Rightarrow> bool" where
  "isolated kmap cr3 st st' \<longleftrightarrow> (\<forall>c. vm_inv c st \<longrightarrow> frames_managed c st \<longrightarrow> apart (vm_pt st) cr3 c \<longrightarrow>
     vm_inv c st' \<and> frames_managed c st' \<and> apart (vm_pt st') cr3 c \<and>
     (\<forall>ys. upath ys \<longrightarrow> tbl (vm_pt st') c ys = tbl (vm_pt st) c ys) \<and>
     (\<forall>x. user_va x \<longrightarrow> vbyte kmap c st' x = vbyte kmap c st x))"

lemma isolated_refl: "isolated kmap cr3 st st"
  by (simp add: isolated_def)

lemma isolated_trans: "isolated kmap cr3 st st1 \<Longrightarrow> isolated kmap cr3 st1 st2 \<Longrightarrow> isolated kmap cr3 st st2"
  by (simp add: isolated_def)

text \<open>Changes to the tables of the address space.\<close>

lemma others_isolated:
  assumes "others cr3 st st'" "vm_mem st' = vm_mem st" "ba_managed (vm_ba st') = ba_managed (vm_ba st)"
  shows "isolated kmap cr3 st st'"
  using assms upath_path by (auto simp: isolated_def others_def vbyte_def mmu_def translate_def frames_managed_def)

lemma apart_separate: "apart pt dst src \<Longrightarrow> separate pt dst src"
  unfolding separate_def translate_def apart_def using upath_path by metis

text \<open>
  A write through an address of the process or the kernel reaches no frame of another address space.
\<close>

lemma mmu_other_frame:
  assumes ok: "space_ok kmap cr3 K st" and d: "d \<in> {x. user_va x} \<union> K" "mmu kmap cr3 st d = Some pa"
    and c: "vm_inv c st" "frames_managed c st" "apart (vm_pt st) cr3 c" and x: "user_va x" "mmu kmap c st x = Some pb"
  shows "pa \<noteq> pb"
proof -
  obtain g where g: "translate (vm_pt st) c x = Some g" "pb = g + (x AND 0xfff)" using x by (auto simp: mmu_def)
  have al: "unat g mod 0x1000 = 0" using translate_aligned [OF c(1) x(1) g(1)] .
  show ?thesis
  proof (cases "user_va d")
    case True
    obtain f where f: "translate (vm_pt st) cr3 d = Some f" "pa = f + (d AND 0xfff)" using True d(2) by (auto simp: mmu_def)
    have "f \<noteq> g" using apart_separate [OF c(3)] True x(1) f(1) g(1) by (auto simp: separate_def)
    moreover have al': "unat f mod 0x1000 = 0" using translate_aligned [OF _ True f(1)] ok by (simp add: space_ok_def)
    ultimately have "unat f div 0x1000 \<noteq> unat g div 0x1000" using al by (metis word_unat_eq_iff mod_div_decomp)
    then show ?thesis unfolding f(2) g(2) using frame_offset(2) [OF al] frame_offset(2) [OF al'] by metis
  next
    case False
    then have "frame_of g \<noteq> frame_of pa"
      using ok d c(2) g(1) x(1) by (fastforce simp: space_ok_def kernel_image_def mmu_def frames_managed_def)
    then show ?thesis using frame_offset(2) [OF al, of x] by (auto simp: frame_of_def g(2))
  qed
qed

definition written :: "(u64 \<Rightarrow> u64 option) \<Rightarrow> u64 \<Rightarrow> vm \<Rightarrow> vm \<Rightarrow> bool" where
  "written kmap cr3 st st' \<longleftrightarrow> vm_pt st' = vm_pt st \<and> vm_ba st' = vm_ba st \<and> isolated kmap cr3 st st'"

lemma written_refl: "written kmap cr3 st st"
  by (simp add: written_def isolated_refl)

lemma written_trans: "written kmap cr3 st st1 \<Longrightarrow> written kmap cr3 st1 st2 \<Longrightarrow> written kmap cr3 st st2"
  unfolding written_def using isolated_trans by auto

lemma written_avail: "written kmap cr3 st st' \<Longrightarrow> avail st' = avail st"
  by (simp add: written_def avail_def)

lemma written_isolated: "written kmap cr3 st st' \<Longrightarrow> isolated kmap cr3 st st'"
  by (simp add: written_def)

section \<open>Writing bytes\<close>

lemma vwrite_view:
  assumes ok: "space_ok kmap cr3 K st" and d: "d \<in> {x. user_va x} \<union> K" "vbyte kmap cr3 st d \<noteq> None"
  shows "\<exists>st'. vwrite kmap cr3 d b st = Inr st' \<and> space_ok kmap cr3 K st' \<and> written kmap cr3 st st' \<and>
    (\<forall>x \<in> {x. user_va x} \<union> K. vbyte kmap cr3 st' x = (if x = d then Some b else vbyte kmap cr3 st x))"
proof -
  obtain pa where pa: "mmu kmap cr3 st d = Some pa" using d(2) by (auto simp: vbyte_def)
  let ?st = "st\<lparr>vm_mem := (vm_mem st)(pa := b)\<rparr>"
  have m: "mmu kmap c ?st = mmu kmap c st" for c by (simp add: mmu_def fun_eq_iff)
  have "space_ok kmap cr3 K ?st" using ok by (simp add: space_ok_def vm_inv_def kernel_image_def frames_managed_def)
  moreover have "vbyte kmap cr3 ?st x = (if x = d then Some b else vbyte kmap cr3 st x)" if "x \<in> {x. user_va x} \<union> K" for x
    using mmu_inj [OF ok, of x d pa] that d(1) pa by (cases "mmu kmap cr3 st x") (auto simp: vbyte_def m)
  moreover have "vbyte kmap c ?st x = vbyte kmap c st x"
    if "vm_inv c st" "frames_managed c st" "apart (vm_pt st) cr3 c" "user_va x" for c x
    using mmu_other_frame [OF ok d(1) pa that] by (cases "mmu kmap c st x") (auto simp: vbyte_def m)
  then have "written kmap cr3 st ?st" by (simp add: written_def isolated_def vm_inv_def frames_managed_def)
  ultimately show ?thesis using pa by (auto simp: vwrite_def)
qed

interpretation process_store: byte_store "space_ok kmap cr3 K" "vbyte kmap cr3" "vread kmap cr3" "vwrite kmap cr3"
    "written kmap cr3" "{x. user_va x} \<union> K" for kmap cr3 K
proof unfold_locales
  fix s x b assume "vbyte kmap cr3 s x = Some b"
  then show "vread kmap cr3 s x = Inr b" by (auto simp: vbyte_def vread_def)
qed (use vwrite_view written_refl written_trans in auto)

section \<open>Copying, filling and mapping\<close>

lemma vmemcpy_view:
  assumes ok: "space_ok kmap cr3 K st"
    and d: "\<And>i. i < unat n \<Longrightarrow> user_va (d + of_nat i) \<and> vbyte kmap cr3 st (d + of_nat i) \<noteq> None"
    and src: "\<And>i. i < unat n \<Longrightarrow> (user_va (s + of_nat i) \<or> s + of_nat i \<in> K) \<and> \<not> in_range (s + of_nat i) d (unat n) \<and>
      vbyte kmap cr3 st (s + of_nat i) = Some (g i)"
  shows "\<exists>st'. vmemcpy kmap cr3 d s n st = Inr st' \<and> space_ok kmap cr3 K st' \<and> written kmap cr3 st st' \<and>
    (\<forall>i < unat n. vbyte kmap cr3 st' (d + of_nat i) = Some (g i)) \<and>
    (\<forall>x \<in> {x. user_va x} \<union> K. \<not> in_range x d (unat n) \<longrightarrow> vbyte kmap cr3 st' x = vbyte kmap cr3 st x)"
  unfolding vmemcpy_def
proof (rule process_store.write_loop [OF ok])
  fix i t assume i: "i < unat n" and t: "\<forall>x \<in> {x. user_va x} \<union> K. \<not> in_range x d (unat n) \<longrightarrow> vbyte kmap cr3 t x = vbyte kmap cr3 st x"
  have "vbyte kmap cr3 t (s + of_nat i) = Some (g i)" using src [OF i] t by auto
  then show "bind_res (vread kmap cr3 t (s + of_nat i)) (\<lambda>b. vwrite kmap cr3 (d + of_nat i) b t) =
      vwrite kmap cr3 (d + of_nat i) (g i) t" using process_store.read_view by fastforce
qed (use d unat_u64_lt [of n] in auto)

lemma vmemset_view:
  assumes ok: "space_ok kmap cr3 K st"
    and d: "\<And>i. i < unat n \<Longrightarrow> user_va (d + of_nat i) \<and> vbyte kmap cr3 st (d + of_nat i) \<noteq> None"
  shows "\<exists>st'. vmemset kmap cr3 d c n st = Inr st' \<and> space_ok kmap cr3 K st' \<and> written kmap cr3 st st' \<and>
    (\<forall>i < unat n. vbyte kmap cr3 st' (d + of_nat i) = Some (ucast c)) \<and>
    (\<forall>x \<in> {x. user_va x} \<union> K. \<not> in_range x d (unat n) \<longrightarrow> vbyte kmap cr3 st' x = vbyte kmap cr3 st x)"
  unfolding vmemset_def by (rule process_store.write_loop [OF ok]) (use d unat_u64_lt [of n] in auto)

text \<open>Mapping a page keeps every byte that was accessible, and makes its own page accessible.\<close>

lemma map_page_view:
  assumes ok: "space_ok kmap cr3 K st" and va: "user_va va" and f: "flags_ok flags" and av: "4 \<le> avail st"
  shows "\<exists>st'. map_memory_page cr3 va flags st = Inr st' \<and> space_ok kmap cr3 K st' \<and> avail st \<le> avail st' + 4 \<and>
    (\<forall>x. user_va x \<longrightarrow> drop_bit 12 x = drop_bit 12 va \<longrightarrow> vbyte kmap cr3 st' x \<noteq> None) \<and>
    (\<forall>x. vbyte kmap cr3 st x \<noteq> None \<longrightarrow> vbyte kmap cr3 st' x = vbyte kmap cr3 st x) \<and>
    (\<forall>x. user_va x \<longrightarrow> drop_bit 12 x \<noteq> drop_bit 12 va \<longrightarrow> vbyte kmap cr3 st' x = vbyte kmap cr3 st x) \<and>
    isolated kmap cr3 st st'"
proof -
  have inv: "vm_inv cr3 st" using ok by (simp add: space_ok_def)
  obtain st' n where m: "map_memory_page cr3 va flags st = Inr st'" "vm_inv cr3 st'" "vm_mem st' = vm_mem st"
    "ba_managed (vm_ba st') = ba_managed (vm_ba st)" "avail st \<le> avail st' + 4" "tbl (vm_pt st') cr3 (path va) = Some n"
    "if tbl (vm_pt st) cr3 (path va) = None then n \<in> ba_managed (vm_ba st) - ba_in_use (vm_ba st) else st' = st"
    "\<forall>ys. upath ys \<longrightarrow> length ys = 4 \<longrightarrow> ys \<noteq> path va \<longrightarrow> tbl (vm_pt st') cr3 ys = tbl (vm_pt st) cr3 ys"
    "others cr3 st st'"
    using map_memory_page_extends [OF inv va f av] by blast
  have here: "translate (vm_pt st') cr3 x = Some n" if "user_va x" "drop_bit 12 x = drop_bit 12 va" for x
    using that path_eq_iff [OF that(1) va] m(6) by (simp add: translate_def)
  have other: "translate (vm_pt st') cr3 x = translate (vm_pt st) cr3 x" if "user_va x" "drop_bit 12 x \<noteq> drop_bit 12 va" for x
  proof -
    have "length (path x) = 4" by (simp add: path_def)
    then show ?thesis using that path_eq_iff [OF that(1) va] m(8) upath_path [OF that(1)] unfolding translate_def by blast
  qed
  have new: "translate (vm_pt st') cr3 x = Some g \<Longrightarrow> translate (vm_pt st) cr3 x = Some g \<or> g \<in> ba_managed (vm_ba st)"
    if "user_va x" for x g
    using other [OF that] here [OF that] m(7) by (cases "drop_bit 12 x = drop_bit 12 va") (auto split: if_splits)
  have keep: "vbyte kmap cr3 st' x = vbyte kmap cr3 st x" if "vbyte kmap cr3 st x \<noteq> None" for x
  proof (cases "user_va x \<and> drop_bit 12 x = drop_bit 12 va")
    case True
    then have "tbl (vm_pt st) cr3 (path va) \<noteq> None"
      using that path_eq_iff [of x va] va by (auto simp: vbyte_def mmu_def translate_def)
    then show ?thesis using m(7) by auto
  next
    case False
    then show ?thesis using other m(3) by (auto simp: vbyte_def mmu_def)
  qed
  have "space_ok kmap cr3 K st'" by (rule space_ok_change [OF ok m(2,4) new])
  then show ?thesis using m(1,5) here other keep m(3) others_isolated [OF m(9,3,4)] by (auto simp: vbyte_def mmu_def)
qed

lemma vwrite_le_view:
  assumes "space_ok kmap cr3 K st"
    and "\<forall>i<n. user_va (va + of_nat i) \<and> vbyte kmap cr3 st (va + of_nat i) \<noteq> None" and "n \<le> 8"
  shows "\<exists>st'. vwrite_le kmap cr3 n va w st = Inr st' \<and> space_ok kmap cr3 K st' \<and> written kmap cr3 st st' \<and>
    (\<forall>i<n. vbyte kmap cr3 st' (va + of_nat i) = Some (ucast (drop_bit (8 * i) w))) \<and>
    (\<forall>x \<in> {x. user_va x} \<union> K. \<not> in_range x va n \<longrightarrow> vbyte kmap cr3 st' x = vbyte kmap cr3 st x)"
  using assms
proof (induction n arbitrary: va w st)
  case 0
  then show ?case by (simp add: written_refl)
next
  case (Suc n)
  have va: "user_va va" "vbyte kmap cr3 st va \<noteq> None" using Suc.prems(2) [rule_format, of 0] by simp_all
  then obtain st1 where 1: "vwrite kmap cr3 va (ucast w) st = Inr st1" "space_ok kmap cr3 K st1" "written kmap cr3 st st1"
    "\<forall>x \<in> {x. user_va x} \<union> K. vbyte kmap cr3 st1 x = (if x = va then Some (ucast w) else vbyte kmap cr3 st x)"
    using vwrite_view [OF Suc.prems(1), of va "ucast w"] by blast
  have step: "va + 1 + of_nat i = va + of_nat (Suc i)" for i by simp
  have "\<forall>i<n. user_va (va + 1 + of_nat i) \<and> vbyte kmap cr3 st1 (va + 1 + of_nat i) \<noteq> None"
    using Suc.prems(2) 1(4) unfolding step by auto
  then obtain st2 where 2: "vwrite_le kmap cr3 n (va + 1) (drop_bit 8 w) st1 = Inr st2" "space_ok kmap cr3 K st2"
    "written kmap cr3 st1 st2" "\<forall>i<n. vbyte kmap cr3 st2 (va + 1 + of_nat i) = Some (ucast (drop_bit (8 * i) (drop_bit 8 w)))"
    "\<forall>x \<in> {x. user_va x} \<union> K. \<not> in_range x (va + 1) n \<longrightarrow> vbyte kmap cr3 st2 x = vbyte kmap cr3 st1 x"
    using Suc.IH [OF 1(2), of "va + 1" "drop_bit 8 w"] Suc.prems(3) by auto
  have "\<not> in_range va (va + 1) n"
  proof
    assume "in_range va (va + 1) n"
    then obtain i where "i < n" "va + of_nat 0 = va + of_nat (Suc i)" unfolding in_range_def step by auto
    then show False using add_of_nat_inj [of 0 "Suc i" va] Suc.prems(3) by simp
  qed
  then have first: "vbyte kmap cr3 st2 va = Some (ucast w)" using 2(5) 1(4) va(1) by simp
  have "vbyte kmap cr3 st2 (va + of_nat i) = Some (ucast (drop_bit (8 * i) w))" if "i < Suc n" for i
    using first 2(4) that unfolding step by (cases i) (auto simp: add.commute)
  moreover have "vbyte kmap cr3 st2 x = vbyte kmap cr3 st x" if "x \<in> {x. user_va x} \<union> K" "\<not> in_range x va (Suc n)" for x
    using that 2(5) 1(4) by (simp add: in_range_Suc)
  ultimately show ?case using 1(1) 2(1,2) written_trans [OF 1(3) 2(3)] by auto
qed

lemma same_page:
  assumes "aligned a" "unat a \<le> unat x" "unat x < unat a + 0x1000"
  shows "drop_bit 12 x = drop_bit 12 a"
proof -
  obtain q where q: "unat a = 0x1000 * q" using assms(1) unfolding aligned_def mod_eq_0_iff_dvd by (elim dvdE)
  then have "unat x div 0x1000 = q" using assms(2,3) by (intro div_nat_eqI) simp_all
  then have "unat (drop_bit 12 x) = unat (drop_bit 12 a)" using q by (simp add: drop_bit_eq_div unat_div)
  then show ?thesis by (simp add: word_unat_eq_iff)
qed

text \<open>A byte of a user address space, by its page.\<close>

lemma round_down_page:
  assumes "user_va x"
  shows "user_va (PAGE_ROUND_DOWN x)" "aligned (PAGE_ROUND_DOWN x)" "translate pt c x = translate pt c (PAGE_ROUND_DOWN x)"
proof -
  show "user_va (PAGE_ROUND_DOWN x)" using assms aligned_round_down(2) [of x] by (simp add: user_va_def)
  moreover have "drop_bit 12 (PAGE_ROUND_DOWN x) = drop_bit 12 x"
  proof -
    have "PAGE_ROUND_DOWN x = x AND NOT (mask 12)" by (simp add: PAGE_ROUND_DOWN_def mask_eq_exp_minus_1)
    moreover have "drop_bit 12 (x AND NOT (mask 12)) = drop_bit 12 x" by (rule bit_eqI) (auto simp: bit_simps dest: bit_imp_le_length)
    ultimately show ?thesis by simp
  qed
  ultimately show "translate pt c x = translate pt c (PAGE_ROUND_DOWN x)"
    using path_eq_iff [OF assms, of "PAGE_ROUND_DOWN x"] by (simp add: translate_def)
qed (rule aligned_round_down(1))

lemma vbyte_page:
  assumes "user_va x"
  shows "vbyte kmap c st x = map_option (\<lambda>f. vm_mem st (f + of_nat (unat x mod 0x1000))) (translate (vm_pt st) c (PAGE_ROUND_DOWN x))"
  using assms round_down_page(3) [OF assms] by (simp add: vbyte_def mmu_def page_offset option.map_comp o_def)

section \<open>Regions\<close>

text \<open>
  \<open>allocate_region\<close> makes every byte of the region accessible and keeps every byte that was.
\<close>

lemma allocate_region_view:
  assumes ok: "space_ok kmap cr3 K st" and f: "flags_ok flags" and en: "unat en \<le> 2 ^ 47" and al: "aligned start"
    and k: "unat en \<le> unat start + 0x1000 * k" "4 * k \<le> avail st"
  shows "\<exists>st'. allocate_region cr3 start en flags st = Inr st' \<and> space_ok kmap cr3 K st' \<and> avail st \<le> avail st' + 4 * k \<and>
    (\<forall>x. unat start \<le> unat x \<longrightarrow> unat x < unat en \<longrightarrow> vbyte kmap cr3 st' x \<noteq> None) \<and>
    (\<forall>x. vbyte kmap cr3 st x \<noteq> None \<longrightarrow> vbyte kmap cr3 st' x = vbyte kmap cr3 st x) \<and> isolated kmap cr3 st st'"
proof -
  define I where "I cur t \<longleftrightarrow> isolated kmap cr3 st t \<and> (\<exists>j. unat cur = unat start + 0x1000 * j \<and> j \<le> k \<and> space_ok kmap cr3 K t \<and> avail st \<le> avail t + 4 * j \<and>
    (\<forall>x. unat start \<le> unat x \<longrightarrow> unat x < unat en \<longrightarrow> unat x < unat cur \<longrightarrow> vbyte kmap cr3 t x \<noteq> None) \<and>
    (\<forall>x. vbyte kmap cr3 st x \<noteq> None \<longrightarrow> vbyte kmap cr3 t x = vbyte kmap cr3 st x))" for cur :: u64 and t
  have start: "PAGE_ROUND_DOWN start = start" using al by (rule round_down_aligned)
  have "\<exists>st' cur. page_loop (\<lambda>va. map_memory_page cr3 va flags) start en st = Inr st' \<and> I cur st' \<and> en \<le> cur \<and>
      (cur = start \<or> unat cur < unat en + 0x1000)"
  proof (rule page_loop_invariant)
    show "I start st" using ok by (auto simp: I_def isolated_refl)
    show "unat en + 0x1000 < 2 ^ 64" using en by simp
    fix cur t assume I: "I cur t" and lt: "cur < en"
    then obtain j where j: "unat cur = unat start + 0x1000 * j" "j \<le> k" "space_ok kmap cr3 K t" "avail st \<le> avail t + 4 * j"
      "\<forall>x. unat start \<le> unat x \<longrightarrow> unat x < unat en \<longrightarrow> unat x < unat cur \<longrightarrow> vbyte kmap cr3 t x \<noteq> None"
      "\<forall>x. vbyte kmap cr3 st x \<noteq> None \<longrightarrow> vbyte kmap cr3 t x = vbyte kmap cr3 st x" by (auto simp: I_def)
    have iso: "isolated kmap cr3 st t" using I by (simp add: I_def)
    have lt': "unat cur < unat en" using lt by (simp add: word_less_nat_alt)
    then have "j < k" using j(1) k(1) by simp
    then have "4 \<le> avail t" using j(4) k(2) by simp
    moreover have u: "user_va cur" using lt' en by (simp add: user_va_def word_less_nat_alt)
    ultimately obtain t' where t': "map_memory_page cr3 cur flags t = Inr t'" "space_ok kmap cr3 K t'" "avail t \<le> avail t' + 4"
      "\<forall>x. user_va x \<longrightarrow> drop_bit 12 x = drop_bit 12 cur \<longrightarrow> vbyte kmap cr3 t' x \<noteq> None"
      "\<forall>x. vbyte kmap cr3 t x \<noteq> None \<longrightarrow> vbyte kmap cr3 t' x = vbyte kmap cr3 t x" "isolated kmap cr3 t t'"
      using map_page_view [OF j(3) _ f] by blast
    have next': "unat (cur + PAGE_SIZE) = unat start + 0x1000 * Suc j"
      using j(1) lt' en unat_add_of_nat_u64 [of cur "0x1000"] by simp
    have cal: "aligned cur" using al j(1) by (simp add: aligned_def)
    have "vbyte kmap cr3 t' x \<noteq> None" if x: "unat start \<le> unat x" "unat x < unat en" "unat x < unat (cur + PAGE_SIZE)" for x
    proof (cases "unat x < unat cur")
      case True
      then show ?thesis using j(5) t'(5) x by simp
    next
      case False
      then have "drop_bit 12 x = drop_bit 12 cur" using x(3) next' j(1) by (intro same_page [OF cal]) simp_all
      moreover have "user_va x" using x(2) en by (simp add: user_va_def word_less_nat_alt)
      ultimately show ?thesis using t'(4) by blast
    qed
    then have "I (cur + PAGE_SIZE) t'" unfolding I_def
      using next' \<open>j < k\<close> t'(2,3,5) j(4,6) isolated_trans [OF iso t'(6)] by (intro conjI exI [of _ "Suc j"]) auto
    then show "\<exists>t'. map_memory_page cr3 cur flags t = Inr t' \<and> I (cur + PAGE_SIZE) t'" using t'(1) by blast
  qed
  then obtain st' cur where st': "allocate_region cr3 start en flags st = Inr st'" "I cur st'" "en \<le> cur"
    unfolding allocate_region_def start by blast
  have "unat en \<le> unat cur" using st'(3) by (simp add: word_le_nat_alt)
  then show ?thesis using st'(1,2) unfolding I_def by (intro exI [of _ st']) fastforce
qed

text \<open>\<open>free_region\<close> keeps the bytes below the region and the kernel's.\<close>

lemma free_region_view:
  assumes ok: "space_ok kmap cr3 K st" and en: "unat en \<le> 2 ^ 47" and al: "aligned start"
  shows "\<exists>st'. free_region cr3 start en st = Inr st' \<and> space_ok kmap cr3 K st' \<and> avail st \<le> avail st' \<and>
    (\<forall>x. \<not> user_va x \<or> unat x < unat start \<longrightarrow> vbyte kmap cr3 st' x = vbyte kmap cr3 st x) \<and> isolated kmap cr3 st st'"
proof -
  have inv: "vm_inv cr3 st" and fm: "frames_managed cr3 st" using ok by (simp_all add: space_ok_def)
  have fu: "f \<in> ba_in_use (vm_ba st)" if "va \<in> region start en" "translate (vm_pt st) cr3 va = Some f" for va f
  proof -
    have va: "user_va va" using that(1) region_user [OF en] by (auto simp: region_def)
    have pi: "pt_inv (vm_pt st) (vm_ba st) cr3" using inv by (simp add: vm_inv_def)
    have "f \<notin> ba_managed (vm_ba st) - ba_in_use (vm_ba st)"
      by (rule pt_invD(3) [OF pi upath_path [OF va]]) (use that(2) in \<open>simp add: translate_def\<close>)
    then show ?thesis using fm that(2) va by (auto simp: frames_managed_def)
  qed
  obtain st' where st': "free_region cr3 start en st = Inr st'" "vm_inv cr3 st'"
    "\<forall>va. user_va va \<longrightarrow> aligned va \<longrightarrow> translate (vm_pt st') cr3 va =
       (if va \<in> region start en then None else translate (vm_pt st) cr3 va)"
    "ba_in_use (vm_ba st') = ba_in_use (vm_ba st) - {f. \<exists>va \<in> region start en. translate (vm_pt st) cr3 va = Some f}"
    "vm_mem st' = vm_mem st" "ba_managed (vm_ba st') = ba_managed (vm_ba st)" "others cr3 st st'"
    using free_region_effect [OF inv en, of start] fu by blast
  have tr: "translate (vm_pt st') cr3 x = (if PAGE_ROUND_DOWN x \<in> region start en then None else translate (vm_pt st) cr3 x)"
    if "user_va x" for x
    using st'(3) round_down_page [OF that] by metis
  have "space_ok kmap cr3 K st'" by (rule space_ok_change [OF ok st'(2,6)]) (simp add: tr split: if_splits)
  moreover have "avail st \<le> avail st'"
    unfolding avail_def st'(6) by (rule card_mono) (use bitmap_pages.managed_finite inv st'(4) in \<open>auto simp: vm_inv_def\<close>)
  moreover have "vbyte kmap cr3 st' x = vbyte kmap cr3 st x" if "\<not> user_va x \<or> unat x < unat start" for x
  proof (cases "user_va x")
    case True
    have "PAGE_ROUND_DOWN x \<le> x" by (rule aligned_round_down(2))
    then have "PAGE_ROUND_DOWN x \<notin> region start en"
      using that True round_down_aligned [OF al] by (auto simp: region_def word_le_nat_alt)
    then show ?thesis using tr [OF True] True st'(5) by (simp add: vbyte_def mmu_def)
  qed (simp add: vbyte_def mmu_def st'(5))
  ultimately show ?thesis using st'(1) others_isolated [OF st'(7,5,6)] by blast
qed

end
