(* ===== verification/Elf.thy ===== *)
theory Elf
  imports VirtualMemory
begin

text \<open>
  The program loader, \<open>src/src/elf.c\<close>: \<open>map_elf\<close> maps the loadable segments of an ELF image into the
  current address space and copies their contents.  The fields of the packed structures of
  \<open>src/include/elf.h\<close> are read from memory where the code reads them.
\<close>

section \<open>Fields\<close>

definition e_entry :: "(u64 \<Rightarrow> u64 option) \<Rightarrow> u64 \<Rightarrow> vm \<Rightarrow> u64 \<Rightarrow> u64 res" where
  "e_entry kmap cr3 st h = vread_le kmap cr3 st 8 (h + 24)"

definition e_phoff :: "(u64 \<Rightarrow> u64 option) \<Rightarrow> u64 \<Rightarrow> vm \<Rightarrow> u64 \<Rightarrow> u64 res" where
  "e_phoff kmap cr3 st h = vread_le kmap cr3 st 8 (h + 32)"

definition e_phnum :: "(u64 \<Rightarrow> u64 option) \<Rightarrow> u64 \<Rightarrow> vm \<Rightarrow> u64 \<Rightarrow> u64 res" where
  "e_phnum kmap cr3 st h = vread_le kmap cr3 st 2 (h + 56)"

abbreviation sizeof_elf_program :: u64 where "sizeof_elf_program \<equiv> 56"

definition p_type :: "(u64 \<Rightarrow> u64 option) \<Rightarrow> u64 \<Rightarrow> vm \<Rightarrow> u64 \<Rightarrow> u64 res" where
  "p_type kmap cr3 st p = vread_le kmap cr3 st 4 p"

definition p_offset :: "(u64 \<Rightarrow> u64 option) \<Rightarrow> u64 \<Rightarrow> vm \<Rightarrow> u64 \<Rightarrow> u64 res" where
  "p_offset kmap cr3 st p = vread_le kmap cr3 st 8 (p + 8)"

definition p_vaddr :: "(u64 \<Rightarrow> u64 option) \<Rightarrow> u64 \<Rightarrow> vm \<Rightarrow> u64 \<Rightarrow> u64 res" where
  "p_vaddr kmap cr3 st p = vread_le kmap cr3 st 8 (p + 16)"

definition p_filesz :: "(u64 \<Rightarrow> u64 option) \<Rightarrow> u64 \<Rightarrow> vm \<Rightarrow> u64 \<Rightarrow> u64 res" where
  "p_filesz kmap cr3 st p = vread_le kmap cr3 st 8 (p + 32)"

definition p_memsz :: "(u64 \<Rightarrow> u64 option) \<Rightarrow> u64 \<Rightarrow> vm \<Rightarrow> u64 \<Rightarrow> u64 res" where
  "p_memsz kmap cr3 st p = vread_le kmap cr3 st 8 (p + 40)"

section \<open>Loading\<close>

text \<open>The number of pages, computed in 64 bits and stored in an \<open>int\<close>.\<close>

definition segment_pages :: "u64 \<Rightarrow> i32" where
  "segment_pages memsz = ucast (((memsz + 0x1000 - 1) AND NOT 0xfff) div 0x1000)"

definition map_segment_pages :: "u64 \<Rightarrow> u64 \<Rightarrow> i32 \<Rightarrow> vm \<Rightarrow> vm res" where
  "map_segment_pages cr3 vaddr pages =
     for_res (nat (sint pages)) (\<lambda>j. map_memory_page cr3 (vaddr + scast (of_nat j * 0x1000 :: i32)) 7)"

text \<open>The body of the loop for the program header at \<open>p\<close>.\<close>

definition load_segment ::
    "(u64 \<Rightarrow> u64 option) \<Rightarrow> u64 \<Rightarrow> u64 \<Rightarrow> u64 \<Rightarrow> u32 \<times> vm \<Rightarrow> (u32 \<times> vm) res" where
  "load_segment kmap cr3 elf p = (\<lambda>(highest_address, st).
     bind_res (p_type kmap cr3 st p) (\<lambda>type.
     if type \<noteq> 1 then Inr (highest_address, st) else
     bind_res (p_vaddr kmap cr3 st p) (\<lambda>vaddr.
     bind_res (p_memsz kmap cr3 st p) (\<lambda>memsz.
     let highest_address = (if vaddr + memsz > ucast highest_address then ucast (vaddr + memsz) else highest_address) in
     bind_res (map_segment_pages cr3 vaddr (segment_pages memsz) st) (\<lambda>st.
     bind_res (p_offset kmap cr3 st p) (\<lambda>offset.
     bind_res (p_filesz kmap cr3 st p) (\<lambda>filesz.
     bind_res (vmemcpy kmap cr3 vaddr (elf + offset) filesz st) (\<lambda>st.
     bind_res (p_memsz kmap cr3 st p) (\<lambda>memsz.
     bind_res (p_filesz kmap cr3 st p) (\<lambda>filesz.
     if memsz > filesz then
       bind_res (p_vaddr kmap cr3 st p) (\<lambda>vaddr.
       bind_res (vmemset kmap cr3 (vaddr + filesz) 0 (memsz - filesz) st) (\<lambda>st.
         Inr (highest_address, st)))
     else Inr (highest_address, st)))))))))))"

text \<open>
  The counter is below \<open>e_phnum\<close>, a 16-bit field that is read in every iteration, so that \<open>2\<^sup>1\<^sup>6\<close>
  iterations are more than the loop can make.
\<close>

primrec load_segments ::
    "(u64 \<Rightarrow> u64 option) \<Rightarrow> u64 \<Rightarrow> u64 \<Rightarrow> u64 \<Rightarrow> nat \<Rightarrow> nat \<Rightarrow> u32 \<times> vm \<Rightarrow> (u32 \<times> vm) res" where
  "load_segments kmap cr3 elf programs 0 i s = Inr s"
| "load_segments kmap cr3 elf programs (Suc k) i s =
     bind_res (e_phnum kmap cr3 (snd s) elf) (\<lambda>phnum.
       if i < unat phnum
       then bind_res (load_segment kmap cr3 elf (programs + of_nat i * sizeof_elf_program) s)
              (load_segments kmap cr3 elf programs k (Suc i))
       else Inr s)"

definition map_elf :: "(u64 \<Rightarrow> u64 option) \<Rightarrow> u64 \<Rightarrow> u64 \<Rightarrow> vm \<Rightarrow> (u32 \<times> vm) res" where
  "map_elf kmap cr3 elf st =
     bind_res (e_phoff kmap cr3 st elf) (\<lambda>phoff.
       load_segments kmap cr3 elf (elf + phoff) 0x10000 0 (0, st))"

section \<open>Images as byte lists\<close>

text \<open>The little-endian value of a list of bytes, and the fields of an image given as a list.\<close>

primrec le_value :: "u8 list \<Rightarrow> u64" where
  "le_value [] = 0"
| "le_value (b # bs) = ucast b OR push_bit 8 (le_value bs)"

definition field :: "u8 list \<Rightarrow> nat \<Rightarrow> nat \<Rightarrow> u64" where
  "field bs off n = le_value (take n (drop off bs))"

record segment =
  sg_offset :: u64
  sg_vaddr :: u64
  sg_filesz :: u64
  sg_memsz :: u64

definition segment_at :: "u8 list \<Rightarrow> nat \<Rightarrow> segment option" where
  "segment_at bs i = (let p = unat (field bs 32 8) + 56 * i in
     if field bs p 4 = 1 then Some \<lparr>sg_offset = field bs (p + 8) 8, sg_vaddr = field bs (p + 16) 8,
       sg_filesz = field bs (p + 32) 8, sg_memsz = field bs (p + 40) 8\<rparr> else None)"

definition ph_count :: "u8 list \<Rightarrow> nat" where
  "ph_count bs = unat (field bs 56 2)"

section \<open>Reading an image\<close>

definition image_at :: "(u64 \<Rightarrow> u64 option) \<Rightarrow> u64 \<Rightarrow> u64 set \<Rightarrow> u64 \<Rightarrow> u8 list \<Rightarrow> vm \<Rightarrow> bool" where
  "image_at kmap cr3 K elf bs st \<longleftrightarrow> (\<forall>i < length bs. (user_va (elf + of_nat i) \<or> elf + of_nat i \<in> K) \<and>
     vbyte kmap cr3 st (elf + of_nat i) = Some (bs ! i))"

lemma vread_le_field:
  assumes im: "image_at kmap cr3 K elf bs st"
  shows "off + n \<le> length bs \<Longrightarrow> vread_le kmap cr3 st n (elf + of_nat off) = Inr (field bs off n)"
proof (induction n arbitrary: off)
  case 0
  then show ?case by (simp add: field_def)
next
  case (Suc n)
  have "vread kmap cr3 st (elf + of_nat off) = Inr (bs ! off)"
    using im Suc.prems process_store.read_view by (auto simp: image_at_def)
  moreover have "vread_le kmap cr3 st n (elf + of_nat off + 1) = Inr (field bs (Suc off) n)"
    using Suc.IH [of "Suc off"] Suc.prems by (simp add: add.assoc add.commute [of 1])
  moreover have "field bs off (Suc n) = ucast (bs ! off) OR push_bit 8 (field bs (Suc off) n)"
    using Suc.prems by (simp add: field_def Cons_nth_drop_Suc [symmetric])
  ultimately show ?case by simp
qed

lemma le_value_bit: "bit (le_value bs) n \<Longrightarrow> n < 8 * length bs"
proof (induction bs arbitrary: n)
  case (Cons b bs)
  have "bit (le_value bs) (n - 8) \<Longrightarrow> n - 8 < 8 * length bs" by (rule Cons.IH)
  then show ?case using Cons.prems bit_imp_le_length [of b n] by (auto simp: bit_simps)
qed simp

lemma field_bound: "unat (field bs off n) < 2 ^ (8 * n)"
proof -
  have "take_bit (8 * n) (field bs off n) = field bs off n"
  proof (rule bit_eqI)
    fix k
    have "length (take n (drop off bs)) \<le> n" by simp
    then have "bit (field bs off n) k \<Longrightarrow> k < 8 * n"
      unfolding field_def using le_value_bit by (metis less_le_trans mult_le_mono2)
    then show "bit (take_bit (8 * n) (field bs off n)) k = bit (field bs off n) k" by (auto simp: bit_simps)
  qed
  then have "unat (field bs off n) = take_bit (8 * n) (unat (field bs off n))" by (metis unsigned_take_bit_eq)
  then show ?thesis by (metis take_bit_nat_less_exp)
qed

section \<open>Loading a segment\<close>

definition seg_pages :: "segment \<Rightarrow> nat" where
  "seg_pages sg = (unat (sg_memsz sg) + 0xfff) div 0x1000"

definition seg_end :: "segment \<Rightarrow> nat" where
  "seg_end sg = unat (sg_vaddr sg) + unat (sg_memsz sg)"

text \<open>
  What the loader needs of a segment: it lies below 4 GiB, its file contents are in the image and
  not longer than the segment, the pages counted from its size cover it although its address need not be
  aligned, and it does not overlap the image itself.
\<close>

definition seg_ok :: "u64 \<Rightarrow> u8 list \<Rightarrow> segment \<Rightarrow> bool" where
  "seg_ok elf bs sg \<longleftrightarrow> seg_end sg < 2 ^ 32 \<and> unat (sg_memsz sg) < 2 ^ 31 - 0x1000 \<and> sg_filesz sg \<le> sg_memsz sg \<and>
     unat (sg_offset sg) + unat (sg_filesz sg) \<le> length bs \<and>
     unat (sg_vaddr sg) mod 0x1000 + unat (sg_memsz sg) \<le> 0x1000 * seg_pages sg \<and>
     (\<forall>i < length bs. \<not> in_range (elf + of_nat i) (sg_vaddr sg) (unat (sg_memsz sg)))"

definition loaded :: "(u64 \<Rightarrow> u64 option) \<Rightarrow> u64 \<Rightarrow> u8 list \<Rightarrow> segment \<Rightarrow> vm \<Rightarrow> bool" where
  "loaded kmap cr3 bs sg st \<longleftrightarrow> (\<forall>i < unat (sg_memsz sg). vbyte kmap cr3 st (sg_vaddr sg + of_nat i) =
     Some (if i < unat (sg_filesz sg) then bs ! (unat (sg_offset sg) + i) else 0))"

lemma segment_pages_eq:
  assumes "unat m < 2 ^ 31 - 0x1000"
  shows "nat (sint (segment_pages m)) = (unat m + 0xfff) div 0x1000"
proof -
  have "unat (m + 0x1000 - 1) = unat m + 0xfff"
  proof -
    have "m + 0x1000 - 1 = m + of_nat 0xfff" by simp
    then show ?thesis using assms unat_add_of_nat_u64 [of m "0xfff"] by (simp add: add.commute)
  qed
  moreover have "((m + 0x1000 - 1) AND NOT 0xfff) div 0x1000 = (m + 0x1000 - 1) div 0x1000"
  proof -
    have m: "(0xfff :: u64) = mask 12" by (simp add: mask_eq_exp_minus_1)
    have "drop_bit 12 ((m + 0x1000 - 1) AND NOT (mask 12)) = drop_bit 12 (m + 0x1000 - 1)"
      by (rule bit_eqI) (auto simp: bit_simps dest: bit_imp_le_length)
    then show ?thesis unfolding m by (simp add: drop_bit_eq_div)
  qed
  ultimately have "unat (((m + 0x1000 - 1) AND NOT 0xfff) div 0x1000) = (unat m + 0xfff) div 0x1000"
    by (simp add: unat_div)
  then have "segment_pages m = of_nat ((unat m + 0xfff) div 0x1000)"
    unfolding segment_pages_def by (metis of_nat_unat)
  moreover have "(unat m + 0xfff) div 0x1000 < 2 ^ 31" using assms by simp
  ultimately show ?thesis using sint_small by simp
qed

lemma map_segment_view:
  assumes ok: "space_ok kmap cr3 K st" and sg: "seg_ok elf bs sg" and av: "4 * seg_pages sg \<le> avail st"
  shows "\<exists>st'. map_segment_pages cr3 (sg_vaddr sg) (segment_pages (sg_memsz sg)) st = Inr st' \<and>
    space_ok kmap cr3 K st' \<and> avail st \<le> avail st' + 4 * seg_pages sg \<and>
    (\<forall>i < unat (sg_memsz sg). user_va (sg_vaddr sg + of_nat i) \<and> vbyte kmap cr3 st' (sg_vaddr sg + of_nat i) \<noteq> None) \<and>
    (\<forall>x. vbyte kmap cr3 st x \<noteq> None \<longrightarrow> vbyte kmap cr3 st' x = vbyte kmap cr3 st x) \<and> isolated kmap cr3 st st'"
proof -
  let ?v = "sg_vaddr sg" and ?n = "unat (sg_memsz sg)"
  have b: "unat ?v + ?n < 2 ^ 32" "?n < 2 ^ 31 - 0x1000" "unat ?v mod 0x1000 + ?n \<le> 0x1000 * seg_pages sg"
    using sg by (auto simp: seg_ok_def seg_end_def)
  have small: "unat ?v + 0x1000 * j < 2 ^ 33" "0x1000 * j < 2 ^ 31" if "j < seg_pages sg" for j
    using that b(1,2) by (simp_all add: seg_pages_def)
  have addr: "?v + scast (of_nat j * 0x1000 :: i32) = ?v + of_nat (0x1000 * j)" if "j < seg_pages sg" for j
    using small(2) [OF that] scast_small [of "0x1000 * j"] by (simp add: mult.commute)
  have ua: "unat (?v + of_nat (0x1000 * j)) = unat ?v + 0x1000 * j" if "j < seg_pages sg" for j
    using small(1) [OF that] by (intro unat_add_of_nat_u64) simp
  define P where "P k t \<longleftrightarrow> space_ok kmap cr3 K t \<and> avail st \<le> avail t + 4 * k \<and>
    (\<forall>j<k. \<forall>x. user_va x \<longrightarrow> drop_bit 12 x = drop_bit 12 (?v + of_nat (0x1000 * j)) \<longrightarrow> vbyte kmap cr3 t x \<noteq> None) \<and>
    (\<forall>x. vbyte kmap cr3 st x \<noteq> None \<longrightarrow> vbyte kmap cr3 t x = vbyte kmap cr3 st x) \<and> isolated kmap cr3 st t" for k t
  have "\<exists>t. for_res (seg_pages sg) (\<lambda>j. map_memory_page cr3 (?v + scast (of_nat j * 0x1000 :: i32)) 7) st = Inr t \<and>
      P (seg_pages sg) t"
  proof (rule for_res_invariant)
    show "P 0 st" using ok by (simp add: P_def isolated_refl)
    fix j t assume j: "j < seg_pages sg" "P j t"
    have "user_va (?v + of_nat (0x1000 * j))" using ua [OF j(1)] small(1) [OF j(1)] by (simp add: user_va_def word_less_nat_alt)
    moreover have "4 \<le> avail t" using j av by (simp add: P_def)
    ultimately obtain t' where t': "map_memory_page cr3 (?v + of_nat (0x1000 * j)) 7 t = Inr t'" "space_ok kmap cr3 K t'"
      "avail t \<le> avail t' + 4"
      "\<forall>x. user_va x \<longrightarrow> drop_bit 12 x = drop_bit 12 (?v + of_nat (0x1000 * j)) \<longrightarrow> vbyte kmap cr3 t' x \<noteq> None"
      "\<forall>x. vbyte kmap cr3 t x \<noteq> None \<longrightarrow> vbyte kmap cr3 t' x = vbyte kmap cr3 t x" "isolated kmap cr3 t t'"
    proof -
      assume u: "user_va (?v + of_nat (0x1000 * j))" "4 \<le> avail t"
      have "space_ok kmap cr3 K t" using j(2) by (simp add: P_def)
      from map_page_view [OF this u(1) flags_7 u(2)] show thesis by (elim exE conjE) (rule that)
    qed
    have kept: "vbyte kmap cr3 t' x \<noteq> None" if "vbyte kmap cr3 t x \<noteq> None" for x using t'(5) that by simp
    have "vbyte kmap cr3 t' x \<noteq> None"
      if "k < Suc j" "user_va x" "drop_bit 12 x = drop_bit 12 (?v + of_nat (0x1000 * k))" for k x
      using that j(2) t'(4) kept unfolding P_def less_Suc_eq by blast
    moreover have "vbyte kmap cr3 t' x = vbyte kmap cr3 st x" if "vbyte kmap cr3 st x \<noteq> None" for x
      using that j(2) t'(5) unfolding P_def by simp
    moreover have "isolated kmap cr3 st t'" using j(2) isolated_trans [OF _ t'(6)] by (simp add: P_def)
    ultimately have "P (Suc j) t'" using j(2) t'(2,3) unfolding P_def by simp
    then show "\<exists>t'. map_memory_page cr3 (?v + scast (of_nat j * 0x1000 :: i32)) 7 t = Inr t' \<and> P (Suc j) t'"
      using t'(1) unfolding addr [OF j(1)] by blast
  qed
  then obtain t where t: "for_res (seg_pages sg) (\<lambda>j. map_memory_page cr3 (?v + scast (of_nat j * 0x1000 :: i32)) 7) st = Inr t"
    "P (seg_pages sg) t" by blast
  have "user_va (?v + of_nat i) \<and> vbyte kmap cr3 t (?v + of_nat i) \<noteq> None" if i: "i < ?n" for i
  proof -
    define j where "j = (unat ?v mod 0x1000 + i) div 0x1000"
    have j: "j < seg_pages sg" using b(3) i by (simp add: j_def div_less_iff_less_mult)
    have ui: "unat (?v + of_nat i) = unat ?v + i" using b(1) i by (intro unat_add_of_nat_u64) simp
    have "(unat ?v + i) div 0x1000 = unat ?v div 0x1000 + j"
      unfolding j_def div_mult_self3 [of "0x1000" "unat ?v div 0x1000" "unat ?v mod 0x1000 + i", OF zero_neq_numeral [symmetric], symmetric]
      by (simp flip: add.assoc)
    then have "unat (drop_bit 12 (?v + of_nat i)) = unat (drop_bit 12 (?v + of_nat (0x1000 * j)))"
      using ui ua [OF j] by (simp add: drop_bit_eq_div unat_div)
    then have "drop_bit 12 (?v + of_nat i) = drop_bit 12 (?v + of_nat (0x1000 * j))" by (simp add: word_unat_eq_iff)
    moreover have "user_va (?v + of_nat i)" using ui b(1) i by (simp add: user_va_def word_less_nat_alt)
    ultimately show ?thesis using t(2) j unfolding P_def by blast
  qed
  moreover have "nat (sint (segment_pages (sg_memsz sg))) = seg_pages sg"
    using segment_pages_eq [OF b(2)] by (simp add: seg_pages_def)
  ultimately show ?thesis using t unfolding map_segment_pages_def P_def by auto
qed

lemma header_fields:
  assumes "image_at kmap cr3 K elf bs t" "p + 56 \<le> length bs"
  shows "p_type kmap cr3 t (elf + of_nat p) = Inr (field bs p 4)"
    "p_offset kmap cr3 t (elf + of_nat p) = Inr (field bs (p + 8) 8)"
    "p_vaddr kmap cr3 t (elf + of_nat p) = Inr (field bs (p + 16) 8)"
    "p_filesz kmap cr3 t (elf + of_nat p) = Inr (field bs (p + 32) 8)"
    "p_memsz kmap cr3 t (elf + of_nat p) = Inr (field bs (p + 40) 8)"
  using vread_le_field [OF assms(1), of p 4] vread_le_field [OF assms(1), of "p + 8" 8]
    vread_le_field [OF assms(1), of "p + 16" 8] vread_le_field [OF assms(1), of "p + 32" 8]
    vread_le_field [OF assms(1), of "p + 40" 8] assms(2)
  by (simp_all add: p_type_def p_offset_def p_vaddr_def p_filesz_def p_memsz_def add.assoc)

lemma image_at_kept:
  assumes "image_at kmap cr3 K elf bs st" "seg_ok elf bs sg"
    and "\<And>x. user_va x \<or> x \<in> K \<Longrightarrow> \<not> in_range x (sg_vaddr sg) (unat (sg_memsz sg)) \<Longrightarrow> vbyte kmap cr3 st x \<noteq> None \<Longrightarrow>
      vbyte kmap cr3 st' x = vbyte kmap cr3 st x"
  shows "image_at kmap cr3 K elf bs st'"
  using assms by (simp add: image_at_def seg_ok_def)

lemma highest_address:
  assumes "seg_end sg < 2 ^ 32"
  shows "(if sg_vaddr sg + sg_memsz sg > ucast hi then ucast (sg_vaddr sg + sg_memsz sg) else hi) =
    (of_nat (max (unat hi) (seg_end sg)) :: u32)"
proof -
  have e: "unat (sg_vaddr sg + sg_memsz sg) = seg_end sg" using assms by (simp add: seg_end_def unat_add_u64)
  have "(ucast (sg_vaddr sg + sg_memsz sg) :: u32) = of_nat (seg_end sg)" unfolding e [symmetric] by simp
  moreover have "sg_vaddr sg + sg_memsz sg > ucast hi \<longleftrightarrow> seg_end sg > unat hi"
  proof -
    have "unat hi < 2 ^ 64" using unat_i32_lt [of hi] by simp
    then have "unat (ucast hi :: u64) = unat hi" unfolding unsigned_ucast_eq by (simp add: take_bit_nat_eq_self)
    then show ?thesis by (simp add: word_less_nat_alt e)
  qed
  ultimately show ?thesis by (simp add: max_def not_le)
qed

lemma load_segment_view:
  assumes ok: "space_ok kmap cr3 K st" and im: "image_at kmap cr3 K elf bs st"
    and p: "p = unat (field bs 32 8) + 56 * k" "p + 56 \<le> length bs"
    and at: "segment_at bs k = Some sg" and sg: "seg_ok elf bs sg" and av: "4 * seg_pages sg \<le> avail st"
  shows "\<exists>st'. load_segment kmap cr3 elf (elf + of_nat p) (hi, st) = Inr (of_nat (max (unat hi) (seg_end sg)), st') \<and>
    space_ok kmap cr3 K st' \<and> avail st \<le> avail st' + 4 * seg_pages sg \<and> loaded kmap cr3 bs sg st' \<and>
    (\<forall>x. user_va x \<or> x \<in> K \<longrightarrow> \<not> in_range x (sg_vaddr sg) (unat (sg_memsz sg)) \<longrightarrow> vbyte kmap cr3 st x \<noteq> None \<longrightarrow>
      vbyte kmap cr3 st' x = vbyte kmap cr3 st x) \<and> isolated kmap cr3 st st'"
proof -
  let ?v = "sg_vaddr sg" and ?n = "unat (sg_memsz sg)" and ?f = "unat (sg_filesz sg)" and ?o = "unat (sg_offset sg)"
  have f: "field bs p 4 = 1" "field bs (p + 8) 8 = sg_offset sg" "field bs (p + 16) 8 = ?v"
    "field bs (p + 32) 8 = sg_filesz sg" "field bs (p + 40) 8 = sg_memsz sg"
    using at p(1) by (auto simp: segment_at_def Let_def split: if_splits)
  have b: "?f \<le> ?n" "?o + ?f \<le> length bs" "?n < 2 ^ 31 - 0x1000"
    using sg by (auto simp: seg_ok_def word_le_nat_alt)
  obtain st1 where 1: "map_segment_pages cr3 ?v (segment_pages (sg_memsz sg)) st = Inr st1" "space_ok kmap cr3 K st1"
    "avail st \<le> avail st1 + 4 * seg_pages sg"
    "\<And>i. i < ?n \<Longrightarrow> user_va (?v + of_nat i) \<and> vbyte kmap cr3 st1 (?v + of_nat i) \<noteq> None"
    "\<forall>x. vbyte kmap cr3 st x \<noteq> None \<longrightarrow> vbyte kmap cr3 st1 x = vbyte kmap cr3 st x" "isolated kmap cr3 st st1"
    using map_segment_view [OF ok sg av] by blast
  have im1: "image_at kmap cr3 K elf bs st1" using image_at_kept [OF im sg] 1(5) by simp
  have off: "sg_offset sg + of_nat i = of_nat (?o + i)" for i by simp
  have "\<exists>st2. vmemcpy kmap cr3 ?v (elf + sg_offset sg) (sg_filesz sg) st1 = Inr st2 \<and> space_ok kmap cr3 K st2 \<and>
      written kmap cr3 st1 st2 \<and> (\<forall>i < ?f. vbyte kmap cr3 st2 (?v + of_nat i) = Some (bs ! (?o + i))) \<and>
      (\<forall>x \<in> {x. user_va x} \<union> K. \<not> in_range x ?v ?f \<longrightarrow> vbyte kmap cr3 st2 x = vbyte kmap cr3 st1 x)"
  proof (rule vmemcpy_view [OF 1(2)])
    fix i assume i: "i < ?f"
    have l: "?o + i < length bs" using i b(2) by simp
    have "\<not> in_range (elf + of_nat (?o + i)) ?v ?f" using sg l b(1) in_range_mono unfolding seg_ok_def by blast
    then show "(user_va (elf + sg_offset sg + of_nat i) \<or> elf + sg_offset sg + of_nat i \<in> K) \<and>
        \<not> in_range (elf + sg_offset sg + of_nat i) ?v ?f \<and>
        vbyte kmap cr3 st1 (elf + sg_offset sg + of_nat i) = Some (bs ! (?o + i))"
      using im1 l unfolding image_at_def add.assoc off by blast
  qed (use 1(4) b(1) in auto)
  then obtain st2 where 2: "vmemcpy kmap cr3 ?v (elf + sg_offset sg) (sg_filesz sg) st1 = Inr st2" "space_ok kmap cr3 K st2"
      "written kmap cr3 st1 st2" "\<forall>i < ?f. vbyte kmap cr3 st2 (?v + of_nat i) = Some (bs ! (?o + i))"
      "\<forall>x \<in> {x. user_va x} \<union> K. \<not> in_range x ?v ?f \<longrightarrow> vbyte kmap cr3 st2 x = vbyte kmap cr3 st1 x" by blast
  have keep2: "vbyte kmap cr3 st2 x = vbyte kmap cr3 st x"
    if "user_va x \<or> x \<in> K" "\<not> in_range x ?v ?n" "vbyte kmap cr3 st x \<noteq> None" for x
  proof -
    have "\<not> in_range x ?v ?f" using that(2) in_range_mono [OF _ b(1)] by blast
    then have "vbyte kmap cr3 st2 x = vbyte kmap cr3 st1 x" using that(1) 2(5) by blast
    then show ?thesis using that(3) 1(5) by simp
  qed
  have im2: "image_at kmap cr3 K elf bs st2" using image_at_kept [OF im sg] keep2 by blast
  have av2: "avail st2 = avail st1" using written_avail [OF 2(3)] .
  have iso2: "isolated kmap cr3 st st2" using isolated_trans [OF 1(6) written_isolated [OF 2(3)]] .
  have m2: "vbyte kmap cr3 st2 (?v + of_nat i) \<noteq> None" if "i < ?n" for i
    using 1(4) [OF that] 2(4,5) by (cases "in_range (?v + of_nat i) ?v ?f") (auto simp: in_range_def)
  note fields = header_fields [OF _ p(2)]
  note start = header_fields [OF im p(2)] and mid = header_fields [OF im1 p(2)] and fin = header_fields [OF im2 p(2)]
  show ?thesis
  proof (cases "sg_filesz sg < sg_memsz sg")
    case True
    then have lt: "?f < ?n" by (simp add: word_less_nat_alt)
    have sub: "unat (sg_memsz sg - sg_filesz sg) = ?n - ?f" using True by (simp add: unat_sub)
    have a: "?v + sg_filesz sg + of_nat i = ?v + of_nat (?f + i)" for i by (simp add: add.assoc)
    obtain st3 where 3: "vmemset kmap cr3 (?v + sg_filesz sg) 0 (sg_memsz sg - sg_filesz sg) st2 = Inr st3"
      "space_ok kmap cr3 K st3" "written kmap cr3 st2 st3" "\<forall>i < ?n - ?f. vbyte kmap cr3 st3 (?v + of_nat (?f + i)) = Some 0"
      "\<forall>x \<in> {x. user_va x} \<union> K. \<not> in_range x (?v + sg_filesz sg) (?n - ?f) \<longrightarrow> vbyte kmap cr3 st3 x = vbyte kmap cr3 st2 x"
    proof -
      have h: "user_va (?v + of_nat (?f + i)) \<and> vbyte kmap cr3 st2 (?v + of_nat (?f + i)) \<noteq> None" if "i < ?n - ?f" for i
        using 1(4) [of "?f + i"] m2 [of "?f + i"] that by linarith
      note m = vmemset_view [OF 2(2), of "sg_memsz sg - sg_filesz sg" "?v + sg_filesz sg" 0, unfolded sub a, OF h]
      show thesis by (rule exE [OF m], assumption, elim conjE, rule that) (simp_all only: unsigned_0)
    qed
    have r: "in_range x (?v + sg_filesz sg) (?n - ?f) \<longleftrightarrow> (\<exists>j. ?f \<le> j \<and> j < ?n \<and> x = ?v + of_nat j)" for x
    proof
      assume "in_range x (?v + sg_filesz sg) (?n - ?f)"
      then obtain i where "i < ?n - ?f" "x = ?v + of_nat (?f + i)" unfolding in_range_def a by blast
      then show "\<exists>j. ?f \<le> j \<and> j < ?n \<and> x = ?v + of_nat j" by (intro exI [of _ "?f + i"]) simp
    next
      assume "\<exists>j. ?f \<le> j \<and> j < ?n \<and> x = ?v + of_nat j"
      then obtain j where "?f \<le> j" "j < ?n" "x = ?v + of_nat (?f + (j - ?f))" by auto
      then show "in_range x (?v + sg_filesz sg) (?n - ?f)" unfolding in_range_def a by (intro exI [of _ "j - ?f"]) simp
    qed
    have "loaded kmap cr3 bs sg st3"
      unfolding loaded_def
    proof (intro allI impI)
      fix i assume i: "i < ?n"
      show "vbyte kmap cr3 st3 (?v + of_nat i) = Some (if i < ?f then bs ! (?o + i) else 0)"
      proof (cases "i < ?f")
        case True
        then have "\<not> in_range (?v + of_nat i) (?v + sg_filesz sg) (?n - ?f)"
          unfolding r using i b(3) by (auto simp: of_nat_u64_inj)
        then show ?thesis using True 3(5) 2(4) 1(4) [OF i] by simp
      next
        case False
        then show ?thesis using 3(4) [rule_format, of "i - ?f"] i by simp
      qed
    qed
    moreover have "vbyte kmap cr3 st3 x = vbyte kmap cr3 st x"
      if "user_va x \<or> x \<in> K" "\<not> in_range x ?v ?n" "vbyte kmap cr3 st x \<noteq> None" for x
    proof -
      have "\<not> in_range x (?v + sg_filesz sg) (?n - ?f)" 
        using that(2) unfolding r by (auto dest: in_range_offset [of _ ?n ?v])
      then show ?thesis using that keep2 3(5) by simp
    qed
    moreover have "avail st3 = avail st1" using written_avail [OF 3(3)] av2 by simp
    moreover have "isolated kmap cr3 st st3" using isolated_trans [OF iso2 written_isolated [OF 3(3)]] .
    ultimately show ?thesis using 1(1,3) 2(1) 3(1,2) True sg start mid fin
      by (simp add: load_segment_def f highest_address seg_ok_def Let_def)
  next
    case False
    then have "?f = ?n" using b(1) by (simp add: word_less_nat_alt)
    then have "loaded kmap cr3 bs sg st2" using 2(4) by (simp add: loaded_def)
    then show ?thesis using 1(1,3) 2(1,2) keep2 av2 iso2 False sg start mid fin
      by (simp add: load_segment_def f highest_address seg_ok_def Let_def)
  qed
qed

section \<open>Loading an image\<close>

definition seg_cost :: "u8 list \<Rightarrow> nat \<Rightarrow> nat" where
  "seg_cost bs k = (case segment_at bs k of None \<Rightarrow> 0 | Some sg \<Rightarrow> seg_pages sg)"

text \<open>The highest end of the first \<open>n\<close> segments.\<close>

primrec elf_top :: "u8 list \<Rightarrow> nat \<Rightarrow> nat" where
  "elf_top bs 0 = 0"
| "elf_top bs (Suc n) = (case segment_at bs n of None \<Rightarrow> elf_top bs n | Some sg \<Rightarrow> max (elf_top bs n) (seg_end sg))"

definition elf_ok :: "u64 \<Rightarrow> u8 list \<Rightarrow> bool" where
  "elf_ok elf bs \<longleftrightarrow> 64 \<le> length bs \<and> unat (field bs 32 8) + 56 * ph_count bs \<le> length bs \<and>
     (\<forall>k < ph_count bs. \<forall>sg. segment_at bs k = Some sg \<longrightarrow> seg_ok elf bs sg) \<and>
     (\<forall>j < ph_count bs. \<forall>k < ph_count bs. \<forall>sg sg'. j \<noteq> k \<longrightarrow> segment_at bs j = Some sg \<longrightarrow> segment_at bs k = Some sg' \<longrightarrow>
        (\<forall>i < unat (sg_memsz sg). \<not> in_range (sg_vaddr sg + of_nat i) (sg_vaddr sg') (unat (sg_memsz sg'))))"

definition outside :: "u8 list \<Rightarrow> nat \<Rightarrow> u64 \<Rightarrow> bool" where
  "outside bs n x \<longleftrightarrow> (\<forall>k<n. \<forall>sg. segment_at bs k = Some sg \<longrightarrow> \<not> in_range x (sg_vaddr sg) (unat (sg_memsz sg)))"

lemma elf_okD:
  assumes "elf_ok elf bs" "k < ph_count bs" "segment_at bs k = Some sg"
  shows "seg_ok elf bs sg" "seg_end sg < 2 ^ 32"
    "j < ph_count bs \<Longrightarrow> k \<noteq> j \<Longrightarrow> segment_at bs j = Some sg' \<Longrightarrow> i < unat (sg_memsz sg) \<Longrightarrow>
      \<not> in_range (sg_vaddr sg + of_nat i) (sg_vaddr sg') (unat (sg_memsz sg'))"
proof -
  show "seg_ok elf bs sg" using assms unfolding elf_ok_def by blast
  then show "seg_end sg < 2 ^ 32" by (simp add: seg_ok_def)
  show "j < ph_count bs \<Longrightarrow> k \<noteq> j \<Longrightarrow> segment_at bs j = Some sg' \<Longrightarrow> i < unat (sg_memsz sg) \<Longrightarrow>
      \<not> in_range (sg_vaddr sg + of_nat i) (sg_vaddr sg') (unat (sg_memsz sg'))"
    using assms unfolding elf_ok_def by blast
qed

lemma elf_top_bound:
  assumes "elf_ok elf bs" "n \<le> ph_count bs" shows "elf_top bs n < 2 ^ 32"
  using assms(2)
proof (induction n)
  case (Suc n)
  then show ?case using elf_okD(2) [OF assms(1), of n] by (auto split: option.split)
qed simp

lemma load_segment_skip:
  assumes "image_at kmap cr3 K elf bs st" "p = unat (field bs 32 8) + 56 * k" "p + 56 \<le> length bs"
    "segment_at bs k = None"
  shows "load_segment kmap cr3 elf (elf + of_nat p) (hi, st) = Inr (hi, st)"
  using header_fields(1) [OF assms(1,3)] assms(2,4)
  by (auto simp: load_segment_def segment_at_def Let_def split: if_splits)

text \<open>The state after \<open>i\<close> program headers.\<close>

definition load_upto ::
    "(u64 \<Rightarrow> u64 option) \<Rightarrow> u64 \<Rightarrow> u64 set \<Rightarrow> u64 \<Rightarrow> u8 list \<Rightarrow> vm \<Rightarrow> nat \<Rightarrow> u32 \<times> vm \<Rightarrow> bool" where
  "load_upto kmap cr3 K elf bs st i = (\<lambda>(hi, t). hi = of_nat (elf_top bs i) \<and> space_ok kmap cr3 K t \<and>
     image_at kmap cr3 K elf bs t \<and> avail st \<le> avail t + 4 * (\<Sum>k<i. seg_cost bs k) \<and>
     (\<forall>k<i. \<forall>sg. segment_at bs k = Some sg \<longrightarrow> loaded kmap cr3 bs sg t) \<and>
     (\<forall>x. user_va x \<longrightarrow> outside bs i x \<longrightarrow> vbyte kmap cr3 st x \<noteq> None \<longrightarrow> vbyte kmap cr3 t x = vbyte kmap cr3 st x) \<and>
     isolated kmap cr3 st t)"

lemma load_upto_step:
  assumes ok: "elf_ok elf bs" and I: "load_upto kmap cr3 K elf bs st i s" and i: "i < ph_count bs"
    and av: "4 * (\<Sum>k<ph_count bs. seg_cost bs k) \<le> avail st" and p: "p = unat (field bs 32 8) + 56 * i"
  shows "\<exists>s'. load_segment kmap cr3 elf (elf + of_nat p) s = Inr s' \<and> load_upto kmap cr3 K elf bs st (Suc i) s'"
proof -
  obtain hi t where s: "s = (hi, t)" by (cases s)
  have I': "hi = of_nat (elf_top bs i)" "space_ok kmap cr3 K t" "image_at kmap cr3 K elf bs t"
    "avail st \<le> avail t + 4 * (\<Sum>k<i. seg_cost bs k)"
    "\<forall>k<i. \<forall>sg. segment_at bs k = Some sg \<longrightarrow> loaded kmap cr3 bs sg t"
    "\<forall>x. user_va x \<longrightarrow> outside bs i x \<longrightarrow> vbyte kmap cr3 st x \<noteq> None \<longrightarrow> vbyte kmap cr3 t x = vbyte kmap cr3 st x"
    "isolated kmap cr3 st t"
    using I by (auto simp: load_upto_def s)
  have p56: "p + 56 \<le> length bs" using ok i p by (simp add: elf_ok_def)
  show ?thesis
  proof (cases "segment_at bs i")
    case None
    have "outside bs (Suc i) x = outside bs i x" for x using None by (auto simp: outside_def less_Suc_eq)
    then have "load_upto kmap cr3 K elf bs st (Suc i) s"
      using I' None by (auto simp: load_upto_def s seg_cost_def less_Suc_eq)
    then show ?thesis using load_segment_skip [OF I'(3) p p56 None] s by auto
  next
    case (Some sg)
    have sg: "seg_ok elf bs sg" using ok i Some by (simp add: elf_ok_def)
    have "(\<Sum>k<Suc i. seg_cost bs k) \<le> (\<Sum>k<ph_count bs. seg_cost bs k)" using i by (intro sum_mono2) auto
    then have "4 * seg_pages sg \<le> avail t" using av I'(4) Some by (simp add: seg_cost_def)
    then obtain t' where t': "load_segment kmap cr3 elf (elf + of_nat p) (hi, t) = Inr (of_nat (max (unat hi) (seg_end sg)), t')"
      "space_ok kmap cr3 K t'" "avail t \<le> avail t' + 4 * seg_pages sg" "loaded kmap cr3 bs sg t'"
      "\<forall>x. user_va x \<or> x \<in> K \<longrightarrow> \<not> in_range x (sg_vaddr sg) (unat (sg_memsz sg)) \<longrightarrow> vbyte kmap cr3 t x \<noteq> None \<longrightarrow>
        vbyte kmap cr3 t' x = vbyte kmap cr3 t x" "isolated kmap cr3 t t'"
      using load_segment_view [OF I'(2,3) p p56 Some sg] by blast
    have hi: "unat hi = elf_top bs i"
      using elf_top_bound [OF ok, of i] i I'(1) by (simp add: unsigned_of_nat take_bit_nat_eq_self)
    have old: "loaded kmap cr3 bs sg' t'" if k: "k < i" "segment_at bs k = Some sg'" for k sg'
    proof -
      have l: "loaded kmap cr3 bs sg' t" using I'(5) k by blast
      have sk: "seg_end sg' < 2 ^ 32" using elf_okD(2) [OF ok _ k(2)] k(1) i by simp
      have "vbyte kmap cr3 t' (sg_vaddr sg' + of_nat j) = vbyte kmap cr3 t (sg_vaddr sg' + of_nat j)"
        if j: "j < unat (sg_memsz sg')" for j
      proof -
        have "unat (sg_vaddr sg' + of_nat j) = unat (sg_vaddr sg') + j"
          using sk j by (intro unat_add_of_nat_u64) (simp add: seg_end_def)
        then have "user_va (sg_vaddr sg' + of_nat j)"
          using sk j by (simp add: user_va_def word_less_nat_alt seg_end_def)
        moreover have "\<not> in_range (sg_vaddr sg' + of_nat j) (sg_vaddr sg) (unat (sg_memsz sg))"
          using elf_okD(3) [OF ok _ k(2) i _ Some j] k(1) i by simp
        ultimately show ?thesis using t'(5) l j by (simp add: loaded_def)
      qed
      then show ?thesis using l by (simp add: loaded_def)
    qed
    have im: "image_at kmap cr3 K elf bs t'" using image_at_kept [OF I'(3) sg] t'(5) by blast
    have "vbyte kmap cr3 t' x = vbyte kmap cr3 st x"
      if x: "user_va x" "outside bs (Suc i) x" "vbyte kmap cr3 st x \<noteq> None" for x
    proof -
      have o: "outside bs i x" "\<not> in_range x (sg_vaddr sg) (unat (sg_memsz sg))" using x(2) Some unfolding outside_def less_Suc_eq by blast+
      then have "vbyte kmap cr3 t x = vbyte kmap cr3 st x" using I'(6) x by blast
      then show ?thesis using t'(5) o(2) x by simp
    qed
    then have "load_upto kmap cr3 K elf bs st (Suc i) (of_nat (max (unat hi) (seg_end sg)), t')"
      using t'(2,3,4) im old I'(4) hi Some isolated_trans [OF I'(7) t'(6)] unfolding load_upto_def by (auto simp: seg_cost_def less_Suc_eq)
    then show ?thesis using t'(1) s by blast
  qed
qed

lemma load_segments_all:
  assumes ok: "elf_ok elf bs" and av: "4 * (\<Sum>k<ph_count bs. seg_cost bs k) \<le> avail st"
  shows "load_upto kmap cr3 K elf bs st i s \<Longrightarrow> i \<le> ph_count bs \<Longrightarrow> ph_count bs < i + n \<Longrightarrow>
    \<exists>s'. load_segments kmap cr3 elf (elf + field bs 32 8) n i s = Inr s' \<and> load_upto kmap cr3 K elf bs st (ph_count bs) s'"
proof (induction n arbitrary: i s)
  case 0
  then show ?case by simp
next
  case (Suc n)
  have im: "image_at kmap cr3 K elf bs (snd s)" using Suc.prems(1) by (auto simp: load_upto_def)
  have ph: "e_phnum kmap cr3 (snd s) elf = Inr (field bs 56 2)"
    using vread_le_field [OF im, of 56 2] ok by (simp add: e_phnum_def elf_ok_def)
  show ?case
  proof (cases "i < ph_count bs")
    case True
    obtain s' where s': "load_segment kmap cr3 elf (elf + of_nat (unat (field bs 32 8) + 56 * i)) s = Inr s'"
      "load_upto kmap cr3 K elf bs st (Suc i) s'" using load_upto_step [OF ok Suc.prems(1) True av refl] by blast
    moreover have "elf + of_nat (unat (field bs 32 8) + 56 * i) = elf + field bs 32 8 + of_nat i * 56" by simp
    ultimately have l: "load_segment kmap cr3 elf (elf + field bs 32 8 + of_nat i * 56) s = Inr s'" by (simp only:)
    show ?thesis using Suc.IH [OF s'(2)] True Suc.prems(3) ph l by (auto simp: ph_count_def)
  next
    case False
    then have "i = ph_count bs" using Suc.prems(2) by simp
    then show ?thesis using False Suc.prems(1) ph by (simp add: ph_count_def)
  qed
qed

lemma map_elf_effect:
  assumes ok: "space_ok kmap cr3 K st" and im: "image_at kmap cr3 K elf bs st" and elf: "elf_ok elf bs"
    and av: "4 * (\<Sum>k<ph_count bs. seg_cost bs k) \<le> avail st"
  shows "\<exists>st'. map_elf kmap cr3 elf st = Inr (of_nat (elf_top bs (ph_count bs)), st') \<and> space_ok kmap cr3 K st' \<and>
    image_at kmap cr3 K elf bs st' \<and>
    (\<forall>k < ph_count bs. \<forall>sg. segment_at bs k = Some sg \<longrightarrow> loaded kmap cr3 bs sg st') \<and>
    (\<forall>x. user_va x \<longrightarrow> outside bs (ph_count bs) x \<longrightarrow> vbyte kmap cr3 st x \<noteq> None \<longrightarrow>
       vbyte kmap cr3 st' x = vbyte kmap cr3 st x) \<and> isolated kmap cr3 st st'"
proof -
  have "e_phoff kmap cr3 st elf = Inr (field bs 32 8)"
    using vread_le_field [OF im, of 32 8] elf by (simp add: e_phoff_def elf_ok_def)
  moreover have "load_upto kmap cr3 K elf bs st 0 (0, st)" using ok im by (simp add: load_upto_def isolated_refl)
  moreover have "ph_count bs < 0 + 0x10000" using field_bound [of bs 56 2] by (simp add: ph_count_def)
  ultimately obtain s where s: "map_elf kmap cr3 elf st = Inr s" "load_upto kmap cr3 K elf bs st (ph_count bs) s"
    using load_segments_all [OF elf av, of kmap cr3 K 0 "(0, st)" "0x10000"] by (auto simp: map_elf_def)
  then show ?thesis by (cases s) (auto simp: load_upto_def)
qed

section \<open>Properties\<close>


text \<open>An image of one segment of \<open>n\<close> bytes at address \<open>0x400000 + off\<close>.\<close>

definition elf_sample :: "u8 \<Rightarrow> u8 \<Rightarrow> u8 list" where
  "elf_sample off n = replicate 24 0 @ [0, 0, 0x40, 0, 0, 0, 0, 0] @ [64, 0, 0, 0, 0, 0, 0, 0] @ replicate 16 0 @ [1, 0] @
     replicate 6 0 @ [1, 0, 0, 0, 0, 0, 0, 0] @ [120, 0, 0, 0, 0, 0, 0, 0] @ [off, 0xf, 0x40, 0, 0, 0, 0, 0] @
     replicate 8 0 @ [2, 0, 0, 0, 0, 0, 0, 0] @ [n, 0, 0, 0, 0, 0, 0, 0] @ replicate 8 0 @ [7, 9]"

definition image_mem :: "u8 list \<Rightarrow> mem" where
  "image_mem bs pa = (if unat pa - 0x2000 < length bs then bs ! (unat pa - 0x2000) else 0)"

definition elf_mem :: "u8 list \<Rightarrow> vm" where
  "elf_mem bs = vm_sample\<lparr>vm_mem := image_mem bs\<rparr>"

definition elf_kmap :: "u64 \<Rightarrow> u64 option" where
  "elf_kmap va = (if 0xffff800000000000 \<le> va then Some (va - 0xffff800000000000) else None)"

lemma elf_kmap_at: "i < 0x1000 \<Longrightarrow> elf_kmap (0xffff800000002000 + of_nat i) = Some (0x2000 + of_nat i)"
proof -
  assume i: "i < 0x1000"
  then have "unat (0xffff800000002000 + of_nat i :: u64) = 0xffff800000002000 + i"
    by (subst unat_add_of_nat_u64) simp_all
  then have "0xffff800000000000 \<le> (0xffff800000002000 + of_nat i :: u64)" by (simp add: word_le_nat_alt)
  then show ?thesis by (simp add: elf_kmap_def)
qed

lemma image_space:
  assumes n: "length bs < 0x1000" and inv: "vm_inv 0x1000 st" and pt: "vm_pt st = (\<lambda>_. 0)"
    and pages: "\<forall>p \<in> ba_managed (vm_ba st). 0x101000 \<le> unat p" and im: "vm_mem st = image_mem bs"
  shows "space_ok elf_kmap 0x1000 {x. in_range x 0xffff800000002000 (length bs)} st"
    "image_at elf_kmap 0x1000 {x. in_range x 0xffff800000002000 (length bs)} 0xffff800000002000 bs st"
proof -
  have pa: "unat (0x2000 + of_nat i :: u64) = 0x2000 + i" if "i < length bs" for i
    using that n by (subst unat_add_of_nat_u64) simp_all
  have not_user: "\<not> user_va (0xffff800000002000 + of_nat i)" if "i < length bs" for i
  proof -
    have "unat (0xffff800000002000 + of_nat i :: u64) = 0xffff800000002000 + i"
      using that n by (subst unat_add_of_nat_u64) simp_all
    then show ?thesis by (simp add: user_va_def word_less_nat_alt)
  qed
  have tr: "translate (vm_pt st) 0x1000 va = None" for va
    by (simp add: translate_def path_def pt)
  have fr: "frame_of p \<noteq> frame_of (0x2000 + of_nat i)" if "i < length bs" "p \<in> ba_managed (vm_ba st)" for p i
  proof -
    have "0x101000 \<le> unat p" using that(2) pages by blast
    then show ?thesis using pa [OF that(1)] that(1) n by (auto simp: frame_of_def)
  qed
  have "inj_on elf_kmap {x. in_range x 0xffff800000002000 (length bs)}"
    using n by (auto intro!: inj_onI simp: in_range_def elf_kmap_at)
  then have "kernel_image elf_kmap {x. in_range x 0xffff800000002000 (length bs)} st"
    using not_user fr n by (auto simp: kernel_image_def in_range_def elf_kmap_at)
  then show "space_ok elf_kmap 0x1000 {x. in_range x 0xffff800000002000 (length bs)} st"
    using inv by (simp add: space_ok_def frames_managed_def tr)
  show "image_at elf_kmap 0x1000 {x. in_range x 0xffff800000002000 (length bs)} 0xffff800000002000 bs st"
    using not_user pa n by (auto simp: image_at_def in_range_offset vbyte_def mmu_def elf_kmap_at im image_mem_def)
qed

lemma elf_mem_space:
  assumes "length bs < 0x1000"
  shows "space_ok elf_kmap 0x1000 {x. in_range x 0xffff800000002000 (length bs)} (elf_mem bs)"
    "image_at elf_kmap 0x1000 {x. in_range x 0xffff800000002000 (length bs)} 0xffff800000002000 bs (elf_mem bs)"
proof -
  have "vm_inv 0x1000 (elf_mem bs)" using vm_sample_inv by (simp add: elf_mem_def vm_inv_def)
  then show "space_ok elf_kmap 0x1000 {x. in_range x 0xffff800000002000 (length bs)} (elf_mem bs)"
    "image_at elf_kmap 0x1000 {x. in_range x 0xffff800000002000 (length bs)} 0xffff800000002000 bs (elf_mem bs)"
    using ba_sample_bound by (intro image_space [OF assms]; simp add: elf_mem_def vm_sample_def)+
qed

lemma elf_sample_segment:
  "ph_count (elf_sample 0 5) = 1" "field (elf_sample 0 5) 32 8 = 64" "length (elf_sample 0 5) = 122"
  "segment_at (elf_sample 0 5) 0 = Some \<lparr>sg_offset = 120, sg_vaddr = 0x400f00, sg_filesz = 2, sg_memsz = 5\<rparr>"
  by code_simp+

lemma elf_sample_ok: "elf_ok 0xffff800000002000 (elf_sample 0 5)"
proof -
  have apart: "\<not> in_range (0xffff800000002000 + of_nat i) 0x400f00 5" if "i < 122" for i
  proof
    assume "in_range (0xffff800000002000 + of_nat i) 0x400f00 5"
    then have "\<not> in_range (0xffff800000002000 + of_nat i) 0xffff800000002000 122"
      by (rule disjoint_ranges [rotated 2]) simp_all
    then show False using in_range_offset that by blast
  qed
  show ?thesis
    using apart by (simp add: elf_ok_def elf_sample_segment seg_ok_def seg_end_def seg_pages_def)
qed


text \<open>
  The pages of a segment are counted from its size alone.  A segment whose address is not aligned can
  end in a page that is not counted: here two bytes at \<open>0x400fff\<close>, one in each of two pages, of which
  only the first is mapped.  The copy faults and the kernel halts.
\<close>

theorem map_elf_unaligned:
  "map_elf elf_kmap 0x1000 0xffff800000002000 (elf_mem (elf_sample 0xff 2)) = Inl Halted"
proof -
  let ?bs = "elf_sample 0xff 2" and ?elf = "0xffff800000002000 :: u64"
  let ?K = "{x. in_range x ?elf (length ?bs)}" and ?st = "elf_mem ?bs"
  have f: "length ?bs = 122" "field ?bs 32 8 = 64" "field ?bs 56 2 = 1" "field ?bs 64 4 = 1" "field ?bs (64 + 8) 8 = 120"
    "field ?bs (64 + 16) 8 = 0x400fff" "field ?bs (64 + 32) 8 = 2" "field ?bs (64 + 40) 8 = 2" by code_simp+
  have sp: "space_ok elf_kmap 0x1000 ?K ?st" and im: "image_at elf_kmap 0x1000 ?K ?elf ?bs ?st"
    using elf_mem_space [of ?bs] f(1) by simp_all
  have u: "user_va 0x400fff" "user_va 0x401000" by (simp_all add: user_va_def)
  have ne: "drop_bit 12 (0x401000 :: u64) \<noteq> drop_bit 12 0x400fff" by (simp add: drop_bit_eq_div)
  have "4 \<le> avail ?st" using vm_sample_avail by (simp add: elf_mem_def avail_def)
  then obtain st1 where 1: "map_memory_page 0x1000 0x400fff 7 ?st = Inr st1" "space_ok elf_kmap 0x1000 ?K st1"
    "vbyte elf_kmap 0x1000 st1 0x400fff \<noteq> None"
    "\<forall>x. vbyte elf_kmap 0x1000 ?st x \<noteq> None \<longrightarrow> vbyte elf_kmap 0x1000 st1 x = vbyte elf_kmap 0x1000 ?st x"
    "vbyte elf_kmap 0x1000 st1 0x401000 = vbyte elf_kmap 0x1000 ?st 0x401000"
    using map_page_view [OF sp u(1) flags_7] u ne by blast
  have none: "vbyte elf_kmap 0x1000 ?st 0x401000 = None"
    using u(2) by (simp add: vbyte_def mmu_def translate_def path_def elf_mem_def vm_sample_def)
  have im1: "image_at elf_kmap 0x1000 ?K ?elf ?bs st1" using im 1(4) by (auto simp: image_at_def)
  obtain st2 where 2: "vwrite elf_kmap 0x1000 0x400fff (?bs ! 120) st1 = Inr st2"
    "\<forall>x \<in> {x. user_va x} \<union> ?K. vbyte elf_kmap 0x1000 st2 x = (if x = 0x400fff then Some (?bs ! 120) else vbyte elf_kmap 0x1000 st1 x)"
    using vwrite_view [OF 1(2) _ 1(3)] u(1) by blast
  have st2: "vbyte elf_kmap 0x1000 st2 0x401000 = None" using 2(2) u(2) 1(5) none by simp
  have rd: "vread elf_kmap 0x1000 t (?elf + of_nat i) = Inr (?bs ! i)"
    if "vbyte elf_kmap 0x1000 t (?elf + of_nat i) = Some (?bs ! i)" for t i
    using that process_store.read_view by blast
  have "?elf + 121 \<in> ?K" using f(1) in_range_offset [of 121 122 ?elf] by simp
  have i1: "\<forall>i<122. vbyte elf_kmap 0x1000 st1 (?elf + of_nat i) = Some (?bs ! i)" using im1 f(1) by (simp add: image_at_def)
  then have "vbyte elf_kmap 0x1000 st2 (?elf + of_nat 121) = Some (?bs ! 121)"
    using 2(2) i1 [rule_format, of 121] \<open>?elf + 121 \<in> ?K\<close> by simp
  then have r: "vread elf_kmap 0x1000 st1 (?elf + 120) = Inr (?bs ! 120)" "vread elf_kmap 0x1000 st2 (?elf + 121) = Inr (?bs ! 121)"
    using rd [of st1 120] rd [of st2 121] i1 [rule_format, of 120] by simp_all
  have "vmemcpy elf_kmap 0x1000 0x400fff (?elf + 120) 2 st1 = Inl Halted"
  proof -
    have "vwrite elf_kmap 0x1000 0x401000 b st2 = Inl Halted" for b using st2 by (simp add: vbyte_def vwrite_def)
    moreover have n: "unat (2 :: u64) = Suc (Suc 0)" by simp
    ultimately show ?thesis using 2(1) r unfolding vmemcpy_def n for_res.simps by simp
  qed
  moreover have "map_segment_pages 0x1000 0x400fff (segment_pages 2) ?st = Inr st1"
    using 1(1) segment_pages_eq [of 2] by (simp add: map_segment_pages_def)
  ultimately have "load_segment elf_kmap 0x1000 ?elf (?elf + of_nat 64) (0, ?st) = Inl Halted"
    using header_fields [OF im, of 64] header_fields [OF im1, of 64] f by (simp add: load_segment_def Let_def)
  moreover have "e_phoff elf_kmap 0x1000 ?st ?elf = Inr 64" "e_phnum elf_kmap 0x1000 ?st ?elf = Inr 1"
    using vread_le_field [OF im, of 32 8] vread_le_field [OF im, of 56 2] f by (simp_all add: e_phoff_def e_phnum_def)
  moreover have "0x10000 = Suc 0xffff" by simp
  ultimately show ?thesis unfolding map_elf_def by (simp only: load_segments.simps) simp
qed

end
