(* ===== verification/Syscall.thy ===== *)
theory Syscall
  imports Elf Sched Vfs
begin

text \<open>
  The system calls, \<open>src/src/syscall.c\<close>, over the process table, the page tables and the file system.

  A system call that gives up the processor ends in an outcome other than a returned value: the
  context that the scheduler switches to, and how the caller goes on when it is resumed.  Mutexes are
  held for single operations and never contended within a call, so that locking has no effect here.
  The values that the assembly code of \<open>fork_syscall\<close> saves are the parameter \<open>ctx\<close>.
\<close>

section \<open>State\<close>

record kernel =
  kn_sched :: sched
  kn_vm :: vm
  kn_vfs :: vstate

datatype outcome =
    Returned u64        \<comment> \<open>the call returns\<close>
  | Resumed u64 u64     \<comment> \<open>switched to a context; the caller returns the value when it runs again\<close>
  | Waiting u64 u64     \<comment> \<open>switched to a context; the caller tests the process again when it runs\<close>
  | Exited u64          \<comment> \<open>switched to a context; the caller never runs again\<close>
  | EnterUser u64 u64   \<comment> \<open>entry point and stack pointer of the new program\<close>

abbreviation current :: "kernel \<Rightarrow> u64" where
  "current k \<equiv> get_current_process (kn_sched k)"

abbreviation current_proc :: "kernel \<Rightarrow> process" where
  "current_proc k \<equiv> procs (kn_sched k) (current k)"

abbreviation cr3_of :: "kernel \<Rightarrow> u64" where
  "cr3_of k \<equiv> read_cr3 (s_cpu (kn_sched k))"

abbreviation set_current :: "(process \<Rightarrow> process) \<Rightarrow> kernel \<Rightarrow> kernel" where
  "set_current f k \<equiv> k\<lparr>kn_sched := set_proc (current k) f (kn_sched k)\<rparr>"

section \<open>Machine-specific registers\<close>

record control =
  msrs :: "u32 \<Rightarrow> u64"
  ctl_cr0 :: u64
  ctl_cr4 :: u64

definition rdmsr :: "u32 \<Rightarrow> control \<Rightarrow> u64" where
  "rdmsr msr c =
     (let lo = (ucast (msrs c msr) :: u32); hi = (ucast (drop_bit 32 (msrs c msr)) :: u32)
      in push_bit 32 (ucast hi) OR ucast lo)"

definition wrmsr :: "u32 \<Rightarrow> u64 \<Rightarrow> control \<Rightarrow> control" where
  "wrmsr msr value c =
     (let lo = (ucast value :: u32); hi = (ucast (drop_bit 32 value) :: u32)
      in c\<lparr>msrs := (msrs c)(msr := push_bit 32 (ucast hi) OR ucast lo)\<rparr>)"

definition syscall_init :: "u64 \<Rightarrow> control \<Rightarrow> control" where
  "syscall_init syscall_stub c =
     (let efer = rdmsr 0xC0000080 c;
          c = wrmsr 0xC0000080 (efer OR 1) c;
          c = wrmsr 0xC0000082 syscall_stub c;
          c = wrmsr 0xC0000081 (push_bit 32 0x8 OR push_bit 48 0x20) c;
          c = wrmsr 0xC0000084 (push_bit 9 1 OR push_bit 10 1 OR push_bit 8 1 OR push_bit 18 1) c;
          c = wrmsr 0xC0000100 0x201000 c;
          c = wrmsr 0xC0000101 0x201000 c
      in c\<lparr>ctl_cr0 := (ctl_cr0 c AND NOT (push_bit 2 1)) OR push_bit 1 1,
           ctl_cr4 := (ctl_cr4 c OR push_bit 9 1) OR push_bit 10 1\<rparr>)"

section \<open>Calls\<close>

text \<open>
  Reading and writing: the operations of pipes and files are arguments, and their results are
  \<open>int\<close>s that are widened with their sign.
\<close>

definition read_syscall ::
    "(u64 \<Rightarrow> u64 \<Rightarrow> u64 \<Rightarrow> kernel \<Rightarrow> (i32 \<times> kernel) res) \<Rightarrow> (u64 \<Rightarrow> u64 \<Rightarrow> u64 \<Rightarrow> kernel \<Rightarrow> (i32 \<times> kernel) res) \<Rightarrow>
     u64 \<Rightarrow> u64 \<Rightarrow> u64 \<Rightarrow> kernel \<Rightarrow> (outcome \<times> kernel) res" where
  "read_syscall pipe_op file_op fd buf len k =
     bind_res (resource_rw pipe_op file_op (kn_sched k) (ucast fd) buf len k) (\<lambda>(r, k).
       Inr (Returned (scast r), k))"

definition write_syscall ::
    "(u64 \<Rightarrow> u64 \<Rightarrow> u64 \<Rightarrow> kernel \<Rightarrow> (i32 \<times> kernel) res) \<Rightarrow> (u64 \<Rightarrow> u64 \<Rightarrow> u64 \<Rightarrow> kernel \<Rightarrow> (i32 \<times> kernel) res) \<Rightarrow>
     u64 \<Rightarrow> u64 \<Rightarrow> u64 \<Rightarrow> kernel \<Rightarrow> (outcome \<times> kernel) res" where
  "write_syscall pipe_op file_op fd buf len k =
     bind_res (resource_rw pipe_op file_op (kn_sched k) (ucast fd) buf len k) (\<lambda>(r, k).
       Inr (Returned (scast r), k))"

definition anon_step :: "kernel \<Rightarrow> kernel res" where
  "anon_step k =
     bind_res (map_memory_page (cr3_of k) (p_anon_allocate_end (current_proc k)) 7 (kn_vm k)) (\<lambda>vm.
       Inr (set_current (\<lambda>p. p\<lparr>p_anon_allocate_end := p_anon_allocate_end p + 0x1000\<rparr>) (k\<lparr>kn_vm := vm\<rparr>)))"

definition anon_allocate_syscall :: "(u64 \<Rightarrow> u64 option) \<Rightarrow> u64 \<Rightarrow> u64 \<Rightarrow> kernel \<Rightarrow> (outcome \<times> kernel) res" where
  "anon_allocate_syscall kmap sz ptr k =
     (let pages = (ucast (drop_bit 12 (sz + 0xfff)) :: i32);
          ret = p_anon_allocate_end (current_proc k)
      in bind_res (for_res (nat (sint pages)) (\<lambda>_. anon_step) k) (\<lambda>k.
           bind_res (vwrite_le kmap (cr3_of k) 8 ptr ret (kn_vm k)) (\<lambda>vm.
             Inr (Returned 0, k\<lparr>kn_vm := vm\<rparr>))))"

text \<open>The loop over the descriptors reads the capacity in every iteration; nothing changes it.\<close>

definition close_all :: "process \<Rightarrow> sched \<Rightarrow> sched" where
  "close_all proc s = for_loop (nat (sint (p_resources_cap proc))) (\<lambda>i s. snd (resource_remove (of_nat i) s)) s"

definition exit_syscall :: "allocator \<Rightarrow> u64 \<Rightarrow> kernel \<Rightarrow> (outcome \<times> kernel) res" where
  "exit_syscall al context k =
     (let proc = current_proc k; s = close_all proc (kn_sched k) in
      bind_res (resource_table_free al (p_resources proc) s) (\<lambda>s.
      bind_res (free_region (p_cr3 proc) 0x200000 0x400000 (kn_vm k)) (\<lambda>vm.
      bind_res (free_region (p_cr3 proc) 0x400000 (ucast (p_elf_end proc)) vm) (\<lambda>vm.
      bind_res (free_region (p_cr3 proc) 0x800000 (p_anon_allocate_end proc) vm) (\<lambda>vm.
      bind_res (mark_current_proc_as_dead context s) (\<lambda>(next, s).
        Inr (Exited next, k\<lparr>kn_sched := s, kn_vm := vm\<rparr>)))))))"

text \<open>The upper half of a new top-level table is that of the old one, the lower half is empty.\<close>

definition mirror_kernel :: "u64 \<Rightarrow> u64 \<Rightarrow> vm \<Rightarrow> vm" where
  "mirror_kernel new_cr3 cr3 st = st\<lparr>vm_pt :=
     for_loop 256 (\<lambda>i pt. pt(entry_addr new_cr3 (of_nat (256 + i)) := pt (entry_addr cr3 (of_nat (256 + i)))))
       (zero_table new_cr3 (vm_pt st))\<rparr>"

definition fork_space :: "u64 \<Rightarrow> process \<Rightarrow> vm \<Rightarrow> (u64 \<times> vm) res" where
  "fork_space cr3 proc vm =
     bind_res (allocate_page (vm_ba vm)) (\<lambda>(new_cr3, ba).
     let vm = mirror_kernel new_cr3 cr3 (vm\<lparr>vm_ba := ba\<rparr>) in
     bind_res (allocate_region new_cr3 0x200000 (ucast (p_elf_end proc)) 7 vm) (\<lambda>vm.
     bind_res (allocate_region new_cr3 0x800000 (p_anon_allocate_end proc) 7 vm) (\<lambda>vm.
       Inr (new_cr3, vm))))"

definition fork_process :: "allocator \<Rightarrow> u64 \<Rightarrow> u64 \<Rightarrow> sched \<Rightarrow> (u64 \<times> sched) res" where
  "fork_process al new_cr3 proc s =
     bind_res (alloc al sizeof_process (s_heap s)) (\<lambda>(p, h).
     let s = s\<lparr>s_heap := h\<rparr> in
     bind_res (memset_null p) (\<lambda>_.
     let s = s\<lparr>procs := (procs s)(p := (procs s proc)\<lparr>p_cr3 := new_cr3\<rparr>)\<rparr>;
         (pid, s) = get_new_pid s;
         s = set_proc p (\<lambda>q. q\<lparr>p_pid := pid\<rparr>) s;
         cap = cap_of (procs s proc) in
     bind_res (resource_table_alloc al cap s) (\<lambda>(tbl, s).
       if tbl = NULL \<and> cap \<noteq> 0 then Inl NullDeref
       else let s = set_proc p (\<lambda>q. q\<lparr>p_resources := tbl\<rparr>) s
            in Inr (p, s\<lparr>rtables := (rtables s)(tbl := (\<lambda>i. if i < unat cap
                 then rtables s (p_resources (procs s proc)) i else rtables s tbl i))\<rparr>))))"

definition fork_syscall ::
    "allocator \<Rightarrow> u64 \<Rightarrow> cpu_status \<Rightarrow> u64 \<Rightarrow> kernel \<Rightarrow> (outcome \<times> kernel) res" where
  "fork_syscall al context ctx yield_context k =
     (let proc = current k; cr3 = p_cr3 (current_proc k) in
      bind_res (fork_space cr3 (current_proc k) (kn_vm k)) (\<lambda>(new_cr3, vm).
      bind_res (fork_process al new_cr3 proc (kn_sched k)) (\<lambda>(p, s).
      let s = s\<lparr>contexts := (contexts s)(context := ctx)\<rparr> in
      if p_cr3 (procs s (get_current_process s)) = new_cr3
      then Inr (Returned 0, k\<lparr>kn_sched := s, kn_vm := vm\<rparr>)
      else bind_res (copy_pages_between_pagetables new_cr3 cr3 0x200000 (ucast (p_elf_end (procs s proc))) vm) (\<lambda>(_, vm).
        bind_res (copy_pages_between_pagetables new_cr3 cr3 0x800000 (p_anon_allocate_end (procs s proc)) vm) (\<lambda>(_, vm).
        bind_res (insert_process p (set_proc p (\<lambda>q. q\<lparr>p_context := context\<rparr>) s)) (\<lambda>s.
        bind_res (yield yield_context s) (\<lambda>(next, s).
          Inr (Resumed next (scast (p_pid (procs s p))), k\<lparr>kn_sched := s, kn_vm := vm\<rparr>))))))))"

text \<open>Waiting: the call tests the status of the process each time it runs.\<close>

definition waitpid_check :: "allocator \<Rightarrow> u64 \<Rightarrow> i32 \<Rightarrow> u64 \<Rightarrow> kernel \<Rightarrow> (outcome \<times> kernel) res" where
  "waitpid_check al context pid c k =
     (if p_status (procs (kn_sched k) c) \<noteq> DEAD
      then bind_res (yield context (kn_sched k)) (\<lambda>(next, s). Inr (Waiting next c, k\<lparr>kn_sched := s\<rparr>))
      else bind_res (remove_proc_from_list c (kn_sched k)) (\<lambda>s.
        bind_res (free al c (s_heap s)) (\<lambda>h.
          Inr (Returned (scast pid), k\<lparr>kn_sched := s\<lparr>s_heap := h\<rparr>\<rparr>))))"

definition waitpid_syscall :: "allocator \<Rightarrow> u64 \<Rightarrow> i32 \<Rightarrow> u64 \<Rightarrow> i32 \<Rightarrow> kernel \<Rightarrow> (outcome \<times> kernel) res" where
  "waitpid_syscall al context pid status flags k =
     (if status = NULL \<or> pid = - 1 then Inr (Returned (- 1), k)
      else bind_res (get_proc_from_pid pid (kn_sched k)) (\<lambda>c.
        if c = NULL then Inr (Returned (- 1), k) else waitpid_check al context pid c k))"

section \<open>Files in user memory\<close>

text \<open>
  The file system code runs on the memory that the current tables map.  It reads its arguments
  there, and its writes, to the path of a new file or to the caller's buffer, are stored there; the walk
  over the path and the stores fault on an address that is not mapped.
\<close>

definition vstrlen :: "(u64 \<Rightarrow> u64 option) \<Rightarrow> u64 \<Rightarrow> vm \<Rightarrow> u64 \<Rightarrow> u64 res" where
  "vstrlen kmap cr3 st s =
     bind_res (returns (while_option (\<lambda>p. case vread kmap cr3 st p of Inl _ \<Rightarrow> False | Inr b \<Rightarrow> b \<noteq> 0) (\<lambda>p. p + 1) s))
       (\<lambda>p. bind_res (vread kmap cr3 st p) (\<lambda>_. Inr (p - s)))"

definition vfs_state :: "(u64 \<Rightarrow> u64 option) \<Rightarrow> kernel \<Rightarrow> vstate" where
  "vfs_state kmap k = (kn_vfs k)\<lparr>vs_fs := (vs_fs (kn_vfs k))\<lparr>
     fs_mem := (\<lambda>va. case vbyte kmap (cr3_of k) (kn_vm k) va of Some b \<Rightarrow> b | None \<Rightarrow> 0),
     fs_heap := s_heap (kn_sched k)\<rparr>\<rparr>"

definition vfs_store :: "(u64 \<Rightarrow> u64 option) \<Rightarrow> u64 \<Rightarrow> nat \<Rightarrow> vstate \<Rightarrow> kernel \<Rightarrow> kernel res" where
  "vfs_store kmap a n v k =
     bind_res (for_res n (\<lambda>i. vwrite kmap (cr3_of k) (a + of_nat i) (vmem v (a + of_nat i))) (kn_vm k)) (\<lambda>vm.
       Inr (k\<lparr>kn_vm := vm, kn_vfs := v, kn_sched := (kn_sched k)\<lparr>s_heap := vheap v\<rparr>\<rparr>))"

definition open_file :: "(u64 \<Rightarrow> u64 option) \<Rightarrow> u64 \<Rightarrow> i32 \<Rightarrow> kernel \<Rightarrow> (u64 \<times> kernel) res" where
  "open_file kmap pathname flags k =
     (if pathname = NULL then Inr (NULL, k)
      else bind_res (vstrlen kmap (cr3_of k) (kn_vm k) pathname) (\<lambda>len.
        bind_res (vfs_open pathname flags (vfs_state kmap k)) (\<lambda>(f, v).
        bind_res (vfs_store kmap (fl_path (fs_files (vs_fs v) f)) (if f = NULL then 0 else unat len + 1) v k) (\<lambda>k.
          Inr (f, k)))))"

definition read_file :: "(u64 \<Rightarrow> u64 option) \<Rightarrow> u64 \<Rightarrow> u64 \<Rightarrow> u64 \<Rightarrow> kernel \<Rightarrow> (u64 \<times> kernel) res" where
  "read_file kmap f buf n k =
     bind_res (vfs_read f buf n (vfs_state kmap k)) (\<lambda>(r, v).
       bind_res (vfs_store kmap buf (unat r) v k) (\<lambda>k. Inr (r, k)))"

definition write_file :: "(u64 \<Rightarrow> u64 option) \<Rightarrow> u64 \<Rightarrow> u64 \<Rightarrow> u64 \<Rightarrow> kernel \<Rightarrow> (u64 \<times> kernel) res" where
  "write_file kmap f buf n k =
     bind_res (vfs_write f buf n (vfs_state kmap k)) (\<lambda>(r, v).
       bind_res (vfs_store kmap buf 0 v k) (\<lambda>k. Inr (r, k)))"

abbreviation filesz_of :: "u64 \<Rightarrow> kernel \<Rightarrow> u64" where
  "filesz_of f k \<equiv> fl_filesz (fs_files (vs_fs (kn_vfs k)) f)"

text \<open>The copy of the path on the stack is not used; the arguments and the environment are ignored.\<close>

definition execve_syscall ::
    "(u64 \<Rightarrow> u64 option) \<Rightarrow> u64 \<Rightarrow> u64 \<Rightarrow> u64 \<Rightarrow> kernel \<Rightarrow> (outcome \<times> kernel) res" where
  "execve_syscall kmap pathname argv envp k =
     bind_res (open_file kmap pathname 0 k) (\<lambda>(elf, k).
     if elf = NULL then Inr (Returned (- 1), k) else
     let cr3 = p_cr3 (current_proc k) in
     bind_res (vstrlen kmap (cr3_of k) (kn_vm k) pathname) (\<lambda>len.
     if len + 1 > 0x2000 then Inr (Returned (- 1), k) else
     bind_res (free_region cr3 0x400000 (ucast (p_elf_end (current_proc k))) (kn_vm k)) (\<lambda>vm.
     bind_res (free_region cr3 0x800000 (p_anon_allocate_end (current_proc k)) vm) (\<lambda>vm.
     let k = set_current (\<lambda>p. p\<lparr>p_anon_allocate_end := 0x800000\<rparr>) (k\<lparr>kn_vm := vm\<rparr>) in
     bind_res (allocate_region cr3 0x800000 (0x800000 + filesz_of elf k) 3 (kn_vm k)) (\<lambda>vm.
     let k = k\<lparr>kn_vm := vm\<rparr> in
     bind_res (read_file kmap elf 0x800000 (filesz_of elf k) k) (\<lambda>(_, k).
     bind_res (map_elf kmap (cr3_of k) 0x800000 (kn_vm k)) (\<lambda>(elf_end, vm).
     let k = set_current (\<lambda>p. p\<lparr>p_elf_end := elf_end\<rparr>) (k\<lparr>kn_vm := vm\<rparr>) in
     bind_res (e_entry kmap (cr3_of k) (kn_vm k) 0x800000) (\<lambda>elf_entry.
     bind_res (free_region cr3 0x800000 (0x800000 + filesz_of elf k) (kn_vm k)) (\<lambda>vm.
       Inr (EnterUser elf_entry 0x400000, k\<lparr>kn_vm := vm\<rparr>))))))))))"

section \<open>Dispatch\<close>

text \<open>What the machine contributes to a call: saved contexts, and the operations on pipes.\<close>

record environment =
  env_kmap :: "u64 \<Rightarrow> u64 option"
  env_al :: allocator
  env_context :: u64
  env_fork_context :: u64
  env_fork_status :: cpu_status
  env_pipe_read :: "u64 \<Rightarrow> u64 \<Rightarrow> u64 \<Rightarrow> kernel \<Rightarrow> (i32 \<times> kernel) res"
  env_pipe_write :: "u64 \<Rightarrow> u64 \<Rightarrow> u64 \<Rightarrow> kernel \<Rightarrow> (i32 \<times> kernel) res"

definition narrow :: "(u64 \<times> kernel) res \<Rightarrow> (i32 \<times> kernel) res" where
  "narrow r = bind_res r (\<lambda>(n, k). Inr (ucast n, k))"

definition syscall_handler ::
    "environment \<Rightarrow> u64 \<Rightarrow> u64 \<Rightarrow> u64 \<Rightarrow> u64 \<Rightarrow> kernel \<Rightarrow> (outcome \<times> kernel) res" where
  "syscall_handler env index arg0 arg1 arg2 k =
     (if index = 0 then read_syscall (env_pipe_read env) (\<lambda>f buf n k. narrow (read_file (env_kmap env) f buf n k)) arg0 arg1 arg2 k
      else if index = 1 then write_syscall (env_pipe_write env) (\<lambda>f buf n k. narrow (write_file (env_kmap env) f buf n k)) arg0 arg1 arg2 k
      else if index = 2 then anon_allocate_syscall (env_kmap env) arg0 arg1 k
      else if index = 3 then exit_syscall (env_al env) (env_context env) k
      else if index = 4 then fork_syscall (env_al env) (env_fork_context env) (env_fork_status env) (env_context env) k
      else if index = 5 then execve_syscall (env_kmap env) arg0 arg1 arg2 k
      else if index = 6 then waitpid_syscall (env_al env) (env_context env) (ucast arg0) arg1 (ucast arg2) k
      else Inr (Returned (- 1), k))"

section \<open>Refused calls\<close>

lemma resource_rw_refused:
  assumes "case resource_get fd s of None \<Rightarrow> True | Some r \<Rightarrow> rs_type r = EMPTY"
  shows "resource_rw pipe_op file_op s fd buf len t = Inr (- 1, t)"
  using assms by (cases "resource_get fd s") (auto simp: resource_rw_def)

lemma get_proc_absent:
  assumes "proc_chain s xs" "\<forall>p \<in> set xs. p_pid (procs s p) \<noteq> pid"
  shows "get_proc_from_pid pid s = Inr NULL"
  using chase_chain [OF assms(1)] assms(2) first_or_null_cases [of "\<lambda>p. p_pid (procs s p) = pid" xs]
  by (auto simp: get_proc_from_pid_def)

text \<open>
  (C33) A call that cannot be served returns \<open>-1\<close> and changes nothing: an unknown number, reading or
  writing through a descriptor that is out of range or not in use, waiting without a place for the status,
  for the pid \<open>-1\<close> or for a pid that no process has, and executing the null path.
\<close>

theorem syscall_errors:
  assumes "proc_chain (kn_sched k) xs"
  shows "(6 < index \<longrightarrow> syscall_handler env index a0 a1 a2 k = Inr (Returned (- 1), k)) \<and>
    (index < 2 \<longrightarrow> (case resource_get (ucast a0) (kn_sched k) of None \<Rightarrow> True | Some r \<Rightarrow> rs_type r = EMPTY) \<longrightarrow>
       syscall_handler env index a0 a1 a2 k = Inr (Returned (- 1), k)) \<and>
    (a1 = NULL \<or> (ucast a0 :: i32) = - 1 \<or> (\<forall>p \<in> set xs. p_pid (procs (kn_sched k) p) \<noteq> ucast a0) \<longrightarrow>
       syscall_handler env 6 a0 a1 a2 k = Inr (Returned (- 1), k)) \<and>
    syscall_handler env 5 NULL a1 a2 k = Inr (Returned (- 1), k)"
proof -
  have "index \<noteq> 0 \<and> index \<noteq> 1 \<and> index \<noteq> 2 \<and> index \<noteq> 3 \<and> index \<noteq> 4 \<and> index \<noteq> 5 \<and> index \<noteq> 6" if "6 < index"
    using that by (auto simp: word_less_nat_alt)
  moreover have "index = 0 \<or> index = 1" if "index < 2"
  proof -
    have "unat index = 0 \<or> unat index = 1" using that by (auto simp: word_less_nat_alt)
    then show ?thesis by (auto simp: word_unat_eq_iff)
  qed
  moreover have "waitpid_syscall al c (ucast a0) a1 fl k = Inr (Returned (- 1), k)"
    if "a1 = NULL \<or> (ucast a0 :: i32) = - 1 \<or> (\<forall>p \<in> set xs. p_pid (procs (kn_sched k) p) \<noteq> ucast a0)" for al c fl
    using that get_proc_absent [OF assms] by (auto simp: waitpid_syscall_def)
  ultimately show ?thesis
    by (auto simp: syscall_handler_def read_syscall_def write_syscall_def resource_rw_refused execve_syscall_def open_file_def)
qed

section \<open>Anonymous memory\<close>

definition anon_upto :: "(u64 \<Rightarrow> u64 option) \<Rightarrow> u64 set \<Rightarrow> kernel \<Rightarrow> nat \<Rightarrow> kernel \<Rightarrow> bool" where
  "anon_upto kmap K k n k' \<longleftrightarrow> (let e = p_anon_allocate_end (current_proc k); cr3 = cr3_of k in
     space_ok kmap cr3 K (kn_vm k') \<and> avail (kn_vm k) \<le> avail (kn_vm k') + 4 * n \<and> isolated kmap cr3 (kn_vm k) (kn_vm k') \<and>
     kn_sched k' = set_proc (current k) (\<lambda>p. p\<lparr>p_anon_allocate_end := e + of_nat (0x1000 * n)\<rparr>) (kn_sched k) \<and>
     (\<forall>x. user_va x \<longrightarrow> unat e \<le> unat x \<longrightarrow> unat x < unat e + 0x1000 * n \<longrightarrow> vbyte kmap cr3 (kn_vm k') x \<noteq> None) \<and>
     (\<forall>x. vbyte kmap cr3 (kn_vm k) x \<noteq> None \<longrightarrow> vbyte kmap cr3 (kn_vm k') x = vbyte kmap cr3 (kn_vm k) x))"

lemma anon_step_upto:
  assumes I: "anon_upto kmap K k n k'" and al: "aligned (p_anon_allocate_end (current_proc k))"
    and b: "unat (p_anon_allocate_end (current_proc k)) + 0x1000 * Suc n \<le> 2 ^ 47" and av: "4 * Suc n \<le> avail (kn_vm k)"
  shows "\<exists>k''. anon_step k' = Inr k'' \<and> anon_upto kmap K k (Suc n) k''"
proof -
  let ?e = "p_anon_allocate_end (current_proc k)" and ?cr3 = "cr3_of k"
  have I': "space_ok kmap ?cr3 K (kn_vm k')" "avail (kn_vm k) \<le> avail (kn_vm k') + 4 * n"
    "kn_sched k' = set_proc (current k) (\<lambda>p. p\<lparr>p_anon_allocate_end := ?e + of_nat (0x1000 * n)\<rparr>) (kn_sched k)"
    "\<forall>x. user_va x \<longrightarrow> unat ?e \<le> unat x \<longrightarrow> unat x < unat ?e + 0x1000 * n \<longrightarrow> vbyte kmap ?cr3 (kn_vm k') x \<noteq> None"
    "\<forall>x. vbyte kmap ?cr3 (kn_vm k) x \<noteq> None \<longrightarrow> vbyte kmap ?cr3 (kn_vm k') x = vbyte kmap ?cr3 (kn_vm k) x"
    "isolated kmap ?cr3 (kn_vm k) (kn_vm k')"
    using I by (auto simp: anon_upto_def Let_def)
  let ?a = "?e + of_nat (0x1000 * n)"
  have ua: "unat ?a = unat ?e + 0x1000 * n" using b by (intro unat_add_of_nat_u64) simp
  have a: "user_va ?a" using ua b by (simp add: user_va_def word_less_nat_alt)
  have ala: "aligned ?a" using al ua by (simp add: aligned_def)
  have cur: "current k' = current k" "cr3_of k' = ?cr3" "p_anon_allocate_end (current_proc k') = ?a"
    using I'(3) by (simp_all add: get_current_process_def upd_def)
  have "4 \<le> avail (kn_vm k')" using av I'(2) by simp
  then obtain vm where m: "map_memory_page ?cr3 ?a 7 (kn_vm k') = Inr vm" "space_ok kmap ?cr3 K vm"
    "avail (kn_vm k') \<le> avail vm + 4"
    "\<forall>x. user_va x \<longrightarrow> drop_bit 12 x = drop_bit 12 ?a \<longrightarrow> vbyte kmap ?cr3 vm x \<noteq> None"
    "\<forall>x. vbyte kmap ?cr3 (kn_vm k') x \<noteq> None \<longrightarrow> vbyte kmap ?cr3 vm x = vbyte kmap ?cr3 (kn_vm k') x"
    "isolated kmap ?cr3 (kn_vm k') vm"
    using map_page_view [OF I'(1) a flags_7] by blast
  let ?k = "set_current (\<lambda>p. p\<lparr>p_anon_allocate_end := p_anon_allocate_end p + 0x1000\<rparr>) (k'\<lparr>kn_vm := vm\<rparr>)"
  have "kn_sched ?k = set_proc (current k) (\<lambda>p. p\<lparr>p_anon_allocate_end := ?e + of_nat (0x1000 * Suc n)\<rparr>) (kn_sched k)"
    using I'(3) by (simp add: get_current_process_def upd_def ac_simps)
  moreover have "vbyte kmap ?cr3 vm x \<noteq> None"
    if x: "user_va x" "unat ?e \<le> unat x" "unat x < unat ?e + 0x1000 * Suc n" for x
  proof (cases "unat x < unat ?e + 0x1000 * n")
    case True
    then show ?thesis using I'(4) m(5) x(1,2) by simp
  next
    case False
    then have "drop_bit 12 x = drop_bit 12 ?a" using ua x(3) by (intro same_page [OF ala]) simp_all
    then show ?thesis using m(4) x(1) by blast
  qed
  ultimately have "anon_upto kmap K k (Suc n) ?k"
    using m(2,3,5) I'(2,5) isolated_trans [OF I'(6) m(6)] unfolding anon_upto_def Let_def by simp
  then show ?thesis using m(1) cur by (simp add: anon_step_def)
qed

lemma anon_allocate_run:
  fixes k :: kernel and sz :: u64
  defines "e \<equiv> p_anon_allocate_end (current_proc k)" and "n \<equiv> (unat sz + 0xfff) div 0x1000"
  assumes ok: "space_ok kmap (cr3_of k) K (kn_vm k)" and al: "aligned e"
    and b: "unat e + 0x1000 * n \<le> 2 ^ 47" "unat sz < 2 ^ 42" and av: "4 * n \<le> avail (kn_vm k)"
    and ptr: "\<forall>i<8. user_va (ptr + of_nat i) \<and> vbyte kmap (cr3_of k) (kn_vm k) (ptr + of_nat i) \<noteq> None"
  shows "\<exists>k1 vm. anon_allocate_syscall kmap sz ptr k = Inr (Returned 0, k1\<lparr>kn_vm := vm\<rparr>) \<and> anon_upto kmap K k n k1 \<and>
    space_ok kmap (cr3_of k) K vm \<and> isolated kmap (cr3_of k) (kn_vm k) vm \<and>
    (\<forall>i<8. vbyte kmap (cr3_of k) vm (ptr + of_nat i) = Some (ucast (drop_bit (8 * i) e))) \<and>
    (\<forall>x. user_va x \<longrightarrow> \<not> in_range x ptr 8 \<longrightarrow> vbyte kmap (cr3_of k) vm x = vbyte kmap (cr3_of k) (kn_vm k1) x)"
proof -
  have "\<exists>k1. for_res n (\<lambda>_. anon_step) k = Inr k1 \<and> anon_upto kmap K k n k1"
  proof (rule for_res_invariant)
    show "anon_upto kmap K k 0 k" using ok by (simp add: anon_upto_def Let_def upd_def isolated_refl)
    show "\<exists>t'. anon_step t = Inr t' \<and> anon_upto kmap K k (Suc i) t'" if "i < n" "anon_upto kmap K k i t" for i t
      using anon_step_upto [OF that(2)] al b(1) av that(1) by (simp add: e_def)
  qed
  then obtain k1 where k1: "for_res n (\<lambda>_. anon_step) k = Inr k1" "anon_upto kmap K k n k1" by blast
  note I = k1(2) [unfolded anon_upto_def Let_def, folded e_def]
  have cr3: "cr3_of k1 = cr3_of k" using I by (simp add: get_current_process_def)
  have pages: "nat (sint (ucast (drop_bit 12 (sz + 0xfff)) :: i32)) = n"
  proof -
    have "unat (sz + of_nat 0xfff) = unat sz + 0xfff" using b(2) by (intro unat_add_of_nat_u64) simp
    then have "unat (drop_bit 12 (sz + 0xfff)) = n" by (simp add: drop_bit_eq_div unat_div n_def)
    then have "(ucast (drop_bit 12 (sz + 0xfff)) :: i32) = of_nat n" by (metis of_nat_unat)
    moreover have "n < 2 ^ 31" using b(2) by (simp add: n_def)
    ultimately show ?thesis using sint_small by simp
  qed
  have "\<forall>i<8. user_va (ptr + of_nat i) \<and> vbyte kmap (cr3_of k) (kn_vm k1) (ptr + of_nat i) \<noteq> None"
    using ptr I by simp
  moreover have "space_ok kmap (cr3_of k) K (kn_vm k1)" using I by blast
  ultimately obtain vm where vm: "vwrite_le kmap (cr3_of k) 8 ptr e (kn_vm k1) = Inr vm" "space_ok kmap (cr3_of k) K vm"
    "\<forall>i<8. vbyte kmap (cr3_of k) vm (ptr + of_nat i) = Some (ucast (drop_bit (8 * i) e))"
    "\<forall>x. user_va x \<longrightarrow> \<not> in_range x ptr 8 \<longrightarrow> vbyte kmap (cr3_of k) vm x = vbyte kmap (cr3_of k) (kn_vm k1) x"
    "written kmap (cr3_of k) (kn_vm k1) vm"
    using vwrite_le_view [of kmap "cr3_of k" K "kn_vm k1" 8 ptr e] by blast
  have run: "anon_allocate_syscall kmap sz ptr k = Inr (Returned 0, k1\<lparr>kn_vm := vm\<rparr>)"
    using k1(1) vm(1) cr3 unfolding anon_allocate_syscall_def Let_def pages by (simp add: e_def)
  have "isolated kmap (cr3_of k) (kn_vm k1) vm" using written_isolated vm(5) .
  then have "isolated kmap (cr3_of k) (kn_vm k) vm" using I isolated_trans by blast
  then show ?thesis using run k1(2) vm(2-4) by (intro exI [of _ k1] exI [of _ vm]) simp
qed

text \<open>
  (C19) \<open>anon_allocate\<close> extends the memory of the process: with enough free pages and an accessible place
  for the result it returns \<open>0\<close>, stores the old end of the anonymous memory there, moves the end up by
  the size rounded up to pages, and makes every byte in between accessible; all other user bytes keep
  their values and the tables stay well-formed.  The memory of all other processes, in other pages of the
  allocator, is untouched.
\<close>

theorem anon_allocate_correct:
  fixes k :: kernel and sz :: u64
  defines "e \<equiv> p_anon_allocate_end (current_proc k)" and "n \<equiv> (unat sz + 0xfff) div 0x1000"
  assumes ok: "space_ok kmap (cr3_of k) K (kn_vm k)" and al: "aligned e"
    and b: "unat e + 0x1000 * n \<le> 2 ^ 47" "unat sz < 2 ^ 42" and av: "4 * n \<le> avail (kn_vm k)"
    and ptr: "\<forall>i<8. user_va (ptr + of_nat i) \<and> vbyte kmap (cr3_of k) (kn_vm k) (ptr + of_nat i) \<noteq> None"
  shows "\<exists>k'. anon_allocate_syscall kmap sz ptr k = Inr (Returned 0, k') \<and> space_ok kmap (cr3_of k) K (kn_vm k') \<and>
    p_anon_allocate_end (current_proc k') = e + of_nat (0x1000 * n) \<and>
    (\<forall>i<8. vbyte kmap (cr3_of k) (kn_vm k') (ptr + of_nat i) = Some (ucast (drop_bit (8 * i) e))) \<and>
    (\<forall>x. unat e \<le> unat x \<longrightarrow> unat x < unat e + 0x1000 * n \<longrightarrow> vbyte kmap (cr3_of k) (kn_vm k') x \<noteq> None) \<and>
    (\<forall>x. user_va x \<longrightarrow> \<not> in_range x ptr 8 \<longrightarrow> vbyte kmap (cr3_of k) (kn_vm k) x \<noteq> None \<longrightarrow>
       vbyte kmap (cr3_of k) (kn_vm k') x = vbyte kmap (cr3_of k) (kn_vm k) x) \<and>
    isolated kmap (cr3_of k) (kn_vm k) (kn_vm k')"
proof -
  obtain k1 vm where run: "anon_allocate_syscall kmap sz ptr k = Inr (Returned 0, k1\<lparr>kn_vm := vm\<rparr>)" and k1: "anon_upto kmap K k n k1"
    and vm: "space_ok kmap (cr3_of k) K vm" "isolated kmap (cr3_of k) (kn_vm k) vm"
    "\<forall>i<8. vbyte kmap (cr3_of k) vm (ptr + of_nat i) = Some (ucast (drop_bit (8 * i) e))"
    "\<forall>x. user_va x \<longrightarrow> \<not> in_range x ptr 8 \<longrightarrow> vbyte kmap (cr3_of k) vm x = vbyte kmap (cr3_of k) (kn_vm k1) x"
    using anon_allocate_run [OF ok] al b av ptr unfolding e_def n_def by blast
  note I = k1 [unfolded anon_upto_def Let_def, folded e_def]
  have e: "p_anon_allocate_end (current_proc k1) = e + of_nat (0x1000 * n)" using I by (simp add: get_current_process_def upd_def)
  have acc: "vbyte kmap (cr3_of k) vm x \<noteq> None" if x: "unat e \<le> unat x" "unat x < unat e + 0x1000 * n" for x
  proof (cases "in_range x ptr 8")
    case True
    then show ?thesis using vm(3) by (auto simp: in_range_def)
  next
    case False
    have "user_va x" using x(2) b(1) by (simp add: user_va_def word_less_nat_alt)
    then show ?thesis using False vm(4) I x by simp
  qed
  have keep: "vbyte kmap (cr3_of k) vm x = vbyte kmap (cr3_of k) (kn_vm k) x"
    if "user_va x" "\<not> in_range x ptr 8" "vbyte kmap (cr3_of k) (kn_vm k) x \<noteq> None" for x
    using that vm(4) I by simp
  show ?thesis using run vm(1-3) e acc keep by (intro exI [of _ "k1\<lparr>kn_vm := vm\<rparr>"]) simp
qed

section \<open>Waiting for a process\<close>

lemma remove_proc_heap: "remove_proc_from_list p s = Inr s' \<Longrightarrow> s_heap s' = s_heap s"
  by (auto simp: remove_proc_from_list_def split: if_splits)

lemma get_proc_first:
  assumes "proc_chain s (as @ c # bs)" "p_pid (procs s c) = pid" "\<forall>p \<in> set as. p_pid (procs s p) \<noteq> pid"
  shows "get_proc_from_pid pid s = Inr c"
proof -
  have "first_or_null (\<lambda>p. p_pid (procs s p) = pid) (as @ c # bs) = c"
    using assms(2,3) by (induction as) (simp_all add: first_or_null_simps)
  then show ?thesis using chase_chain [OF assms(1)] by (simp add: get_proc_from_pid_def)
qed

text \<open>
  (C20) \<open>waitpid\<close> for the first process of the list with the pid: while it is alive the caller gives up the
  processor to the next process that can run, and tests again later; once it is dead, the process
  leaves the list, its memory goes back to the heap and the pid is returned.
\<close>

theorem waitpid_correct:
  assumes c: "proc_chain (kn_sched k) (as @ c # bs)" and pid: "p_pid (procs (kn_sched k) c) = pid"
      "\<forall>p \<in> set as. p_pid (procs (kn_sched k) p) \<noteq> pid" "pid \<noteq> - 1" "status \<noteq> NULL"
    and i: "i < length (as @ c # bs)" "current k = (as @ c # bs) ! i"
    and d: "runnable (kn_sched k) (ahead (as @ c # bs) i d)" "\<forall>e<d. \<not> runnable (kn_sched k) (ahead (as @ c # bs) i e)"
    and heap: "heap_ok al (s_heap (kn_sched k))" "(c, n) \<in> heap_live al (s_heap (kn_sched k))"
  shows "\<exists>out k'. waitpid_syscall al context pid status flags k = Inr (out, k') \<and>
    (if p_status (procs (kn_sched k) c) = DEAD
     then out = Returned (scast pid) \<and> proc_chain (kn_sched k') (as @ bs) \<and> current k' = current k \<and>
       heap_live al (s_heap (kn_sched k')) = heap_live al (s_heap (kn_sched k)) - {(c, n)}
     else (\<exists>next. out = Waiting next c) \<and> current k' = ahead (as @ c # bs) i d \<and>
       proc_chain (kn_sched k') (as @ c # bs) \<and> p_status (procs (kn_sched k') c) \<noteq> DEAD)"
proof -
  let ?s = "kn_sched k" and ?xs = "as @ c # bs"
  have nn: "c \<noteq> NULL" using chain_nonnull [OF c] by simp
  have call: "waitpid_syscall al context pid status flags k = waitpid_check al context pid c k"
    using get_proc_first [OF c pid(1,2)] pid(3,4) nn by (simp add: waitpid_syscall_def)
  show ?thesis
  proof (cases "p_status (procs ?s c) = DEAD")
    case True
    obtain s1 where s1: "remove_proc_from_list c ?s = Inr s1" "proc_chain s1 (as @ bs)" "current_process s1 = current_process ?s"
      using remove_proc_chain [OF c] by blast
    obtain h where h: "free al c (s_heap ?s) = Inr h" "heap_live al h = heap_live al (s_heap ?s) - {(c, n)}"
      using kernel_heap.free_ok [OF heap] by blast
    then show ?thesis using True s1 remove_proc_heap [OF s1(1)] call
      by (simp add: waitpid_check_def get_current_process_def)
  next
    case False
    have i': "current_process ?s = ?xs ! i" using i(2) by (simp only: get_current_process_def)
    obtain next' s1 where s1: "schedule context ?s = Inr (next', s1)" "current_process s1 = ahead ?xs i d"
      "process_list s1 = process_list ?s" "\<forall>p. p_next (procs s1 p) = p_next (procs ?s p)"
      "\<forall>p. p_status (procs s1 p) = (if p = ahead ?xs i d then RUNNING
         else if p = current_process ?s \<and> runnable ?s p then READY else p_status (procs ?s p))"
      using schedule_effect [OF c i(1) i' d, of "context"] by blast
    have "proc_chain s1 ?xs" using c s1(3,4) by simp
    moreover have "p_status (procs s1 c) \<noteq> DEAD" using False s1(5) by simp
    ultimately show ?thesis using False s1(1,2) call by (simp add: waitpid_check_def yield_def get_current_process_def)
  qed
qed

section \<open>Exit\<close>

text \<open>Every mapped frame is in use.\<close>

definition frames_used :: "u64 \<Rightarrow> vm \<Rightarrow> bool" where
  "frames_used cr3 st \<longleftrightarrow> vm_inv cr3 st \<and>
     (\<forall>va f. user_va va \<longrightarrow> aligned va \<longrightarrow> translate (vm_pt st) cr3 va = Some f \<longrightarrow> f \<in> ba_in_use (vm_ba st))"

definition unmapped :: "u64 \<Rightarrow> u64 set \<Rightarrow> vm \<Rightarrow> vm \<Rightarrow> bool" where
  "unmapped cr3 R st st' \<longleftrightarrow> vm_mem st' = vm_mem st \<and> others cr3 st st' \<and> ba_managed (vm_ba st') = ba_managed (vm_ba st) \<and>
     (\<forall>va. user_va va \<longrightarrow> aligned va \<longrightarrow> translate (vm_pt st') cr3 va = (if va \<in> R then None else translate (vm_pt st) cr3 va)) \<and>
     ba_in_use (vm_ba st') = ba_in_use (vm_ba st) -
       {f. \<exists>va \<in> R. user_va va \<and> aligned va \<and> translate (vm_pt st) cr3 va = Some f}"

lemma region_user_va: "unat en \<le> 2 ^ 47 \<Longrightarrow> va \<in> region start en \<Longrightarrow> user_va va \<and> aligned va"
  by (auto simp: region_def user_va_def word_less_nat_alt)

lemma free_region_used:
  assumes "frames_used cr3 st" "unat en \<le> 2 ^ 47"
  shows "\<exists>st'. free_region cr3 start en st = Inr st' \<and> frames_used cr3 st' \<and> unmapped cr3 (region start en) st st'"
proof -
  have inv: "vm_inv cr3 st" using assms(1) by (simp add: frames_used_def)
  have fu: "f \<in> ba_in_use (vm_ba st)" if "va \<in> region start en" "translate (vm_pt st) cr3 va = Some f" for va f
    using assms(1) region_user_va [OF assms(2) that(1)] that(2) unfolding frames_used_def by blast
  obtain st' where st': "free_region cr3 start en st = Inr st'" "vm_inv cr3 st'"
    "\<forall>va. user_va va \<longrightarrow> aligned va \<longrightarrow> translate (vm_pt st') cr3 va =
       (if va \<in> region start en then None else translate (vm_pt st) cr3 va)"
    "ba_in_use (vm_ba st') =
      ba_in_use (vm_ba st) - {f. \<exists>va \<in> region start en. translate (vm_pt st) cr3 va = Some f}"
    "vm_mem st' = vm_mem st" "others cr3 st st'" "ba_managed (vm_ba st') = ba_managed (vm_ba st)"
    using free_region_effect [OF inv assms(2), of start] fu by blast
  have "f \<in> ba_in_use (vm_ba st')" if va: "user_va va" "aligned va" "translate (vm_pt st') cr3 va = Some f" for va f
  proof -
    have old: "translate (vm_pt st) cr3 va = Some f" "va \<notin> region start en" using va st'(3) by (auto split: if_splits)
    then have "f \<noteq> g" if "vb \<in> region start en" "translate (vm_pt st) cr3 vb = Some g" for vb g
      using translate_inj [OF inv va(1) _ va(2), of vb f] region_user_va [OF assms(2) that(1)] that by metis
    then show ?thesis using old(1) va assms(1) st'(4) by (auto simp: frames_used_def)
  qed
  then show ?thesis using st' region_user_va [OF assms(2)] by (auto simp: frames_used_def unmapped_def)
qed

lemma unmapped_trans:
  assumes "unmapped cr3 R st st1" "unmapped cr3 S st1 st2"
  shows "unmapped cr3 (R \<union> S) st st2"
proof -
  have t: "translate (vm_pt st1) cr3 va = Some f \<longleftrightarrow> va \<notin> R \<and> translate (vm_pt st) cr3 va = Some f"
    if "user_va va \<and> aligned va" for va f
    using assms(1) that by (simp add: unmapped_def)
  have "{f. \<exists>va \<in> R \<union> S. user_va va \<and> aligned va \<and> translate (vm_pt st) cr3 va = Some f} =
      {f. \<exists>va \<in> R. user_va va \<and> aligned va \<and> translate (vm_pt st) cr3 va = Some f} \<union>
      {f. \<exists>va \<in> S. user_va va \<and> aligned va \<and> translate (vm_pt st1) cr3 va = Some f}"
    using t by blast
  then show ?thesis using assms by (auto simp: unmapped_def intro: others_trans)
qed

lemma close_all_frame:
  "\<exists>r. close_all proc s = s\<lparr>rtables := r\<rparr>"
  unfolding close_all_def
  by (rule for_loop_invariant [where P = "\<lambda>_ t. \<exists>r. t = s\<lparr>rtables := r\<rparr>"])
    (auto simp: resource_remove_def Let_def intro: exI [of _ "rtables s"])

lemma mark_dead_schedules:
  assumes c: "proc_chain s xs" and i: "i < length xs" "current_process s = xs ! i"
    and d: "runnable s (ahead xs i d)" "ahead xs i d \<noteq> xs ! i"
      "\<forall>e<d. ahead xs i e = xs ! i \<or> \<not> runnable s (ahead xs i e)"
  shows "\<exists>next s'. mark_current_proc_as_dead context s = Inr (next, s') \<and> current_process s' = ahead xs i d \<and>
    proc_chain s' xs \<and> p_status (procs s' (xs ! i)) = DEAD"
proof -
  let ?s = "set_proc (xs ! i) (\<lambda>p. p\<lparr>p_status := DEAD\<rparr>) s"
  have nn: "xs ! i \<noteq> NULL" using chain_nonnull [OF c] i(1) by simp
  have c': "proc_chain ?s xs" using chain_transfer [OF c] by (simp add: upd_def)
  have r: "runnable ?s p \<longleftrightarrow> p \<noteq> xs ! i \<and> runnable s p" for p
    by (auto simp: runnable_def not_runnable_def upd_def)
  obtain next' s' where s': "schedule context ?s = Inr (next', s')" "current_process s' = ahead xs i d"
      "process_list s' = process_list s" "\<forall>p. p_next (procs s' p) = p_next (procs ?s p)"
      "\<forall>p. p_status (procs s' p) = (if p = ahead xs i d then RUNNING
         else if p = xs ! i \<and> runnable ?s p then READY else p_status (procs ?s p))"
    using schedule_effect [OF c' i(1), of d "context"] i(2) d r by auto
  have "proc_chain s' xs" using c' s'(3,4) by simp
  moreover have "p_status (procs s' (xs ! i)) = DEAD" using s'(5) d(2) r by (simp add: upd_def)
  ultimately show ?thesis using s'(1,2) nn i(2)
    by (simp add: mark_current_proc_as_dead_def yield_def get_current_process_def)
qed

text \<open>The regions that \<open>exit\<close> releases.\<close>

definition exit_pages :: "process \<Rightarrow> u64 set" where
  "exit_pages proc = region 0x200000 0x400000 \<union> region 0x400000 (ucast (p_elf_end proc)) \<union> region 0x800000 (p_anon_allocate_end proc)"

lemma exit_regions:
  assumes vm: "frames_used cr3 st" "unat (p_anon_allocate_end proc) \<le> 2 ^ 47"
  shows "\<exists>v1 v2 v3. free_region cr3 0x200000 0x400000 st = Inr v1 \<and> free_region cr3 0x400000 (ucast (p_elf_end proc)) v1 = Inr v2 \<and>
    free_region cr3 0x800000 (p_anon_allocate_end proc) v2 = Inr v3 \<and> frames_used cr3 v3 \<and> unmapped cr3 (exit_pages proc) st v3"
proof -
  have e: "unat (ucast (p_elf_end proc) :: u64) \<le> 2 ^ 47"
    using unat_i32_lt [of "p_elf_end proc"] by (simp add: unsigned_ucast_eq take_bit_nat_eq_self)
  obtain v1 where v1: "free_region cr3 0x200000 0x400000 st = Inr v1" "frames_used cr3 v1"
    "unmapped cr3 (region 0x200000 0x400000) st v1" using free_region_used [OF vm(1), of "0x400000" "0x200000"] by auto
  obtain v2 where v2: "free_region cr3 0x400000 (ucast (p_elf_end proc)) v1 = Inr v2" "frames_used cr3 v2"
    "unmapped cr3 (region 0x400000 (ucast (p_elf_end proc))) v1 v2" using free_region_used [OF v1(2) e] by blast
  obtain v3 where v3: "free_region cr3 0x800000 (p_anon_allocate_end proc) v2 = Inr v3" "frames_used cr3 v3"
    "unmapped cr3 (region 0x800000 (p_anon_allocate_end proc)) v2 v3" using free_region_used [OF v2(2) vm(2)] by blast
  have "unmapped cr3 (exit_pages proc) st v3" unfolding exit_pages_def by (rule unmapped_trans [OF unmapped_trans [OF v1(3) v2(3)] v3(3)])
  then show ?thesis using v1(1) v2(1) v3(1,2) by blast
qed

text \<open>What a call of \<open>exit\<close> that ends does to the memory.\<close>

lemma exit_memory:
  fixes k :: kernel
  defines "proc \<equiv> current_proc k"
  assumes run: "exit_syscall al context k = Inr (r, k')"
    and vm: "frames_used (p_cr3 proc) (kn_vm k)" "unat (p_anon_allocate_end proc) \<le> 2 ^ 47"
  shows "frames_used (p_cr3 proc) (kn_vm k')" "unmapped (p_cr3 proc) (exit_pages proc) (kn_vm k) (kn_vm k')"
proof -
  obtain v1 v2 v3 where v: "free_region (p_cr3 proc) 0x200000 0x400000 (kn_vm k) = Inr v1"
    "free_region (p_cr3 proc) 0x400000 (ucast (p_elf_end proc)) v1 = Inr v2"
    "free_region (p_cr3 proc) 0x800000 (p_anon_allocate_end proc) v2 = Inr v3" "frames_used (p_cr3 proc) v3"
    "unmapped (p_cr3 proc) (exit_pages proc) (kn_vm k) v3"
    using exit_regions [OF vm] by blast
  have "kn_vm k' = v3"
    using run v(1-3) by (auto simp: exit_syscall_def Let_def bind_res_eq_Inr simp flip: proc_def)
  then show "frames_used (p_cr3 proc) (kn_vm k')" "unmapped (p_cr3 proc) (exit_pages proc) (kn_vm k) (kn_vm k')"
    using v(4,5) by simp_all
qed

lemma unmapped_isolated: "unmapped cr3 R st st' \<Longrightarrow> isolated kmap cr3 st st'"
  by (rule others_isolated) (simp_all add: unmapped_def)


section \<open>The process list after a fork\<close>

lemma fork_process_next:
  assumes "fork_process al new_cr3 proc s = Inr (p, s')"
  shows "p_next (procs s' p) = p_next (procs s proc) \<and> p \<noteq> NULL \<and> process_list s' = process_list s \<and>
    (\<forall>q. q \<noteq> p \<longrightarrow> procs s' q = procs s q)"
  using assms
  by (auto simp: fork_process_def get_new_pid_def resource_table_alloc_def memset_null_def Let_def upd_def
      split: if_splits)

text \<open>
  The new process of \<open>fork\<close> is a copy of its parent with the link to the next process.  When
  the parent is not the last of the list, inserting the copy closes the list to a cycle, and every later
  \<open>insert_process\<close> looks for its end forever.
\<close>

theorem fork_list_cycle:
  assumes c: "proc_chain s xs" and i: "Suc i < length xs" and f: "fork_process al new_cr3 (xs ! i) s = Inr (p, s1)"
    and p: "p \<notin> set xs"
  shows "\<exists>s2. insert_process p s1 = Inr s2 \<and> insert_process q s2 = Inl Hang"
proof -
  note n = fork_process_next [OF f]
  have nx: "p_next (procs s1 p) = xs ! Suc i" using n chain_nth_next [OF c i] by simp
  have "chain (\<lambda>q. p_next (procs s1 q)) (process_list s) xs NULL"
    by (rule chain_transfer [OF c]) (use n p in metis)
  then have c1: "proc_chain s1 xs" using n by simp
  have ne: "xs \<noteq> []" using i by auto
  let ?s = "set_proc (last xs) (\<lambda>q. q\<lparr>p_next := p\<rparr>) s1"
  have nn: "process_list s1 \<noteq> NULL" using ne chain_hd [OF c1 ne] chain_nonnull [OF c1, of "hd xs"] by simp
  then have ins: "insert_process p s1 = Inr ?s" using list_end [OF c1 ne] by (simp add: insert_process_def)
  have step: "p_next (procs ?s x) \<in> insert p (set xs)" if "x \<in> insert p (set xs)" for x
  proof (cases "x = last xs \<or> x = p")
    case True
    then show ?thesis using nx i by (auto simp: upd_def)
  next
    case False
    then have "x \<in> set xs" using that by simp
    then obtain j where j: "j < length xs" "x = xs ! j" by (auto simp: in_set_conv_nth)
    then have "Suc j < length xs" using False ne by (metis Suc_lessI diff_Suc_1 last_conv_nth)
    then show ?thesis using chain_nth_next [OF c1, of j] j False by (simp add: upd_def)
  qed
  have "while_option (\<lambda>q. p_next (procs ?s q) \<noteq> NULL) (\<lambda>q. p_next (procs ?s q)) (process_list s1) = None"
  proof (rule ccontr)
    assume "\<not> ?thesis"
    then obtain t where t: "while_option (\<lambda>q. p_next (procs ?s q) \<noteq> NULL) (\<lambda>q. p_next (procs ?s q)) (process_list s1) = Some t"
      by blast
    have "t \<in> insert p (set xs)"
      by (rule while_option_rule [where P = "\<lambda>q. q \<in> insert p (set xs)", OF _ t]) (use step chain_hd [OF c1 ne] ne in auto)
    then have "p_next (procs ?s t) \<noteq> NULL" using step [of t] n chain_nonnull [OF c1] by auto
    then show False using while_option_stop [OF t] by simp
  qed
  then have "insert_process q ?s = Inl Hang" using nn by (simp add: insert_process_def)
  then show ?thesis using ins by blast
qed

section \<open>Witnesses\<close>

text \<open>
  Three processes on a heap of two used blocks: the first runs, with its descriptor table at \<open>0x1060\<close>,
  the second is dead and has the pid \<open>5\<close>, the third is ready.  One page of the stack is mapped in the
  second variant.
\<close>

definition kernel_sample :: kernel where
  "kernel_sample = \<lparr>kn_sched = sched_sample\<lparr>
     procs := (\<lambda>_. zero_process)(
       0x1000 := zero_process\<lparr>p_status := RUNNING, p_next := 0x1020, p_cr3 := 0x1000, p_resources := 0x1060,
         p_anon_allocate_end := 0x800000\<rparr>,
       0x1020 := zero_process\<lparr>p_pid := 5, p_status := DEAD, p_next := 0x3000\<rparr>,
       0x3000 := zero_process\<lparr>p_pid := 6, p_context := 0x9000\<rparr>),
     s_heap := lheap ll_sample, s_cpu := (s_cpu sched_sample)\<lparr>c_cr3 := 0x1000\<rparr>\<rparr>,
     kn_vm = elf_mem [], kn_vfs = vfs_sample\<rparr>"

definition kernel_sample_stack :: kernel where
  "kernel_sample_stack = kernel_sample\<lparr>kn_vm := projr (map_memory_page 0x1000 0x200000 7 (elf_mem []))\<rparr>"

abbreviation sample_procs :: "u64 list" where "sample_procs \<equiv> [0x1000, 0x1020, 0x3000]"

lemma kernel_sample_chain:
  "proc_chain (kn_sched kernel_sample) sample_procs" "current kernel_sample = sample_procs ! 0" "cr3_of kernel_sample = 0x1000"
  by (simp_all add: kernel_sample_def sched_sample_def zero_process_def get_current_process_def read_cr3_def)

lemma kernel_sample_runnable:
  "runnable (kn_sched kernel_sample) (ahead sample_procs 0 1)" "\<not> runnable (kn_sched kernel_sample) (ahead sample_procs 0 0)"
  by (simp_all add: kernel_sample_def ahead_def runnable_def not_runnable_def zero_process_def)

lemma kernel_sample_heap:
  "heap_ok (fst heap_sample) (s_heap (kn_sched kernel_sample))"
  "heap_live (fst heap_sample) (s_heap (kn_sched kernel_sample)) = {(0x1020, 32), (0x1060, 32)}"
  using ll_sample_heap by (auto simp: kernel_sample_def ll_sample_live heap_ok_def)

lemma kernel_sample_stack_space:
  "space_ok elf_kmap 0x1000 {} (kn_vm kernel_sample_stack)" "10 \<le> avail (kn_vm kernel_sample_stack)"
  "i < 8 \<Longrightarrow> user_va (0x200000 + of_nat i) \<and> vbyte elf_kmap 0x1000 (kn_vm kernel_sample_stack) (0x200000 + of_nat i) \<noteq> None"
proof -
  have "space_ok elf_kmap 0x1000 {} (elf_mem [])" using elf_mem_space(1) [of "[]"] by (simp add: in_range_def)
  moreover have "14 \<le> avail (elf_mem [])" using vm_sample_avail by (simp add: elf_mem_def avail_def)
  moreover have u: "user_va 0x200000" by (simp add: user_va_def)
  ultimately obtain st where st: "map_memory_page 0x1000 0x200000 7 (elf_mem []) = Inr st" "space_ok elf_kmap 0x1000 {} st"
    "10 \<le> avail st" "\<forall>x. user_va x \<longrightarrow> drop_bit 12 x = drop_bit 12 0x200000 \<longrightarrow> vbyte elf_kmap 0x1000 st x \<noteq> None"
    using map_page_view [of elf_kmap "0x1000" "{}" "elf_mem []" "0x200000" 7] flags_7 by fastforce
  then have vm: "kn_vm kernel_sample_stack = st" by (simp add: kernel_sample_stack_def)
  show "space_ok elf_kmap 0x1000 {} (kn_vm kernel_sample_stack)" "10 \<le> avail (kn_vm kernel_sample_stack)"
    using st(2,3) vm by simp_all
  assume i: "i < 8"
  then have n: "unat (0x200000 + of_nat i :: u64) = 0x200000 + i" by (subst unat_add_of_nat_u64) simp_all
  then have "drop_bit 12 (0x200000 + of_nat i :: u64) = drop_bit 12 0x200000" using i by (intro same_page) (simp_all add: aligned_def)
  moreover have "user_va (0x200000 + of_nat i)" using n i by (simp add: user_va_def word_less_nat_alt)
  ultimately show "user_va (0x200000 + of_nat i) \<and> vbyte elf_kmap 0x1000 (kn_vm kernel_sample_stack) (0x200000 + of_nat i) \<noteq> None"
    using st(4) vm by blast
qed

definition environment_sample :: environment where
  "environment_sample = \<lparr>env_kmap = elf_kmap, env_al = fst heap_sample, env_context = 0x5000, env_fork_context = 0x6000,
     env_fork_status = \<lparr>st_regs = [], st_rip = 0, st_cs = 8, st_flags = 0, st_rsp = 0, st_ss = 16\<rparr>,
     env_pipe_read = (\<lambda>_ _ _ k. Inr (0, k)), env_pipe_write = (\<lambda>_ _ _ k. Inr (0, k))\<rparr>"

theorem syscall_errors_witness:
  "syscall_handler environment_sample 7 0 0 0 kernel_sample = Inr (Returned (- 1), kernel_sample) \<and>
   syscall_handler environment_sample 0 3 0 0 kernel_sample = Inr (Returned (- 1), kernel_sample) \<and>
   syscall_handler environment_sample 6 9 0x200000 0 kernel_sample = Inr (Returned (- 1), kernel_sample)"
proof -
  note r = syscall_errors [OF kernel_sample_chain(1), of _ environment_sample]
  have "resource_get 3 (kn_sched kernel_sample) = None"
    by (simp add: resource_get_def kernel_sample_def sched_sample_def zero_process_def valid_fd_def cap_of_def get_current_process_def)
  then show ?thesis using r [of 7 0 0 0] r [of 0 3 0 0] r [of 6 9 "0x200000" 0]
    by (simp add: kernel_sample_def zero_process_def)
qed

theorem anon_allocate_correct_witness:
  "\<exists>k'. anon_allocate_syscall elf_kmap 0x1800 0x200000 kernel_sample_stack = Inr (Returned 0, k') \<and>
     p_anon_allocate_end (current_proc k') = 0x802000 \<and> vbyte elf_kmap 0x1000 (kn_vm k') 0x801fff \<noteq> None \<and>
     vbyte elf_kmap 0x1000 (kn_vm k') 0x200002 = Some 0x80"
proof -
  have e: "p_anon_allocate_end (current_proc kernel_sample_stack) = 0x800000" "cr3_of kernel_sample_stack = 0x1000"
    using kernel_sample_chain by (simp_all add: kernel_sample_stack_def, simp_all add: kernel_sample_def)
  obtain k' where k': "anon_allocate_syscall elf_kmap 0x1800 0x200000 kernel_sample_stack = Inr (Returned 0, k')"
    "p_anon_allocate_end (current_proc k') = 0x800000 + of_nat (0x1000 * 2)"
    "\<forall>i<8. vbyte elf_kmap 0x1000 (kn_vm k') (0x200000 + of_nat i) = Some (ucast (drop_bit (8 * i) (0x800000 :: u64)))"
    "\<forall>x. unat (0x800000 :: u64) \<le> unat x \<longrightarrow> unat x < unat (0x800000 :: u64) + 0x1000 * 2 \<longrightarrow> vbyte elf_kmap 0x1000 (kn_vm k') x \<noteq> None"
    using anon_allocate_correct [of elf_kmap kernel_sample_stack "{}" "0x1800" "0x200000"] kernel_sample_stack_space
    by (auto simp: e aligned_def)
  have "vbyte elf_kmap 0x1000 (kn_vm k') 0x200002 = Some 0x80"
    using k'(3) [rule_format, of 2] by (simp add: drop_bit_eq_div)
  then show ?thesis using k'(1,2) k'(4) [rule_format, of "0x801fff"] by auto
qed

theorem waitpid_correct_witness:
  "\<exists>k'. waitpid_syscall (fst heap_sample) 0x5000 5 0x200000 0 kernel_sample = Inr (Returned 5, k') \<and>
     proc_chain (kn_sched k') [0x1000, 0x3000] \<and> heap_live (fst heap_sample) (s_heap (kn_sched k')) = {(0x1060, 32)}"
proof -
  have "p_pid (procs (kn_sched kernel_sample) 0x1020) = 5" "p_pid (procs (kn_sched kernel_sample) 0x1000) \<noteq> 5"
    "p_status (procs (kn_sched kernel_sample) 0x1020) = DEAD"
    by (simp_all add: kernel_sample_def zero_process_def)
  then show ?thesis
    using waitpid_correct [of kernel_sample "[0x1000]" "0x1020" "[0x3000]" 5 "0x200000" 0 1 "fst heap_sample" 32 "0x5000" 0]
      kernel_sample_chain kernel_sample_runnable kernel_sample_heap by (auto simp: scast_small)
qed


end
