(* ===== verification/Fork.thy ===== *)
theory Fork
  imports Syscall
begin

text \<open>
  What \<open>fork_syscall\<close> of \<open>src/src/syscall.c\<close> achieves: the child gets an address space of its own with
  the contents of its parent's, a copy of the descriptors and a place in the process list, and no other
  process sees a change.
\<close>

section \<open>The new top-level table\<close>

lemma mirror_kernel_entries:
  assumes n: "unat n mod 0x1000 = 0" and cr3: "unat cr3 mod 0x1000 = 0" "cr3 \<noteq> n"
    and b: "unat b mod 0x1000 = 0" "j < 512"
  shows "vm_pt (mirror_kernel n cr3 st) (entry_addr b j) =
    (if b = n then if j < 256 then 0 else vm_pt st (entry_addr cr3 j) else vm_pt st (entry_addr b j))"
proof -
  define P where "P k pt \<longleftrightarrow> (\<forall>b j. unat b mod 0x1000 = 0 \<longrightarrow> j < 512 \<longrightarrow> pt (entry_addr b j) =
    (if b = n then if 256 \<le> unat j \<and> unat j < 256 + k then vm_pt st (entry_addr cr3 j) else 0 else vm_pt st (entry_addr b j)))"
    for k :: nat and pt :: "u64 \<Rightarrow> u64"
  have "P 256 (for_loop 256 (\<lambda>i pt. pt(entry_addr n (of_nat (256 + i)) := pt (entry_addr cr3 (of_nat (256 + i)))))
      (zero_table n (vm_pt st)))"
  proof (rule for_loop_invariant [where P = P])
    show "P 0 (zero_table n (vm_pt st))"
      using zero_table_zero zero_table_same [OF n] by (auto simp: P_def)
    fix k pt assume k: "k < 256" and P: "P k pt"
    let ?j = "of_nat (256 + k) :: u64"
    have u: "unat ?j = 256 + k" by (rule unat_of_nat_u64) (use k in simp)
    then have j: "?j < 512" using k by (simp add: word_less_nat_alt)
    have "(pt(entry_addr n ?j := pt (entry_addr cr3 ?j))) (entry_addr b i) =
        (if b = n then if 256 \<le> unat i \<and> unat i < 256 + Suc k then vm_pt st (entry_addr cr3 i) else 0 else vm_pt st (entry_addr b i))"
      if "unat b mod 0x1000 = 0" "i < 512" for b i
    proof (cases "b = n \<and> i = ?j")
      case True
      moreover have "pt (entry_addr cr3 ?j) = vm_pt st (entry_addr cr3 ?j)" using P cr3 j by (simp add: P_def)
      ultimately show ?thesis using u by simp
    next
      case False
      then have "(pt(entry_addr n ?j := pt (entry_addr cr3 ?j))) (entry_addr b i) = pt (entry_addr b i)"
        using entry_addr_eq [OF that(1) n that(2) j] by auto
      moreover have "unat i \<noteq> 256 + k" if "b = n" using False that u by (auto simp: word_unat_eq_iff)
      ultimately show ?thesis using P that by (auto simp: P_def)
    qed
    then show "P (Suc k) (pt(entry_addr n ?j := pt (entry_addr cr3 ?j)))" by (simp add: P_def)
  qed
  moreover have "\<not> 256 \<le> unat j \<longleftrightarrow> j < 256" "unat j < 512" using b(2) by (auto simp: word_less_nat_alt)
  ultimately show ?thesis using b by (auto simp: P_def mirror_kernel_def)
qed

text \<open>
  A new table at a free frame is an empty address space, with the kernel half of the old one; it is
  apart from every other address space.
\<close>

lemma mirror_kernel_space:
  assumes inv: "vm_inv cr3 st" and ba: "ba_inv ba" "ba_managed ba = ba_managed (vm_ba st)" "ba_in_use ba = insert n (ba_in_use (vm_ba st))"
    and n: "n \<in> ba_managed (vm_ba st) - ba_in_use (vm_ba st)"
  defines "st' \<equiv> mirror_kernel n cr3 (st\<lparr>vm_ba := ba\<rparr>)"
  shows "vm_inv n st'" "\<And>ys. upath ys \<Longrightarrow> ys \<noteq> [] \<Longrightarrow> tbl (vm_pt st') n ys = None" "vm_mem st' = vm_mem st" "vm_ba st' = ba"
    "\<And>c. vm_inv c st \<Longrightarrow> vm_inv c st' \<and> apart (vm_pt st') n c \<and> (\<forall>ys. upath ys \<longrightarrow> tbl (vm_pt st') c ys = tbl (vm_pt st) c ys)"
proof -
  have al: "unat n mod 0x1000 = 0" "unat n < 2 ^ 52"
    using inv n bitmap_pages.managed_page [of "vm_ba st" n] by (auto simp: vm_inv_def)
  have not: "b \<noteq> n" "unat b mod 0x1000 = 0" if "vm_inv c st" "upath ys" "tbl (vm_pt st) c ys = Some b" for c ys b
    using that n pt_invD(1,3) [of "vm_pt st" "vm_ba st" c ys b] by (auto simp: vm_inv_def)
  have cr3: "unat cr3 mod 0x1000 = 0" "cr3 \<noteq> n" using not [OF inv, of "[]" cr3] by (auto simp: upath_def)
  note e = mirror_kernel_entries [OF al(1) cr3, where st = "st\<lparr>vm_ba := ba\<rparr>", folded st'_def]
  show m: "vm_mem st' = vm_mem st" "vm_ba st' = ba" by (simp_all add: st'_def mirror_kernel_def)
  have low: "vm_pt st' (entry_addr n i) = 0" if "i < 256" for i
    using e [OF al(1), of i] that less_trans [OF that, of 512] by simp
  have "tbl (vm_pt st') n (i # ys) = None" if "i < 256" for i ys using low [OF that] by simp
  then show none: "tbl (vm_pt st') n ys = None" if "upath ys" "ys \<noteq> []" for ys
    using that by (cases ys) (auto simp: upath_def)
  have root: "a = n \<and> ys = []" if "upath ys" "tbl (vm_pt st') n ys = Some a" for ys a
    using none [OF that(1)] that(2) by (cases "ys = []") auto
  have "pt_inv (vm_pt st') ba n" unfolding pt_inv_def
  proof (intro conjI allI impI)
    fix ys a assume "upath ys" "tbl (vm_pt st') n ys = Some a"
    note r = root [OF this]
    show "unat a mod 0x1000 = 0" "unat a < 2 ^ 52" "a \<notin> ba_managed ba - ba_in_use ba" using r al ba(3) by auto
    show "ys = zs" if "upath zs" "tbl (vm_pt st') n zs = Some a" for zs using r root [OF that] by blast
  next
    fix ys i a assume u: "upath (ys @ [i])" "tbl (vm_pt st') n ys = Some a"
    then have "a = n" "ys = []" using root [OF upath_append] by auto
    then have z: "vm_pt st' (entry_addr a i) = 0" using u(1) low by (simp add: upath_def)
    show "vm_pt st' (entry_addr a i) AND PTE_PS = 0"
      "vm_pt st' (entry_addr a i) AND NOT 0xfff = PTE_ADDR (vm_pt st' (entry_addr a i))" by (simp_all add: z PTE_ADDR_def)
  qed
  then show "vm_inv n st'" using inv ba m by (simp add: vm_inv_def)
  fix c assume c: "vm_inv c st"
  have pi: "pt_inv (vm_pt st) (vm_ba st) c" using c by (simp add: vm_inv_def)
  have same: "same_tree (vm_pt st) c (vm_pt st')" unfolding same_tree_def
  proof (intro allI impI)
    fix js b j assume j: "upath (js @ [j])" "tbl (vm_pt st) c js = Some b"
    note b = not [OF c upath_append [OF j(1)] j(2)]
    show "vm_pt st' (entry_addr b j) = vm_pt st (entry_addr b j)" using e [OF b(2) upath_last [OF j(1)]] b(1) by simp
  qed
  have "pt_inv (vm_pt st') ba c" by (rule same_tree_inv [OF pi same]) (use pt_invD(3) [OF pi] ba(2,3) in blast)
  then have "vm_inv c st'" using c ba m by (simp add: vm_inv_def)
  moreover have "apart (vm_pt st') n c" unfolding apart_def
  proof (intro allI impI)
    fix xs ys a assume u: "upath xs" "upath ys" and a: "tbl (vm_pt st') n xs = Some a"
    then have "a = n" using root by blast
    then show "tbl (vm_pt st') c ys \<noteq> Some a" using not(1) [OF c u(2)] same_tree_tbl [OF same u(2)] by auto
  qed
  ultimately show "vm_inv c st' \<and> apart (vm_pt st') n c \<and> (\<forall>ys. upath ys \<longrightarrow> tbl (vm_pt st') c ys = tbl (vm_pt st) c ys)"
    using same_tree_tbl [OF same] by blast
qed

section \<open>The address space of the child\<close>

text \<open>The address spaces that are apart from \<open>n\<close> in a later state, with the translations they had.\<close>

definition spared :: "u64 \<Rightarrow> vm \<Rightarrow> vm \<Rightarrow> bool" where
  "spared n st st' \<longleftrightarrow> (\<forall>c. vm_inv c st \<longrightarrow> vm_inv c st' \<and> apart (vm_pt st') n c \<and>
     (\<forall>ys. upath ys \<longrightarrow> tbl (vm_pt st') c ys = tbl (vm_pt st) c ys))"

lemma spared_others: "spared n st st' \<Longrightarrow> others n st' st'' \<Longrightarrow> spared n st st''"
  by (simp add: spared_def others_def)

text \<open>The pages that a child gets.\<close>

definition fork_pages :: "process \<Rightarrow> u64 set" where
  "fork_pages proc = region 0x200000 (ucast (p_elf_end proc)) \<union> region 0x800000 (p_anon_allocate_end proc)"

lemma fork_space_effect:
  assumes inv: "vm_inv cr3 st" and anon: "unat (p_anon_allocate_end proc) \<le> 2 ^ 47"
    and i: "unat (p_elf_end proc) \<le> 0x200000 + 0x1000 * i" and j: "unat (p_anon_allocate_end proc) \<le> 0x800000 + 0x1000 * j"
    and av: "4 * (i + j) < avail st"
  shows "\<exists>n st'. fork_space cr3 proc st = Inr (n, st') \<and> vm_inv n st' \<and> spared n st st' \<and> vm_mem st' = vm_mem st \<and>
    frames_managed n st' \<and> ba_managed (vm_ba st') = ba_managed (vm_ba st) \<and>
    (\<forall>va. user_va va \<longrightarrow> aligned va \<longrightarrow> (translate (vm_pt st') n va \<noteq> None \<longleftrightarrow> va \<in> fork_pages proc))"
proof -
  have ok: "ba_inv (vm_ba st)" using inv by (simp add: vm_inv_def)
  have "ba_in_use (vm_ba st) \<subset> ba_managed (vm_ba st)" by (rule avail_subset) (use av in simp)
  then obtain n ba where n: "allocate_page (vm_ba st) = Inr (n, ba)" "ba_inv ba" "ba_managed ba = ba_managed (vm_ba st)"
    "n \<in> ba_managed (vm_ba st) - ba_in_use (vm_ba st)" "ba_in_use ba = insert n (ba_in_use (vm_ba st))"
    using bitmap_pages.get_fresh [OF ok] by blast
  define s1 where "s1 = mirror_kernel n cr3 (st\<lparr>vm_ba := ba\<rparr>)"
  note m = mirror_kernel_space [OF inv n(2,3,5,4), folded s1_def]
  have "ba_managed ba - ba_in_use ba = ba_managed (vm_ba st) - ba_in_use (vm_ba st) - {n}" using n(3,5) by auto
  then have a1: "avail st \<le> Suc (avail s1)"
    using bitmap_pages.managed_finite [OF ok] n(4) by (simp add: avail_def m(4))
  have "unat (p_elf_end proc) < 2 ^ 32" using unsigned_less [of "p_elf_end proc"] by simp
  moreover from this have elf: "unat (ucast (p_elf_end proc) :: u64) = unat (p_elf_end proc)"
    unfolding unsigned_ucast_eq by (simp add: take_bit_nat_eq_self)
  ultimately have e: "unat (ucast (p_elf_end proc) :: u64) \<le> 2 ^ 47" by simp
  have r: "PAGE_ROUND_DOWN 0x200000 = 0x200000" "PAGE_ROUND_DOWN 0x800000 = 0x800000"
    by (rule round_down_aligned, simp add: aligned_def)+
  obtain s2 where s2: "allocate_region n 0x200000 (ucast (p_elf_end proc)) 7 s1 = Inr s2" "vm_inv n s2"
    "\<forall>va \<in> region 0x200000 (ucast (p_elf_end proc)). translate (vm_pt s2) n va \<noteq> None"
    "\<forall>va. user_va va \<longrightarrow> aligned va \<longrightarrow> (va \<notin> region 0x200000 (ucast (p_elf_end proc)) \<or> translate (vm_pt s1) n va \<noteq> None) \<longrightarrow>
       translate (vm_pt s2) n va = translate (vm_pt s1) n va"
    "vm_mem s2 = vm_mem s1" "others n s1 s2" "avail s1 \<le> avail s2 + 4 * i" "fresh_leaves n s1 s2" "ba_managed (vm_ba s2) = ba_managed ba"
    using allocate_region_effect [OF m(1) flags_7 e, of "0x200000" i] i av a1 m(4) by (auto simp: elf r)
  obtain s3 where s3: "allocate_region n 0x800000 (p_anon_allocate_end proc) 7 s2 = Inr s3" "vm_inv n s3"
    "\<forall>va \<in> region 0x800000 (p_anon_allocate_end proc). translate (vm_pt s3) n va \<noteq> None"
    "\<forall>va. user_va va \<longrightarrow> aligned va \<longrightarrow> (va \<notin> region 0x800000 (p_anon_allocate_end proc) \<or> translate (vm_pt s2) n va \<noteq> None) \<longrightarrow>
       translate (vm_pt s3) n va = translate (vm_pt s2) n va"
    "vm_mem s3 = vm_mem s2" "others n s2 s3" "fresh_leaves n s2 s3" "ba_managed (vm_ba s3) = ba_managed ba"
    using allocate_region_effect [OF s2(2) flags_7 anon, of "0x800000" j] j av a1 s2(7,9) by (auto simp: r)
  have "fork_space cr3 proc st = Inr (n, s3)"
    using n(1) s2(1) s3(1) by (simp add: fork_space_def s1_def)
  moreover have "spared n st s3" using m(5) s2(6) s3(6) spared_others by (metis spared_def)
  moreover have none: "translate (vm_pt s1) n va = None" if "user_va va" for va
    unfolding translate_def by (rule m(2) [OF upath_path [OF that]]) (simp add: path_def)
  moreover have "frames_managed n s3"
    using s2(8,9) s3(7,8) none m(4) unfolding fresh_leaves_def frames_managed_def by fastforce
  moreover have "translate (vm_pt s3) n va \<noteq> None \<longleftrightarrow> va \<in> fork_pages proc" if va: "user_va va" "aligned va" for va
  proof -
    have "translate (vm_pt s1) n va = None" using none [OF va(1)] .
    then show ?thesis using s2(3,4) s3(3,4) va unfolding fork_pages_def by (metis Un_iff)
  qed
  ultimately show ?thesis using s3(2,5,8) s2(5) m(3) n(3) by (intro exI [of _ n] exI [of _ s3]) simp
qed

section \<open>Copying the contents\<close>

lemma copied_trans:
  assumes inv: "vm_inv src st" "vm_inv dst st" and sep: "separate (vm_pt st) dst src"
    and 1: "copied dst src P st st1" and 2: "copied dst src Q st1 st2"
  shows "copied dst src (\<lambda>va. P va \<or> Q va) st st2"
proof -
  have t: "vm_pt st1 = vm_pt st" "vm_ba st1 = vm_ba st" "vm_pt st2 = vm_pt st" "vm_ba st2 = vm_ba st"
    using 1 2 by (simp_all add: copied_def)
  have page: "bytes_at (vm_mem st2) g 0x1000 = bytes_at (vm_mem st) (copy_source (vm_pt st) src (\<lambda>va. P va \<or> Q va) va g) 0x1000"
    if va: "user_va va" "aligned va" "translate (vm_pt st) dst va = Some g" for va g
    using copied_page [OF 2 va(1,2), of g] copied_page [OF 1 va] va(3) copied_source(2) [OF inv sep 1 va(1)]
    by (cases "translate (vm_pt st) src va") (auto simp: t copy_source_def)
  have "vm_mem st2 x = vm_mem st x"
    if "\<forall>va g. user_va va \<longrightarrow> translate (vm_pt st) dst va = Some g \<longrightarrow> \<not> in_range x g 0x1000" for x
    using copied_outside [OF 2, of x] copied_outside [OF 1, of x] that t by auto
  then show ?thesis using page t unfolding copied_def by blast
qed

lemma apart_roots: "apart pt n c \<Longrightarrow> n \<noteq> c"
proof -
  have "upath []" by (simp add: upath_def)
  then show "apart pt n c \<Longrightarrow> n \<noteq> c" unfolding apart_def by (metis tbl.simps(1))
qed

text \<open>Memory outside the pages of \<open>dst\<close> is what the other address spaces see.\<close>

lemma copied_others:
  assumes inv: "vm_inv c st" "vm_inv dst st" and ap: "apart (vm_pt st) dst c" and cp: "copied dst src P st st'" and x: "user_va x"
  shows "vbyte kmap c st' x = vbyte kmap c st x"
proof -
  have t: "vm_pt st' = vm_pt st" using cp by (simp add: copied_def)
  have "vm_mem st' (f + of_nat (unat x mod 0x1000)) = vm_mem st (f + of_nat (unat x mod 0x1000))"
    if f: "translate (vm_pt st) c (PAGE_ROUND_DOWN x) = Some f" for f
  proof -
    have "in_range (f + of_nat (unat x mod 0x1000)) f 0x1000" by (rule in_range_offset) simp
    then show ?thesis
      by (intro copied_outside [OF cp] separate_outside [OF inv apart_separate [OF ap] round_down_page(1) [OF x] f])
  qed
  then show ?thesis unfolding vbyte_page [OF x] t by (cases "translate (vm_pt st) c (PAGE_ROUND_DOWN x)") simp_all
qed

lemma copied_byte:
  assumes cp: "copied dst src P st st'" and x: "user_va x" and P: "P (PAGE_ROUND_DOWN x)"
    and m: "translate (vm_pt st) dst (PAGE_ROUND_DOWN x) \<noteq> None" "vbyte kmap src st x \<noteq> None"
  shows "vbyte kmap dst st' x = vbyte kmap src st x"
proof -
  have t: "vm_pt st' = vm_pt st" using cp by (simp add: copied_def)
  obtain g f where g: "translate (vm_pt st) dst (PAGE_ROUND_DOWN x) = Some g" and f: "translate (vm_pt st) src (PAGE_ROUND_DOWN x) = Some f"
    using m vbyte_page [OF x] by fastforce
  have "bytes_at (vm_mem st') g 0x1000 = bytes_at (vm_mem st) f 0x1000"
    using copied_page [OF cp round_down_page(1,2) [OF x] g] P f by (simp add: copy_source_def)
  then have "vm_mem st' (g + of_nat (unat x mod 0x1000)) = vm_mem st (f + of_nat (unat x mod 0x1000))"
    unfolding bytes_at_eq_iff by simp
  then show ?thesis unfolding vbyte_page [OF x] t by (simp add: f g)
qed

text \<open>Both copies of \<open>fork\<close>, whose ranges reach beyond the regions.\<close>

lemma fork_copy_effect:
  assumes inv: "vm_inv cr3 st" "vm_inv n st" and ap: "apart (vm_pt st) n cr3" and anon: "unat (p_anon_allocate_end proc) \<le> 2 ^ 46"
    and only: "\<forall>va. user_va va \<longrightarrow> aligned va \<longrightarrow> translate (vm_pt st) n va \<noteq> None \<longrightarrow> va \<in> fork_pages proc"
  shows "\<exists>i j v st'. copy_pages_between_pagetables n cr3 0x200000 (ucast (p_elf_end proc)) st = Inr (i, v) \<and>
    copy_pages_between_pagetables n cr3 0x800000 (p_anon_allocate_end proc) v = Inr (j, st') \<and> copied n cr3 (\<lambda>_. True) st st'"
proof -
  note sep = apart_separate [OF ap]
  let ?e = "ucast (p_elf_end proc) :: u64" and ?a = "p_anon_allocate_end proc"
  have e: "unat ?e < 2 ^ 32"
    using unat_i32_lt [of "p_elf_end proc"] by (simp add: unsigned_ucast_eq take_bit_nat_eq_self)
  have ends: "unat (0x200000 + ?e) = 0x200000 + unat ?e" "unat (0x800000 + ?a) = 0x800000 + unat ?a"
    using e anon by (simp_all add: unat_add_u64)
  obtain i v where v: "copy_pages_between_pagetables n cr3 0x200000 ?e st = Inr (i, v)"
    "copied n cr3 (\<lambda>va. 0x200000 \<le> va \<and> va < 0x200000 + ?e) st v"
    using copy_pages_effect [OF inv sep, of "0x200000" ?e] ends(1) e by (auto simp: aligned_def)
  have t: "vm_pt v = vm_pt st" "vm_ba v = vm_ba st" using v(2) by (simp_all add: copied_def)
  then have "vm_inv cr3 v" "vm_inv n v" "separate (vm_pt v) n cr3" using inv sep by (simp_all add: vm_inv_def)
  then obtain j st' where st': "copy_pages_between_pagetables n cr3 0x800000 ?a v = Inr (j, st')"
    "copied n cr3 (\<lambda>va. 0x800000 \<le> va \<and> va < 0x800000 + ?a) v st'"
    using copy_pages_effect [of cr3 v n "0x800000" ?a] ends(2) anon by (auto simp: aligned_def)
  have r: "PAGE_ROUND_DOWN 0x200000 = 0x200000" "PAGE_ROUND_DOWN 0x800000 = 0x800000"
    by (rule round_down_aligned, simp add: aligned_def)+
  have le: "va < 0x200000 + ?e" if "va < ?e" for va using that ends(1) by (simp add: word_less_nat_alt)
  have le': "va < 0x800000 + ?a" if "va < ?a" for va using that ends(2) by (simp add: word_less_nat_alt)
  have "copied n cr3 (\<lambda>_. True) st st'"
  proof (rule copied_cong [OF copied_trans [OF inv sep v(2) st'(2)]])
    fix va assume "user_va va" "aligned va" "translate (vm_pt st) n va \<noteq> None"
    then have "va \<in> fork_pages proc" using only by blast
    then show "((0x200000 \<le> va \<and> va < 0x200000 + ?e) \<or> (0x800000 \<le> va \<and> va < 0x800000 + ?a)) = True"
      using le le' by (auto simp: fork_pages_def region_def r)
  qed
  then show ?thesis using v(1) st'(1) by blast
qed

text \<open>The memory after \<open>fork\<close>: that of the child and that of every other process.\<close>

definition forked :: "(u64 \<Rightarrow> u64 option) \<Rightarrow> u64 set \<Rightarrow> u64 \<Rightarrow> process \<Rightarrow> u64 \<Rightarrow> vm \<Rightarrow> vm \<Rightarrow> bool" where
  "forked kmap K cr3 parent n st st' \<longleftrightarrow> space_ok kmap n K st' \<and>
    (\<forall>x. user_va x \<longrightarrow> PAGE_ROUND_DOWN x \<in> fork_pages parent \<longrightarrow> vbyte kmap cr3 st x \<noteq> None \<longrightarrow>
       vbyte kmap n st' x = vbyte kmap cr3 st x) \<and>
    (\<forall>x. user_va x \<longrightarrow> PAGE_ROUND_DOWN x \<notin> fork_pages parent \<longrightarrow> vbyte kmap n st' x = None) \<and>
    (\<forall>c. vm_inv c st \<longrightarrow> vm_inv c st' \<and> apart (vm_pt st') n c \<and>
       (\<forall>ys. upath ys \<longrightarrow> tbl (vm_pt st') c ys = tbl (vm_pt st) c ys) \<and>
       (\<forall>x. user_va x \<longrightarrow> vbyte kmap c st' x = vbyte kmap c st x)) \<and>
    ba_managed (vm_ba st') = ba_managed (vm_ba st)"

lemma fork_memory:
  assumes ok: "space_ok kmap cr3 K st" and anon: "unat (p_anon_allocate_end parent) \<le> 2 ^ 46"
    and i: "unat (p_elf_end parent) \<le> 0x200000 + 0x1000 * i" and j: "unat (p_anon_allocate_end parent) \<le> 0x800000 + 0x1000 * j"
    and av: "4 * (i + j) < avail st"
  shows "\<exists>n v a v1 b v2. fork_space cr3 parent st = Inr (n, v) \<and> n \<noteq> cr3 \<and>
    copy_pages_between_pagetables n cr3 0x200000 (ucast (p_elf_end parent)) v = Inr (a, v1) \<and>
    copy_pages_between_pagetables n cr3 0x800000 (p_anon_allocate_end parent) v1 = Inr (b, v2) \<and> forked kmap K cr3 parent n st v2"
proof -
  have inv: "vm_inv cr3 st" using ok by (simp add: space_ok_def)
  obtain n v where v: "fork_space cr3 parent st = Inr (n, v)" "vm_inv n v" "spared n st v" "vm_mem v = vm_mem st"
    "\<forall>va. user_va va \<longrightarrow> aligned va \<longrightarrow> (translate (vm_pt v) n va \<noteq> None \<longleftrightarrow> va \<in> fork_pages parent)"
    "frames_managed n v" "ba_managed (vm_ba v) = ba_managed (vm_ba st)"
    using fork_space_effect [OF inv _ i j av] anon by fastforce
  have par: "vm_inv cr3 v" "apart (vm_pt v) n cr3" using v(3) inv by (simp_all add: spared_def)
  obtain a b v1 v2 where cp: "copy_pages_between_pagetables n cr3 0x200000 (ucast (p_elf_end parent)) v = Inr (a, v1)"
    "copy_pages_between_pagetables n cr3 0x800000 (p_anon_allocate_end parent) v1 = Inr (b, v2)" "copied n cr3 (\<lambda>_. True) v v2"
    using fork_copy_effect [OF par(1) v(2) par(2) anon] v(5) by blast
  have oth: "vm_inv c v2 \<and> apart (vm_pt v2) n c \<and> (\<forall>ys. upath ys \<longrightarrow> tbl (vm_pt v2) c ys = tbl (vm_pt st) c ys) \<and>
      (\<forall>x. user_va x \<longrightarrow> vbyte kmap c v2 x = vbyte kmap c st x)"
    if c: "vm_inv c st" for c
  proof -
    have sp: "vm_inv c v" "apart (vm_pt v) n c" "\<And>x. user_va x \<Longrightarrow> translate (vm_pt v) c x = translate (vm_pt st) c x"
      using v(3) c upath_path by (simp_all add: spared_def translate_def)
    have "vbyte kmap c v x = vbyte kmap c st x" if "user_va x" for x
      using sp(3) [OF that] v(4) that by (simp add: vbyte_def mmu_def)
    moreover have "\<forall>ys. upath ys \<longrightarrow> tbl (vm_pt v) c ys = tbl (vm_pt st) c ys" using v(3) c by (simp add: spared_def)
    ultimately show ?thesis using copied_others [OF sp(1) v(2) sp(2) cp(3)] sp(1,2) cp(3) by (simp add: copied_def vm_inv_def)
  qed
  have "vbyte kmap n v2 x = vbyte kmap cr3 st x"
    if x: "user_va x" "PAGE_ROUND_DOWN x \<in> fork_pages parent" "vbyte kmap cr3 st x \<noteq> None" for x
  proof -
    have "vbyte kmap cr3 v x = vbyte kmap cr3 st x"
      using oth [OF inv] x(1) copied_others [OF par(1) v(2) par(2) cp(3)] by metis
    then show ?thesis using copied_byte [OF cp(3) x(1)] v(5) x round_down_page(1,2) [OF x(1)] by simp
  qed
  moreover have "vbyte kmap n v2 x = None" if "user_va x" "PAGE_ROUND_DOWN x \<notin> fork_pages parent" for x
    using v(5) that round_down_page(1,2) [OF that(1)] cp(3) by (auto simp: vbyte_page [OF that(1)] copied_def)
  moreover have "space_ok kmap n K v2" using v(2,6,7) cp(3) ok
    by (simp add: copied_def space_ok_def vm_inv_def frames_managed_def kernel_image_def)
  ultimately have "forked kmap K cr3 parent n st v2" using oth v(7) cp(3) by (simp add: forked_def copied_def)
  then show ?thesis using v(1) cp(1,2) apart_roots [OF par(2)] by blast
qed

section \<open>The new process\<close>

lemma fork_process_run:
  assumes a: "alloc al sizeof_process (s_heap s) = Inr (p, h)" "p \<noteq> NULL" "p \<noteq> proc"
    and t: "alloc al (cap_of (procs s proc) * sizeof_resource) (s_heap (snd (get_new_pid (s\<lparr>s_heap := h\<rparr>)))) = Inr (t, h')" "t \<noteq> NULL"
  shows "\<exists>s'. fork_process al n proc s = Inr (p, s') \<and>
    procs s' = (procs s)(p := (procs s proc)\<lparr>p_cr3 := n, p_pid := next_pid s, p_resources := t\<rparr>) \<and>
    process_list s' = process_list s \<and> current_process s' = current_process s \<and>
    (\<forall>i < unat (cap_of (procs s proc)). rtables s' t i = rtables s (p_resources (procs s proc)) i)"
  using assms
  by (simp add: fork_process_def memset_null_def get_new_pid_def resource_table_alloc_def Let_def upd_def)

text \<open>Inserting a process behind the running one, which is the last, and yielding switches to it.\<close>

lemma insert_yield:
  assumes c: "proc_chain s (xs @ [cur])" and cur: "current_process s = cur" "p_status (procs s cur) = RUNNING"
    and p: "p \<noteq> NULL" "p \<notin> set (xs @ [cur])" "p_next (procs s p) = NULL" "p_status (procs s p) = RUNNING"
  shows "\<exists>s1 s2. insert_process p s = Inr s1 \<and> yield ctx s1 = Inr (p_context (procs s p), s2) \<and>
    proc_chain s2 (xs @ [cur, p]) \<and> current_process s2 = p \<and> rtables s2 = rtables s \<and> contexts s2 = contexts s \<and>
    procs s2 = (procs s)(cur := (procs s cur)\<lparr>p_next := p, p_context := ctx, p_status := READY\<rparr>)"
proof -
  let ?s1 = "set_proc cur (\<lambda>q. q\<lparr>p_next := p\<rparr>) s" and ?xs = "xs @ [cur, p]"
  have nn: "process_list s \<noteq> NULL" using chain_hd [OF c] chain_nonnull [OF c, of "hd (xs @ [cur])"] by (cases xs) auto
  have 1: "insert_process p s = Inr ?s1" using list_end [OF c] nn by (simp add: insert_process_def)
  then have c1: "proc_chain ?s1 ?xs" using insert_process_chain [OF c _ p(1-3)] by auto
  have a: "ahead ?xs (length xs) 0 = p" by (simp add: ahead_def nth_append)
  have pc: "p \<noteq> cur" using p(2) by auto
  let ?s2 = "set_proc p (\<lambda>q. q\<lparr>p_status := RUNNING\<rparr>) (saved ctx ?s1)\<lparr>current_process := p\<rparr>"
  have "schedule ctx ?s1 = Inr (p_context (procs (saved ctx ?s1) p), ?s2)"
    using schedule_found [OF c1, of "length xs" 0 ctx] cur p(4) pc unfolding a
    by (simp add: nth_append runnable_def not_runnable_def upd_def)
  then have 2: "yield ctx ?s1 = Inr (p_context (procs s p), ?s2)" using pc cur by (simp add: yield_def saved_def upd_def)
  have procs2: "procs ?s2 = (procs s)(cur := (procs s cur)\<lparr>p_next := p, p_context := ctx, p_status := READY\<rparr>)"
    using cur p(4) pc by (auto simp: fun_eq_iff saved_def upd_def not_runnable_def)
  have "p_next (procs ?s2 q) = p_next (procs ?s1 q)" for q unfolding procs2 by (simp add: upd_def)
  then have "proc_chain ?s2 ?xs" using c1 by (simp add: saved_def)
  then show ?thesis using 1 2 procs2 by (intro exI [of _ ?s1] exI [of _ ?s2]) (simp add: saved_def)
qed

lemma fork_syscall_run:
  fixes k :: kernel
  assumes "fork_space (p_cr3 (current_proc k)) (current_proc k) (kn_vm k) = Inr (n, v)" "n \<noteq> p_cr3 (current_proc k)"
    and "fork_process al n (current k) (kn_sched k) = Inr (p, s1)" "procs s1 (current k) = current_proc k" "current_process s1 = current k"
    and "copy_pages_between_pagetables n (p_cr3 (current_proc k)) 0x200000 (ucast (p_elf_end (current_proc k))) v = Inr (a, v1)"
      "copy_pages_between_pagetables n (p_cr3 (current_proc k)) 0x800000 (p_anon_allocate_end (current_proc k)) v1 = Inr (b, v2)"
    and "insert_process p (set_proc p (\<lambda>q. q\<lparr>p_context := context\<rparr>) (s1\<lparr>contexts := (contexts s1)(context := ctx)\<rparr>)) = Inr s3"
      "yield yield_context s3 = Inr (next, s4)"
  shows "fork_syscall al context ctx yield_context k =
    Inr (Resumed next (scast (p_pid (procs s4 p))), k\<lparr>kn_sched := s4, kn_vm := v2\<rparr>)"
  using assms by (simp add: fork_syscall_def Let_def get_current_process_def)

section \<open>Property\<close>

text \<open>
  (C8) \<open>fork\<close> called by the last process of the list, with enough free pages and room on the heap: the
  child is appended to the list and runs next, in the saved context, with a new pid and the descriptors of
  its parent; the parent will return the pid.  The child has an address space of its own, in which the
  program, the stack and the anonymous memory are mapped and hold the bytes they hold in the parent, and
  nothing else is mapped.  The memory of the parent, and of every process with well-formed tables, is
  unchanged and shares no frame with that of the child.
\<close>

theorem fork_correct:
  fixes k :: kernel
  defines "s \<equiv> kn_sched k" and "parent \<equiv> current_proc k" and "cr3 \<equiv> p_cr3 (current_proc k)"
  assumes list: "proc_chain s (xs @ [current k])" and run: "p_status parent = RUNNING"
    and ok: "space_ok kmap cr3 K (kn_vm k)" and anon: "unat (p_anon_allocate_end parent) \<le> 2 ^ 46"
    and i: "unat (p_elf_end parent) \<le> 0x200000 + 0x1000 * i" and j: "unat (p_anon_allocate_end parent) \<le> 0x800000 + 0x1000 * j"
    and av: "4 * (i + j) < avail (kn_vm k)"
    and heap: "heap_ok al (s_heap s)" "\<forall>q \<in> set (xs @ [current k]). \<exists>l. (q, l) \<in> heap_live al (s_heap s)"
    and p: "alloc al sizeof_process (s_heap s) = Inr (p, h)" "p \<noteq> NULL"
    and t: "alloc al (cap_of parent * sizeof_resource) (s_heap (snd (get_new_pid (s\<lparr>s_heap := h\<rparr>)))) = Inr (t, h')" "t \<noteq> NULL"
  shows "\<exists>k' n. fork_syscall al context ctx yield_context k = Inr (Resumed context (scast (next_pid s)), k') \<and>
    proc_chain (kn_sched k') (xs @ [current k, p]) \<and> current k' = p \<and> contexts (kn_sched k') context = ctx \<and>
    p_cr3 (current_proc k') = n \<and> p_pid (current_proc k') = next_pid s \<and> p_status (current_proc k') = RUNNING \<and>
    procs (kn_sched k') (current k) = parent\<lparr>p_next := p, p_context := yield_context, p_status := READY\<rparr> \<and>
    (\<forall>i < unat (cap_of parent). rtables (kn_sched k') (p_resources (current_proc k')) i = rtables s (p_resources parent) i) \<and>
    space_ok kmap n K (kn_vm k') \<and>
    (\<forall>x. user_va x \<longrightarrow> PAGE_ROUND_DOWN x \<in> fork_pages parent \<longrightarrow> vbyte kmap cr3 (kn_vm k) x \<noteq> None \<longrightarrow>
       vbyte kmap n (kn_vm k') x = vbyte kmap cr3 (kn_vm k) x) \<and>
    (\<forall>x. user_va x \<longrightarrow> PAGE_ROUND_DOWN x \<notin> fork_pages parent \<longrightarrow> vbyte kmap n (kn_vm k') x = None) \<and>
    (\<forall>c. vm_inv c (kn_vm k) \<longrightarrow> vm_inv c (kn_vm k') \<and> apart (vm_pt (kn_vm k')) n c \<and>
       (\<forall>x. user_va x \<longrightarrow> vbyte kmap c (kn_vm k') x = vbyte kmap c (kn_vm k) x))"
proof -
  let ?cur = "current k"
  have cur: "current_process s = ?cur" "procs s ?cur = parent" by (simp_all add: s_def parent_def get_current_process_def)
  have pm: "p \<notin> set (xs @ [?cur])"
    using kernel_heap.alloc_fresh_pointer [OF heap(1) _ p] heap(2) by (auto simp del: set_append)
  then have pc: "p \<noteq> ?cur" by auto
  obtain n v a v1 b v2 where v: "fork_space cr3 parent (kn_vm k) = Inr (n, v)" "n \<noteq> cr3"
    "copy_pages_between_pagetables n cr3 0x200000 (ucast (p_elf_end parent)) v = Inr (a, v1)"
    "copy_pages_between_pagetables n cr3 0x800000 (p_anon_allocate_end parent) v1 = Inr (b, v2)"
    and m: "forked kmap K cr3 parent n (kn_vm k) v2"
    using fork_memory [OF ok anon i j av] by blast
  obtain s1 where s1: "fork_process al n ?cur s = Inr (p, s1)"
    "procs s1 = (procs s)(p := parent\<lparr>p_cr3 := n, p_pid := next_pid s, p_resources := t\<rparr>)"
    "process_list s1 = process_list s" "current_process s1 = ?cur"
    "\<forall>i < unat (cap_of parent). rtables s1 t i = rtables s (p_resources parent) i"
    using fork_process_run [OF p pc, of t h' n] t cur by auto
  define s2 where "s2 = set_proc p (\<lambda>q. q\<lparr>p_context := context\<rparr>) (s1\<lparr>contexts := (contexts s1)(context := ctx)\<rparr>)"
  have nx: "p_next parent = NULL" using chain_last_next [OF list] cur by simp
  have "proc_chain s2 (xs @ [?cur])"
    using list pm by (auto simp: s2_def s1(2,3) upd_def intro!: chain_transfer [OF list])
  then obtain s3 s4 where s4: "insert_process p s2 = Inr s3" "yield yield_context s3 = Inr (p_context (procs s2 p), s4)"
    "proc_chain s4 (xs @ [?cur, p])" "current_process s4 = p" "rtables s4 = rtables s2" "contexts s4 = contexts s2"
    "procs s4 = (procs s2)(?cur := (procs s2 ?cur)\<lparr>p_next := p, p_context := yield_context, p_status := READY\<rparr>)"
    using insert_yield [of s2 xs ?cur p yield_context] p(2) pm pc nx run cur s1(2,4) by (auto simp: s2_def upd_def)
  let ?k = "k\<lparr>kn_sched := s4, kn_vm := v2\<rparr>"
  have "fork_syscall al context ctx yield_context k = Inr (Resumed context (scast (next_pid s)), ?k)"
    using fork_syscall_run [of k n v al p s1 a v1 b v2 "context" ctx s3 yield_context] v s1(1,2,4) s4(1,2,7) pc cur
    unfolding s_def parent_def cr3_def by (simp add: s2_def upd_def)
  moreover have "get_current_process s4 = p" "contexts s4 context = ctx" "rtables s4 = rtables s1"
    using s4(4-6) by (simp_all add: s2_def get_current_process_def)
  moreover have "procs s4 p = parent\<lparr>p_cr3 := n, p_pid := next_pid s, p_resources := t, p_context := context\<rparr>"
    "procs s4 ?cur = parent\<lparr>p_next := p, p_context := yield_context, p_status := READY\<rparr>"
    using pc cur(2) by (simp_all add: s4(7) s2_def upd_def s1(2))
  ultimately show ?thesis
    using s4(3) s1(5) run m by (intro exI [of _ ?k] exI [of _ n]) (simp add: forked_def)
qed

section \<open>Witness\<close>

text \<open>A single process with one page of stack and a table of two descriptors.\<close>

definition fork_sample :: kernel where
  "fork_sample = kernel_sample_stack\<lparr>kn_sched := (kn_sched kernel_sample)\<lparr>
     procs := (\<lambda>_. zero_process)(0x1020 := zero_process\<lparr>p_status := RUNNING, p_cr3 := 0x1000, p_resources := 0x1060,
       p_resources_cap := 2, p_anon_allocate_end := 0x800000, p_elf_end := 0x201000\<rparr>),
     process_list := 0x1020, current_process := 0x1020, next_pid := 7\<rparr>\<rparr>"

lemma fork_sample_alloc:
  "\<exists>h. alloc (fst heap_sample) sizeof_process (lheap ll_sample) = Inr (0x10a0, h) \<and>
     (\<forall>l. \<exists>h'. alloc (fst heap_sample) 32 (h\<lparr>klog := l\<rparr>) = Inr (0x1118, h'))"
proof -
  have ff: "first_fit (rounded 88) (blocks (nodes (lheap ll_sample)) [0x1000, 0x1040, 0x1080]) =
      (0x10a0, [(0x1000, 32, USED), (0x1040, 32, USED), (0x1080, 88, USED), (0x10f8, 0xe8, FREE)])"
    by (simp add: ll_sample_def block_of_def rounded_def)
  obtain h xs where h: "alloc (fst heap_sample) 88 (lheap ll_sample) = Inr (0x10a0, h)" "heap_inv (fst heap_sample) (nodes h) xs"
    "blocks (nodes h) xs = [(0x1000, 32, USED), (0x1040, 32, USED), (0x1080, 88, USED), (0x10f8, 0xe8, FREE)]"
    using alloc_first_fit [OF ll_sample_heap, of 88, unfolded ff] by auto
  have ff': "first_fit (rounded 32) (blocks (nodes h) xs) = (0x1118, [(0x1000, 32, USED), (0x1040, 32, USED),
      (0x1080, 88, USED), (0x10f8, 32, USED), (0x1138, 0xa8, FREE)])" by (simp add: h(3) rounded_def)
  have "\<exists>h'. alloc (fst heap_sample) 32 (h\<lparr>klog := l\<rparr>) = Inr (0x1118, h')" for l
    using alloc_first_fit [of "fst heap_sample" "h\<lparr>klog := l\<rparr>" xs 32] h(2) ff' by auto
  then show ?thesis using h(1) by blast
qed

theorem fork_correct_witness:
  "\<exists>k' n. fork_syscall (fst heap_sample) 0x6000 undefined 0x5000 fork_sample = Inr (Resumed 0x6000 7, k') \<and>
     proc_chain (kn_sched k') [0x1020, 0x10a0] \<and> p_cr3 (current_proc k') = n \<and> apart (vm_pt (kn_vm k')) n 0x1000 \<and>
     vbyte elf_kmap n (kn_vm k') 0x200000 = vbyte elf_kmap 0x1000 (kn_vm k') 0x200000 \<and>
     vbyte elf_kmap n (kn_vm k') 0x200000 \<noteq> None"
proof -
  let ?k = fork_sample and ?al = "fst heap_sample"
  let ?s = "kn_sched ?k"
  have f: "current ?k = 0x1020" "p_cr3 (current_proc ?k) = 0x1000" "s_heap ?s = lheap ll_sample" "next_pid ?s = 7"
    "p_status (current_proc ?k) = RUNNING" "p_anon_allocate_end (current_proc ?k) = 0x800000"
    "p_elf_end (current_proc ?k) = 0x201000" "cap_of (current_proc ?k) * sizeof_resource = 32" "kn_vm ?k = kn_vm kernel_sample_stack"
    by (simp_all add: fork_sample_def kernel_sample_def get_current_process_def cap_of_def)
  have c: "proc_chain ?s ([] @ [current ?k])" by (simp add: fork_sample_def zero_process_def get_current_process_def)
  have sp: "space_ok elf_kmap 0x1000 {} (kn_vm ?k)" "4 * (1 + 0) < avail (kn_vm ?k)"
    using kernel_sample_stack_space(1,2) by (simp_all add: f(9))
  have b: "vbyte elf_kmap 0x1000 (kn_vm ?k) 0x200000 \<noteq> None" using kernel_sample_stack_space(3) [of 0] by (simp add: f(9))
  obtain h where h: "alloc ?al sizeof_process (s_heap ?s) = Inr (0x10a0, h)"
    "\<And>l. \<exists>h'. alloc ?al 32 (h\<lparr>klog := l\<rparr>) = Inr (0x1118, h')" using fork_sample_alloc f(3) by metis
  obtain h' where h': "alloc ?al 32 (s_heap (snd (get_new_pid (?s\<lparr>s_heap := h\<rparr>)))) = Inr (0x1118, h')"
    using h(2) by (fastforce simp: get_new_pid_def Let_def)
  have page: "PAGE_ROUND_DOWN 0x200000 \<in> fork_pages (current_proc ?k)" "user_va 0x200000"
    using f(6,7) by (simp_all add: fork_pages_def region_def PAGE_ROUND_DOWN_def aligned_def user_va_def)
  have heap: "heap_ok ?al (s_heap ?s)" "\<forall>q \<in> set ([] @ [current ?k]). \<exists>l. (q, l) \<in> heap_live ?al (s_heap ?s)"
    using ll_sample_heap by (auto simp: f heap_ok_def ll_sample_live)
  have pr: "space_ok elf_kmap (p_cr3 (current_proc ?k)) {} (kn_vm ?k)" "unat (p_anon_allocate_end (current_proc ?k)) \<le> 2 ^ 46"
    "unat (p_elf_end (current_proc ?k)) \<le> 0x200000 + 0x1000 * 1" "unat (p_anon_allocate_end (current_proc ?k)) \<le> 0x800000 + 0x1000 * 0"
    "alloc ?al (cap_of (current_proc ?k) * sizeof_resource) (s_heap (snd (get_new_pid (?s\<lparr>s_heap := h\<rparr>)))) = Inr (0x1118, h')"
    using sp(1) h' unfolding f(2,6,7,8) by simp_all
  have nn: "0x10a0 \<noteq> NULL" "0x1118 \<noteq> NULL" by simp_all
  obtain k' n where k': "fork_syscall ?al 0x6000 undefined 0x5000 ?k = Inr (Resumed 0x6000 (scast (next_pid ?s)), k')"
    "proc_chain (kn_sched k') ([] @ [current ?k, 0x10a0])" "p_cr3 (current_proc k') = n"
    "\<forall>x. user_va x \<longrightarrow> PAGE_ROUND_DOWN x \<in> fork_pages (current_proc ?k) \<longrightarrow> vbyte elf_kmap 0x1000 (kn_vm ?k) x \<noteq> None \<longrightarrow>
       vbyte elf_kmap n (kn_vm k') x = vbyte elf_kmap 0x1000 (kn_vm ?k) x"
    "\<forall>c. vm_inv c (kn_vm ?k) \<longrightarrow> vm_inv c (kn_vm k') \<and> apart (vm_pt (kn_vm k')) n c \<and>
       (\<forall>x. user_va x \<longrightarrow> vbyte elf_kmap c (kn_vm k') x = vbyte elf_kmap c (kn_vm ?k) x)"
    using fork_correct [OF c f(5) pr(1-4) sp(2) heap h(1) nn(1) pr(5) nn(2), of "0x6000" undefined "0x5000"]
    unfolding f(2) by blast
  have "scast (7 :: i32) = (7 :: u64)" by simp
  then show ?thesis using k'(1-3) k'(4) [rule_format, OF page(2,1) b] k'(5) sp(1) page(2) b
    by (intro exI [of _ k'] exI [of _ n]) (auto simp: f space_ok_def)
qed

end
