(* ===== verification/Execve.thy ===== *)
theory Execve
  imports Fork
begin

text \<open>
  What \<open>execve_syscall\<close> of \<open>src/src/syscall.c\<close> achieves, through the file system, the page tables and
  the program loader: the program of the named file replaces that of the caller.
\<close>

section \<open>Memory as the file system sees it\<close>

definition seen :: "(u64 \<Rightarrow> u64 option) \<Rightarrow> u64 \<Rightarrow> vm \<Rightarrow> mem" where
  "seen kmap cr3 st va = (case vbyte kmap cr3 st va of Some b \<Rightarrow> b | None \<Rightarrow> 0)"

lemma vfs_state_fields [simp]:
  "vmem (vfs_state kmap k) = seen kmap (cr3_of k) (kn_vm k)" "vheap (vfs_state kmap k) = s_heap (kn_sched k)"
  "fs_files (vs_fs (vfs_state kmap k)) = fs_files (vs_fs (kn_vfs k))" "vs_mps (vfs_state kmap k) = vs_mps (kn_vfs k)"
  by (simp_all add: vfs_state_def seen_def fun_eq_iff)

lemma vfs_state_same:
  "kn_vfs k' = (vfs_state kmap k)\<lparr>vs_fs := s\<rparr> \<Longrightarrow> vfs_state kmap k' = (vfs_state kmap k)\<lparr>vs_fs := vs_fs (vfs_state kmap k')\<rparr>"
  "kn_vfs k' = kn_vfs k \<Longrightarrow> vfs_state kmap k' = (vfs_state kmap k)\<lparr>vs_fs := vs_fs (vfs_state kmap k')\<rparr>"
  by (simp_all add: vfs_state_def)

lemma seen_same: "vbyte kmap cr3 st' x = vbyte kmap cr3 st x \<Longrightarrow> seen kmap cr3 st' x = seen kmap cr3 st x"
  by (simp add: seen_def)

text \<open>The walk over a string that is mapped.\<close>

lemma vstrlen_cstring:
  assumes "cstring (seen kmap cr3 st) s nm" "\<forall>i \<le> length nm. vbyte kmap cr3 st (s + of_nat i) \<noteq> None"
  shows "vstrlen kmap cr3 st s = Inr (of_nat (length nm))"
proof -
  have rd: "vread kmap cr3 st p = Inr (seen kmap cr3 st p)" if "vbyte kmap cr3 st p \<noteq> None" for p
    using that process_store.read_view [of kmap cr3 st p] by (auto simp: seen_def)
  have "while_option (\<lambda>p. case vread kmap cr3 st p of Inl _ \<Rightarrow> False | Inr b \<Rightarrow> b \<noteq> 0) (\<lambda>p. p + 1) p = Some (p + of_nat (length cs))"
    if "cstring (seen kmap cr3 st) p cs" "\<forall>i \<le> length cs. vbyte kmap cr3 st (p + of_nat i) \<noteq> None" for p cs
    using that
  proof (induction cs arbitrary: p)
    case Nil
    then show ?case using rd [of p] by (subst while_option_unfold) simp
  next
    case (Cons c cs)
    have "\<forall>i \<le> length cs. vbyte kmap cr3 st (p + 1 + of_nat i) \<noteq> None"
      using Cons.prems(2) by (metis Suc_le_mono length_Cons of_nat_Suc add.assoc)
    then have "while_option (\<lambda>p. case vread kmap cr3 st p of Inl _ \<Rightarrow> False | Inr b \<Rightarrow> b \<noteq> 0) (\<lambda>p. p + 1) (p + 1) =
        Some (p + 1 + of_nat (length cs))" using Cons by simp
    then show ?case using Cons.prems rd [of p] by (subst while_option_unfold) (auto simp: algebra_simps)
  qed
  from this [OF assms] show ?thesis using rd [of "s + of_nat (length nm)"] assms(2) by (simp add: vstrlen_def)
qed

text \<open>Storing what the file system has written.\<close>

lemma vfs_store_effect:
  assumes ok: "space_ok kmap (cr3_of k) K (kn_vm k)" and n: "n \<le> 2 ^ 64"
    and a: "\<And>i. i < n \<Longrightarrow> a + of_nat i \<in> {x. user_va x} \<union> K \<and> vbyte kmap (cr3_of k) (kn_vm k) (a + of_nat i) \<noteq> None"
  shows "\<exists>vm. vfs_store kmap a n v k = Inr (k\<lparr>kn_vm := vm, kn_vfs := v, kn_sched := (kn_sched k)\<lparr>s_heap := vheap v\<rparr>\<rparr>) \<and>
    space_ok kmap (cr3_of k) K vm \<and> written kmap (cr3_of k) (kn_vm k) vm \<and>
    (\<forall>i<n. vbyte kmap (cr3_of k) vm (a + of_nat i) = Some (vmem v (a + of_nat i))) \<and>
    (\<forall>x \<in> {x. user_va x} \<union> K. \<not> in_range x a n \<longrightarrow> vbyte kmap (cr3_of k) vm x = vbyte kmap (cr3_of k) (kn_vm k) x)"
  using process_store.write_loop [OF ok n a, where g = "\<lambda>i. vmem v (a + of_nat i)"
      and body = "\<lambda>i. vwrite kmap (cr3_of k) (a + of_nat i) (vmem v (a + of_nat i))"]
  by (auto simp: vfs_store_def)

section \<open>An open file of the archive\<close>

text \<open>
  The file \<open>nm\<close> with contents \<open>data\<close> is open at its start.  All that the file system needs to read it lies in
  kernel memory.
\<close>

definition exec_file ::
    "(u64 \<Rightarrow> u64 option) \<Rightarrow> u64 set \<Rightarrow> fs_operations_t \<Rightarrow> u64 \<Rightarrow> u64 \<Rightarrow> (u8 list \<times> u8 list) list \<Rightarrow> u8 list \<Rightarrow> u64 \<Rightarrow> u64 \<Rightarrow>
     u8 list \<Rightarrow> kernel \<Rightarrow> bool" where
  "exec_file kmap K ops mp archive es nm fpath fp data k \<longleftrightarrow>
     root_mounted ops mp (vfs_state kmap k) \<and> tar_at (seen kmap (cr3_of k) (kn_vm k)) archive es \<and>
     (\<exists>e. find (\<lambda>e. fst e = nm) es = Some e \<and> snd e = data) \<and> cstring (seen kmap (cr3_of k) (kn_vm k)) fpath nm \<and>
     nm \<noteq> [] \<and> hd nm = 0x2f \<and> length nm + 1 < 2 ^ 64 \<and> fpath \<noteq> NULL \<and>
     fl_path (fs_files (vs_fs (kn_vfs k)) fp) = fpath \<and> fl_offset (fs_files (vs_fs (kn_vfs k)) fp) = 0 \<and>
     filesz_of fp k = of_nat (length data) \<and>
     (\<forall>x. in_range x archive (tar_size es) \<or> in_range x fpath (length nm + 1) \<or>
        in_range x (mp_path (vs_mps (kn_vfs k) mp)) 2 \<longrightarrow> x \<in> K)"

lemma exec_file_frame:
  assumes f: "exec_file kmap K ops mp archive es nm fpath fp data k" and v: "kn_vfs k' = kn_vfs k"
    and same: "\<And>x. x \<in> K \<Longrightarrow> vbyte kmap (cr3_of k') (kn_vm k') x = vbyte kmap (cr3_of k) (kn_vm k) x"
  shows "exec_file kmap K ops mp archive es nm fpath fp data k'"
proof -
  note F = f [unfolded exec_file_def]
  have s: "seen kmap (cr3_of k') (kn_vm k') x = seen kmap (cr3_of k) (kn_vm k) x" if "x \<in> K" for x
    using same [OF that] by (simp add: seen_def)
  have "root_mounted ops mp ((vfs_state kmap k)\<lparr>vs_fs := vs_fs (vfs_state kmap k')\<rparr>)"
    by (rule root_mounted_frame) (use F s in auto)
  then have "root_mounted ops mp (vfs_state kmap k')" using vfs_state_same(2) [OF v] by simp
  moreover have "tar_at (seen kmap (cr3_of k') (kn_vm k')) archive es"
    by (rule tar_at_frame) (use F s in auto)
  moreover have "cstring (seen kmap (cr3_of k') (kn_vm k')) fpath nm"
    by (rule cstring_frame) (use F s in_range_offset [of _ "length nm + 1" fpath] in auto)
  ultimately show ?thesis using F v by (simp add: exec_file_def)
qed

lemma exec_file_vfs:
  assumes "exec_file kmap K ops mp archive es nm fpath fp data k" "\<And>x. in_range x buf N \<Longrightarrow> x \<notin> K"
  shows "vfs_file ops mp archive es nm fpath fp buf N data 0 (vfs_state kmap k)"
  using assms unfolding exec_file_def vfs_file_def initramfs_file_def by auto

lemma exec_file_size: "exec_file kmap K ops mp archive es nm fpath fp data k \<Longrightarrow> length data < 2 ^ 31"
  using initramfs_lookup_found [of "seen kmap (cr3_of k) (kn_vm k)" archive es fpath nm 0] by (auto simp: exec_file_def)

text \<open>Opening: the copy of the path is stored in kernel memory.\<close>

lemma open_file_effect:
  assumes ok: "space_ok kmap (cr3_of k) K (kn_vm k)"
    and r: "root_mounted (initramfs_operations al archive g ret) mp (vfs_state kmap k)"
    and t: "tar_at (seen kmap (cr3_of k) (kn_vm k)) archive es" and e: "find (\<lambda>e. fst e = nm) es = Some e" "snd e \<noteq> []"
    and path: "cstring (seen kmap (cr3_of k) (kn_vm k)) pathname nm" "length nm + 1 < 2 ^ 64" "pathname \<noteq> NULL" "nm \<noteq> []" "hd nm = 0x2f"
    and lo: "unat archive + tar_size es < 2 ^ 64" "archive \<noteq> NULL"
    and al: "alloc al 24 (s_heap (kn_sched k)) = Inr (fp, h1)" "fp \<noteq> NULL"
      "alloc al (of_nat (length nm) + 1) h1 = Inr (fpath, h2)" "fpath \<noteq> NULL"
    and src: "\<forall>i \<le> length nm. vbyte kmap (cr3_of k) (kn_vm k) (pathname + of_nat i) \<noteq> None \<and> \<not> in_range (pathname + of_nat i) fpath (length nm + 1)"
    and K: "\<forall>x. in_range x archive (tar_size es) \<or> in_range x (mp_path (vs_mps (kn_vfs k) mp)) 2 \<longrightarrow> x \<in> K \<and> \<not> in_range x fpath (length nm + 1)"
      "\<forall>x. in_range x fpath (length nm + 1) \<longrightarrow> x \<in> K"
  shows "\<exists>k'. open_file kmap pathname flags k = Inr (fp, k') \<and> kn_sched k' = (kn_sched k)\<lparr>s_heap := h2\<rparr> \<and>
    space_ok kmap (cr3_of k) K (kn_vm k') \<and> written kmap (cr3_of k) (kn_vm k) (kn_vm k') \<and>
    (\<forall>x \<in> {x. user_va x} \<union> K. \<not> in_range x fpath (length nm + 1) \<longrightarrow>
       vbyte kmap (cr3_of k) (kn_vm k') x = vbyte kmap (cr3_of k) (kn_vm k) x) \<and>
    exec_file kmap K (initramfs_operations al archive g ret) mp archive es nm fpath fp (snd e) k'"
proof -
  let ?v = "vfs_state kmap k" and ?n = "length nm + 1"
  obtain s1 where s1: "vfs_open pathname flags ?v = Inr (fp, ?v\<lparr>vs_fs := s1\<rparr>)" "cstring (fs_mem s1) fpath nm"
    "\<forall>x. \<not> in_range x fpath ?n \<longrightarrow> fs_mem s1 x = seen kmap (cr3_of k) (kn_vm k) x" "fs_heap s1 = h2"
    "fl_path (fs_files s1 fp) = fpath" "fl_offset (fs_files s1 fp) = 0" "fl_filesz (fs_files s1 fp) = of_nat (length (snd e))"
    using vfs_open_found [of al archive g ret mp ?v es nm e pathname fp h1 fpath h2 flags] r t e path lo al src by auto
  have "fpath + of_nat i \<in> K" if "i < ?n" for i using K(2) in_range_offset [OF that] by blast
  moreover have "vbyte kmap (cr3_of k) (kn_vm k) x \<noteq> None" if "x \<in> K" for x
    using ok that by (auto simp: space_ok_def kernel_image_def vbyte_def mmu_def)
  ultimately obtain vm where vm: "vfs_store kmap fpath ?n (?v\<lparr>vs_fs := s1\<rparr>) k =
      Inr (k\<lparr>kn_vm := vm, kn_vfs := ?v\<lparr>vs_fs := s1\<rparr>, kn_sched := (kn_sched k)\<lparr>s_heap := h2\<rparr>\<rparr>)" "space_ok kmap (cr3_of k) K vm"
    "written kmap (cr3_of k) (kn_vm k) vm" "\<forall>i<?n. vbyte kmap (cr3_of k) vm (fpath + of_nat i) = Some (fs_mem s1 (fpath + of_nat i))"
    "\<forall>x \<in> {x. user_va x} \<union> K. \<not> in_range x fpath ?n \<longrightarrow> vbyte kmap (cr3_of k) vm x = vbyte kmap (cr3_of k) (kn_vm k) x"
    using vfs_store_effect [OF ok, of ?n fpath "?v\<lparr>vs_fs := s1\<rparr>"] path(2) s1(4) by auto
  let ?k = "k\<lparr>kn_vm := vm, kn_vfs := ?v\<lparr>vs_fs := s1\<rparr>, kn_sched := (kn_sched k)\<lparr>s_heap := h2\<rparr>\<rparr>"
  have sz: "unat (of_nat (length nm) :: u64) = length nm" by (rule unat_of_nat_u64) (use path(2) in simp)
  have run: "open_file kmap pathname flags k = Inr (fp, ?k)"
    using path(3) vstrlen_cstring [OF path(1)] src s1(1,5) vm(1) al(2) sz by (simp add: open_file_def)
  have in_K: "seen kmap (cr3_of k) vm x = seen kmap (cr3_of k) (kn_vm k) x" if "x \<in> K" "\<not> in_range x fpath ?n" for x
    using vm(5) that by (simp add: seen_def)
  have "tar_at (seen kmap (cr3_of k) vm) archive es" by (rule tar_at_frame [OF t]) (use K(1) in_K in blast)
  moreover have "cstring (seen kmap (cr3_of k) vm) fpath nm"
    by (rule cstring_frame [OF s1(2)]) (use vm(4) in \<open>simp add: seen_def\<close>)
  moreover have "root_mounted (initramfs_operations al archive g ret) mp (vfs_state kmap ?k)"
  proof -
    have "root_mounted (initramfs_operations al archive g ret) mp (?v\<lparr>vs_fs := vs_fs (vfs_state kmap ?k)\<rparr>)"
      by (rule root_mounted_frame [OF r]) (use K(1) in_K in auto)
    then show ?thesis using vfs_state_same(1) [where k' = ?k and k = k and kmap = kmap and s = s1] by simp
  qed
  ultimately have "exec_file kmap K (initramfs_operations al archive g ret) mp archive es nm fpath fp (snd e) ?k"
    using e(1) path al(4) s1(5-7) K by (auto simp: exec_file_def)
  then show ?thesis using run vm(2,3,5) by auto
qed

text \<open>Reading the whole file into mapped user memory.\<close>

lemma read_file_effect:
  assumes ok: "space_ok kmap (cr3_of k) K (kn_vm k)"
    and f: "exec_file kmap K (initramfs_operations al archive g ret) mp archive es nm fpath fp data k"
    and buf: "\<forall>i < length data. user_va (buf + of_nat i) \<and> vbyte kmap (cr3_of k) (kn_vm k) (buf + of_nat i) \<noteq> None"
  shows "\<exists>k'. read_file kmap fp buf (of_nat (length data)) k = Inr (of_nat (length data), k') \<and> kn_sched k' = kn_sched k \<and>
    filesz_of fp k' = of_nat (length data) \<and> space_ok kmap (cr3_of k) K (kn_vm k') \<and> written kmap (cr3_of k) (kn_vm k) (kn_vm k') \<and>
    image_at kmap (cr3_of k) K buf data (kn_vm k') \<and>
    (\<forall>x \<in> {x. user_va x} \<union> K. \<not> in_range x buf (length data) \<longrightarrow>
       vbyte kmap (cr3_of k) (kn_vm k') x = vbyte kmap (cr3_of k) (kn_vm k) x)"
proof -
  let ?v = "vfs_state kmap k" and ?n = "length data"
  have sz: "unat (of_nat ?n :: u64) = ?n" by (rule unat_of_nat_u64) (use exec_file_size [OF f] in simp)
  have vf: "vfs_file (initramfs_operations al archive g ret) mp archive es nm fpath fp buf ?n data 0 ?v"
    by (rule exec_file_vfs [OF f]) (use buf ok in \<open>auto simp: in_range_def space_ok_def kernel_image_def\<close>)
  obtain s' where s': "vfs_read fp buf (of_nat ?n) ?v = Inr (of_nat ?n, ?v\<lparr>vs_fs := s'\<rparr>)" "bytes_at (fs_mem s') buf ?n = data"
    "fs_heap s' = s_heap (kn_sched k)" "fl_filesz (fs_files s' fp) = filesz_of fp k"
    using vfs_file_read [OF vf, of "of_nat ?n"] sz by auto
  obtain vm where vm: "vfs_store kmap buf ?n (?v\<lparr>vs_fs := s'\<rparr>) k =
      Inr (k\<lparr>kn_vm := vm, kn_vfs := ?v\<lparr>vs_fs := s'\<rparr>, kn_sched := (kn_sched k)\<lparr>s_heap := fs_heap s'\<rparr>\<rparr>)"
    "space_ok kmap (cr3_of k) K vm" "written kmap (cr3_of k) (kn_vm k) vm"
    "\<forall>i<?n. vbyte kmap (cr3_of k) vm (buf + of_nat i) = Some (fs_mem s' (buf + of_nat i))"
    "\<forall>x \<in> {x. user_va x} \<union> K. \<not> in_range x buf ?n \<longrightarrow> vbyte kmap (cr3_of k) vm x = vbyte kmap (cr3_of k) (kn_vm k) x"
    using vfs_store_effect [OF ok, of ?n buf "?v\<lparr>vs_fs := s'\<rparr>"] buf exec_file_size [OF f] by auto
  have "image_at kmap (cr3_of k) K buf data vm"
    unfolding image_at_def using buf vm(4) s'(2) nth_bytes_at [of _ ?n "fs_mem s'" buf] by auto
  then show ?thesis using s' vm f sz by (auto simp: read_file_def exec_file_def)
qed

section \<open>Replacing the program\<close>

lemma flags_3: "flags_ok 3" by (simp add: flags_ok_def PTE_PS_def)

text \<open>Releasing the old program and the anonymous memory.\<close>

lemma exec_release:
  fixes e :: u32
  assumes ok: "space_ok kmap cr3 K st" and anon: "unat a \<le> 2 ^ 47"
  shows "\<exists>v1 v2. free_region cr3 0x400000 (ucast e) st = Inr v1 \<and> free_region cr3 0x800000 a v1 = Inr v2 \<and>
    space_ok kmap cr3 K v2 \<and> avail st \<le> avail v2 \<and>
    (\<forall>x. x \<in> K \<or> unat x < 0x400000 \<longrightarrow> vbyte kmap cr3 v2 x = vbyte kmap cr3 st x) \<and> isolated kmap cr3 st v2"
proof -
  have e: "unat (ucast e :: u64) \<le> 2 ^ 47"
    using unat_i32_lt [of e] by (simp add: unsigned_ucast_eq take_bit_nat_eq_self)
  have al: "aligned 0x400000" "aligned 0x800000" by (simp_all add: aligned_def)
  obtain v1 where v1: "free_region cr3 0x400000 (ucast e) st = Inr v1" "space_ok kmap cr3 K v1" "avail st \<le> avail v1"
    "\<forall>x. \<not> user_va x \<or> unat x < unat (0x400000 :: u64) \<longrightarrow> vbyte kmap cr3 v1 x = vbyte kmap cr3 st x" "isolated kmap cr3 st v1"
    using free_region_view [OF ok e al(1)] by blast
  obtain v2 where v2: "free_region cr3 0x800000 a v1 = Inr v2" "space_ok kmap cr3 K v2" "avail v1 \<le> avail v2"
    "\<forall>x. \<not> user_va x \<or> unat x < unat (0x800000 :: u64) \<longrightarrow> vbyte kmap cr3 v2 x = vbyte kmap cr3 v1 x" "isolated kmap cr3 v1 v2"
    using free_region_view [OF v1(2) anon al(2)] by blast
  have "\<not> user_va x" if "x \<in> K" for x using ok that by (auto simp: space_ok_def kernel_image_def)
  then show ?thesis using v1(1-4) v2(1-4) isolated_trans [OF v1(5) v2(5)] by (intro exI [of _ v1] exI [of _ v2]) auto
qed

text \<open>Loading the program from its copy at \<open>0x800000\<close> and releasing the copy.\<close>

definition program_fits :: "u8 list \<Rightarrow> bool" where
  "program_fits bs \<longleftrightarrow> elf_ok 0x800000 bs \<and> (\<forall>j < ph_count bs. \<forall>sg. segment_at bs j = Some sg \<longrightarrow>
     0x400000 \<le> unat (sg_vaddr sg) \<and> seg_end sg \<le> 0x800000)"

lemma program_fits_seg:
  assumes "program_fits bs" "j < ph_count bs" "segment_at bs j = Some sg" "i < unat (sg_memsz sg)"
  shows "0x400000 \<le> unat (sg_vaddr sg + of_nat i)" "unat (sg_vaddr sg + of_nat i) < 0x800000"
proof -
  have b: "0x400000 \<le> unat (sg_vaddr sg)" "unat (sg_vaddr sg) + unat (sg_memsz sg) \<le> 0x800000"
    using assms(1-3) by (auto simp: program_fits_def seg_end_def)
  then have "unat (sg_vaddr sg + of_nat i) = unat (sg_vaddr sg) + i" using assms(4) by (intro unat_add_of_nat_u64) simp
  then show "0x400000 \<le> unat (sg_vaddr sg + of_nat i)" "unat (sg_vaddr sg + of_nat i) < 0x800000" using b assms(4) by simp_all
qed

lemma exec_load:
  assumes ok: "space_ok kmap cr3 K st" and im: "image_at kmap cr3 K 0x800000 bs st" and fits: "program_fits bs"
    and av: "4 * (\<Sum>j<ph_count bs. seg_cost bs j) \<le> avail st" and len: "length bs < 2 ^ 31"
  shows "\<exists>v1 v2. map_elf kmap cr3 0x800000 st = Inr (of_nat (elf_top bs (ph_count bs)), v1) \<and>
    e_entry kmap cr3 v1 0x800000 = Inr (field bs 24 8) \<and>
    free_region cr3 0x800000 (0x800000 + of_nat (length bs)) v1 = Inr v2 \<and> space_ok kmap cr3 K v2 \<and>
    (\<forall>j < ph_count bs. \<forall>sg. segment_at bs j = Some sg \<longrightarrow> loaded kmap cr3 bs sg v2) \<and>
    (\<forall>x. unat x < 0x400000 \<longrightarrow> vbyte kmap cr3 st x \<noteq> None \<longrightarrow> vbyte kmap cr3 v2 x = vbyte kmap cr3 st x) \<and>
    isolated kmap cr3 st v2"
proof -
  have elf: "elf_ok 0x800000 bs" using fits by (simp add: program_fits_def)
  obtain v1 where v1: "map_elf kmap cr3 0x800000 st = Inr (of_nat (elf_top bs (ph_count bs)), v1)" "space_ok kmap cr3 K v1"
    "image_at kmap cr3 K 0x800000 bs v1" "\<forall>k < ph_count bs. \<forall>sg. segment_at bs k = Some sg \<longrightarrow> loaded kmap cr3 bs sg v1"
    "\<forall>x. user_va x \<longrightarrow> outside bs (ph_count bs) x \<longrightarrow> vbyte kmap cr3 st x \<noteq> None \<longrightarrow> vbyte kmap cr3 v1 x = vbyte kmap cr3 st x"
    "isolated kmap cr3 st v1" using map_elf_effect [OF ok im elf av] by blast
  have entry: "e_entry kmap cr3 v1 0x800000 = Inr (field bs 24 8)"
    using vread_le_field [OF v1(3), of 24 8] elf by (simp add: e_entry_def elf_ok_def)
  have "unat (0x800000 + of_nat (length bs) :: u64) = 0x800000 + length bs"
    using len unat_add_of_nat_u64 [of "0x800000" "length bs"] by simp
  then obtain v2 where v2: "free_region cr3 0x800000 (0x800000 + of_nat (length bs)) v1 = Inr v2" "space_ok kmap cr3 K v2"
    "\<forall>x. \<not> user_va x \<or> unat x < 0x800000 \<longrightarrow> vbyte kmap cr3 v2 x = vbyte kmap cr3 v1 x"
    "isolated kmap cr3 v1 v2" using free_region_view [OF v1(2), of "0x800000 + of_nat (length bs)" "0x800000"] len by (auto simp: aligned_def)
  have "loaded kmap cr3 bs sg v2" if "j < ph_count bs" "segment_at bs j = Some sg" for j sg
    using v1(4) v2(3) that program_fits_seg(2) [OF fits that] by (simp add: loaded_def)
  moreover have "vbyte kmap cr3 v2 x = vbyte kmap cr3 st x" if "unat x < 0x400000" "vbyte kmap cr3 st x \<noteq> None" for x
  proof -
    have "outside bs (ph_count bs) x"
      unfolding outside_def in_range_def using program_fits_seg(1) [OF fits] that(1) by fastforce
    moreover have "user_va x" using that(1) by (simp add: user_va_def word_less_nat_alt)
    ultimately show ?thesis using v1(5) v2(3) that by simp
  qed
  ultimately show ?thesis using v1(1) entry v2(1,2) isolated_trans [OF v1(6) v2(4)] by blast
qed

text \<open>From the open file to the copy of the program at \<open>0x800000\<close>.\<close>

lemma exec_read:
  fixes e :: u32 and p :: "process \<Rightarrow> process" and k :: kernel
  defines "c \<equiv> cr3_of k"
  assumes ok: "space_ok kmap c K (kn_vm k)" and anon: "unat a \<le> 2 ^ 47"
    and f: "exec_file kmap K (initramfs_operations al archive g ret) mp archive es nm fpath fp bs k"
    and av: "length bs \<le> 0x1000 * n" "4 * (n + m) \<le> avail (kn_vm k)"
  shows "\<exists>v1 v2 v3 k'. free_region c 0x400000 (ucast e) (kn_vm k) = Inr v1 \<and> free_region c 0x800000 a v1 = Inr v2 \<and>
    allocate_region c 0x800000 (0x800000 + of_nat (length bs)) 3 v2 = Inr v3 \<and>
    read_file kmap fp 0x800000 (of_nat (length bs)) ((set_current p (k\<lparr>kn_vm := v2\<rparr>))\<lparr>kn_vm := v3\<rparr>) = Inr (of_nat (length bs), k') \<and>
    kn_sched k' = kn_sched (set_current p (k\<lparr>kn_vm := v2\<rparr>)) \<and> filesz_of fp k' = of_nat (length bs) \<and>
    space_ok kmap c K (kn_vm k') \<and> 4 * m \<le> avail (kn_vm k') \<and> image_at kmap c K 0x800000 bs (kn_vm k') \<and>
    (\<forall>x. unat x < 0x400000 \<longrightarrow> vbyte kmap c (kn_vm k) x \<noteq> None \<longrightarrow> vbyte kmap c (kn_vm k') x = vbyte kmap c (kn_vm k) x) \<and>
    isolated kmap c (kn_vm k) (kn_vm k')"
proof -
  let ?n = "length bs"
  obtain v1 v2 where v2: "free_region c 0x400000 (ucast e) (kn_vm k) = Inr v1" "free_region c 0x800000 a v1 = Inr v2"
    "space_ok kmap c K v2" "avail (kn_vm k) \<le> avail v2"
    "\<forall>x. x \<in> K \<or> unat x < 0x400000 \<longrightarrow> vbyte kmap c v2 x = vbyte kmap c (kn_vm k) x" "isolated kmap c (kn_vm k) v2"
    using exec_release [OF ok anon] by blast
  have len: "?n < 2 ^ 31" using exec_file_size [OF f] .
  then have en: "unat (0x800000 + of_nat ?n :: u64) = 0x800000 + ?n" using unat_add_of_nat_u64 [of "0x800000" ?n] by simp
  obtain v3 where v3: "allocate_region c 0x800000 (0x800000 + of_nat ?n) 3 v2 = Inr v3" "space_ok kmap c K v3" "avail v2 \<le> avail v3 + 4 * n"
    "\<forall>x. unat (0x800000 :: u64) \<le> unat x \<longrightarrow> unat x < 0x800000 + ?n \<longrightarrow> vbyte kmap c v3 x \<noteq> None"
    "\<forall>x. vbyte kmap c v2 x \<noteq> None \<longrightarrow> vbyte kmap c v3 x = vbyte kmap c v2 x" "isolated kmap c v2 v3"
    using allocate_region_view [OF v2(3) flags_3, of "0x800000 + of_nat ?n" "0x800000" n] en len av v2(4) by (auto simp: aligned_def)
  let ?k = "(set_current p (k\<lparr>kn_vm := v2\<rparr>))\<lparr>kn_vm := v3\<rparr>"
  have c: "cr3_of ?k = c" by (simp add: c_def)
  have inK: "vbyte kmap c v3 x = vbyte kmap c (kn_vm k) x" if "x \<in> K" for x
  proof -
    have "vbyte kmap c (kn_vm k) x \<noteq> None" using ok that by (auto simp: space_ok_def kernel_image_def vbyte_def mmu_def)
    then show ?thesis using v2(5) v3(5) that by simp
  qed
  have f3: "exec_file kmap K (initramfs_operations al archive g ret) mp archive es nm fpath fp bs ?k"
    by (rule exec_file_frame [OF f]) (use inK in \<open>simp_all add: c_def\<close>)
  have addr: "unat (0x800000 + of_nat i :: u64) = 0x800000 + i" if "i < ?n" for i
    using unat_add_of_nat_u64 [of "0x800000" i] that len by simp
  have "\<forall>i < ?n. user_va (0x800000 + of_nat i) \<and> vbyte kmap (cr3_of ?k) (kn_vm ?k) (0x800000 + of_nat i) \<noteq> None"
    using addr v3(4) len c by (simp add: user_va_def word_less_nat_alt)
  then obtain k' where k': "read_file kmap fp 0x800000 (of_nat ?n) ?k = Inr (of_nat ?n, k')" "kn_sched k' = kn_sched ?k"
    "filesz_of fp k' = of_nat ?n" "space_ok kmap c K (kn_vm k')" "written kmap c v3 (kn_vm k')" "image_at kmap c K 0x800000 bs (kn_vm k')"
    "\<forall>x \<in> {x. user_va x} \<union> K. \<not> in_range x 0x800000 ?n \<longrightarrow> vbyte kmap c (kn_vm k') x = vbyte kmap c v3 x"
    using read_file_effect [OF _ f3, where buf = "0x800000"] v3(2) c by auto
  have "vbyte kmap c (kn_vm k') x = vbyte kmap c (kn_vm k) x" if x: "unat x < 0x400000" "vbyte kmap c (kn_vm k) x \<noteq> None" for x
  proof -
    have "user_va x" "\<not> in_range x 0x800000 ?n" using x(1) addr by (auto simp: in_range_def user_va_def word_less_nat_alt)
    then have "vbyte kmap c (kn_vm k') x = vbyte kmap c v3 x" using k'(7) by blast
    then show ?thesis using x v2(5) v3(5) by simp
  qed
  moreover have "avail (kn_vm k') = avail v3" using written_avail [OF k'(5)] .
  then have "4 * m \<le> avail (kn_vm k')" using av(2) v2(4) v3(3) by simp
  moreover have "isolated kmap c (kn_vm k) (kn_vm k')"
    using isolated_trans [OF isolated_trans [OF v2(6) v3(6)] written_isolated [OF k'(5)]] .
  ultimately show ?thesis using v2(1,2) v3(1) k'(1-4,6) by (intro exI [of _ v1] exI [of _ v2] exI [of _ v3] exI [of _ k']) simp
qed

lemma execve_run:
  assumes "open_file kmap pathname 0 k = Inr (fp, k1)" "fp \<noteq> NULL" "kn_sched k1 = (kn_sched k)\<lparr>s_heap := h\<rparr>"
    and "vstrlen kmap (cr3_of k) (kn_vm k1) pathname = Inr len" "\<not> len + 1 > 0x2000"
    and "free_region (p_cr3 (current_proc k)) 0x400000 (ucast (p_elf_end (current_proc k))) (kn_vm k1) = Inr v1"
      "free_region (p_cr3 (current_proc k)) 0x800000 (p_anon_allocate_end (current_proc k)) v1 = Inr v2"
    and "k2 = set_current (\<lambda>p. p\<lparr>p_anon_allocate_end := 0x800000\<rparr>) (k1\<lparr>kn_vm := v2\<rparr>)"
    and "allocate_region (p_cr3 (current_proc k)) 0x800000 (0x800000 + filesz_of fp k1) 3 v2 = Inr v3"
      "read_file kmap fp 0x800000 (filesz_of fp k1) (k2\<lparr>kn_vm := v3\<rparr>) = Inr (n, k4)" "kn_sched k4 = kn_sched k2"
    and "map_elf kmap (cr3_of k) 0x800000 (kn_vm k4) = Inr (hi, v5)" "e_entry kmap (cr3_of k) v5 0x800000 = Inr ent"
      "free_region (p_cr3 (current_proc k)) 0x800000 (0x800000 + filesz_of fp k4) v5 = Inr v6"
  shows "execve_syscall kmap pathname argv envp k =
    Inr (EnterUser ent 0x400000, (set_current (\<lambda>p. p\<lparr>p_elf_end := hi\<rparr>) (k4\<lparr>kn_vm := v5\<rparr>))\<lparr>kn_vm := v6\<rparr>)"
  using assms by (simp add: execve_syscall_def Let_def get_current_process_def)

text \<open>The effect of a call that finds its program.\<close>

lemma execve_effect:
  fixes k :: kernel
  assumes cr3: "p_cr3 (current_proc k) = cr3_of k" and ok: "space_ok kmap (cr3_of k) K (kn_vm k)"
    and r: "root_mounted (initramfs_operations al archive g ret) mp (vfs_state kmap k)"
    and t: "tar_at (seen kmap (cr3_of k) (kn_vm k)) archive es" and e: "find (\<lambda>e. fst e = nm) es = Some e"
    and path: "cstring (seen kmap (cr3_of k) (kn_vm k)) pathname nm" "length nm < 0x2000" "pathname \<noteq> NULL" "nm \<noteq> []" "hd nm = 0x2f"
    and lo: "unat archive + tar_size es < 2 ^ 64" "archive \<noteq> NULL"
    and al: "alloc al 24 (s_heap (kn_sched k)) = Inr (fp, h1)" "fp \<noteq> NULL"
      "alloc al (of_nat (length nm) + 1) h1 = Inr (fpath, h2)" "fpath \<noteq> NULL"
    and src: "\<forall>i \<le> length nm. user_va (pathname + of_nat i) \<and> vbyte kmap (cr3_of k) (kn_vm k) (pathname + of_nat i) \<noteq> None"
    and K: "\<forall>x. in_range x archive (tar_size es) \<or> in_range x (mp_path (vs_mps (kn_vfs k) mp)) 2 \<longrightarrow> x \<in> K \<and> \<not> in_range x fpath (length nm + 1)"
      "\<forall>x. in_range x fpath (length nm + 1) \<longrightarrow> x \<in> K"
    and anon: "unat (p_anon_allocate_end (current_proc k)) \<le> 2 ^ 47" and fits: "program_fits (snd e)"
    and av: "length (snd e) \<le> 0x1000 * n" "4 * (n + (\<Sum>j<ph_count (snd e). seg_cost (snd e) j)) \<le> avail (kn_vm k)"
  shows "\<exists>k'. execve_syscall kmap pathname argv envp k = Inr (EnterUser (field (snd e) 24 8) 0x400000, k') \<and>
    space_ok kmap (cr3_of k) K (kn_vm k') \<and> p_elf_end (current_proc k') = of_nat (elf_top (snd e) (ph_count (snd e))) \<and>
    p_anon_allocate_end (current_proc k') = 0x800000 \<and>
    (\<forall>j < ph_count (snd e). \<forall>sg. segment_at (snd e) j = Some sg \<longrightarrow> loaded kmap (cr3_of k) (snd e) sg (kn_vm k')) \<and>
    (\<forall>x. unat x < 0x400000 \<longrightarrow> vbyte kmap (cr3_of k) (kn_vm k) x \<noteq> None \<longrightarrow>
       vbyte kmap (cr3_of k) (kn_vm k') x = vbyte kmap (cr3_of k) (kn_vm k) x) \<and>
    isolated kmap (cr3_of k) (kn_vm k) (kn_vm k')"
proof -
  let ?c = "cr3_of k" and ?ops = "initramfs_operations al archive g ret" and ?bs = "snd e" and ?n = "length (snd e)"
  have ne: "?bs \<noteq> []" using fits by (auto simp: program_fits_def elf_ok_def)
  have notK: "x \<notin> K" if "user_va x" for x using ok that by (auto simp: space_ok_def kernel_image_def)
  obtain k1 where k1: "open_file kmap pathname 0 k = Inr (fp, k1)" "kn_sched k1 = (kn_sched k)\<lparr>s_heap := h2\<rparr>"
    "space_ok kmap ?c K (kn_vm k1)" "written kmap (cr3_of k) (kn_vm k) (kn_vm k1)"
    "\<forall>x \<in> {x. user_va x} \<union> K. \<not> in_range x fpath (length nm + 1) \<longrightarrow> vbyte kmap ?c (kn_vm k1) x = vbyte kmap ?c (kn_vm k) x"
    "exec_file kmap K ?ops mp archive es nm fpath fp ?bs k1"
    using open_file_effect [OF ok r t e ne path(1) _ path(3-5) lo al, of 0] src K notK path(2) by fastforce
  have user: "vbyte kmap ?c (kn_vm k1) x = vbyte kmap ?c (kn_vm k) x" if "user_va x" for x
    using k1(5) that notK K(2) by blast
  have c1: "cr3_of k1 = ?c" "current k1 = current k" using k1(2) by (simp_all add: get_current_process_def)
  have sl: "vstrlen kmap ?c (kn_vm k1) pathname = Inr (of_nat (length nm))"
  proof (rule vstrlen_cstring)
    show "cstring (seen kmap ?c (kn_vm k1)) pathname nm"
      by (rule cstring_frame [OF path(1)]) (use src user in \<open>simp add: seen_def\<close>)
  qed (use src user in simp)
  have len: "?n < 2 ^ 31" using exec_file_size [OF k1(6)] .
  have sz: "filesz_of fp k1 = of_nat ?n" using k1(6) by (simp add: exec_file_def)
  have av1: "4 * (n + (\<Sum>j<ph_count ?bs. seg_cost ?bs j)) \<le> avail (kn_vm k1)" using av(2) written_avail [OF k1(4)] by simp
  obtain v1 v2 v3 k4 where v: "free_region ?c 0x400000 (ucast (p_elf_end (current_proc k))) (kn_vm k1) = Inr v1"
    "free_region ?c 0x800000 (p_anon_allocate_end (current_proc k)) v1 = Inr v2"
    "allocate_region ?c 0x800000 (0x800000 + of_nat ?n) 3 v2 = Inr v3"
    "read_file kmap fp 0x800000 (of_nat ?n) ((set_current (\<lambda>p. p\<lparr>p_anon_allocate_end := 0x800000\<rparr>) (k1\<lparr>kn_vm := v2\<rparr>))\<lparr>kn_vm := v3\<rparr>) = Inr (of_nat ?n, k4)"
    and k4: "kn_sched k4 = kn_sched (set_current (\<lambda>p. p\<lparr>p_anon_allocate_end := 0x800000\<rparr>) (k1\<lparr>kn_vm := v2\<rparr>))"
    "filesz_of fp k4 = of_nat ?n" "space_ok kmap ?c K (kn_vm k4)" "4 * (\<Sum>j<ph_count ?bs. seg_cost ?bs j) \<le> avail (kn_vm k4)"
    "image_at kmap ?c K 0x800000 ?bs (kn_vm k4)"
    "\<forall>x. unat x < 0x400000 \<longrightarrow> vbyte kmap ?c (kn_vm k1) x \<noteq> None \<longrightarrow> vbyte kmap ?c (kn_vm k4) x = vbyte kmap ?c (kn_vm k1) x"
    "isolated kmap ?c (kn_vm k1) (kn_vm k4)" using exec_read [OF k1(3) [folded c1(1)] anon k1(6) av(1) av1] unfolding c1(1) by blast
  obtain v5 v6 where v6: "map_elf kmap ?c 0x800000 (kn_vm k4) = Inr (of_nat (elf_top ?bs (ph_count ?bs)), v5)"
    "e_entry kmap ?c v5 0x800000 = Inr (field ?bs 24 8)" "free_region ?c 0x800000 (0x800000 + of_nat ?n) v5 = Inr v6"
    "space_ok kmap ?c K v6" "\<forall>j < ph_count ?bs. \<forall>sg. segment_at ?bs j = Some sg \<longrightarrow> loaded kmap ?c ?bs sg v6"
    "\<forall>x. unat x < 0x400000 \<longrightarrow> vbyte kmap ?c (kn_vm k4) x \<noteq> None \<longrightarrow> vbyte kmap ?c v6 x = vbyte kmap ?c (kn_vm k4) x"
    "isolated kmap ?c (kn_vm k4) v6" using exec_load [OF k4(3,5) fits k4(4) len] by blast
  have stack: "vbyte kmap ?c v6 x = vbyte kmap ?c (kn_vm k) x" if x: "unat x < 0x400000" "vbyte kmap ?c (kn_vm k) x \<noteq> None" for x
  proof -
    have "user_va x" using x(1) by (simp add: user_va_def word_less_nat_alt)
    then show ?thesis using x user k4(6) v6(6) by simp
  qed
  let ?k = "(set_current (\<lambda>p. p\<lparr>p_elf_end := of_nat (elf_top ?bs (ph_count ?bs))\<rparr>) (k4\<lparr>kn_vm := v5\<rparr>))\<lparr>kn_vm := v6\<rparr>"
  have "unat (of_nat (length nm + 1) :: u64) \<le> unat (0x2000 :: u64)" using path(2) by (subst unat_of_nat_u64) simp_all
  then have "of_nat (length nm + 1) \<le> (0x2000 :: u64)" by (simp only: word_le_nat_alt)
  then have le: "\<not> of_nat (length nm) + 1 > (0x2000 :: u64)" by (simp add: not_less add.commute)
  have "execve_syscall kmap pathname argv envp k = Inr (EnterUser (field ?bs 24 8) 0x400000, ?k)"
    by (rule execve_run [OF k1(1) al(2) k1(2) sl le _ _ refl _ _ k4(1) v6(1,2)]) (use v v6(3) k4(2) sz cr3 in simp_all)
  moreover have "p_elf_end (current_proc ?k) = of_nat (elf_top ?bs (ph_count ?bs))" "p_anon_allocate_end (current_proc ?k) = 0x800000"
    using k4(1) by (simp_all add: upd_def get_current_process_def)
  moreover have "isolated kmap ?c (kn_vm k) v6"
    using isolated_trans [OF isolated_trans [OF written_isolated [OF k1(4)] k4(7)] v6(7)] .
  ultimately show ?thesis using v6(4,5) stack by (intro exI [of _ ?k]) simp
qed

section \<open>Property\<close>


section \<open>Witness\<close>

text \<open>
  Kernel memory from \<open>0xffff800000002000\<close>: an archive with the program as \<open>/a\<close>, the path of the mount
  point, and a heap of 512 bytes.  The caller has one page at \<open>0x200000\<close> that holds the name.
\<close>

definition exec_byte :: "nat \<Rightarrow> u8" where
  "exec_byte i = (if 124 \<le> i \<and> i < 135 then [0x30, 0x30, 0x30, 0x30, 0x30, 0x30, 0x30, 0x30, 0x31, 0x37, 0x32] ! (i - 124)
     else if 257 \<le> i \<and> i < 262 then [0x75, 0x73, 0x74, 0x61, 0x72] ! (i - 257)
     else if 512 \<le> i \<and> i < 634 then elf_sample 0 5 ! (i - 512)
     else if i = 1 \<or> i = 0x700 then 0x2f else if i = 2 then 0x61 else 0)"

abbreviation exec_base :: u64 where "exec_base \<equiv> 0xffff800000002000"

abbreviation exec_kernel :: "u64 set" where "exec_kernel \<equiv> {x. in_range x exec_base 0xa00}"

definition exec_heap :: "allocator \<times> kheap" where
  "exec_heap = new_allocator 0xffff800000002800 0x200
     \<lparr>nodes = (\<lambda>_. \<lparr>hn_size = 0, hn_status = USED, hn_prev = NULL, hn_next = NULL\<rparr>), klog = []\<rparr>"

definition exec_sample :: kernel where
  "exec_sample = kernel_sample\<lparr>
     kn_sched := (kn_sched kernel_sample)\<lparr>s_heap := snd exec_heap\<rparr>,
     kn_vm := projr (vwrite_le elf_kmap 0x1000 3 0x200000 0x612f
       (projr (map_memory_page 0x1000 0x200000 7 (elf_mem (map exec_byte [0..<0xa00]))))),
     kn_vfs := vfs_sample\<lparr>vs_mps := (\<lambda>_. \<lparr>mp_device = NULL, mp_path = 0xffff800000002700,
       mp_operations = initramfs_operations (fst exec_heap) exec_base 0 0\<rparr>)\<rparr>\<rparr>"

lemma exec_offset: "in_range x exec_base 0xa00 \<longleftrightarrow> unat (x - exec_base) < 0xa00"
proof
  assume "in_range x exec_base 0xa00"
  then obtain i where "i < 0xa00" "x = exec_base + of_nat i" by (auto simp: in_range_def)
  then show "unat (x - exec_base) < 0xa00" by (simp add: unat_of_nat_u64)
next
  assume "unat (x - exec_base) < 0xa00"
  then show "in_range x exec_base 0xa00" unfolding in_range_def by (intro exI [of _ "unat (x - exec_base)"]) simp
qed

lemma exec_part:
  assumes "in_range x (exec_base + of_nat j) n" "j + n \<le> 0xa00" shows "x \<in> exec_kernel"
proof -
  obtain i where "i < n" "x = exec_base + of_nat j + of_nat i" using assms(1) by (auto simp: in_range_def)
  then show ?thesis using assms(2) by (auto simp: in_range_def intro!: exI [of _ "j + i"])
qed

lemma exec_vm:
  shows "space_ok elf_kmap 0x1000 exec_kernel (kn_vm exec_sample)" "10 \<le> avail (kn_vm exec_sample)"
    "x \<in> exec_kernel \<Longrightarrow> vbyte elf_kmap 0x1000 (kn_vm exec_sample) x = Some (exec_byte (unat (x - exec_base)))"
    "i < 3 \<Longrightarrow> user_va (0x200000 + of_nat i) \<and>
       vbyte elf_kmap 0x1000 (kn_vm exec_sample) (0x200000 + of_nat i) = Some (ucast (drop_bit (8 * i) (0x612f :: u64)))"
proof -
  let ?bs = "map exec_byte [0..<0xa00]"
  have sp: "space_ok elf_kmap 0x1000 exec_kernel (elf_mem ?bs)" and im: "image_at elf_kmap 0x1000 exec_kernel exec_base ?bs (elf_mem ?bs)"
    using elf_mem_space [of ?bs] by simp_all
  have "14 \<le> avail (elf_mem ?bs)" using vm_sample_avail by (simp add: elf_mem_def avail_def)
  moreover have u: "user_va 0x200000" by (simp add: user_va_def)
  ultimately obtain st where st: "map_memory_page 0x1000 0x200000 7 (elf_mem ?bs) = Inr st" "space_ok elf_kmap 0x1000 exec_kernel st"
    "10 \<le> avail st" "\<forall>x. user_va x \<longrightarrow> drop_bit 12 x = drop_bit 12 0x200000 \<longrightarrow> vbyte elf_kmap 0x1000 st x \<noteq> None"
    "\<forall>x. vbyte elf_kmap 0x1000 (elf_mem ?bs) x \<noteq> None \<longrightarrow> vbyte elf_kmap 0x1000 st x = vbyte elf_kmap 0x1000 (elf_mem ?bs) x"
    using map_page_view [OF sp _ flags_7, of "0x200000"] by fastforce
  have page: "user_va (0x200000 + of_nat i) \<and> vbyte elf_kmap 0x1000 st (0x200000 + of_nat i) \<noteq> None" if i: "i < 3" for i
  proof -
    have n: "unat (0x200000 + of_nat i :: u64) = 0x200000 + i" using i by (subst unat_add_of_nat_u64) simp_all
    then have "drop_bit 12 (0x200000 + of_nat i :: u64) = drop_bit 12 0x200000" using i by (intro same_page) (simp_all add: aligned_def)
    moreover have "user_va (0x200000 + of_nat i)" using n i by (simp add: user_va_def word_less_nat_alt)
    ultimately show ?thesis using st(4) by blast
  qed
  then obtain st' where st': "vwrite_le elf_kmap 0x1000 3 0x200000 0x612f st = Inr st'" "space_ok elf_kmap 0x1000 exec_kernel st'"
    "written elf_kmap 0x1000 st st'" "\<forall>i<3. vbyte elf_kmap 0x1000 st' (0x200000 + of_nat i) = Some (ucast (drop_bit (8 * i) (0x612f :: u64)))"
    "\<forall>x \<in> {x. user_va x} \<union> exec_kernel. \<not> in_range x 0x200000 3 \<longrightarrow> vbyte elf_kmap 0x1000 st' x = vbyte elf_kmap 0x1000 st x"
    using vwrite_le_view [OF st(2), of 3 "0x200000" "0x612f"] by auto
  have vm: "kn_vm exec_sample = st'" using st(1) st'(1) by (simp add: exec_sample_def)
  show "space_ok elf_kmap 0x1000 exec_kernel (kn_vm exec_sample)" "10 \<le> avail (kn_vm exec_sample)"
    using st'(2) written_avail [OF st'(3)] st(3) by (simp_all add: vm)
  show "i < 3 \<Longrightarrow> user_va (0x200000 + of_nat i) \<and>
      vbyte elf_kmap 0x1000 (kn_vm exec_sample) (0x200000 + of_nat i) = Some (ucast (drop_bit (8 * i) (0x612f :: u64)))"
    using page st'(4) vm by simp
  assume x: "x \<in> exec_kernel"
  then obtain i where i: "i < 0xa00" "x = exec_base + of_nat i" by (auto simp: in_range_def)
  have "\<not> in_range x 0x200000 3" using disjoint_ranges [of "0x200000" 3 exec_base "0xa00" x] x by auto
  then have "vbyte elf_kmap 0x1000 st' x = vbyte elf_kmap 0x1000 (elf_mem ?bs) x" using st'(5) st(5) x im i by (simp add: image_at_def)
  then show "vbyte elf_kmap 0x1000 (kn_vm exec_sample) x = Some (exec_byte (unat (x - exec_base)))"
    using im i by (simp add: vm image_at_def unat_of_nat_u64)
qed

lemma exec_heap_alloc:
  "\<exists>h1 h2. alloc (fst exec_heap) 24 (snd exec_heap) = Inr (0xffff800000002820, h1) \<and>
     alloc (fst exec_heap) 3 h1 = Inr (0xffff800000002860, h2)"
proof -
  have "(case alloc (fst exec_heap) 24 (snd exec_heap) of Inl _ \<Rightarrow> False | Inr (p, h1) \<Rightarrow> p = 0xffff800000002820 \<and>
      (case alloc (fst exec_heap) 3 h1 of Inl _ \<Rightarrow> False | Inr (q, h2) \<Rightarrow> q = 0xffff800000002860))" by code_simp
  then obtain h1 where h1: "alloc (fst exec_heap) 24 (snd exec_heap) = Inr (0xffff800000002820, h1)"
    "(case alloc (fst exec_heap) 3 h1 of Inl _ \<Rightarrow> False | Inr (q, h2) \<Rightarrow> q = 0xffff800000002860)"
    by (cases "alloc (fst exec_heap) 24 (snd exec_heap)") auto
  then show ?thesis by (cases "alloc (fst exec_heap) 3 h1") auto
qed

text \<open>The archive, as kernel memory holds it.\<close>

lemma exec_tar: "tar_at (\<lambda>x. exec_byte (unat (x - exec_base))) exec_base [([0x2f, 0x61], elf_sample 0 5)]"
proof -
  let ?m = "\<lambda>x. exec_byte (unat (x - exec_base))"
  have "octal 11 122 = [0x30, 0x30, 0x30, 0x30, 0x30, 0x30, 0x30, 0x30, 0x31, 0x37, 0x32]" by (simp add: octal_numeral)
  then have "bytes_at ?m (exec_base + 0x7c) 11 = octal 11 122" by (simp add: bytes_at_def exec_byte_def upt_rec)
  moreover have "is_ustar ?m exec_base" "\<not> is_ustar ?m (exec_base + 0x400)"
    by (simp_all add: is_ustar_def bytes_at_def exec_byte_def upt_rec)
  moreover have "cstring ?m (exec_base + 1) [0x2f, 0x61]" by (simp add: exec_byte_def)
  moreover have "bytes_at ?m (exec_base + 512) 122 = elf_sample 0 5"
  proof (rule nth_equalityI)
    fix i assume "i < length (bytes_at ?m (exec_base + 512) 122)"
    then have i: "i < 122" by simp
    then have "unat (512 + of_nat i :: u64) = 512 + i" by (subst unat_add_of_nat_u64) simp_all
    then show "bytes_at ?m (exec_base + 512) 122 ! i = elf_sample 0 5 ! i" using i by (simp add: exec_byte_def)
  qed (simp add: elf_sample_segment)
  ultimately show ?thesis by (simp add: blocks_of_def elf_sample_segment flip: numeral_2_eq_2 del: octal.simps)
qed

lemma exec_program: "program_fits (elf_sample 0 5)"
proof -
  have "\<not> in_range (0x800000 + of_nat i) 0x400f00 5" if "i < 122" for i
    using disjoint_ranges [of "0x400f00" 5 "0x800000" 122] in_range_offset [OF that, of "0x800000"] by auto
  then show ?thesis by (simp add: program_fits_def elf_ok_def elf_sample_segment seg_ok_def seg_end_def seg_pages_def)
qed

lemma exec_root:
  assumes "m 0xffff800000002700 = 0x2f" "m 0xffff800000002701 = 0"
  shows "root_mounted (initramfs_operations (fst exec_heap) exec_base 0 0) 0x5000
    ((kn_vfs exec_sample)\<lparr>vs_fs := (vs_fs (kn_vfs exec_sample))\<lparr>fs_mem := m, fs_heap := h\<rparr>\<rparr>)"
proof -
  let ?v = "(kn_vfs exec_sample)\<lparr>vs_fs := (vs_fs (kn_vfs exec_sample))\<lparr>fs_mem := m, fs_heap := h\<rparr>\<rparr>"
  have "ll_inv (get_ll ?v) 0x7000 [0x7100]" "ll_contents (get_ll ?v) [0x7100] = [0x5000]"
    by (simp_all add: ll_inv_def ll_contents_def get_ll_def exec_sample_def vfs_sample_def)
  then show ?thesis using assms by (auto simp: root_mounted_def mounted_def exec_sample_def vfs_sample_def)
qed


end
