(* ===== verification/Isolation.thy ===== *)
theory Isolation
  imports Execve
begin

text \<open>
  The separation of processes: sequences of stores by user programs, system calls and switches, and what
  they leave of the memory of the processes that did not act.
\<close>

section \<open>Systems of actors\<close>

text \<open>A sequence of steps, with the actors that make them.\<close>

inductive run :: "('a \<Rightarrow> 's \<Rightarrow> 's \<Rightarrow> bool) \<Rightarrow> 'a list \<Rightarrow> 's \<Rightarrow> 's \<Rightarrow> bool" for step where
  run_nil: "run step [] s s"
| run_cons: "step a s s' \<Longrightarrow> run step as s' s'' \<Longrightarrow> run step (a # as) s s''"

text \<open>
  Each step of the system is made by one actor.  A step keeps the invariant, and every other actor stays and
  observes no difference.
\<close>

locale separation =
  fixes step :: "'a \<Rightarrow> 's \<Rightarrow> 's \<Rightarrow> bool" and inv :: "'s \<Rightarrow> bool" and actors :: "'s \<Rightarrow> 'a set" and view :: "'a \<Rightarrow> 's \<Rightarrow> 'v"
  assumes step_inv: "inv s \<Longrightarrow> step a s s' \<Longrightarrow> inv s'"
    and step_others: "inv s \<Longrightarrow> step a s s' \<Longrightarrow> c \<in> actors s \<Longrightarrow> c \<noteq> a \<Longrightarrow> c \<in> actors s' \<and> view c s' = view c s"
begin

lemma run_respects:
  assumes "run step as s s'" "inv s"
  shows "inv s' \<and> (\<forall>c \<in> actors s. c \<notin> set as \<longrightarrow> c \<in> actors s' \<and> view c s' = view c s)"
  using assms
proof (induction rule: run.induct)
  case (run_cons a s s' as s'')
  then have "inv s'" using step_inv by blast
  then show ?case using run_cons step_others [OF run_cons.prems run_cons.hyps(1)] by auto
qed simp

end

section \<open>Separated address spaces\<close>

definition separated :: "(u64 \<Rightarrow> u64 option) \<Rightarrow> u64 set \<Rightarrow> u64 set \<Rightarrow> vm \<Rightarrow> bool" where
  "separated kmap K C st \<longleftrightarrow> (\<forall>c \<in> C. space_ok kmap c K st) \<and> pairwise (apart (vm_pt st)) C"

lemma separatedD:
  assumes "separated kmap K C st" "c \<in> C"
  shows "space_ok kmap c K st" "vm_inv c st" "frames_managed c st" "kernel_image kmap K st"
    "d \<in> C \<Longrightarrow> c \<noteq> d \<Longrightarrow> apart (vm_pt st) c d"
  using assms by (auto simp: separated_def space_ok_def pairwise_def)

lemma separated_mono: "separated kmap K C st \<Longrightarrow> D \<subseteq> C \<Longrightarrow> separated kmap K D st"
  unfolding separated_def using pairwise_subset by blast

lemma apart_sym: "apart pt c d \<Longrightarrow> apart pt d c"
  unfolding apart_def by blast

lemma apart_tables:
  assumes "apart (vm_pt st) c d" "\<forall>ys. upath ys \<longrightarrow> tbl (vm_pt st') c ys = tbl (vm_pt st) c ys"
    "\<forall>ys. upath ys \<longrightarrow> tbl (vm_pt st') d ys = tbl (vm_pt st) d ys"
  shows "apart (vm_pt st') c d"
  using assms unfolding apart_def by simp

text \<open>An isolated operation on one of the address spaces.\<close>

lemma isolated_separated:
  assumes s: "separated kmap K C st" and a: "a \<in> C" and iso: "isolated kmap a st st'" and ok: "space_ok kmap a K st'"
  shows "separated kmap K C st'" "c \<in> C \<Longrightarrow> c \<noteq> a \<Longrightarrow> user_va x \<Longrightarrow> vbyte kmap c st' x = vbyte kmap c st x"
proof -
  have o: "vm_inv c st' \<and> frames_managed c st' \<and> apart (vm_pt st') a c \<and> (\<forall>ys. upath ys \<longrightarrow> tbl (vm_pt st') c ys = tbl (vm_pt st) c ys) \<and>
      (\<forall>x. user_va x \<longrightarrow> vbyte kmap c st' x = vbyte kmap c st x)" if "c \<in> C" "c \<noteq> a" for c
    using iso separatedD [OF s that(1)] separatedD(5) [OF s a that(1)] that(2) by (auto simp: isolated_def)
  have "space_ok kmap c K st'" if "c \<in> C" for c
    using o [OF that] ok by (cases "c = a") (auto simp: space_ok_def)
  moreover have "apart (vm_pt st') c d" if "c \<in> C" "d \<in> C" "c \<noteq> d" for c d
  proof -
    consider "c = a" | "d = a" | "c \<noteq> a" "d \<noteq> a" by blast
    then show ?thesis
    proof cases
      case 3
      then show ?thesis using o that apart_tables [OF separatedD(5) [OF s that]] by blast
    qed (use o that apart_sym in auto)
  qed
  ultimately show "separated kmap K C st'" by (simp add: separated_def pairwise_def)
  show "c \<in> C \<Longrightarrow> c \<noteq> a \<Longrightarrow> user_va x \<Longrightarrow> vbyte kmap c st' x = vbyte kmap c st x" using o by blast
qed

text \<open>The address space of a child.\<close>

lemma forked_separated:
  assumes s: "separated kmap K C st" and f: "forked kmap K a parent n st st'"
  shows "separated kmap K (insert n C) st'" "c \<in> C \<Longrightarrow> user_va x \<Longrightarrow> vbyte kmap c st' x = vbyte kmap c st x"
proof -
  note F = f [unfolded forked_def]
  have o: "vm_inv c st'" "apart (vm_pt st') n c" "\<forall>ys. upath ys \<longrightarrow> tbl (vm_pt st') c ys = tbl (vm_pt st) c ys"
    "\<forall>x. user_va x \<longrightarrow> vbyte kmap c st' x = vbyte kmap c st x" if "c \<in> C" for c
    using F separatedD(2) [OF s that] by blast+
  have "frames_managed c st'" if "c \<in> C" for c
    using separatedD(3) [OF s that] o(3) [OF that] F upath_path by (simp add: frames_managed_def translate_def)
  then have "space_ok kmap c K st'" if "c \<in> C" for c using o(1) that F by (simp add: space_ok_def)
  moreover have "apart (vm_pt st') c d" if "c \<in> C" "d \<in> C" "c \<noteq> d" for c d
    using apart_tables [OF separatedD(5) [OF s that]] o(3) that by blast
  ultimately show "separated kmap K (insert n C) st'"
    using F o(2) apart_sym by (auto simp: separated_def pairwise_insert pairwise_def)
  show "c \<in> C \<Longrightarrow> user_va x \<Longrightarrow> vbyte kmap c st' x = vbyte kmap c st x" using o(4) by blast
qed

section \<open>Steps of the system\<close>

text \<open>What a call of \<open>fork\<close> that returns does to the memory.\<close>

lemma fork_process_frame:
  assumes "fork_process al n proc s = Inr (p, s')"
  shows "current_process s' = current_process s" "\<exists>h. alloc al sizeof_process (s_heap s) = Inr (p, h)"
  using assms
  by (auto simp: fork_process_def get_new_pid_def resource_table_alloc_def memset_null_def Let_def split: if_splits)

lemma fork_syscall_memory:
  fixes k :: kernel
  defines "parent \<equiv> current_proc k" and "cr3 \<equiv> p_cr3 (current_proc k)"
  assumes run: "fork_syscall al context ctx yield_context k = Inr (r, k')" and n: "fork_space cr3 parent (kn_vm k) = Inr (n, v)"
    and heap: "heap_ok al (s_heap (kn_sched k))" "(current k, l) \<in> heap_live al (s_heap (kn_sched k))"
    and ok: "space_ok kmap cr3 K (kn_vm k)" and anon: "unat (p_anon_allocate_end parent) \<le> 2 ^ 46"
    and i: "unat (p_elf_end parent) \<le> 0x200000 + 0x1000 * i" and j: "unat (p_anon_allocate_end parent) \<le> 0x800000 + 0x1000 * j"
    and av: "4 * (i + j) < avail (kn_vm k)"
  shows "forked kmap K cr3 parent n (kn_vm k) (kn_vm k')"
proof -
  obtain a v1 b v2 where v: "n \<noteq> cr3" "copy_pages_between_pagetables n cr3 0x200000 (ucast (p_elf_end parent)) v = Inr (a, v1)"
    "copy_pages_between_pagetables n cr3 0x800000 (p_anon_allocate_end parent) v1 = Inr (b, v2)" "forked kmap K cr3 parent n (kn_vm k) v2"
    using fork_memory [OF ok anon i j av] n by auto
  obtain p s1 where p: "fork_process al n (current k) (kn_sched k) = Inr (p, s1)"
    using run n by (auto simp: fork_syscall_def Let_def bind_res_eq_Inr parent_def cr3_def)
  note fr = fork_process_next [OF p] and f = fork_process_frame [OF p]
  obtain h where h: "alloc al sizeof_process (s_heap (kn_sched k)) = Inr (p, h)" using f(2) by blast
  have "p \<noteq> current k" using kernel_heap.alloc_fresh_pointer [OF heap(1) _ h, of l] fr heap(2) by auto
  then have s1: "procs s1 (current k) = parent" "current_process s1 = current k"
    using fr f(1) by (simp_all add: parent_def get_current_process_def)
  have "kn_vm k' = v2"
    using run n v(1-3) p s1 by (auto simp: fork_syscall_def Let_def bind_res_eq_Inr parent_def cr3_def get_current_process_def)
  then show ?thesis using v(4) by simp
qed

text \<open>
  When the calls that allocate are within their resources: the loaded tables are those of the current
  process, there are enough free pages, and pointers of the caller lie in its memory.
\<close>

definition anon_ready :: "(u64 \<Rightarrow> u64 option) \<Rightarrow> u64 \<Rightarrow> u64 \<Rightarrow> kernel \<Rightarrow> bool" where
  "anon_ready kmap sz ptr k \<longleftrightarrow> (let e = p_anon_allocate_end (current_proc k); n = (unat sz + 0xfff) div 0x1000 in
     aligned e \<and> unat e + 0x1000 * n \<le> 2 ^ 47 \<and> unat sz < 2 ^ 42 \<and> 4 * n \<le> avail (kn_vm k) \<and>
     (\<forall>i<8. user_va (ptr + of_nat i) \<and> vbyte kmap (cr3_of k) (kn_vm k) (ptr + of_nat i) \<noteq> None))"

definition fork_ready :: "allocator \<Rightarrow> kernel \<Rightarrow> bool" where
  "fork_ready al k \<longleftrightarrow> p_cr3 (current_proc k) = cr3_of k \<and> heap_ok al (s_heap (kn_sched k)) \<and>
     (\<exists>l. (current k, l) \<in> heap_live al (s_heap (kn_sched k))) \<and> unat (p_anon_allocate_end (current_proc k)) \<le> 2 ^ 46 \<and>
     (\<exists>i j. unat (p_elf_end (current_proc k)) \<le> 0x200000 + 0x1000 * i \<and>
        unat (p_anon_allocate_end (current_proc k)) \<le> 0x800000 + 0x1000 * j \<and> 4 * (i + j) < avail (kn_vm k))"

definition exit_ready :: "kernel \<Rightarrow> bool" where
  "exit_ready k \<longleftrightarrow> p_cr3 (current_proc k) = cr3_of k \<and> unat (p_anon_allocate_end (current_proc k)) \<le> 2 ^ 47"

definition execve_ready :: "(u64 \<Rightarrow> u64 option) \<Rightarrow> u64 set \<Rightarrow> u64 \<Rightarrow> kernel \<Rightarrow> bool" where
  "execve_ready kmap K pathname k \<longleftrightarrow> (\<exists>al archive g ret mp es e nm fp fpath h1 h2 n.
     p_cr3 (current_proc k) = cr3_of k \<and> root_mounted (initramfs_operations al archive g ret) mp (vfs_state kmap k) \<and>
     tar_at (seen kmap (cr3_of k) (kn_vm k)) archive es \<and> find (\<lambda>e. fst e = nm) es = Some e \<and>
     cstring (seen kmap (cr3_of k) (kn_vm k)) pathname nm \<and> length nm < 0x2000 \<and> pathname \<noteq> NULL \<and> nm \<noteq> [] \<and> hd nm = 0x2f \<and>
     unat archive + tar_size es < 2 ^ 64 \<and> archive \<noteq> NULL \<and>
     alloc al 24 (s_heap (kn_sched k)) = Inr (fp, h1) \<and> fp \<noteq> NULL \<and> alloc al (of_nat (length nm) + 1) h1 = Inr (fpath, h2) \<and> fpath \<noteq> NULL \<and>
     (\<forall>i \<le> length nm. user_va (pathname + of_nat i) \<and> vbyte kmap (cr3_of k) (kn_vm k) (pathname + of_nat i) \<noteq> None) \<and>
     (\<forall>x. in_range x archive (tar_size es) \<or> in_range x (mp_path (vs_mps (kn_vfs k) mp)) 2 \<longrightarrow> x \<in> K \<and> \<not> in_range x fpath (length nm + 1)) \<and>
     (\<forall>x. in_range x fpath (length nm + 1) \<longrightarrow> x \<in> K) \<and> unat (p_anon_allocate_end (current_proc k)) \<le> 2 ^ 47 \<and> program_fits (snd e) \<and>
     length (snd e) \<le> 0x1000 * n \<and> 4 * (n + (\<Sum>j<ph_count (snd e). seg_cost (snd e) j)) \<le> avail (kn_vm k))"

text \<open>Files are read and written through a descriptor; the bytes that are read lie in the memory of the caller.\<close>

definition file_ready :: "u64 \<Rightarrow> kernel \<Rightarrow> bool" where
  "file_ready fd k \<longleftrightarrow> (\<exists>x. resource_get (ucast fd) (kn_sched k) = Some x \<and> rs_type x = FILE)"

definition read_ready :: "(u64 \<Rightarrow> u64 option) \<Rightarrow> u64 \<Rightarrow> u64 \<Rightarrow> u64 \<Rightarrow> kernel \<Rightarrow> bool" where
  "read_ready kmap fd buf len k \<longleftrightarrow> (\<exists>x. resource_get (ucast fd) (kn_sched k) = Some x \<and> rs_type x = FILE \<and>
     (\<forall>n v. vfs_read (rs_res x) buf len (vfs_state kmap k) = Inr (n, v) \<longrightarrow> (\<forall>i<unat n. user_va (buf + of_nat i))))"

abbreviation file_reader :: "(u64 \<Rightarrow> u64 option) \<Rightarrow> u64 \<Rightarrow> u64 \<Rightarrow> u64 \<Rightarrow> kernel \<Rightarrow> (i32 \<times> kernel) res" where
  "file_reader kmap \<equiv> \<lambda>f buf n k. narrow (read_file kmap f buf n k)"

abbreviation file_writer :: "(u64 \<Rightarrow> u64 option) \<Rightarrow> u64 \<Rightarrow> u64 \<Rightarrow> u64 \<Rightarrow> kernel \<Rightarrow> (i32 \<times> kernel) res" where
  "file_writer kmap \<equiv> \<lambda>f buf n k. narrow (write_file kmap f buf n k)"

text \<open>
  The state has the address spaces of the processes that are alive.  A step is a store of a user program,
  a system call, or any step that does not touch memory, as a switch to another process.  A call on a pipe is
  a sequence of statements: its stores into the buffer of the caller are steps like those of a user program, the others
  do not touch memory.
\<close>

inductive kernel_step ::
    "(u64 \<Rightarrow> u64 option) \<Rightarrow> u64 set \<Rightarrow> allocator \<Rightarrow> u64 \<Rightarrow> u64 set \<times> kernel \<Rightarrow> u64 set \<times> kernel \<Rightarrow> bool"
  for kmap :: "u64 \<Rightarrow> u64 option" and K :: "u64 set" and al :: allocator where
  user_store: "cr3_of k \<in> C \<Longrightarrow> user_va va \<Longrightarrow> vwrite kmap (cr3_of k) va b (kn_vm k) = Inr vm \<Longrightarrow>
    kernel_step kmap K al (cr3_of k) (C, k) (C, k\<lparr>kn_vm := vm\<rparr>)"
| anon_allocate_call: "cr3_of k \<in> C \<Longrightarrow> anon_ready kmap sz ptr k \<Longrightarrow> anon_allocate_syscall kmap sz ptr k = Inr (r, k') \<Longrightarrow>
    kernel_step kmap K al (cr3_of k) (C, k) (C, k')"
| execve_call: "cr3_of k \<in> C \<Longrightarrow> execve_ready kmap K pathname k \<Longrightarrow> execve_syscall kmap pathname argv envp k = Inr (r, k') \<Longrightarrow>
    kernel_step kmap K al (cr3_of k) (C, k) (C, k')"
| fork_call: "cr3_of k \<in> C \<Longrightarrow> fork_ready al k \<Longrightarrow> fork_space (cr3_of k) (current_proc k) (kn_vm k) = Inr (n, v) \<Longrightarrow>
    fork_syscall al context ctx yield_context k = Inr (r, k') \<Longrightarrow> kernel_step kmap K al (cr3_of k) (C, k) (insert n C, k')"
| exit_call: "cr3_of k \<in> C \<Longrightarrow> exit_ready k \<Longrightarrow> exit_syscall al context k = Inr (r, k') \<Longrightarrow>
    kernel_step kmap K al (cr3_of k) (C, k) (C - {cr3_of k}, k')"
| read_call: "cr3_of k \<in> C \<Longrightarrow> read_ready kmap fd buf len k \<Longrightarrow> read_syscall pipe_op (file_reader kmap) fd buf len k = Inr (r, k') \<Longrightarrow>
    kernel_step kmap K al (cr3_of k) (C, k) (C, k')"
| write_call: "cr3_of k \<in> C \<Longrightarrow> file_ready fd k \<Longrightarrow> write_syscall pipe_op (file_writer kmap) fd buf len k = Inr (r, k') \<Longrightarrow>
    kernel_step kmap K al (cr3_of k) (C, k) (C, k')"
| waitpid_call: "cr3_of k \<in> C \<Longrightarrow> waitpid_syscall al context pid status flags k = Inr (r, k') \<Longrightarrow>
    kernel_step kmap K al (cr3_of k) (C, k) (C, k')"
| other_step: "kn_vm k' = kn_vm k \<Longrightarrow> kernel_step kmap K al a (C, k) (C, k')"

section \<open>Each step is isolated\<close>

lemma space_frames_used: "space_ok kmap cr3 K st \<Longrightarrow> frames_used cr3 st"
  using pt_invD(3) [OF _ upath_path, of "vm_pt st" "vm_ba st" cr3]
  by (fastforce simp: space_ok_def frames_used_def frames_managed_def vm_inv_def translate_def)

lemma unmapped_space:
  assumes ok: "space_ok kmap cr3 K st" and u: "unmapped cr3 R st st'" "vm_inv cr3 st'"
  shows "space_ok kmap cr3 K st'"
proof (rule space_ok_change [OF ok u(2)])
  show "ba_managed (vm_ba st') = ba_managed (vm_ba st)" using u(1) by (simp add: unmapped_def)
  fix va f assume va: "user_va va" "translate (vm_pt st') cr3 va = Some f"
  have "translate (vm_pt st') cr3 (PAGE_ROUND_DOWN va) = Some f" using va round_down_page(3) [OF va(1)] by simp
  then have "translate (vm_pt st) cr3 (PAGE_ROUND_DOWN va) = Some f"
    using u(1) round_down_page(1,2) [OF va(1)] by (auto simp: unmapped_def split: if_splits)
  then show "translate (vm_pt st) cr3 va = Some f \<or> f \<in> ba_managed (vm_ba st)" using round_down_page(3) [OF va(1)] by simp
qed

text \<open>A step on the address space of the actor alone.\<close>

definition own_step :: "(u64 \<Rightarrow> u64 option) \<Rightarrow> u64 set \<Rightarrow> u64 \<Rightarrow> vm \<Rightarrow> vm \<Rightarrow> bool" where
  "own_step kmap K a st st' \<longleftrightarrow> (space_ok kmap a K st \<longrightarrow> isolated kmap a st st' \<and> space_ok kmap a K st')"

lemma user_store_own:
  assumes "user_va va" "vwrite kmap a va b st = Inr st'" shows "own_step kmap K a st st'"
proof -
  have "vbyte kmap a st va \<noteq> None" using assms(2) by (auto simp: vwrite_def vbyte_def split: option.splits)
  then show ?thesis using vwrite_view [of kmap a K st va b] assms by (auto simp: own_step_def written_def)
qed

lemma user_stores_own:
  assumes "for_res n (\<lambda>i. vwrite kmap a (buf + of_nat i) (b i)) st = Inr st'" "\<And>i. i < n \<Longrightarrow> user_va (buf + of_nat i)"
  shows "own_step kmap K a st st'"
  using assms
proof (induction n arbitrary: st')
  case (Suc n)
  obtain st1 where st1: "for_res n (\<lambda>i. vwrite kmap a (buf + of_nat i) (b i)) st = Inr st1" "vwrite kmap a (buf + of_nat n) (b n) st1 = Inr st'"
    using Suc.prems(1) by (auto simp: bind_res_eq_Inr)
  have "own_step kmap K a st st1" using Suc.IH [OF st1(1)] Suc.prems(2) by simp
  moreover have "own_step kmap K a st1 st'" using user_store_own [OF _ st1(2)] Suc.prems(2) by simp
  ultimately show ?case using isolated_trans unfolding own_step_def by blast
qed (simp add: own_step_def isolated_refl)

lemma read_own:
  assumes "read_ready kmap fd buf len k" "read_syscall pipe_op (file_reader kmap) fd buf len k = Inr (r, k')"
  shows "own_step kmap K (cr3_of k) (kn_vm k) (kn_vm k')"
proof -
  obtain x where x: "resource_get (ucast fd) (kn_sched k) = Some x" "rs_type x = FILE"
    "\<And>n v. vfs_read (rs_res x) buf len (vfs_state kmap k) = Inr (n, v) \<Longrightarrow> \<forall>i<unat n. user_va (buf + of_nat i)"
    using assms(1) by (auto simp: read_ready_def)
  obtain n v where "vfs_read (rs_res x) buf len (vfs_state kmap k) = Inr (n, v)" "vfs_store kmap buf (unat n) v k = Inr k'"
    using assms(2) x(1,2) by (auto simp: read_syscall_def resource_rw_def narrow_def read_file_def bind_res_eq_Inr)
  then show ?thesis using user_stores_own [of "unat n"] x(3) by (auto simp: vfs_store_def bind_res_eq_Inr)
qed

lemma write_keeps_memory:
  assumes "file_ready fd k" "write_syscall pipe_op (file_writer kmap) fd buf len k = Inr (r, k')" shows "kn_vm k' = kn_vm k"
  using assms by (auto simp: file_ready_def write_syscall_def resource_rw_def narrow_def write_file_def vfs_store_def bind_res_eq_Inr)

lemma waitpid_keeps_memory:
  assumes "waitpid_syscall al context pid status flags k = Inr (r, k')" shows "kn_vm k' = kn_vm k"
  using assms by (auto simp: waitpid_syscall_def waitpid_check_def bind_res_eq_Inr split: if_splits)

lemma anon_allocate_own:
  assumes "anon_ready kmap sz ptr k" "anon_allocate_syscall kmap sz ptr k = Inr (r, k')"
  shows "own_step kmap K (cr3_of k) (kn_vm k) (kn_vm k')"
  unfolding own_step_def
proof
  assume "space_ok kmap (cr3_of k) K (kn_vm k)"
  from anon_allocate_run [OF this, of sz ptr] show "isolated kmap (cr3_of k) (kn_vm k) (kn_vm k') \<and> space_ok kmap (cr3_of k) K (kn_vm k')"
    using assms by (auto simp: anon_ready_def Let_def)
qed

lemma execve_own:
  assumes "execve_ready kmap K pathname k" "execve_syscall kmap pathname argv envp k = Inr (r, k')"
  shows "own_step kmap K (cr3_of k) (kn_vm k) (kn_vm k')"
  unfolding own_step_def
proof
  assume ok: "space_ok kmap (cr3_of k) K (kn_vm k)"
  show "isolated kmap (cr3_of k) (kn_vm k) (kn_vm k') \<and> space_ok kmap (cr3_of k) K (kn_vm k')"
    using assms(1) unfolding execve_ready_def
  proof (elim exE conjE)
    fix al archive g ret mp es e nm fp fpath h1 h2 n
    note execve_effect [OF _ ok, of al archive g ret mp es nm e pathname fp h1 fpath h2 n argv envp]
    moreover assume "p_cr3 (current_proc k) = cr3_of k" "root_mounted (initramfs_operations al archive g ret) mp (vfs_state kmap k)"
      "tar_at (seen kmap (cr3_of k) (kn_vm k)) archive es" "find (\<lambda>e. fst e = nm) es = Some e"
      "cstring (seen kmap (cr3_of k) (kn_vm k)) pathname nm" "length nm < 0x2000" "pathname \<noteq> NULL" "nm \<noteq> []" "hd nm = 0x2f"
      "unat archive + tar_size es < 2 ^ 64" "archive \<noteq> NULL"
      "alloc al 24 (s_heap (kn_sched k)) = Inr (fp, h1)" "fp \<noteq> NULL" "alloc al (of_nat (length nm) + 1) h1 = Inr (fpath, h2)" "fpath \<noteq> NULL"
      "\<forall>i \<le> length nm. user_va (pathname + of_nat i) \<and> vbyte kmap (cr3_of k) (kn_vm k) (pathname + of_nat i) \<noteq> None"
      "\<forall>x. in_range x archive (tar_size es) \<or> in_range x (mp_path (vs_mps (kn_vfs k) mp)) 2 \<longrightarrow> x \<in> K \<and> \<not> in_range x fpath (length nm + 1)"
      "\<forall>x. in_range x fpath (length nm + 1) \<longrightarrow> x \<in> K" "unat (p_anon_allocate_end (current_proc k)) \<le> 2 ^ 47" "program_fits (snd e)"
      "length (snd e) \<le> 0x1000 * n" "4 * (n + (\<Sum>j<ph_count (snd e). seg_cost (snd e) j)) \<le> avail (kn_vm k)"
    ultimately have "\<exists>k'. execve_syscall kmap pathname argv envp k = Inr (EnterUser (field (snd e) 24 8) 0x400000, k') \<and>
        space_ok kmap (cr3_of k) K (kn_vm k') \<and> isolated kmap (cr3_of k) (kn_vm k) (kn_vm k')" by blast
    then show ?thesis using assms(2) by auto
  qed
qed

lemma exit_own:
  assumes "exit_ready k" "exit_syscall al context k = Inr (r, k')"
  shows "own_step kmap K (cr3_of k) (kn_vm k) (kn_vm k')"
  unfolding own_step_def
proof
  assume ok: "space_ok kmap (cr3_of k) K (kn_vm k)"
  note m = exit_memory [OF assms(2)]
  have "unmapped (cr3_of k) (exit_pages (current_proc k)) (kn_vm k) (kn_vm k')" "frames_used (cr3_of k) (kn_vm k')"
    using m space_frames_used [OF ok] assms(1) by (simp_all add: exit_ready_def)
  then show "isolated kmap (cr3_of k) (kn_vm k) (kn_vm k') \<and> space_ok kmap (cr3_of k) K (kn_vm k')"
    using unmapped_isolated unmapped_space [OF ok] by (auto simp: frames_used_def)
qed

lemma own_step_separated:
  assumes "own_step kmap K a st st'" "a \<in> C" "separated kmap K C st"
  shows "separated kmap K C st'" "c \<in> C \<Longrightarrow> c \<noteq> a \<Longrightarrow> user_va x \<Longrightarrow> vbyte kmap c st' x = vbyte kmap c st x"
  using isolated_separated [OF assms(3,2)] assms separatedD(1) [OF assms(3,2)] unfolding own_step_def by blast+

lemma fork_separated:
  assumes "fork_ready al k" "fork_space (cr3_of k) (current_proc k) (kn_vm k) = Inr (n, v)" "fork_syscall al context ctx yield_context k = Inr (r, k')"
    and "cr3_of k \<in> C" "separated kmap K C (kn_vm k)"
  shows "separated kmap K (insert n C) (kn_vm k')" "c \<in> C \<Longrightarrow> user_va x \<Longrightarrow> vbyte kmap c (kn_vm k') x = vbyte kmap c (kn_vm k) x"
proof -
  have "forked kmap K (cr3_of k) (current_proc k) n (kn_vm k) (kn_vm k')"
    using assms(1) fork_syscall_memory [OF assms(3)] assms(2) separatedD(1) [OF assms(5,4)] by (auto simp: fork_ready_def)
  then show "separated kmap K (insert n C) (kn_vm k')" "c \<in> C \<Longrightarrow> user_va x \<Longrightarrow> vbyte kmap c (kn_vm k') x = vbyte kmap c (kn_vm k) x"
    using forked_separated [OF assms(5)] by blast+
qed

definition user_view :: "(u64 \<Rightarrow> u64 option) \<Rightarrow> u64 \<Rightarrow> u64 set \<times> kernel \<Rightarrow> u64 \<Rightarrow> u8 option" where
  "user_view kmap c s x = (if user_va x then vbyte kmap c (kn_vm (snd s)) x else None)"

lemma user_view_iff:
  "user_view kmap c s' = user_view kmap c s \<longleftrightarrow> (\<forall>x. user_va x \<longrightarrow> vbyte kmap c (kn_vm (snd s')) x = vbyte kmap c (kn_vm (snd s)) x)"
  by (auto simp: user_view_def fun_eq_iff)

lemma kernel_step_respects:
  assumes "kernel_step kmap K al a s s'" "separated kmap K (fst s) (kn_vm (snd s))"
  shows "separated kmap K (fst s') (kn_vm (snd s')) \<and> (\<forall>c \<in> fst s. c \<noteq> a \<longrightarrow> c \<in> fst s' \<and> user_view kmap c s' = user_view kmap c s)"
  using assms
proof cases
  case (user_store k C va b vm)
  then show ?thesis using own_step_separated [OF user_store_own, where K = K] assms(2) by (auto simp: user_view_iff)
next
  case (anon_allocate_call k C sz ptr r k')
  then show ?thesis using own_step_separated [OF anon_allocate_own, where K = K] assms(2) by (auto simp: user_view_iff)
next
  case (execve_call k C pathname argv envp r k')
  then show ?thesis using own_step_separated [OF execve_own, where K = K] assms(2) by (auto simp: user_view_iff)
next
  case (fork_call k C n v "context" ctx yield_context r k')
  then show ?thesis using fork_separated [where kmap = kmap and K = K] assms(2) by (auto simp: user_view_iff)
next
  case (exit_call k C "context" r k')
  note own_step_separated [OF exit_own [OF exit_call(5,6)] exit_call(4), where kmap = kmap and K = K]
  then show ?thesis using exit_call assms(2) separated_mono [of kmap K C "kn_vm k'" "C - {cr3_of k}"] by (auto simp: user_view_iff)
next
  case (read_call k C fd buf len pipe_op r k')
  then show ?thesis using own_step_separated [OF read_own, where K = K] assms(2) by (auto simp: user_view_iff)
next
  case (write_call k C fd pipe_op buf len r k')
  then show ?thesis using write_keeps_memory [OF write_call(5,6)] assms(2) by (simp add: user_view_iff)
next
  case (waitpid_call k C "context" pid status flags r k')
  then show ?thesis using waitpid_keeps_memory [OF waitpid_call(5)] assms(2) by (simp add: user_view_iff)
next
  case (other_step k' k C)
  then show ?thesis using assms(2) by (simp add: user_view_iff)
qed

interpretation kernel_system: separation "kernel_step kmap K al" "\<lambda>s. separated kmap K (fst s) (kn_vm (snd s))" fst "user_view kmap"
  for kmap K al
  by unfold_locales (use kernel_step_respects in blast)+

section \<open>Property\<close>


section \<open>Witness\<close>


end
