(* ===== verification/UserInit.thy ===== *)
theory UserInit
  imports Syscall
begin

text \<open>
  The first user process, \<open>enter_ring_3_init\<close> of \<open>src/src/main.c\<close>: its stack, its program, its
  descriptors, and the values with which it enters user mode.
\<close>

section \<open>Definitions\<close>

definition RESOURCES_INITIAL_CAP :: u64 where "RESOURCES_INITIAL_CAP = 128"

definition enter_ring_3_init ::
    "(u64 \<Rightarrow> u64 option) \<Rightarrow> allocator \<Rightarrow> u64 \<Rightarrow> u64 \<Rightarrow> u64 \<Rightarrow> kernel \<Rightarrow> (outcome \<times> kernel) res" where
  "enter_ring_3_init kmap al init_elf keyboard_pipe print_pipe k =
     bind_res (allocate_region (cr3_of k) 0x200000 0x400000 7 (kn_vm k)) (\<lambda>vm.
     bind_res (map_elf kmap (cr3_of k) init_elf vm) (\<lambda>(elf_end, vm).
     let k = set_current (\<lambda>p. p\<lparr>p_elf_end := elf_end\<rparr>) (k\<lparr>kn_vm := vm\<rparr>);
         proc = current k;
         (pid, s) = get_new_pid (kn_sched k);
         s = set_proc proc (\<lambda>p. p\<lparr>p_pid := pid\<rparr>) s in
     bind_res (resource_table_alloc al RESOURCES_INITIAL_CAP s) (\<lambda>(rtab, s).
     let s = set_proc proc (\<lambda>p. p\<lparr>p_resources := rtab\<rparr>) s in
     if rtab = NULL then Inl Halted else
     let s = set_proc proc (\<lambda>p. p\<lparr>p_resources_cap := ucast RESOURCES_INITIAL_CAP\<rparr>) s in
     bind_res (resource_add al PIPE keyboard_pipe s) (\<lambda>(_, s).
     bind_res (resource_add al PIPE print_pipe s) (\<lambda>(_, s).
     bind_res (vmemset kmap (cr3_of k) 0x200000 0 0x200000 (kn_vm k)) (\<lambda>vm.
     bind_res (vwrite_le kmap (cr3_of k) 8 0x201000 0x201000 vm) (\<lambda>vm.
     bind_res (e_entry kmap (cr3_of k) vm init_elf) (\<lambda>entry.
       Inr (EnterUser entry 0x400000, k\<lparr>kn_sched := s, kn_vm := vm\<rparr>)))))))))"

section \<open>Descriptors\<close>

text \<open>The process with its new table, before the pipes are added.\<close>

definition with_table :: "u64 \<Rightarrow> kheap \<Rightarrow> sched \<Rightarrow> sched" where
  "with_table rtab h s = set_proc (current_process s) (\<lambda>p. p\<lparr>p_pid := next_pid s, p_resources := rtab, p_resources_cap := 128\<rparr>)
     (s\<lparr>next_pid := next_pid s + 1, s_heap := h\<rparr>)"

lemma init_descriptors:
  assumes "\<forall>i<128. rs_type (rtables s rtab i) = EMPTY"
  shows "\<exists>s1 s2. resource_add al PIPE kp (with_table rtab h s) = Inr (0, s1) \<and> resource_add al PIPE pp s1 = Inr (1, s2) \<and>
    resource_get 0 s2 = Some \<lparr>rs_type = PIPE, rs_res = kp\<rparr> \<and> resource_get 1 s2 = Some \<lparr>rs_type = PIPE, rs_res = pp\<rparr> \<and>
    procs s2 = procs (with_table rtab h s) \<and> current_process s2 = current_process s"
proof -
  let ?s = "with_table rtab h s"
  have ok: "table_ok ?s" "table_size ?s = 128" "entry ?s = rtables s rtab" "current_process ?s = current_process s"
    by (simp_all add: with_table_def table_ok_def table_size_def entry_def fun_eq_iff upd_def)
  have "rs_type (entry ?s 0) = EMPTY" using assms ok(3) by simp
  then obtain s1 where 1: "resource_add al PIPE kp ?s = Inr (0, s1)" "table_ok s1" "table_size s1 = 128"
    "current_process s1 = current_process s" "procs s1 = procs ?s" "entry s1 = (rtables s rtab)(0 := \<lparr>rs_type = PIPE, rs_res = kp\<rparr>)"
    using resource_add_free [OF ok(1), of 0 al PIPE kp] ok(2-4) by auto
  have "rs_type (entry s1 1) = EMPTY" "\<forall>j<1. rs_type (entry s1 j) \<noteq> EMPTY" using assms 1(6) by auto
  then obtain s2 where 2: "resource_add al PIPE pp s1 = Inr (1, s2)" "table_ok s2" "table_size s2 = 128"
    "current_process s2 = current_process s" "procs s2 = procs ?s"
    "entry s2 = (rtables s rtab)(0 := \<lparr>rs_type = PIPE, rs_res = kp\<rparr>, 1 := \<lparr>rs_type = PIPE, rs_res = pp\<rparr>)"
    using resource_add_free [OF 1(2), of 1 al PIPE pp] 1(3-6) by auto
  have "resource_get 0 s2 = Some (entry s2 0)" "resource_get 1 s2 = Some (entry s2 1)"
    using resource_get_entry [OF 2(2), of 0] resource_get_entry [OF 2(2), of 1] 2(3) by simp_all
  then show ?thesis using 1(1) 2(1,4-6) by auto
qed

section \<open>Memory\<close>

abbreviation stack_byte :: "u64 \<Rightarrow> u8" where
  "stack_byte x \<equiv> (if in_range x 0x201000 8 then ucast (drop_bit (8 * unat (x - 0x201000)) (0x201000 :: u64)) else 0)"

lemma user_below: "unat x < 2 ^ 47 \<Longrightarrow> user_va x"
  by (simp add: user_va_def word_less_nat_alt)

lemma stack_range: "in_range x 0x200000 0x200000 \<longleftrightarrow> 0x200000 \<le> unat x \<and> unat x < 0x400000"
proof
  assume "in_range x 0x200000 0x200000"
  then obtain i where i: "i < 0x200000" "x = 0x200000 + of_nat i" by (auto simp: in_range_def)
  then have "unat x = 0x200000 + i" by (simp add: unat_add_of_nat_u64)
  then show "0x200000 \<le> unat x \<and> unat x < 0x400000" using i(1) by simp
next
  assume x: "0x200000 \<le> unat x \<and> unat x < 0x400000"
  then have "x = 0x200000 + of_nat (unat x - 0x200000)" by (simp add: word_unat_eq_iff unat_add_of_nat_u64)
  then show "in_range x 0x200000 0x200000" using x unfolding in_range_def by (intro exI [of _ "unat x - 0x200000"]) auto
qed

text \<open>Clearing the stack and storing the word at \<open>0x201000\<close>.\<close>

lemma init_stack:
  assumes ok: "space_ok kmap cr3 K st" and acc: "\<forall>x. 0x200000 \<le> unat x \<longrightarrow> unat x < 0x400000 \<longrightarrow> vbyte kmap cr3 st x \<noteq> None"
  shows "\<exists>st1 st2. vmemset kmap cr3 0x200000 0 0x200000 st = Inr st1 \<and> vwrite_le kmap cr3 8 0x201000 0x201000 st1 = Inr st2 \<and>
    space_ok kmap cr3 K st2 \<and>
    (\<forall>x. 0x200000 \<le> unat x \<longrightarrow> unat x < 0x400000 \<longrightarrow> vbyte kmap cr3 st2 x = Some (stack_byte x)) \<and>
    (\<forall>x \<in> {x. user_va x} \<union> K. \<not> (0x200000 \<le> unat x \<and> unat x < 0x400000) \<longrightarrow> vbyte kmap cr3 st2 x = vbyte kmap cr3 st x)"
proof -
  have "user_va (0x200000 + of_nat i) \<and> vbyte kmap cr3 st (0x200000 + of_nat i) \<noteq> None" if "i < unat (0x200000 :: u64)" for i
    using that acc user_below [of "0x200000 + of_nat i"] by (simp add: unat_add_of_nat_u64)
  then obtain st1 where 1: "vmemset kmap cr3 0x200000 0 0x200000 st = Inr st1" "space_ok kmap cr3 K st1"
    "\<forall>i<0x200000. vbyte kmap cr3 st1 (0x200000 + of_nat i) = Some 0"
    "\<forall>x \<in> {x. user_va x} \<union> K. \<not> in_range x 0x200000 0x200000 \<longrightarrow> vbyte kmap cr3 st1 x = vbyte kmap cr3 st x"
    using vmemset_view [OF ok, of "0x200000" "0x200000" 0] by auto
  have zero: "vbyte kmap cr3 st1 x = Some 0" if "in_range x 0x200000 0x200000" for x
    using that 1(3) by (auto simp: in_range_def)
  have word: "in_range x 0x200000 0x200000" if "in_range x 0x201000 8" for x
  proof -
    obtain i where "i < 8" "x = 0x201000 + of_nat i" using \<open>in_range x 0x201000 8\<close> by (auto simp: in_range_def)
    then show ?thesis unfolding stack_range by (simp add: unat_add_of_nat_u64)
  qed
  have "user_va (0x201000 + of_nat i) \<and> vbyte kmap cr3 st1 (0x201000 + of_nat i) \<noteq> None" if "i < 8" for i
    using that zero [OF word [OF in_range_offset [OF that, of "0x201000"]]] user_below [of "0x201000 + of_nat i"]
    by (simp add: unat_add_of_nat_u64)
  then obtain st2 where 2: "vwrite_le kmap cr3 8 0x201000 0x201000 st1 = Inr st2" "space_ok kmap cr3 K st2"
    "\<forall>i<8. vbyte kmap cr3 st2 (0x201000 + of_nat i) = Some (ucast (drop_bit (8 * i) (0x201000 :: u64)))"
    "\<forall>x \<in> {x. user_va x} \<union> K. \<not> in_range x 0x201000 8 \<longrightarrow> vbyte kmap cr3 st2 x = vbyte kmap cr3 st1 x"
    using vwrite_le_view [OF 1(2), of 8 "0x201000" "0x201000"] by auto
  have "vbyte kmap cr3 st2 x = Some (stack_byte x)" if x: "0x200000 \<le> unat x" "unat x < 0x400000" for x
  proof (cases "in_range x 0x201000 8")
    case True
    then obtain i where i: "i < 8" "x = 0x201000 + of_nat i" by (auto simp: in_range_def)
    moreover have "unat (x - 0x201000) = i" using i by (simp add: unat_of_nat_u64)
    ultimately show ?thesis using 2(3) True by simp
  next
    case False
    then show ?thesis using 2(4) zero x user_below [of x] unfolding stack_range by simp
  qed
  moreover have "vbyte kmap cr3 st2 x = vbyte kmap cr3 st x"
    if "x \<in> {x. user_va x} \<union> K" "\<not> (0x200000 \<le> unat x \<and> unat x < 0x400000)" for x
    using bspec [OF 1(4) that(1)] bspec [OF 2(4) that(1)] word [of x] that(2) unfolding stack_range by argo
  ultimately show ?thesis using 1(1) 2(1,2) by blast
qed

section \<open>The whole function\<close>

lemma segment_above:
  assumes "elf_ok elf bs" "j < ph_count bs" "segment_at bs j = Some sg" "in_range x (sg_vaddr sg) (unat (sg_memsz sg))"
  shows "unat (sg_vaddr sg) \<le> unat x" "user_va x"
proof -
  obtain i where i: "i < unat (sg_memsz sg)" "x = sg_vaddr sg + of_nat i" using assms(4) by (auto simp: in_range_def)
  have "unat (sg_vaddr sg) + unat (sg_memsz sg) < 2 ^ 32" using elf_okD(2) [OF assms(1-3)] by (simp add: seg_end_def)
  then have "unat x = unat (sg_vaddr sg) + i" "unat x < 2 ^ 32" using i by (simp_all add: unat_add_of_nat_u64)
  then show "unat (sg_vaddr sg) \<le> unat x" "user_va x" using user_below [of x] by simp_all
qed

lemma image_above:
  assumes ok: "space_ok kmap cr3 K st" and im: "image_at kmap cr3 K elf bs st" "\<forall>i < length bs. elf + of_nat i \<in> K"
    and same: "\<forall>x \<in> {x. user_va x} \<union> K. \<not> (0x200000 \<le> unat x \<and> unat x < 0x400000) \<longrightarrow> vbyte kmap cr3 st' x = vbyte kmap cr3 st x"
  shows "image_at kmap cr3 K elf bs st'"
  unfolding image_at_def
proof (intro allI impI)
  fix i assume i: "i < length bs"
  have K: "elf + of_nat i \<in> K" using im(2) i by blast
  then have "\<not> user_va (elf + of_nat i)" using ok by (auto simp: space_ok_def kernel_image_def)
  then have "\<not> unat (elf + of_nat i) < 0x400000" using user_below [of "elf + of_nat i"] by auto
  then show "(user_va (elf + of_nat i) \<or> elf + of_nat i \<in> K) \<and> vbyte kmap cr3 st' (elf + of_nat i) = Some (bs ! i)"
    using K same im(1) i by (auto simp: image_at_def)
qed

lemma enter_ring_3_init_run:
  fixes k :: kernel
  defines "cr3 \<equiv> cr3_of k"
  assumes "allocate_region cr3 0x200000 0x400000 7 (kn_vm k) = Inr v1" "map_elf kmap cr3 elf v1 = Inr (e, v2)"
    and "alloc al 2048 (s_heap (snd (get_new_pid (kn_sched k)))) = Inr (rtab, h)" "rtab \<noteq> NULL"
    and "resource_add al PIPE kp (with_table rtab h (set_proc (current k) (\<lambda>p. p\<lparr>p_elf_end := e\<rparr>) (kn_sched k))) = Inr (x, s1)"
      "resource_add al PIPE pp s1 = Inr (y, s2)"
    and "vmemset kmap cr3 0x200000 0 0x200000 v2 = Inr v3" "vwrite_le kmap cr3 8 0x201000 0x201000 v3 = Inr v4"
      "e_entry kmap cr3 v4 elf = Inr ent"
  shows "enter_ring_3_init kmap al elf kp pp k = Inr (EnterUser ent 0x400000, k\<lparr>kn_sched := s2, kn_vm := v4\<rparr>)"
proof -
  let ?s = "set_proc (current k) (\<lambda>p. p\<lparr>p_elf_end := e\<rparr>) (kn_sched k)" and ?c = "current k"
  have "set_proc ?c (\<lambda>p. p\<lparr>p_resources_cap := ucast RESOURCES_INITIAL_CAP\<rparr>) (set_proc ?c (\<lambda>p. p\<lparr>p_resources := rtab\<rparr>)
      ((set_proc ?c (\<lambda>p. p\<lparr>p_pid := next_pid ?s\<rparr>) (snd (get_new_pid ?s)))\<lparr>s_heap := h\<rparr>)) = with_table rtab h ?s"
    by (simp add: with_table_def get_new_pid_def Let_def upd_def RESOURCES_INITIAL_CAP_def get_current_process_def)
  then show ?thesis using assms
    by (simp add: enter_ring_3_init_def get_new_pid_def Let_def resource_table_alloc_def RESOURCES_INITIAL_CAP_def get_current_process_def)
qed

section \<open>Properties\<close>

text \<open>
  (C12) The first process enters user mode with its program and its descriptors: for a well-formed
  program in kernel memory whose segments lie above the stack, with enough free pages, room on the heap
  and a table that is empty, \<open>enter_ring_3_init\<close> jumps to the entry point of the program with the
  stack pointer at the end of the stack; the segments hold the program, the stack holds
  zeros except for the word at \<open>0x201000\<close>, descriptor 0 is the keyboard pipe and descriptor 1 the pipe of
  the console.
\<close>

theorem init_enters_user:
  fixes k :: kernel
  defines "cr3 \<equiv> cr3_of k"
  assumes ok: "space_ok kmap cr3 K (kn_vm k)" and im: "image_at kmap cr3 K elf bs (kn_vm k)" "\<forall>i < length bs. elf + of_nat i \<in> K"
    and elf: "elf_ok elf bs" "\<forall>j < ph_count bs. \<forall>sg. segment_at bs j = Some sg \<longrightarrow> 0x400000 \<le> unat (sg_vaddr sg)"
    and av: "2048 + 4 * (\<Sum>j<ph_count bs. seg_cost bs j) \<le> avail (kn_vm k)"
    and heap: "alloc al 2048 (s_heap (snd (get_new_pid (kn_sched k)))) = Inr (rtab, h)" "rtab \<noteq> NULL"
    and empty: "\<forall>i<128. rs_type (rtables (kn_sched k) rtab i) = EMPTY"
  shows "\<exists>k'. enter_ring_3_init kmap al elf kp pp k = Inr (EnterUser (field bs 24 8) 0x400000, k') \<and>
    space_ok kmap cr3 K (kn_vm k') \<and> p_elf_end (current_proc k') = of_nat (elf_top bs (ph_count bs)) \<and>
    (\<forall>j < ph_count bs. \<forall>sg. segment_at bs j = Some sg \<longrightarrow> loaded kmap cr3 bs sg (kn_vm k')) \<and>
    (\<forall>x. 0x200000 \<le> unat x \<longrightarrow> unat x < 0x400000 \<longrightarrow> vbyte kmap cr3 (kn_vm k') x = Some (stack_byte x)) \<and>
    resource_get 0 (kn_sched k') = Some \<lparr>rs_type = PIPE, rs_res = kp\<rparr> \<and>
    resource_get 1 (kn_sched k') = Some \<lparr>rs_type = PIPE, rs_res = pp\<rparr>"
proof -
  let ?n = "\<Sum>j<ph_count bs. seg_cost bs j"
  obtain v1 where 1: "allocate_region cr3 0x200000 0x400000 7 (kn_vm k) = Inr v1" "space_ok kmap cr3 K v1" "avail (kn_vm k) \<le> avail v1 + 2048"
    "\<forall>x. 0x200000 \<le> unat x \<longrightarrow> unat x < 0x400000 \<longrightarrow> vbyte kmap cr3 v1 x \<noteq> None"
    "\<forall>x. vbyte kmap cr3 (kn_vm k) x \<noteq> None \<longrightarrow> vbyte kmap cr3 v1 x = vbyte kmap cr3 (kn_vm k) x"
    using allocate_region_view [OF ok flags_7, of "0x400000" "0x200000" 512] av by (auto simp: aligned_def)
  have im1: "image_at kmap cr3 K elf bs v1" using im(1) 1(5) by (auto simp: image_at_def)
  have "4 * ?n \<le> avail v1" using av 1(3) by simp
  then obtain v2 where 2: "map_elf kmap cr3 elf v1 = Inr (of_nat (elf_top bs (ph_count bs)), v2)" "space_ok kmap cr3 K v2"
    "image_at kmap cr3 K elf bs v2" "\<forall>j < ph_count bs. \<forall>sg. segment_at bs j = Some sg \<longrightarrow> loaded kmap cr3 bs sg v2"
    "\<forall>x. user_va x \<longrightarrow> outside bs (ph_count bs) x \<longrightarrow> vbyte kmap cr3 v1 x \<noteq> None \<longrightarrow> vbyte kmap cr3 v2 x = vbyte kmap cr3 v1 x"
    using map_elf_effect [OF 1(2) im1 elf(1)] by blast
  have above: "\<not> (0x200000 \<le> unat x \<and> unat x < 0x400000)" "user_va x"
    if "j < ph_count bs" "segment_at bs j = Some sg" "in_range x (sg_vaddr sg) (unat (sg_memsz sg))" for j sg x
    using segment_above [OF elf(1) that] elf(2) that(1,2) by auto
  have "vbyte kmap cr3 v2 x \<noteq> None" if x: "0x200000 \<le> unat x" "unat x < 0x400000" for x
  proof -
    have "outside bs (ph_count bs) x" unfolding outside_def using above(1) x by blast
    then show ?thesis using 2(5) 1(4) x user_below [of x] by simp
  qed
  then obtain v3 v4 where 3: "vmemset kmap cr3 0x200000 0 0x200000 v2 = Inr v3" "vwrite_le kmap cr3 8 0x201000 0x201000 v3 = Inr v4"
    "space_ok kmap cr3 K v4" "\<forall>x. 0x200000 \<le> unat x \<longrightarrow> unat x < 0x400000 \<longrightarrow> vbyte kmap cr3 v4 x = Some (stack_byte x)"
    "\<forall>x \<in> {x. user_va x} \<union> K. \<not> (0x200000 \<le> unat x \<and> unat x < 0x400000) \<longrightarrow> vbyte kmap cr3 v4 x = vbyte kmap cr3 v2 x"
    using init_stack [OF 2(2)] by blast
  have "image_at kmap cr3 K elf bs v4" by (rule image_above [OF 2(2,3) im(2) 3(5)])
  then have entry: "e_entry kmap cr3 v4 elf = Inr (field bs 24 8)"
    using vread_le_field [of kmap cr3 K elf bs v4 24 8] elf(1) by (simp add: e_entry_def elf_ok_def)
  have load: "loaded kmap cr3 bs sg v4" if "j < ph_count bs" "segment_at bs j = Some sg" for j sg
    using 2(4) that above [OF that in_range_offset] 3(5) by (simp add: loaded_def)
  let ?s = "set_proc (current k) (\<lambda>p. p\<lparr>p_elf_end := of_nat (elf_top bs (ph_count bs))\<rparr>) (kn_sched k)"
  obtain s1 s2 where s: "resource_add al PIPE kp (with_table rtab h ?s) = Inr (0, s1)" "resource_add al PIPE pp s1 = Inr (1, s2)"
    "resource_get 0 s2 = Some \<lparr>rs_type = PIPE, rs_res = kp\<rparr>" "resource_get 1 s2 = Some \<lparr>rs_type = PIPE, rs_res = pp\<rparr>"
    "procs s2 = procs (with_table rtab h ?s)" "current_process s2 = current_process (kn_sched k)"
    using init_descriptors [of ?s rtab al kp h pp] empty by auto
  have "enter_ring_3_init kmap al elf kp pp k = Inr (EnterUser (field bs 24 8) 0x400000, k\<lparr>kn_sched := s2, kn_vm := v4\<rparr>)"
    using enter_ring_3_init_run 1(1) 2(1) heap s(1,2) 3(1,2) entry unfolding cr3_def by blast
  moreover have "p_elf_end (procs s2 (current_process s2)) = of_nat (elf_top bs (ph_count bs))"
    using s(5,6) by (simp add: with_table_def upd_def get_current_process_def)
  ultimately show ?thesis using 3(3,4) load s(3,4)
    by (intro exI [of _ "k\<lparr>kn_sched := s2, kn_vm := v4\<rparr>"]) (simp add: get_current_process_def)
qed

section \<open>Witness\<close>

text \<open>An address space over 4095 free pages, with a program in kernel memory, and a heap of 64 KiB.\<close>

definition pages_sample :: bitmap_allocator where
  "pages_sample = \<lparr>ba_areas = [\<lparr>a_first_page = 0x101000, a_pages_count = 4095, a_used = 0, a_data = (\<lambda>_. 0)\<rparr>]\<rparr>"

definition init_heap :: "allocator \<times> kheap" where
  "init_heap = new_allocator 0x10000 0x10000
     \<lparr>nodes = (\<lambda>_. \<lparr>hn_size = 0, hn_status = USED, hn_prev = NULL, hn_next = NULL\<rparr>), klog = []\<rparr>"

definition init_sample :: kernel where
  "init_sample = kernel_sample\<lparr>kn_sched := (kn_sched kernel_sample)\<lparr>s_heap := snd init_heap\<rparr>,
     kn_vm := \<lparr>vm_pt = (\<lambda>_. 0), vm_mem = image_mem (elf_sample 0 5), vm_ba = pages_sample\<rparr>\<rparr>"

lemma pages_sample_inv:
  "ba_inv pages_sample" "ba_in_use pages_sample = {}" "card (ba_managed pages_sample) = 4095"
  "p \<in> ba_managed pages_sample \<Longrightarrow> unat p < 2 ^ 52 \<and> 0x101000 \<le> unat p"
proof -
  let ?a = "hd (ba_areas pages_sample)"
  have t: "taken ?a = {}" by (auto simp: taken_def pages_sample_def bit_set_iff)
  then show inv: "ba_inv pages_sample"
    by (simp add: pages_sample_def ba_inv_def area_inv_def area_end_def)
  show "ba_in_use pages_sample = {}" using t by (simp add: ba_in_use_def area_in_use_def pages_sample_def)
  have a: "area_inv ?a" "ba_managed pages_sample = page_addr ?a ` {..<4095}" "unat (a_pages_count ?a) = 4095"
    using inv by (simp_all add: ba_inv_def pages_sample_def ba_managed_def area_pages_def)
  then have "inj_on (page_addr ?a) {..<4095}" using page_addr_inj by (auto intro!: inj_onI)
  then show "card (ba_managed pages_sample) = 4095" by (simp add: a(2) card_image)
  assume "p \<in> ba_managed pages_sample"
  then obtain i where "i < 4095" "p = page_addr ?a i" using a(2) by auto
  with unat_page_addr [OF a(1), of i] show "unat p < 2 ^ 52 \<and> 0x101000 \<le> unat p" by (simp add: pages_sample_def)
qed

lemma init_sample_alloc:
  "\<exists>h. alloc (fst init_heap) 2048 (s_heap (snd (get_new_pid (kn_sched init_sample)))) = Inr (0x10020, h)"
proof -
  let ?h = "s_heap (snd (get_new_pid (kn_sched init_sample)))"
  have inv: "heap_inv (fst init_heap) (nodes (snd init_heap)) [0x10000]" "blocks (nodes (snd init_heap)) [0x10000] = [(0x10000, 0xffe0, FREE)]"
    using new_allocator_struct [of "0x10000" "0x10000" _ "fst init_heap" "snd init_heap"] by (simp_all add: init_heap_def)
  have n: "nodes ?h = nodes (snd init_heap)" by (simp add: get_new_pid_def init_sample_def Let_def)
  have "first_fit (rounded 2048) (blocks (nodes ?h) [0x10000]) = (0x10020, [(0x10000, 2048, USED), (0x10820, 0xf7c0, FREE)])"
    unfolding n inv(2) by (simp add: rounded_def)
  then show ?thesis using alloc_first_fit [of "fst init_heap" ?h "[0x10000]" 2048] inv(1) unfolding n by auto
qed

theorem init_enters_user_witness:
  "\<exists>k'. enter_ring_3_init elf_kmap (fst init_heap) 0xffff800000002000 0x7000 0x8000 init_sample = Inr (EnterUser 0x400000 0x400000, k') \<and>
     resource_get 1 (kn_sched k') = Some \<lparr>rs_type = PIPE, rs_res = 0x8000\<rparr> \<and> vbyte elf_kmap 0x1000 (kn_vm k') 0x200000 = Some 0"
proof -
  let ?bs = "elf_sample 0 5" and ?vm = "kn_vm init_sample"
  let ?K = "{x. in_range x 0xffff800000002000 (length ?bs)}"
  obtain h where h: "alloc (fst init_heap) 2048 (s_heap (snd (get_new_pid (kn_sched init_sample)))) = Inr (0x10020, h)"
    using init_sample_alloc by blast
  have vm: "vm_pt ?vm = (\<lambda>_. 0)" "vm_ba ?vm = pages_sample" "vm_mem ?vm = image_mem ?bs" by (simp_all add: init_sample_def)
  have "vm_inv 0x1000 ?vm" by (rule vm_empty_inv) (use pages_sample_inv vm in auto)
  then have sp: "space_ok elf_kmap 0x1000 ?K ?vm" "image_at elf_kmap 0x1000 ?K 0xffff800000002000 ?bs ?vm"
    using image_space [of ?bs ?vm] pages_sample_inv(4) vm by (auto simp: elf_sample_segment)
  have K: "\<forall>i < length ?bs. 0xffff800000002000 + of_nat i \<in> ?K" by (auto simp: in_range_offset)
  have cr3: "cr3_of init_sample = 0x1000" using kernel_sample_chain(3) by (simp add: init_sample_def)
  have av: "2048 + 4 * (\<Sum>j<ph_count ?bs. seg_cost ?bs j) \<le> avail ?vm"
    using pages_sample_inv(2,3) vm(2) by (simp add: avail_def elf_sample_segment seg_cost_def seg_pages_def)
  have e: "field ?bs 24 8 = 0x400000" by code_simp
  have "\<forall>i<128. rs_type (rtables (kn_sched init_sample) 0x10020 i) = EMPTY" by (simp add: init_sample_def kernel_sample_def sched_sample_def)
  then obtain k' where k': "enter_ring_3_init elf_kmap (fst init_heap) 0xffff800000002000 0x7000 0x8000 init_sample = Inr (EnterUser 0x400000 0x400000, k')"
    "\<forall>x. 0x200000 \<le> unat x \<longrightarrow> unat x < 0x400000 \<longrightarrow> vbyte elf_kmap 0x1000 (kn_vm k') x = Some (stack_byte x)"
    "resource_get 1 (kn_sched k') = Some \<lparr>rs_type = PIPE, rs_res = 0x8000\<rparr>"
    using init_enters_user [of elf_kmap init_sample ?K "0xffff800000002000" ?bs "fst init_heap" "0x10020" h "0x7000" "0x8000"]
      sp K elf_sample_ok av h unfolding cr3 e by (auto simp: elf_sample_segment)
  have "\<not> in_range 0x200000 0x201000 8" by (rule disjoint_ranges [of "0x200000" 1]) (simp_all add: in_range_def)
  then show ?thesis using k'(1,3) k'(2) [rule_format, of "0x200000"] by auto
qed

end
