(* ===== verification/Boot.thy ===== *)
theory Boot
  imports Syscall Framebuffer Keyboard
begin

text \<open>
  The boot sequence, \<open>src/src/main.c\<close>: what the boot loader provides, the initialisation of every
  component in the order of \<open>_start\<close>.

  The state of the whole kernel is collected in one record.  The kernel heap is that of the
  process table; the file system works on it through a lens.  Video memory is a memory of its own, and
  the bytes printed to the framebuffer pipe are events, as in \<open>Printk\<close>.  The processor is not
  taken away from the boot code before it is done.
\<close>

section \<open>State\<close>

text \<open>The responses of the boot loader; \<open>None\<close> is a null pointer.\<close>

record limine_responses =
  base_revision_supported :: bool
  framebuffer_response :: "limine_framebuffer list option"
  memmap_response :: "limine_memmap_entry list option"
  hhdm_response :: "u64 option"
  module_response :: "u64 list option"

text \<open>Addresses that the linker and the stack layout fix, and values that are not initialised.\<close>

record image =
  im_font :: u64
  im_putchar :: u64
  im_fb :: u64
  im_isr_stub_table :: "nat \<Rightarrow> u64"
  im_kernel_stack :: u64
  im_double_fault_stack :: u64
  im_tss :: u64
  im_timer_handler :: u64
  im_keyboard_handler :: u64
  im_syscall_handler :: u64
  im_init_path :: u64
  im_root_path :: u64
  im_mutexes :: u64
  im_print_process :: u64
  im_enter_ring_3_init :: u64
  im_unset_pointer :: u64
  im_unset_int :: i32

record boot =
  bt_video :: "framebuffer \<times> mem"
  bt_fb_default :: u64
  bt_out :: "koutput list"
  bt_segments :: segments
  bt_ps :: pstate
  bt_vm :: vm
  bt_vfs :: vstate
  bt_control :: control
  bt_al :: allocator
  bt_init_elf :: u64
  bt_keyboard_pipe :: u64
  bt_print_pipe :: u64

abbreviation bt_sched :: "boot \<Rightarrow> sched" where
  "bt_sched b \<equiv> k_sched (ps_k (bt_ps b))"

abbreviation set_bt_sched :: "sched \<Rightarrow> boot \<Rightarrow> boot" where
  "set_bt_sched s b \<equiv> b\<lparr>bt_ps := (bt_ps b)\<lparr>ps_k := (ps_k (bt_ps b))\<lparr>k_sched := s\<rparr>\<rparr>\<rparr>"

abbreviation bt_heap :: "boot \<Rightarrow> kheap" where
  "bt_heap b \<equiv> s_heap (bt_sched b)"

section \<open>Messages\<close>

text \<open>
  Printing a literal without conversions puts out its characters.  Characters for the early
  framebuffer are drawn at once.
\<close>

definition perform :: "u64 \<Rightarrow> koutput \<Rightarrow> boot \<Rightarrow> boot" where
  "perform font e b = (case e of
       Early fb c \<Rightarrow> b\<lparr>bt_video := snd (fb_putchar font c (bt_video b)), bt_out := bt_out b @ [e]\<rparr>
     | _ \<Rightarrow> b\<lparr>bt_out := bt_out b @ [e]\<rparr>)"

definition print_literal :: "image \<Rightarrow> u32 \<Rightarrow> string \<Rightarrow> boot \<Rightarrow> boot" where
  "print_literal im type s b = fold (perform (im_font im)) (put_chars (bt_fb_default b) type (map of_char s)) b"

abbreviation early :: "image \<Rightarrow> string \<Rightarrow> boot \<Rightarrow> boot" where
  "early im s \<equiv> print_literal im (QEMU_SERIAL OR EARLY) (s @ [CHR 0x0A])"

section \<open>The entry point\<close>

definition start_early :: "image \<Rightarrow> limine_responses \<Rightarrow> boot \<Rightarrow> boot res" where
  "start_early im li b =
     (case framebuffer_response li of
        Some (info # _) \<Rightarrow>
          if \<not> base_revision_supported li then Inl Halted
          else let b = b\<lparr>bt_video := framebuffer_init (im_putchar im) info (bt_video b)\<rparr>;
                   b = b\<lparr>bt_fb_default := early_printk_init (im_fb im) (bt_fb_default b)\<rparr>;
                   b = early im ''OS for BS'' b;
                   b = set_bt_sched ((bt_sched b)\<lparr>s_cpu := exceptions_init (im_isr_stub_table im) (s_cpu (bt_sched b))\<rparr>) b;
                   b = early im ''[OK] Exceptions'' b;
                   b = b\<lparr>bt_segments := gdt_init (im_kernel_stack im) (im_double_fault_stack im) (im_tss im)\<rparr>
               in Inr (early im ''[OK] GDT'' b)
      | _ \<Rightarrow> Inl Halted)"

definition start_memory :: "image \<Rightarrow> limine_responses \<Rightarrow> boot \<Rightarrow> boot res" where
  "start_memory im li b =
     (case (memmap_response li, hhdm_response li) of
        (Some memmap, Some offset) \<Rightarrow>
          bind_res (bitmap_allocator_init (vmem (bt_vfs b)) memmap offset) (\<lambda>ba.
          let b = early im ''[OK] Bitmap Allocator'' (b\<lparr>bt_vm := (bt_vm b)\<lparr>vm_ba := ba\<rparr>\<rparr>) in
          bind_res (allocate_region (read_cr3 (s_cpu (bt_sched b))) (0xffffffff80000000 - 0x200000) 0xffffffff80000000 3 (bt_vm b)) (\<lambda>vm.
          let b = early im ''[OK] Heap'' (b\<lparr>bt_vm := vm\<rparr>);
              (al, h) = new_allocator (0xffffffff80000000 - 0x200000) 0x200000 (bt_heap b);
              b = set_bt_sched ((bt_sched b)\<lparr>s_heap := h\<rparr>) (b\<lparr>bt_al := al\<rparr>)
          in Inr (early im ''[OK] Allocator'' b)))
      | _ \<Rightarrow> Inl Halted)"

definition start_sched :: "image \<Rightarrow> boot \<Rightarrow> boot res" where
  "start_sched im b =
     bind_res (sched_init (im_timer_handler im) (bt_al b) (bt_sched b)) (\<lambda>s.
       Inr (early im ''[OK] Scheduler'' (set_bt_sched s b)))"

definition start_modules :: "image \<Rightarrow> limine_responses \<Rightarrow> boot \<Rightarrow> boot res" where
  "start_modules im li b =
     (case module_response li of
        Some (archive # _) \<Rightarrow>
          bind_res (initramfs_lookup (vmem (bt_vfs b)) archive (im_init_path im) (bt_init_elf b)) (\<lambda>(init_file_size, init_elf).
            if init_file_size = 0 then Inl Halted else Inr (b\<lparr>bt_init_elf := init_elf\<rparr>))
      | _ \<Rightarrow> Inl Halted)"

definition start_mutexes :: "image \<Rightarrow> boot \<Rightarrow> boot" where
  "start_mutexes im b =
     (let k = ps_k (bt_ps b);
          (_, k) = mutex_create (im_mutexes im) k;
          (_, k) = mutex_create (im_mutexes im + sizeof_mutex) k;
          (_, k) = mutex_create (im_mutexes im + 2 * sizeof_mutex) k;
          b = early im ''[OK] Mutexes'' (b\<lparr>bt_ps := (bt_ps b)\<lparr>ps_k := k\<rparr>\<rparr>);
          b = early im ''Giving up execution to scheduler'' b;
          c = s_cpu (bt_sched b)
      in set_bt_sched ((bt_sched b)\<lparr>s_cpu := c\<lparr>c_flags := c_flags c OR 0x200\<rparr>\<rparr>) b)"

definition start_services :: "image \<Rightarrow> limine_responses \<Rightarrow> boot \<Rightarrow> boot res" where
  "start_services im li b =
     bind_res (keyboard_process_init (im_keyboard_handler im) (bt_al b) (bt_ps b)) (\<lambda>(kp, ps).
     let b = b\<lparr>bt_ps := ps, bt_keyboard_pipe := kp, bt_control := syscall_init (im_syscall_handler im) (bt_control b)\<rparr> in
     bind_res (pipe_create (bt_al b) 0x100 (bt_ps b)) (\<lambda>(pp, ps).
     let b = b\<lparr>bt_ps := ps, bt_print_pipe := pp\<rparr> in
     bind_res (add_process (bt_al b) (im_print_process im) (bt_sched b)) (\<lambda>s.
     let b = set_bt_sched s b; v = set_vheap (bt_heap b) (bt_vfs b) in
     bind_res (vfs_init (bt_al b) (im_root_path im)
       (initramfs_operations (bt_al b) (hd (the (module_response li))) (im_unset_pointer im) (im_unset_int im)) v) (\<lambda>v.
     let b = set_bt_sched ((bt_sched b)\<lparr>s_heap := vheap v\<rparr>) (b\<lparr>bt_vfs := v\<rparr>);
         b = print_literal im (QEMU_SERIAL OR FRAMEBUFFER) (''[OK] VFS'' @ [CHR 0x0A]) b in
     bind_res (add_process (bt_al b) (im_enter_ring_3_init im) (bt_sched b)) (\<lambda>s.
       Inr (set_bt_sched s b))))))"

definition kstart :: "image \<Rightarrow> limine_responses \<Rightarrow> boot \<Rightarrow> boot res" where
  "kstart im li b =
     bind_res (start_early im li b) (\<lambda>b.
     bind_res (start_memory im li b) (\<lambda>b.
     bind_res (start_sched im b) (\<lambda>b.
     bind_res (start_modules im li b) (\<lambda>b.
       start_services im li (start_mutexes im b)))))"

section \<open>Messages change the screen only\<close>

lemma perform_frame: "\<exists>v out. perform font e b = b\<lparr>bt_video := v, bt_out := out\<rparr>"
proof (cases e)
  case (Early fb c)
  then show ?thesis
    by (intro exI [of _ "snd (fb_putchar font c (bt_video b))"] exI [of _ "bt_out b @ [e]"]) (simp add: perform_def)
next
  case (Serial c)
  then show ?thesis by (intro exI [of _ "bt_video b"] exI [of _ "bt_out b @ [e]"]) (simp add: perform_def)
next
  case (ToPipe c)
  then show ?thesis by (intro exI [of _ "bt_video b"] exI [of _ "bt_out b @ [e]"]) (simp add: perform_def)
qed

lemma print_literal_frame: "\<exists>v out. print_literal im type s b = b\<lparr>bt_video := v, bt_out := out\<rparr>"
proof -
  have "\<exists>v out. fold (perform font) es b = b\<lparr>bt_video := v, bt_out := out\<rparr>" for font es
  proof (induction es arbitrary: b)
    case Nil
    show ?case by (intro exI [of _ "bt_video b"] exI [of _ "bt_out b"]) simp
  next
    case (Cons e es)
    obtain v out where 1: "perform font e b = b\<lparr>bt_video := v, bt_out := out\<rparr>" using perform_frame by blast
    obtain v' out' where "fold (perform font) es (b\<lparr>bt_video := v, bt_out := out\<rparr>) =
        b\<lparr>bt_video := v, bt_out := out\<rparr>\<lparr>bt_video := v', bt_out := out'\<rparr>" using Cons.IH by blast
    with 1 show ?case by (intro exI [of _ v'] exI [of _ out']) simp
  qed
  then show ?thesis by (simp add: print_literal_def)
qed

lemma print_literal_keeps [simp]:
  "bt_fb_default (print_literal im type s b) = bt_fb_default b"
  "bt_segments (print_literal im type s b) = bt_segments b"
  "bt_ps (print_literal im type s b) = bt_ps b" "bt_vm (print_literal im type s b) = bt_vm b"
  "bt_vfs (print_literal im type s b) = bt_vfs b" "bt_control (print_literal im type s b) = bt_control b"
  "bt_al (print_literal im type s b) = bt_al b" "bt_init_elf (print_literal im type s b) = bt_init_elf b"
  "bt_keyboard_pipe (print_literal im type s b) = bt_keyboard_pipe b"
  "bt_print_pipe (print_literal im type s b) = bt_print_pipe b"
  using print_literal_frame [of im type s b] by auto

section \<open>A heap from which nothing was freed\<close>

text \<open>All blocks but the last are in use; the last one begins \<open>n\<close> bytes behind the start of the heap.\<close>

definition grown :: "allocator \<Rightarrow> nat \<Rightarrow> kheap \<Rightarrow> bool" where
  "grown al n h \<longleftrightarrow> (\<exists>xs bs. heap_inv al (nodes h) xs \<and> (\<forall>b \<in> set bs. snd (snd b) = USED) \<and>
     blocks (nodes h) xs = bs @ [(al_addr al + of_nat n, al_size al - of_nat (n + 32), FREE)])"

lemma grown_new:
  assumes "new_allocator addr sz h = (al, h')" "32 \<le> unat addr" "64 \<le> unat sz" "unat addr + unat sz < 2 ^ 64"
  shows "grown al 0 h'"
  using new_allocator_struct [OF assms(2-4,1)] assms(1) unfolding grown_def
  by (intro exI [of _ "[addr]"] exI [of _ "[]"]) (auto simp: new_allocator_def)

lemma grown_alloc:
  assumes g: "grown al n h" and sz: "unat (rounded sz) + n + 96 \<le> unat (al_size al)"
  shows "\<exists>h'. alloc al sz h = Inr (al_addr al + of_nat (n + 32), h') \<and> grown al (n + 32 + unat (rounded sz)) h'"
proof -
  let ?s = "al_size al - of_nat (n + 32)" and ?r = "rounded sz" and ?a = "al_addr al + of_nat n"
  obtain xs bs where inv: "heap_inv al (nodes h) xs" and used: "\<forall>b \<in> set bs. snd (snd b) = USED"
    and bs: "blocks (nodes h) xs = bs @ [(?a, ?s, FREE)]" using g by (auto simp: grown_def)
  have n: "unat (of_nat (n + 32) :: u64) = n + 32" using sz unat_u64_lt [of "al_size al"] by (simp only: unat_of_nat) simp
  then have us: "unat ?s = unat (al_size al) - (n + 32)"
    using sz unat_sub_u64 [of "of_nat (n + 32)" "al_size al"] by (simp add: word_le_nat_alt)
  have small: "unat sz + 64 < 2 ^ 64" using sz unat_u64_lt [of "al_size al"] rounded_le [of sz] by linarith
  have "\<forall>b \<in> set bs. \<not> fits ?r b" using used by (auto simp: fits_def)
  then have "first_fit ?r (bs @ [(?a, ?s, FREE)]) =
      (fst (first_fit ?r [(?a, ?s, FREE)]), bs @ snd (first_fit ?r [(?a, ?s, FREE)]))" by (rule first_fit_skip)
  moreover have "?s \<noteq> ?r" "unat ?r + 64 \<le> unat ?s" using us sz by auto
  ultimately have ff: "first_fit ?r (blocks (nodes h) xs) =
      (?a + 32, bs @ [(?a, ?r, USED), (?a + ?r + 32, ?s - ?r - 32, FREE)])" using bs by simp
  obtain h' ys where h': "alloc al sz h = Inr (?a + 32, h')" "heap_inv al (nodes h') ys"
    "blocks (nodes h') ys = bs @ [(?a, ?r, USED), (?a + ?r + 32, ?s - ?r - 32, FREE)]"
    using alloc_first_fit [OF inv small] ff by auto
  have "?a + ?r + 32 = al_addr al + of_nat (n + 32 + unat ?r)"
    "?s - ?r - 32 = al_size al - of_nat (n + 32 + unat ?r + 32)" by (simp_all add: algebra_simps)
  then have "grown al (n + 32 + unat ?r) h'" unfolding grown_def
    using h'(2,3) used by (intro exI [of _ ys] exI [of _ "bs @ [(?a, ?r, USED)]"]) auto
  then show ?thesis using h'(1) by (auto simp: algebra_simps)
qed

lemma grown_ok: "grown al n h \<Longrightarrow> heap_ok al h"
  by (auto simp: grown_def heap_ok_def)

section \<open>Mapping the kernel heap\<close>

text \<open>
  Whatever the tables of the boot loader contain, mapping a page halts only when the page
  allocator is out of pages.
\<close>

definition pages_left :: "nat \<Rightarrow> vm \<Rightarrow> bool" where
  "pages_left k st \<longleftrightarrow> ba_inv (vm_ba st) \<and> k \<le> avail st"

lemma pages_left_mono: "pages_left k st \<Longrightarrow> j \<le> k \<Longrightarrow> pages_left j st"
  by (simp add: pages_left_def)

lemma alloc_frame_returns:
  assumes "pages_left (Suc k) st"
  shows "\<exists>n ba. alloc_page_or_halt (vm_ba st) = Inr (n, ba) \<and> (\<forall>pt. pages_left k (st\<lparr>vm_ba := ba, vm_pt := pt\<rparr>))"
proof -
  have ok: "ba_inv (vm_ba st)" and av: "Suc k \<le> avail st" using assms by (simp_all add: pages_left_def)
  have "ba_in_use (vm_ba st) \<subset> ba_managed (vm_ba st)" using av by (intro avail_subset) simp
  then obtain n ba where n: "allocate_page (vm_ba st) = Inr (n, ba)" "ba_inv ba" "ba_managed ba = ba_managed (vm_ba st)"
    "n \<noteq> NULL" "n \<in> ba_managed (vm_ba st) - ba_in_use (vm_ba st)" "ba_in_use ba = insert n (ba_in_use (vm_ba st))"
    using bitmap_pages.get_fresh [OF ok] by blast
  have "ba_managed ba - ba_in_use ba = ba_managed (vm_ba st) - ba_in_use (vm_ba st) - {n}" using n(3,6) by auto
  then have "k \<le> card (ba_managed ba - ba_in_use ba)"
    using av n(5) bitmap_pages.managed_finite [OF ok] by (simp add: avail_def)
  then show ?thesis using n(1,2,4) by (simp add: alloc_page_or_halt_def pages_left_def avail_def)
qed

lemma ensure_returns:
  assumes "pages_left (Suc k) st"
  shows "\<exists>st'. ensure_table e flags st = Inr st' \<and> pages_left k st'" "\<exists>st'. ensure_page e flags st = Inr st' \<and> pages_left k st'"
  using alloc_frame_returns [OF assms] pages_left_mono [OF assms, of k]
  by (auto simp: ensure_table_def ensure_page_def)

lemma map_memory_page_returns:
  assumes "pages_left (Suc (Suc (Suc (Suc k)))) st"
  shows "\<exists>st'. map_memory_page cr3 va flags st = Inr st' \<and> pages_left k st'"
proof -
  let ?e4 = "entry_addr cr3 (drop_bit 39 va AND 0x1ff)"
  obtain st1 where 1: "ensure_table ?e4 flags st = Inr st1" "pages_left (Suc (Suc (Suc k))) st1"
    using ensure_returns(1) [OF assms] by blast
  let ?e3 = "entry_addr (next_table (vm_pt st1) ?e4) (drop_bit 30 va AND 0x1ff)"
  obtain st2 where 2: "ensure_table ?e3 flags st1 = Inr st2" "pages_left (Suc (Suc k)) st2"
    using ensure_returns(1) [OF 1(2)] by blast
  let ?e2 = "entry_addr (next_table (vm_pt st2) ?e3) (drop_bit 21 va AND 0x1ff)"
  obtain st3 where 3: "ensure_table ?e2 flags st2 = Inr st3" "pages_left (Suc k) st3"
    using ensure_returns(1) [OF 2(2)] by blast
  show ?thesis using ensure_returns(2) [OF 3(2)] 1(1) 2(1) 3(1) by (auto simp: map_memory_page_def Let_def)
qed

lemma allocate_region_returns:
  assumes "pages_left (4 * k) st" "unat en \<le> unat (PAGE_ROUND_DOWN start) + 0x1000 * k" "unat en + 0x1000 < 2 ^ 64"
  shows "\<exists>st'. allocate_region cr3 start en flags st = Inr st' \<and> ba_inv (vm_ba st')"
proof -
  define I where "I va st \<longleftrightarrow> (\<exists>j. unat en \<le> unat va + 0x1000 * j \<and> pages_left (4 * j) st)" for va :: u64 and st
  have "\<exists>st' va'. page_loop (\<lambda>va. map_memory_page cr3 va flags) (PAGE_ROUND_DOWN start) en st = Inr st' \<and> I va' st' \<and>
      en \<le> va' \<and> (va' = PAGE_ROUND_DOWN start \<or> unat va' < unat en + 0x1000)"
  proof (rule page_loop_invariant [OF _ assms(3)])
    show "I (PAGE_ROUND_DOWN start) st" using assms(1,2) by (auto simp: I_def)
    fix va st assume I: "I va st" and lt: "va < en"
    obtain j where j: "unat en \<le> unat va + 0x1000 * j" "pages_left (4 * j) st" using I by (auto simp: I_def)
    obtain i where i: "j = Suc i" using j(1) lt by (cases j) (simp_all add: word_less_nat_alt)
    have "pages_left (Suc (Suc (Suc (Suc (4 * i))))) st" by (rule pages_left_mono [OF j(2)]) (simp add: i)
    from map_memory_page_returns [OF this, of cr3 va flags]
    obtain st' where st': "map_memory_page cr3 va flags st = Inr st'" "pages_left (4 * i) st'" by blast
    have "unat (va + PAGE_SIZE) = unat va + 0x1000"
      using lt assms(3) unat_add_of_nat_u64 [of va "0x1000"] by (simp add: word_less_nat_alt)
    then have "I (va + PAGE_SIZE) st'" unfolding I_def using j(1) i st'(2) by (intro exI [of _ i]) simp
    then show "\<exists>st'. map_memory_page cr3 va flags st = Inr st' \<and> I (va + PAGE_SIZE) st'" using st'(1) by blast
  qed
  then show ?thesis by (auto simp: allocate_region_def I_def pages_left_def)
qed

section \<open>The heap of the kernel\<close>

abbreviation boot_al :: allocator where
  "boot_al \<equiv> \<lparr>al_first = 0xffffffff7fe00000, al_addr = 0xffffffff7fe00000, al_size = 0x200000\<rparr>"

definition heap_ptr :: "nat \<Rightarrow> u64" where
  "heap_ptr n = 0xffffffff7fe00000 + of_nat (n + 32)"

lemma unat_heap_ptr: "n + 32 < 0x200000 \<Longrightarrow> unat (heap_ptr n) = 0xffffffff7fe00020 + n"
  unfolding heap_ptr_def by (subst unat_add_of_nat_u64) simp_all

lemma heap_ptr_nonnull: "n + 32 < 0x200000 \<Longrightarrow> heap_ptr n \<noteq> NULL"
  using unat_heap_ptr [of n] by auto

lemma heap_ptr_inj: "m + 32 < 0x200000 \<Longrightarrow> n + 32 < 0x200000 \<Longrightarrow> heap_ptr m = heap_ptr n \<longleftrightarrow> m = n"
  using unat_heap_ptr [of n] unat_heap_ptr [of m] by auto

lemma boot_alloc:
  assumes "grown boot_al n h" "m = n + 32 + unat (rounded sz)" "m + 64 \<le> 0x200000"
  shows "\<exists>h'. alloc boot_al sz h = Inr (heap_ptr n, h') \<and> grown boot_al m h' \<and> heap_ptr n \<noteq> NULL"
  using grown_alloc [OF assms(1), of sz] assms(2,3) heap_ptr_nonnull [of n] by (simp add: heap_ptr_def)

text \<open>
  The process list while the kernel starts: the boot process runs, the others are ready, and all of
  them are blocks of the heap.
\<close>

definition boot_procs :: "nat \<Rightarrow> u64 list \<Rightarrow> sched \<Rightarrow> bool" where
  "boot_procs n ps s \<longleftrightarrow> grown boot_al n (s_heap s) \<and> proc_chain s ps \<and> ps \<noteq> [] \<and> current_process s = hd ps \<and>
     p_status (procs s (hd ps)) = RUNNING \<and> (\<forall>p \<in> set (tl ps). p_status (procs s p) = READY) \<and> set ps \<subseteq> heap_ptr ` {..<n}"

lemma boot_procs_update:
  assumes "boot_procs n ps s" "grown boot_al m h" "n \<le> m"
  shows "boot_procs m ps (s\<lparr>s_cpu := c, s_heap := h\<rparr>)" "boot_procs m ps (s\<lparr>s_heap := h\<rparr>)" "boot_procs n ps (s\<lparr>s_cpu := c\<rparr>)"
proof -
  have "heap_ptr ` {..<n} \<subseteq> heap_ptr ` {..<m}" using assms(3) by auto
  then show "boot_procs m ps (s\<lparr>s_cpu := c, s_heap := h\<rparr>)" "boot_procs m ps (s\<lparr>s_heap := h\<rparr>)" "boot_procs n ps (s\<lparr>s_cpu := c\<rparr>)"
    using assms(1,2) by (auto simp: boot_procs_def)
qed

lemma boot_add_process:
  assumes B: "boot_procs n ps s" and n: "n + 0x3000 \<le> 0x200000"
  shows "\<exists>s'. add_process boot_al func s = Inr s' \<and> boot_procs (n + 8344) (ps @ [heap_ptr n]) s' \<and> s_cpu s' = s_cpu s"
proof -
  have g: "grown boot_al n (s_heap s)" and c: "proc_chain s ps" "ps \<noteq> []" and in_heap: "set ps \<subseteq> heap_ptr ` {..<n}"
    using B by (auto simp: boot_procs_def)
  have new: "heap_ptr n \<notin> set ps"
  proof
    assume "heap_ptr n \<in> set ps"
    then obtain m where "m < n" "heap_ptr n = heap_ptr m" using in_heap by auto
    then show False using heap_ptr_inj [of n m] n by simp
  qed
  obtain h1 where h1: "alloc boot_al sizeof_process (s_heap s) = Inr (heap_ptr n, h1)" "grown boot_al (n + 120) h1" "heap_ptr n \<noteq> NULL"
    using boot_alloc [OF g, of "n + 120" sizeof_process] n by (auto simp: rounded_def)
  obtain h2 where h2: "alloc boot_al 0x2000 h1 = Inr (heap_ptr (n + 120), h2)" "grown boot_al (n + 8344) h2" "heap_ptr (n + 120) \<noteq> NULL"
    using boot_alloc [OF h1(2), of "n + 8344" "0x2000"] n by (auto simp: rounded_def)
  define st where "st = heap_ptr (n + 120)"
  define p where "p = zero_process\<lparr>p_status := READY, p_pid := 0, p_kernel_stack := st, p_context := st + 0x2000 - sizeof_cpu_status,
    p_anon_allocate_end := 0x800000, p_elf_end := 0, p_cr3 := read_cr3 (s_cpu s), p_resources := NULL\<rparr>"
  define s1 where "s1 = s\<lparr>s_heap := h2, procs := (procs s)(heap_ptr n := p), contexts := (contexts s)(st + 0x2000 - sizeof_cpu_status :=
    \<lparr>st_regs = replicate 15 0, st_rip = func, st_cs = 0x8, st_flags = 0x202, st_rsp = st + 0x2000 - 0x10, st_ss = 0x10\<rparr>)\<rparr>"
  have run: "add_process boot_al func s = insert_process (heap_ptr n) s1"
    using h1(1,3) h2(1,3) by (simp add: add_process_def memset_null_def Let_def s1_def p_def st_def)
  have "chain (\<lambda>q. p_next (procs s1 q)) (process_list s) ps NULL"
    by (rule chain_transfer [OF c(1)]) (use new in \<open>auto simp: s1_def\<close>)
  then have c1: "proc_chain s1 ps" by (simp add: s1_def)
  have "p_next (procs s1 (heap_ptr n)) = NULL" by (simp add: s1_def p_def zero_process_def)
  then obtain s' where s': "insert_process (heap_ptr n) s1 = Inr s'" "proc_chain s' (ps @ [heap_ptr n])"
    "current_process s' = current_process s" "\<forall>q. p_status (procs s' q) = (if q = heap_ptr n then READY else p_status (procs s q))"
    using insert_process_chain [OF c1 c(2) h1(3) new] by (auto simp: s1_def p_def)
  have "s_heap s' = h2" "s_cpu s' = s_cpu s" using s'(1) by (auto simp: insert_process_def s1_def)
  moreover have "hd ps \<noteq> heap_ptr n" "set (ps @ [heap_ptr n]) \<subseteq> heap_ptr ` {..<n + 8344}" using new hd_in_set [OF c(2)] in_heap by auto
  ultimately have "boot_procs (n + 8344) (ps @ [heap_ptr n]) s'" using B s'(2-4) h2(2) c(2) by (auto simp: boot_procs_def)
  then show ?thesis using run s'(1) \<open>s_cpu s' = s_cpu s\<close> by auto
qed

definition fresh_sem :: "i32 \<Rightarrow> semaphore" where
  "fresh_sem c = \<lparr>sem_count = c, sem_wait_head = NULL, sem_wait_tail = NULL\<rparr>"

definition fresh_pipe :: "u64 \<Rightarrow> u64 \<Rightarrow> pstate \<Rightarrow> bool" where
  "fresh_pipe pp len ps \<longleftrightarrow> (let p = ps_pipes ps pp; sems = k_sems (ps_k ps) in
     pp_buffer_len p = len \<and> pp_read_pos p = 0 \<and> pp_write_pos p = 0 \<and> pp_read_refs p = 1 \<and> pp_write_refs p = 1 \<and>
     sems (pp_buf_lock p) = fresh_sem 1 \<and> sems (pp_sem_empty p) = fresh_sem (ucast len) \<and> sems (pp_sem_full p) = fresh_sem 0)"

text \<open>The pipe, its buffer and its semaphores are the next three blocks of the heap.\<close>

lemma boot_pipe_create:
  fixes len :: u64
  defines "s n \<equiv> heap_ptr (n + 128 + unat (rounded len))"
  assumes g: "grown boot_al n (s_heap (k_sched (ps_k ps)))" and n: "n + unat (rounded len) + 0x300 \<le> 0x200000"
  shows "\<exists>ps' h. pipe_create boot_al len ps = Inr (heap_ptr n, ps') \<and> grown boot_al (n + 232 + unat (rounded len)) h \<and>
    k_sched (ps_k ps') = (k_sched (ps_k ps))\<lparr>s_heap := h\<rparr> \<and>
    ps_pipes ps' = (ps_pipes ps)(heap_ptr n := \<lparr>pp_buffer = heap_ptr (n + 96), pp_buffer_len = len, pp_read_pos = 0, pp_write_pos = 0,
      pp_read_refs = 1, pp_write_refs = 1, pp_buf_lock = s n, pp_sem_empty = s n + sizeof_mutex, pp_sem_full = s n + 2 * sizeof_mutex\<rparr>) \<and>
    k_sems (ps_k ps') = (k_sems (ps_k ps))(s n := fresh_sem 1, s n + sizeof_mutex := fresh_sem (ucast len), s n + 2 * sizeof_mutex := fresh_sem 0)"
proof -
  let ?h = "s_heap (k_sched (ps_k ps))"
  obtain h1 where h1: "alloc boot_al sizeof_pipe ?h = Inr (heap_ptr n, h1)" "grown boot_al (n + 96) h1" "heap_ptr n \<noteq> NULL"
    using boot_alloc [OF g, of "n + 96" sizeof_pipe] n by (auto simp: rounded_def [of sizeof_pipe])
  obtain h2 where h2: "alloc boot_al len h1 = Inr (heap_ptr (n + 96), h2)" "grown boot_al (n + 128 + unat (rounded len)) h2"
    using boot_alloc [OF h1(2), of "n + 128 + unat (rounded len)" len] n by auto
  obtain h3 where h3: "alloc boot_al (sizeof_mutex * 3) h2 = Inr (s n, h3)" "grown boot_al (n + 232 + unat (rounded len)) h3" "s n \<noteq> NULL"
    using boot_alloc [OF h2(2), of "n + 232 + unat (rounded len)" "sizeof_mutex * 3"] n by (auto simp: rounded_def [of "72"] s_def)
  show ?thesis using h1(1,3) h2(1) h3
    by (intro exI [of _ "snd (projr (pipe_create boot_al len ps))"] exI [of _ h3]) (simp add: pipe_create_def memset_null_def mutex_create_def sem_create_def fresh_sem_def Let_def)
qed

section \<open>The stages of the boot sequence\<close>

lemma start_early_ok:
  assumes "framebuffer_response li = Some (info # infos)" "base_revision_supported li"
  shows "\<exists>b'. start_early im li b = Inr b' \<and> bt_vfs b' = bt_vfs b"
  using assms by (simp add: start_early_def Let_def)

lemma start_memory_ok:
  assumes li: "memmap_response li = Some mm" "hhdm_response li = Some off" and mm: "memmap_ok mm"
    and ba: "bitmap_allocator_init (vmem (bt_vfs b)) mm off = Inr ba" "2048 \<le> card (ba_managed ba)"
  shows "\<exists>b'. start_memory im li b = Inr b' \<and> bt_al b' = boot_al \<and> grown boot_al 0 (bt_heap b') \<and>
    ba_inv (vm_ba (bt_vm b')) \<and> bt_vfs b' = bt_vfs b"
proof -
  let ?vm = "(bt_vm b)\<lparr>vm_ba := ba\<rparr>" and ?cr3 = "read_cr3 (s_cpu (bt_sched b))"
  have "pages_left (4 * 512) ?vm" using init_ba_inv [OF mm ba(1)] ba(2) by (simp add: pages_left_def avail_def)
  moreover have "unat (PAGE_ROUND_DOWN 0xffffffff7fe00000) = 0xffffffff7fe00000" by (simp add: PAGE_ROUND_DOWN_def)
  ultimately obtain vm where vm: "allocate_region ?cr3 0xffffffff7fe00000 0xffffffff80000000 3 ?vm = Inr vm" "ba_inv (vm_ba vm)"
    using allocate_region_returns [of 512 ?vm "0xffffffff80000000" "0xffffffff7fe00000" ?cr3 3] by auto
  obtain al h where h: "new_allocator 0xffffffff7fe00000 0x200000 (bt_heap b) = (al, h)" by (cases "new_allocator 0xffffffff7fe00000 0x200000 (bt_heap b)")
  then have al: "al = boot_al" by (simp add: new_allocator_def)
  have "grown al 0 h" by (rule grown_new [OF h]) simp_all
  then show ?thesis using li ba(1) vm h al by (simp add: start_memory_def Let_def)
qed

lemma start_sched_ok:
  assumes "bt_al b = boot_al" "grown boot_al 0 (bt_heap b)"
  shows "\<exists>b'. start_sched im b = Inr b' \<and> boot_procs 120 [heap_ptr 0] (bt_sched b') \<and> bt_al b' = boot_al \<and>
    bt_vm b' = bt_vm b \<and> bt_vfs b' = bt_vfs b"
proof -
  obtain h where h: "alloc boot_al sizeof_process (bt_heap b) = Inr (heap_ptr 0, h)" "grown boot_al 120 h" "heap_ptr 0 \<noteq> NULL"
    using boot_alloc [OF assms(2), of 120 sizeof_process] by (auto simp: rounded_def)
  then show ?thesis using assms(1)
    by (simp add: start_sched_def sched_init_def memset_null_def Let_def boot_procs_def zero_process_def)
qed

lemma start_modules_ok:
  assumes li: "module_response li = Some (archive # ms)" and tar: "tar_at (vmem (bt_vfs b)) archive es"
    and path: "cstring (vmem (bt_vfs b)) (im_init_path im) nm" "length nm + 1 < 2 ^ 64" "im_init_path im \<noteq> NULL"
    and e: "find (\<lambda>e. fst e = nm) es = Some e" "snd e \<noteq> []"
  shows "\<exists>elf. start_modules im li b = Inr (b\<lparr>bt_init_elf := elf\<rparr>) \<and> bytes_at (vmem (bt_vfs b)) elf (length (snd e)) = snd e"
proof -
  obtain elf where elf: "initramfs_lookup (vmem (bt_vfs b)) archive (im_init_path im) (bt_init_elf b) = Inr (of_nat (length (snd e)), elf)"
    "bytes_at (vmem (bt_vfs b)) elf (length (snd e)) = snd e" "length (snd e) < 2 ^ 31"
    using initramfs_lookup_found [OF tar path, of "bt_init_elf b"] e(1) by auto
  have "unat (of_nat (length (snd e)) :: i32) = length (snd e)" using elf(3) by (simp add: unat_of_nat)
  then have "of_nat (length (snd e)) \<noteq> (0 :: i32)" using e(2) by auto
  then show ?thesis using li elf by (intro exI [of _ elf]) (simp add: start_modules_def)
qed

lemma start_mutexes_ok:
  assumes "boot_procs n ps (bt_sched b)"
  shows "boot_procs n ps (bt_sched (start_mutexes im b)) \<and> irqs_enabled (s_cpu (bt_sched (start_mutexes im b))) \<and>
    bt_al (start_mutexes im b) = bt_al b \<and> bt_vm (start_mutexes im b) = bt_vm b \<and> bt_vfs (start_mutexes im b) = bt_vfs b \<and>
    bt_init_elf (start_mutexes im b) = bt_init_elf b"
  using boot_procs_update(3) [OF assms, of n] assms
  by (simp add: start_mutexes_def mutex_create_def sem_create_def Let_def irqs_enabled_def boot_procs_def bit_simps)

lemma boot_vfs_init:
  assumes g: "grown boot_al n (vheap v)" and n: "n + 0x1000 \<le> 0x200000" and root: "cstring (vmem v) root [0x2f]"
    and apart: "\<forall>x. in_range x root 2 \<longrightarrow> \<not> in_range x 0xffffffff7fe00000 0x200000"
    and garbage: "\<forall>l. ll_last (vs_lists v l) = NULL \<and> ll_count (vs_lists v l) = 0"
  shows "\<exists>v'. vfs_init boot_al root ops v = Inr v' \<and> root_mounted ops (heap_ptr (n + 128)) v' \<and> grown boot_al (n + 320) (vheap v')"
proof -
  obtain h1 where h1: "alloc boot_al 24 (vheap v) = Inr (heap_ptr n, h1)" "grown boot_al (n + 64) h1" "heap_ptr n \<noteq> NULL"
    using boot_alloc [OF g, of "n + 64" 24] n by (auto simp: rounded_def)
  obtain h2 where h2: "alloc boot_al 24 h1 = Inr (heap_ptr (n + 64), h2)" "grown boot_al (n + 128) h2" "heap_ptr (n + 64) \<noteq> NULL"
    using boot_alloc [OF h1(2), of "n + 128" 24] n by (auto simp: rounded_def)
  obtain h3 where h3: "alloc boot_al 24 h2 = Inr (heap_ptr (n + 128), h3)" "grown boot_al (n + 192) h3" "heap_ptr (n + 128) \<noteq> NULL"
    using boot_alloc [OF h2(2), of "n + 192" 24] n by (auto simp: rounded_def)
  obtain h4 where h4: "alloc boot_al 2 h3 = Inr (heap_ptr (n + 192), h4)" "grown boot_al (n + 256) h4" "heap_ptr (n + 192) \<noteq> NULL"
    using boot_alloc [OF h3(2), of "n + 256" 2] n by (auto simp: rounded_def)
  obtain h5 where h5: "alloc boot_al 24 h4 = Inr (heap_ptr (n + 256), h5)" "grown boot_al (n + 320) h5" "heap_ptr (n + 256) \<noteq> NULL"
    using boot_alloc [OF h4(2), of "n + 320" 24] n by (auto simp: rounded_def)
  have "\<not> in_range x (heap_ptr (n + 192)) 2" if "in_range x root 2" for x
  proof
    assume "in_range x (heap_ptr (n + 192)) 2"
    then obtain i where "i < 2" "x = heap_ptr (n + 192) + of_nat i" by (auto simp: in_range_def)
    then have "x = 0xffffffff7fe00000 + of_nat (n + 224 + i)" "n + 224 + i < 0x200000" using n by (simp_all add: heap_ptr_def)
    then have "in_range x 0xffffffff7fe00000 0x200000" unfolding in_range_def by blast
    then show False using apart that by blast
  qed
  then show ?thesis
    using vfs_init_effect [OF root h1(1,3) h2(1,3) h3(1,3) h4(1,3) h5(1,3), of ops] garbage h5(2) by auto
qed

lemma start_pipes_ok:
  assumes B: "boot_procs 120 [heap_ptr 0] (bt_sched b)" and irq: "irqs_enabled (s_cpu (bt_sched b))"
  shows "\<exists>ps3 ps4. keyboard_process_init stub boot_al (bt_ps b) = Inr (heap_ptr 120, ps3) \<and>
    pipe_create boot_al 0x100 ps3 = Inr (heap_ptr 864, ps4) \<and> boot_procs 1352 [heap_ptr 0] (k_sched (ps_k ps4)) \<and>
    fresh_pipe (heap_ptr 120) 0x200 ps4 \<and> fresh_pipe (heap_ptr 864) 0x100 ps4 \<and> irqs_enabled (s_cpu (k_sched (ps_k ps4)))"
proof -
  define ps1 where "ps1 = set_cpu (idt_set_descriptor 0x21 stub 0x8e 0) (bt_ps b)"
  have g1: "grown boot_al 120 (s_heap (k_sched (ps_k ps1)))" using B by (simp add: boot_procs_def ps1_def)
  obtain ps2 h2 where 2: "pipe_create boot_al 0x200 ps1 = Inr (heap_ptr 120, ps2)" "grown boot_al 864 h2"
    "k_sched (ps_k ps2) = (k_sched (ps_k ps1))\<lparr>s_heap := h2\<rparr>"
    "ps_pipes ps2 = (ps_pipes ps1)(heap_ptr 120 := \<lparr>pp_buffer = heap_ptr 216, pp_buffer_len = 0x200, pp_read_pos = 0, pp_write_pos = 0,
      pp_read_refs = 1, pp_write_refs = 1, pp_buf_lock = heap_ptr 760, pp_sem_empty = heap_ptr 760 + 24, pp_sem_full = heap_ptr 760 + 48\<rparr>)"
    "k_sems (ps_k ps2) = (k_sems (ps_k ps1))(heap_ptr 760 := fresh_sem 1, heap_ptr 760 + 24 := fresh_sem 0x200, heap_ptr 760 + 48 := fresh_sem 0)"
    using boot_pipe_create [OF g1, of "0x200"] by (auto simp: rounded_def)
  define ps3 where "ps3 = set_cpu (outb 0x21 (inb 0x21 (s_cpu (k_sched (ps_k ps2))) AND NOT (push_bit 1 1))) ps2"
  have kb: "keyboard_process_init stub boot_al (bt_ps b) = Inr (heap_ptr 120, ps3)"
    using 2(1) by (simp add: keyboard_process_init_def ps1_def ps3_def)
  have g3: "grown boot_al 864 (s_heap (k_sched (ps_k ps3)))" using 2(2,3) by (simp add: ps3_def)
  obtain ps4 h4 where 4: "pipe_create boot_al 0x100 ps3 = Inr (heap_ptr 864, ps4)" "grown boot_al 1352 h4"
    "k_sched (ps_k ps4) = (k_sched (ps_k ps3))\<lparr>s_heap := h4\<rparr>"
    "ps_pipes ps4 = (ps_pipes ps3)(heap_ptr 864 := \<lparr>pp_buffer = heap_ptr 960, pp_buffer_len = 0x100, pp_read_pos = 0, pp_write_pos = 0,
      pp_read_refs = 1, pp_write_refs = 1, pp_buf_lock = heap_ptr 1248, pp_sem_empty = heap_ptr 1248 + 24, pp_sem_full = heap_ptr 1248 + 48\<rparr>)"
    "k_sems (ps_k ps4) = (k_sems (ps_k ps3))(heap_ptr 1248 := fresh_sem 1, heap_ptr 1248 + 24 := fresh_sem 0x100, heap_ptr 1248 + 48 := fresh_sem 0)"
    using boot_pipe_create [OF g3, of "0x100"] by (auto simp: rounded_def)
  have "fresh_pipe (heap_ptr 120) 0x200 ps4" "fresh_pipe (heap_ptr 864) 0x100 ps4"
    using 2(4,5) 4(4,5) by (simp_all add: fresh_pipe_def ps3_def heap_ptr_def)
  moreover have "boot_procs 1352 [heap_ptr 0] (k_sched (ps_k ps4))"
    using boot_procs_update(1) [OF B 4(2)] 2(3) 4(3) by (simp add: ps1_def ps3_def)
  moreover have "irqs_enabled (s_cpu (k_sched (ps_k ps4)))"
    using irq 4(3) 2(3) by (simp add: ps1_def ps3_def irqs_enabled_def idt_set_descriptor_def outb_def)
  ultimately show ?thesis using kb 4(1) by blast
qed

lemma start_services_ok:
  assumes B: "boot_procs 120 [heap_ptr 0] (bt_sched b)" and al: "bt_al b = boot_al" and li: "module_response li = Some (archive # ms)"
    and irq: "irqs_enabled (s_cpu (bt_sched b))"
    and root: "cstring (vmem (bt_vfs b)) (im_root_path im) [0x2f]"
      "\<forall>x. in_range x (im_root_path im) 2 \<longrightarrow> \<not> in_range x 0xffffffff7fe00000 0x200000"
    and garbage: "\<forall>l. ll_last (vs_lists (bt_vfs b) l) = NULL \<and> ll_count (vs_lists (bt_vfs b) l) = 0"
  shows "\<exists>b'. start_services im li b = Inr b' \<and> boot_procs 18360 [heap_ptr 0, heap_ptr 1352, heap_ptr 10016] (bt_sched b') \<and>
    fresh_pipe (bt_keyboard_pipe b') 0x200 (bt_ps b') \<and> fresh_pipe (bt_print_pipe b') 0x100 (bt_ps b') \<and>
    root_mounted (initramfs_operations boot_al archive (im_unset_pointer im) (im_unset_int im)) (heap_ptr 9824) (bt_vfs b') \<and>
    irqs_enabled (s_cpu (bt_sched b')) \<and> bt_control b' = syscall_init (im_syscall_handler im) (bt_control b) \<and>
    bt_al b' = boot_al \<and> bt_vm b' = bt_vm b \<and> bt_init_elf b' = bt_init_elf b"
proof -
  obtain ps3 ps4 where kb: "keyboard_process_init (im_keyboard_handler im) boot_al (bt_ps b) = Inr (heap_ptr 120, ps3)"
    and 4: "pipe_create boot_al 0x100 ps3 = Inr (heap_ptr 864, ps4)" and "boot_procs 1352 [heap_ptr 0] (k_sched (ps_k ps4))"
    and pipes: "fresh_pipe (heap_ptr 120) 0x200 ps4" "fresh_pipe (heap_ptr 864) 0x100 ps4" "irqs_enabled (s_cpu (k_sched (ps_k ps4)))"
    using start_pipes_ok [OF B irq] by blast
  then obtain s5 where 5: "add_process boot_al (im_print_process im) (k_sched (ps_k ps4)) = Inr s5"
    "boot_procs 9696 [heap_ptr 0, heap_ptr 1352] s5" "s_cpu s5 = s_cpu (k_sched (ps_k ps4))"
    using boot_add_process [of 1352 "[heap_ptr 0]" "k_sched (ps_k ps4)" "im_print_process im"] by auto
  let ?ops = "initramfs_operations boot_al archive (im_unset_pointer im) (im_unset_int im)"
  let ?v = "set_vheap (s_heap s5) (bt_vfs b)"
  have "grown boot_al 9696 (vheap ?v)" using 5(2) by (simp add: boot_procs_def)
  then obtain v where v: "vfs_init boot_al (im_root_path im) ?ops ?v = Inr v" "root_mounted ?ops (heap_ptr 9824) v" "grown boot_al 10016 (vheap v)"
    using boot_vfs_init [of 9696 ?v "im_root_path im" ?ops] root garbage by auto
  have "boot_procs 10016 [heap_ptr 0, heap_ptr 1352] (s5\<lparr>s_heap := vheap v\<rparr>)" using boot_procs_update(2) [OF 5(2) v(3)] by simp
  then obtain s6 where 6: "add_process boot_al (im_enter_ring_3_init im) (s5\<lparr>s_heap := vheap v\<rparr>) = Inr s6"
    "boot_procs 18360 [heap_ptr 0, heap_ptr 1352, heap_ptr 10016] s6" "s_cpu s6 = s_cpu s5"
    using boot_add_process [of 10016 "[heap_ptr 0, heap_ptr 1352]" "s5\<lparr>s_heap := vheap v\<rparr>" "im_enter_ring_3_init im"] by auto
  then show ?thesis using kb 4 5(1,3) v(1,2) pipes al li
    by (simp add: start_services_def Let_def fresh_pipe_def)
qed

section \<open>Properties\<close>

abbreviation init_path :: "u8 list" where
  "init_path \<equiv> map of_char ''/usr/bin/init''"

lemma boot_ready_state:
  assumes li: "base_revision_supported li" "framebuffer_response li = Some (info # infos)" "memmap_response li = Some mm"
      "hhdm_response li = Some off" "module_response li = Some (archive # ms)"
    and mm: "memmap_ok mm" "bitmap_allocator_init (vmem (bt_vfs b)) mm off = Inr ba" "2048 \<le> card (ba_managed ba)"
    and tar: "tar_at (vmem (bt_vfs b)) archive es" "find (\<lambda>e. fst e = init_path) es = Some e" "snd e \<noteq> []"
    and path: "cstring (vmem (bt_vfs b)) (im_init_path im) init_path" "im_init_path im \<noteq> NULL"
    and root: "cstring (vmem (bt_vfs b)) (im_root_path im) [0x2f]"
      "\<forall>x. in_range x (im_root_path im) 2 \<longrightarrow> \<not> in_range x 0xffffffff7fe00000 0x200000"
    and garbage: "\<forall>l. ll_last (vs_lists (bt_vfs b) l) = NULL \<and> ll_count (vs_lists (bt_vfs b) l) = 0"
  shows "\<exists>b' p0 p1 p2 mp. kstart im li b = Inr b' \<and> heap_ok (bt_al b') (bt_heap b') \<and> ba_inv (vm_ba (bt_vm b')) \<and>
    proc_chain (bt_sched b') [p0, p1, p2] \<and> current_process (bt_sched b') = p0 \<and> p_status (procs (bt_sched b') p0) = RUNNING \<and>
    p_status (procs (bt_sched b') p1) = READY \<and> p_status (procs (bt_sched b') p2) = READY \<and>
    fresh_pipe (bt_keyboard_pipe b') 0x200 (bt_ps b') \<and> fresh_pipe (bt_print_pipe b') 0x100 (bt_ps b') \<and>
    root_mounted (initramfs_operations (bt_al b') archive (im_unset_pointer im) (im_unset_int im)) mp (bt_vfs b') \<and>
    irqs_enabled (s_cpu (bt_sched b')) \<and> bytes_at (vmem (bt_vfs b)) (bt_init_elf b') (length (snd e)) = snd e"
proof -
  obtain b1 where 1: "start_early im li b = Inr b1" "bt_vfs b1 = bt_vfs b" using start_early_ok [OF li(2,1)] by blast
  obtain b2 where 2: "start_memory im li b1 = Inr b2" "bt_al b2 = boot_al" "grown boot_al 0 (bt_heap b2)" "ba_inv (vm_ba (bt_vm b2))"
    "bt_vfs b2 = bt_vfs b" using start_memory_ok [OF li(3,4) mm(1), of b1 ba im] mm(2,3) 1(2) by auto
  obtain b3 where 3: "start_sched im b2 = Inr b3" "boot_procs 120 [heap_ptr 0] (bt_sched b3)" "bt_al b3 = boot_al"
    "bt_vm b3 = bt_vm b2" "bt_vfs b3 = bt_vfs b" using start_sched_ok [OF 2(2,3)] 2(5) by auto
  obtain elf where 4: "start_modules im li b3 = Inr (b3\<lparr>bt_init_elf := elf\<rparr>)" "bytes_at (vmem (bt_vfs b)) elf (length (snd e)) = snd e"
    using start_modules_ok [OF li(5), of b3 es im init_path e] tar path 3(5) by auto
  let ?b4 = "start_mutexes im (b3\<lparr>bt_init_elf := elf\<rparr>)"
  have 5: "boot_procs 120 [heap_ptr 0] (bt_sched ?b4)" "irqs_enabled (s_cpu (bt_sched ?b4))" "bt_al ?b4 = boot_al"
    "bt_vm ?b4 = bt_vm b2" "bt_vfs ?b4 = bt_vfs b" "bt_init_elf ?b4 = elf"
    using start_mutexes_ok [of 120 "[heap_ptr 0]" "b3\<lparr>bt_init_elf := elf\<rparr>" im] 3 by auto
  obtain b' where b': "start_services im li ?b4 = Inr b'" "boot_procs 18360 [heap_ptr 0, heap_ptr 1352, heap_ptr 10016] (bt_sched b')"
    "fresh_pipe (bt_keyboard_pipe b') 0x200 (bt_ps b')" "fresh_pipe (bt_print_pipe b') 0x100 (bt_ps b')"
    "root_mounted (initramfs_operations boot_al archive (im_unset_pointer im) (im_unset_int im)) (heap_ptr 9824) (bt_vfs b')"
    "irqs_enabled (s_cpu (bt_sched b'))" "bt_al b' = boot_al" "bt_vm b' = bt_vm b2" "bt_init_elf b' = elf"
    using start_services_ok [OF 5(1,3) li(5) 5(2), of im] root garbage 5(4-6) by auto
  have "kstart im li b = Inr b'" using 1(1) 2(1) 3(1) 4(1) b'(1) by (simp add: kstart_def)
  moreover have "heap_ok boot_al (bt_heap b')" using b'(2) by (auto simp: boot_procs_def intro: grown_ok)
  ultimately show ?thesis using b'(2-9) 2(4) 4(2)
    by (intro exI [of _ b'] exI [of _ "heap_ptr 0"] exI [of _ "heap_ptr 1352"] exI [of _ "heap_ptr 10016"] exI [of _ "heap_ptr 9824"])
      (simp add: boot_procs_def)
qed


lemma kstart_halts:
  assumes "\<not> base_revision_supported li \<or> framebuffer_response li = None \<or> framebuffer_response li = Some [] \<or>
    memmap_response li = None \<or> hhdm_response li = None"
  shows "kstart im li b = Inl Halted"
  using assms by (auto simp: kstart_def start_early_def start_memory_def Let_def split: option.splits list.splits)

text \<open>
  The kernel halts when the boot loader does not provide what it needs: the protocol revision, a
  framebuffer, the memory map or the direct mapping.
\<close>

theorem boot_halts:
  assumes "\<not> base_revision_supported li \<or> framebuffer_response li = None \<or> framebuffer_response li = Some [] \<or>
    memmap_response li = None \<or> hhdm_response li = None"
  shows "kstart im li b = Inl Halted"
  by (rule kstart_halts [OF assms])

section \<open>Witnesses\<close>

text \<open>
  An archive at \<open>0x10000\<close> with a program of three bytes, the two path literals behind it, and one
  usable region of 4096 pages.
\<close>

definition boot_mem :: mem where
  "boot_mem = (\<lambda>x. if 0x10001 \<le> x \<and> x < 0x1000e then init_path ! unat (x - 0x10001)
     else if 0x20000 \<le> x \<and> x < 0x2000d then init_path ! unat (x - 0x20000)
     else if 0x1007c \<le> x \<and> x < 0x10086 then 0x30 else 0)(0x10086 := 0x33, 0x10101 := 0x75, 0x10102 := 0x73, 0x10103 := 0x74,
       0x10104 := 0x61, 0x10105 := 0x72, 0x10200 := 1, 0x10201 := 2, 0x10202 := 3, 0x30000 := 0x2f)"

definition responses_sample :: limine_responses where
  "responses_sample = \<lparr>base_revision_supported = True, framebuffer_response = Some [mode_sample],
     memmap_response = Some [\<lparr>me_base = 0x100000, me_length = 0x1000000, me_type = 0\<rparr>], hhdm_response = Some 0xffff800000000000,
     module_response = Some [0x10000]\<rparr>"

definition image_sample :: image where
  "image_sample = \<lparr>im_font = 0x40000, im_putchar = 0x70500, im_fb = 0x50000, im_isr_stub_table = (\<lambda>i. of_nat i), im_kernel_stack = 0x60000,
     im_double_fault_stack = 0x62000, im_tss = 0x64000, im_timer_handler = 0x70000, im_keyboard_handler = 0x70100,
     im_syscall_handler = 0x70200, im_init_path = 0x20000, im_root_path = 0x30000, im_mutexes = 0x65000,
     im_print_process = 0x70300, im_enter_ring_3_init = 0x70400, im_unset_pointer = 0, im_unset_int = 0\<rparr>"

definition boot_sample :: boot where
  "boot_sample = \<lparr>bt_video = (fb_sample, \<lambda>_. 0), bt_fb_default = NULL, bt_out = [], bt_segments = gdt_init 0 0 0,
     bt_ps = pipe_sample_state, bt_vm = vm_sample, bt_vfs = vfs_blank\<lparr>vs_fs := (vs_fs vfs_blank)\<lparr>fs_mem := boot_mem\<rparr>\<rparr>,
     bt_control = \<lparr>msrs = (\<lambda>_. 0), ctl_cr0 = 0, ctl_cr4 = 0\<rparr>, bt_al = fst heap_sample, bt_init_elf = NULL,
     bt_keyboard_pipe = NULL, bt_print_pipe = NULL\<rparr>"

lemma sample_fields:
  "base_revision_supported responses_sample" "framebuffer_response responses_sample = Some [mode_sample]"
  "memmap_response responses_sample = Some [\<lparr>me_base = 0x100000, me_length = 0x1000000, me_type = 0\<rparr>]"
  "hhdm_response responses_sample = Some 0xffff800000000000" "module_response responses_sample = Some [0x10000]"
  "im_init_path image_sample = 0x20000" "im_root_path image_sample = 0x30000" "vmem (bt_vfs boot_sample) = boot_mem"
  "vs_lists (bt_vfs boot_sample) l = \<lparr>ll_first = 0, ll_last = 0, ll_count = 0\<rparr>"
  by (simp_all add: responses_sample_def image_sample_def boot_sample_def vfs_blank_def)

lemma boot_mem_tar: "tar_at boot_mem 0x10000 [(init_path, [1, 2, 3])]"
proof -
  have "bytes_at boot_mem 0x1007c 11 = octal 11 3"
    unfolding octal_sample by (simp add: bytes_at_def boot_mem_def upt_rec)
  moreover have "is_ustar boot_mem 0x10000" "\<not> is_ustar boot_mem 0x10400"
    by (simp_all add: is_ustar_def bytes_at_def boot_mem_def upt_rec)
  moreover have "cstring boot_mem 0x10001 init_path" "bytes_at boot_mem 0x10200 3 = [1, 2, 3]"
    by (simp_all add: bytes_at_def boot_mem_def upt_rec)
  ultimately show ?thesis by (simp add: blocks_of_def flip: numeral_2_eq_2 del: octal.simps cstring.simps)
qed

lemma boot_memmap_sample:
  "memmap_ok [\<lparr>me_base = 0x100000, me_length = 0x1000000, me_type = 0\<rparr>]"
  "\<exists>ba. bitmap_allocator_init m [\<lparr>me_base = 0x100000, me_length = 0x1000000, me_type = 0\<rparr>] off = Inr ba \<and> card (ba_managed ba) = 4095"
proof -
  let ?mm = "[\<lparr>me_base = 0x100000, me_length = 0x1000000, me_type = 0\<rparr>]"
  show ok: "memmap_ok ?mm" by (simp add: memmap_ok_def entry_end_def)
  have "calc_header_pages 0x1000 = Inr 1" by (rule calc_header_pages_small) simp_all
  then obtain a where a: "bitmap_allocator_init m ?mm off = Inr \<lparr>ba_areas = [a]\<rparr>" "a_pages_count a = 4095"
    by (simp add: bitmap_allocator_init_def init_area_def LIMINE_MEMMAP_USABLE_def Let_def)
  have "area_inv a" using init_ba_inv(1) [OF ok a(1)] by (simp add: ba_inv_def)
  then have "inj_on (page_addr a) {..<4095}" using page_addr_inj a(2) by (auto intro!: inj_onI)
  then have "card (ba_managed \<lparr>ba_areas = [a]\<rparr>) = 4095" by (simp add: ba_managed_def area_pages_def a(2) card_image)
  then show "\<exists>ba. bitmap_allocator_init m ?mm off = Inr ba \<and> card (ba_managed ba) = 4095" using a(1) by blast
qed


theorem boot_halts_witness:
  "kstart image_sample (responses_sample\<lparr>memmap_response := None\<rparr>) boot_sample = Inl Halted"
  by (rule boot_halts) simp

end
