(* ===== verification/Console.thy ===== *)
theory Console
  imports Pipe Framebuffer
begin

text \<open>
  The console: \<open>framebuffer_print_process\<close> of \<open>src/src/framebuffer.c\<close>, which reads its pipe one byte at a time
  and prints what it reads, among the processes that write to the pipe.
\<close>

section \<open>The process\<close>

text \<open>
  The process \<open>pr\<close> calls \<open>pipe_read\<close> for one byte, executes the call one statement at a time among the
  statements of the others, prints the byte when the call has returned, and calls again.  Nobody else
  reads the pipe or draws on the screen.
\<close>

inductive framebuffer_print_process ::
    "u64 set \<Rightarrow> u64 \<Rightarrow> u64 \<Rightarrow> u64 \<Rightarrow> psys \<times> (framebuffer \<times> mem) \<Rightarrow> psys \<times> (framebuffer \<times> mem) \<Rightarrow> bool"
  for P pp pr font where
  print_start: "pr \<in> P \<Longrightarrow> cl_pc (sy_calls y pr) = IDLE \<Longrightarrow> cl_pc c = R_ENTER \<Longrightarrow> cl_len c = 1 \<Longrightarrow>
    framebuffer_print_process P pp pr font (y, v) (y\<lparr>sy_calls := (sy_calls y)(pr := c)\<rparr>, v)"
| print_byte: "pr \<in> P \<Longrightarrow> cl_pc (sy_calls y pr) = RET r \<Longrightarrow> cl_pc c = R_ENTER \<Longrightarrow> cl_len c = 1 \<Longrightarrow>
    framebuffer_print_process P pp pr font (y, v)
      (y\<lparr>sy_calls := (sy_calls y)(pr := c)\<rparr>, framebuffer_print font (cl_buf (sy_calls y pr) 0) v)"
| print_pipe: "pipe_step False P pp y y' \<Longrightarrow> sy_calls y' pr = sy_calls y pr \<or> in_read (cl_pc (sy_calls y pr)) \<Longrightarrow>
    (\<forall>p \<in> P. p \<noteq> pr \<longrightarrow> \<not> in_read (cl_pc (sy_calls y' p))) \<Longrightarrow> framebuffer_print_process P pp pr font (y, v) (y', v)"

section \<open>What has been printed\<close>

text \<open>The reader holds a byte that it has taken out of the pipe and not printed yet.\<close>

fun has_byte :: "ppc \<Rightarrow> bool" where
  "has_byte R_ADVANCE = True" | "has_byte R_UNLOCK = True" | "has_byte R_SIGNAL = True" | "has_byte R_LOOP = True"
| "has_byte (RET r) = True" | "has_byte _ = False"

definition read_one :: "call \<Rightarrow> bool" where
  "read_one c \<longleftrightarrow> (case cl_pc c of IDLE \<Rightarrow> True | RET r \<Rightarrow> True | R_ENTER \<Rightarrow> cl_len c = 1 | R_LOOP \<Rightarrow> cl_len c = 1 \<and> cl_i c = 1
     | l \<Rightarrow> in_read l \<and> cl_len c = 1 \<and> cl_i c = 0)"

definition printed :: "u64 \<Rightarrow> call \<Rightarrow> u8 list \<Rightarrow> framebuffer \<times> mem \<Rightarrow> framebuffer \<times> mem \<Rightarrow> bool" where
  "printed font c rs v0 v \<longleftrightarrow> (if has_byte (cl_pc c) then \<exists>xs. rs = xs @ [cl_buf c 0] \<and> v = put_text font (map ucast xs) v0
     else v = put_text font (map ucast rs) v0)"

definition console_ok ::
    "u64 set \<Rightarrow> u64 \<Rightarrow> u64 \<Rightarrow> u64 \<Rightarrow> framebuffer \<times> mem \<Rightarrow> psys \<Rightarrow> framebuffer \<times> mem \<Rightarrow> bool" where
  "console_ok P pp pr font v0 y v \<longleftrightarrow> pp_write_refs (ps_pipes (sy_st y) pp) \<noteq> 0 \<and>
     (\<forall>p \<in> P. p \<noteq> pr \<longrightarrow> \<not> in_read (cl_pc (sy_calls y p))) \<and> read_one (sy_calls y pr) \<and>
     printed font (sy_calls y pr) (sy_read y) v0 v"

lemma read_one_write: "read_one c \<Longrightarrow> \<not> in_write (cl_pc c)"
  by (cases "cl_pc c") (auto simp: read_one_def)

lemma pipe_step_refs:
  assumes "pipe_step race P pp y y'"
  shows "pp_write_refs (ps_pipes (sy_st y') pp) = pp_write_refs (ps_pipes (sy_st y) pp)"
  using assms
proof cases
  case (pipe_writer p c st)
  then show ?thesis
    by (auto simp: pipe_write_def Let_def psem_wait_def psem_signal_def store_byte_def advance_write_def upd_def bind_res_eq_Inr
        split: ppc.splits if_splits)
next
  case (pipe_reader p c st)
  then show ?thesis
    by (auto simp: pipe_read_def Let_def psem_wait_def psem_signal_def advance_read_def upd_def bind_res_eq_Inr
        split: ppc.splits if_splits prod.splits)
next
  case (pipe_interrupt byte r st)
  then show ?thesis
    by (auto simp: pipe_try_write_def Let_def psem_signal_def store_byte_def advance_write_def upd_def split: if_splits prod.splits)
next
  case (pipe_other st)
  then show ?thesis by (simp add: pipe_frame_def Let_def)
qed simp

text \<open>A statement of the reader.\<close>

lemma reader_statement:
  assumes c: "read_one c" "in_read (cl_pc c)" "pp_write_refs (ps_pipes st pp) \<noteq> 0" and run: "pipe_read p pp c st = Inr (c', st')"
    and v: "printed font c rs v0 v"
  shows "read_one c' \<and> printed font c' (if cl_pc c = R_LOAD then rs @ [cl_buf c' (cl_i c)] else rs) v0 v"
  using assms
  by (cases "cl_pc c") (auto simp: read_one_def printed_def pipe_read_def Let_def go_def bind_res_eq_Inr split: prod.splits)

lemma print_pipe_ok:
  assumes ok: "console_ok P pp pr font v0 y v" and step: "pipe_step False P pp y y'"
    and own: "sy_calls y' pr = sy_calls y pr \<or> in_read (cl_pc (sy_calls y pr))"
    and others: "\<forall>p \<in> P. p \<noteq> pr \<longrightarrow> \<not> in_read (cl_pc (sy_calls y' p))"
  shows "console_ok P pp pr font v0 y' v"
proof -
  have I: "pp_write_refs (ps_pipes (sy_st y) pp) \<noteq> 0" "\<forall>p \<in> P. p \<noteq> pr \<longrightarrow> \<not> in_read (cl_pc (sy_calls y p))"
    "read_one (sy_calls y pr)" "printed font (sy_calls y pr) (sy_read y) v0 v" using ok by (auto simp: console_ok_def)
  have "read_one (sy_calls y' pr) \<and> printed font (sy_calls y' pr) (sy_read y') v0 v"
    using step
  proof cases
    case (pipe_call p c)
    then have "p \<noteq> pr" using own by fastforce
    then show ?thesis using I pipe_call by simp
  next
    case (pipe_writer p c st)
    then have "p \<noteq> pr" using I(3) read_one_write by blast
    then show ?thesis using I pipe_writer by simp
  next
    case (pipe_reader p c st)
    then have p: "p = pr" using I(2) by blast
    note R = pipe_reader [unfolded p]
    show ?thesis using reader_statement [OF I(3) R(4) I(1) R(5) I(4)] R(1) by simp
  qed (use I in simp_all)
  then show ?thesis using pipe_step_refs [OF step] I(1) others by (simp add: console_ok_def)
qed

lemma console_step_ok:
  assumes "framebuffer_print_process P pp pr font (y, v) (y', v')" "console_ok P pp pr font v0 y v"
  shows "console_ok P pp pr font v0 y' v' \<and> pipe_step False P pp y y'"
  using assms(1)
proof cases
  case (print_start c)
  then show ?thesis using assms(2) pipe_call [of pr P y c False pp] by (auto simp: console_ok_def read_one_def printed_def)
next
  case (print_byte r c)
  then show ?thesis using assms(2) pipe_call [of pr P y c False pp]
    by (auto simp: console_ok_def read_one_def printed_def put_text_def framebuffer_print_def)
next
  case print_pipe
  then show ?thesis using print_pipe_ok assms(2) by blast
qed

lemma console_reach:
  assumes "(framebuffer_print_process P pp pr font)\<^sup>*\<^sup>* (y0, v0) (y, v)" "console_ok P pp pr font v0 y0 v0"
  shows "console_ok P pp pr font v0 y v \<and> (pipe_step False P pp)\<^sup>*\<^sup>* y0 y"
  using assms(1)
proof (induction rule: rtranclp_induct2)
  case refl
  then show ?case using assms(2) by simp
next
  case (step y1 v1 y2 v2)
  then show ?case using console_step_ok by (meson rtranclp.rtrancl_into_rtrancl)
qed

lemma printed_prefix:
  assumes "printed font c rs v0 v"
  shows "\<exists>k. k \<le> length rs \<and> length rs \<le> k + 1 \<and> v = put_text font (map ucast (take k rs)) v0"
proof (cases "has_byte (cl_pc c)")
  case True
  then obtain xs where "rs = xs @ [cl_buf c 0]" "v = put_text font (map ucast xs) v0" using assms by (auto simp: printed_def)
  then show ?thesis by (intro exI [of _ "length xs"]) simp
next
  case False
  then show ?thesis using assms by (intro exI [of _ "length rs"]) (simp add: printed_def)
qed

text \<open>From an unused pipe on, the screen is that of the start, continued by the bytes written.\<close>

lemma console_text:
  assumes inv: "pipe_inv P pp L (pipe_start st calls)" and refs: "pp_write_refs (ps_pipes st pp) \<noteq> 0"
    and P: "finite P" "card P < 2 ^ 31" "NULL \<notin> P" "pr \<in> P" and idle: "\<forall>p \<in> P. cl_pc (calls p) = IDLE"
    and run: "(framebuffer_print_process P pp pr font)\<^sup>*\<^sup>* (pipe_start st calls, v0) (y, v)"
  shows "\<exists>k. k \<le> length (sy_written y) \<and> length (sy_written y) \<le> k + L + 1 \<and>
    v = put_text font (map ucast (take k (sy_written y))) v0"
proof -
  have "console_ok P pp pr font v0 (pipe_start st calls) v0"
    using refs idle P(4) by (simp add: console_ok_def pipe_start_def read_one_def printed_def put_text_def)
  then have c: "console_ok P pp pr font v0 y v" "(pipe_step False P pp)\<^sup>*\<^sup>* (pipe_start st calls) y"
    using console_reach [OF run] by auto
  have q: "sy_read y = take (length (sy_read y)) (sy_written y)" "length (sy_written y) \<le> length (sy_read y) + L"
    using pipe_inv_fifo [OF pipe_reachable_inv [OF c(2) inv P(1-3)]] by auto
  obtain k where k: "k \<le> length (sy_read y)" "length (sy_read y) \<le> k + 1" "v = put_text font (map ucast (take k (sy_read y))) v0"
    using c(1) printed_prefix [of font "sy_calls y pr" "sy_read y" v0 v] unfolding console_ok_def by blast
  have "take k (sy_read y) = take k (sy_written y)" using q(1) k(1) by (metis min.absorb1 take_take)
  moreover have "length (sy_read y) \<le> length (sy_written y)" using q(1) by (metis length_take min.bounded_iff order_refl)
  ultimately show ?thesis using k q(2) by (intro exI [of _ k]) simp
qed

section \<open>Property\<close>

text \<open>
  What processes write to the pipe of the console appears on the screen: however the statements of the
  writers and of the console process interleave, the screen shows exactly the text of the bytes
  written so far, in their order, up to those that are still in the pipe or in the hands of the process.
\<close>

theorem console_shows_output:
  assumes pipe: "pipe_create al n st0 = Inr (pp, st)" "0 < unat n" "unat n < 2 ^ 31"
    and P: "finite P" "card P < 2 ^ 31" "NULL \<notin> P" "pr \<in> P"
    and idle: "\<forall>p \<in> P. \<not> is_blocked (ps_k st0) p \<and> cl_pc (calls p) = IDLE"
    and init: "framebuffer_init putchar_addr i (fb, m) = (fb1, m1)"
    and mode: "fb_mode fb1" "lf_pitch i = 4 * lf_width i" and font: "font_apart font fb1"
    and run: "(framebuffer_print_process P pp pr font)\<^sup>*\<^sup>* (pipe_start st calls, (fb1, m1)) (y, v)"
    and len: "unat (lf_height i) + 18 * length (sy_written y) + 64 < 2 ^ 64"
  shows "\<exists>k. k \<le> length (sy_written y) \<and> length (sy_written y) \<le> k + unat n + 1 \<and>
    screen_of v = fold (screen_put (\<lambda>c y. if y < 16 then glyph_of font m c y else 0) (unat (lf_width i)) (unat (lf_height i)))
      (map ucast (take k (sy_written y))) (1, 1, \<lambda>_ _. 0)"
proof -
  have "pp_write_refs (ps_pipes st pp) \<noteq> 0" "\<forall>p \<in> P. cl_pc (calls p) = IDLE" using pipe_create_effect [OF pipe(1)] idle by auto
  then obtain k where k: "k \<le> length (sy_written y)" "length (sy_written y) \<le> k + unat n + 1"
    "v = put_text font (map ucast (take k (sy_written y))) (fb1, m1)"
    using console_text [OF pipe_start_inv [OF pipe idle] _ P _ run] by blast
  then show ?thesis using put_text_screen [OF init mode font, of "map ucast (take k (sy_written y))"] len by (intro exI [of _ k]) simp
qed

section \<open>A concrete run\<close>

text \<open>Runs as a function that returns the bytes that were printed.\<close>

datatype cevent = Start | Print | Pipe pevent

fun console_event :: "u64 list \<Rightarrow> u64 \<Rightarrow> u64 \<Rightarrow> cevent \<Rightarrow> psys \<Rightarrow> (psys \<times> u8 list) option" where
  "console_event ps pp pr Start y = (if pr \<in> set ps \<and> cl_pc (sy_calls y pr) = IDLE
     then Some (y\<lparr>sy_calls := (sy_calls y)(pr := one_byte R_ENTER 0)\<rparr>, []) else None)"
| "console_event ps pp pr Print y = (case cl_pc (sy_calls y pr) of
     RET r \<Rightarrow> if pr \<in> set ps then Some (y\<lparr>sy_calls := (sy_calls y)(pr := one_byte R_ENTER 0)\<rparr>, [cl_buf (sy_calls y pr) 0]) else None
   | _ \<Rightarrow> None)"
| "console_event ps pp pr (Pipe e) y = (case pipe_event False ps pp e y of None \<Rightarrow> None | Some y' \<Rightarrow>
     if (case e of Call p c \<Rightarrow> p \<noteq> pr | Run p \<Rightarrow> p \<noteq> pr \<or> in_read (cl_pc (sy_calls y pr)) | Interrupt b \<Rightarrow> True) \<and>
       list_all (\<lambda>p. p = pr \<or> \<not> in_read (cl_pc (sy_calls y' p))) ps then Some (y', []) else None)"

primrec console_run :: "u64 list \<Rightarrow> u64 \<Rightarrow> u64 \<Rightarrow> cevent list \<Rightarrow> psys \<Rightarrow> (psys \<times> u8 list) option" where
  "console_run ps pp pr [] y = Some (y, [])"
| "console_run ps pp pr (e # es) y = (case console_event ps pp pr e y of None \<Rightarrow> None | Some (y, bs) \<Rightarrow>
     (case console_run ps pp pr es y of None \<Rightarrow> None | Some (y, cs) \<Rightarrow> Some (y, bs @ cs)))"

lemma pipe_event_other:
  assumes "pipe_event race ps pp e y = Some y'" "case e of Call p c \<Rightarrow> p \<noteq> pr | Run p \<Rightarrow> p \<noteq> pr | Interrupt b \<Rightarrow> True"
  shows "sy_calls y' pr = sy_calls y pr"
  using assms by (cases e) (auto simp: Let_def split: if_splits sum.splits prod.splits)

lemma console_event_step:
  assumes "console_event ps pp pr e y = Some (y', bs)"
  shows "framebuffer_print_process (set ps) pp pr font (y, v) (y', fold (framebuffer_print font) bs v)"
proof (cases e)
  case Start
  then show ?thesis using assms print_start [of pr "set ps" y "one_byte R_ENTER 0" pp font v] by (auto simp: one_byte_def split: if_splits)
next
  case Print
  then show ?thesis using assms print_byte [of pr "set ps" y _ "one_byte R_ENTER 0" pp font v]
    by (auto simp: one_byte_def split: if_splits ppc.splits)
next
  case (Pipe pe)
  then have e: "pipe_event False ps pp pe y = Some y'" "bs = []" "\<forall>p \<in> set ps. p \<noteq> pr \<longrightarrow> \<not> in_read (cl_pc (sy_calls y' p))"
    "(case pe of Call p c \<Rightarrow> p \<noteq> pr | Run p \<Rightarrow> p \<noteq> pr \<or> in_read (cl_pc (sy_calls y pr)) | Interrupt b \<Rightarrow> True)"
    using assms by (auto simp: list_all_iff split: option.splits if_splits)
  have "sy_calls y' pr = sy_calls y pr \<or> in_read (cl_pc (sy_calls y pr))"
    using e(4) pipe_event_other [OF e(1), of pr] by (cases pe) auto
  then show ?thesis using print_pipe [OF pipe_event_step [OF e(1)] _ e(3)] e(2) by simp
qed

lemma console_run_steps:
  assumes "console_run ps pp pr es y = Some (y', bs)"
  shows "(framebuffer_print_process (set ps) pp pr font)\<^sup>*\<^sup>* (y, v) (y', fold (framebuffer_print font) bs v)"
  using assms
proof (induction es arbitrary: y v bs)
  case (Cons e es)
  then obtain y1 b1 b2 where "console_event ps pp pr e y = Some (y1, b1)" "console_run ps pp pr es y1 = Some (y', b2)" "bs = b1 @ b2"
    by (auto split: option.splits prod.splits)
  then show ?case using console_event_step [of ps pp pr e y y1 b1 font v] Cons.IH [of y1 b2 "fold (framebuffer_print font) b1 v"]
    by (simp add: converse_rtranclp_into_rtranclp)
qed simp

text \<open>A process writes \<open>A\<close>, and the console prints it.\<close>

definition console_events :: "cevent list" where
  "console_events = map Pipe (Call 0x1000 (one_byte W_ENTER 65) # replicate 8 (Run 0x1000)) @
     Start # replicate 8 (Pipe (Run 0x3000)) @ [Print]"

lemma console_sample_run:
  "\<exists>y. console_run [0x1000, 0x3000] 0x1020 0x3000 console_events (pipe_start pipe_sample idle_calls) = Some (y, [65]) \<and> sy_written y = [65]"
proof -
  have "(case console_run [0x1000, 0x3000] 0x1020 0x3000 console_events (pipe_start pipe_sample idle_calls) of
      None \<Rightarrow> False | Some (y, bs) \<Rightarrow> bs = [65] \<and> sy_written y = [65])" by code_simp
  then show ?thesis by (auto split: option.splits)
qed

theorem console_shows_output_witness:
  "\<exists>y v k. (framebuffer_print_process {0x1000, 0x3000} 0x1020 0x3000 0x10000)\<^sup>*\<^sup>*
       (pipe_start pipe_sample idle_calls, framebuffer_init 0 mode_sample (fb_sample, \<lambda>_. 1)) (y, v) \<and> sy_written y = [65] \<and>
     v = framebuffer_print 0x10000 65 (framebuffer_init 0 mode_sample (fb_sample, \<lambda>_. 1)) \<and>
     screen_of v = fold (screen_put (\<lambda>c y. if y < 16 then glyph_of 0x10000 (\<lambda>_. 1) c y else 0) 16 32) (map ucast (take k [65 :: u8])) (1, 1, \<lambda>_ _. 0)"
proof -
  obtain fb1 m1 where i: "framebuffer_init 0 mode_sample (fb_sample, \<lambda>_. 1) = (fb1, m1)" "fb_mode fb1"
    "font_apart 0x10000 fb1" using fb_sample_init by blast
  obtain y where y: "console_run [0x1000, 0x3000] 0x1020 0x3000 console_events (pipe_start pipe_sample idle_calls) = Some (y, [65])"
    "sy_written y = [65]" using console_sample_run by blast
  let ?v = "framebuffer_print 0x10000 65 (fb1, m1)"
  have r: "(framebuffer_print_process {0x1000, 0x3000} 0x1020 0x3000 0x10000)\<^sup>*\<^sup>* (pipe_start pipe_sample idle_calls, (fb1, m1)) (y, ?v)"
    using console_run_steps [OF y(1), of "0x10000" "(fb1, m1)"] by simp
  have d: "lf_pitch mode_sample = 4 * lf_width mode_sample" "unat (lf_width mode_sample) = 16" "unat (lf_height mode_sample) = 32"
    by (simp_all add: mode_sample_def)
  have "\<exists>k. k \<le> length (sy_written y) \<and> length (sy_written y) \<le> k + unat (2 :: u64) + 1 \<and>
      screen_of ?v = fold (screen_put (\<lambda>c y. if y < 16 then glyph_of 0x10000 (\<lambda>_. 1) c y else 0) (unat (lf_width mode_sample)) (unat (lf_height mode_sample)))
        (map ucast (take k (sy_written y))) (1, 1, \<lambda>_ _. 0)"
    by (rule console_shows_output [OF pipe_sample_create _ _ _ _ _ _ pipe_sample_unblocked i(1,2) d(1) i(3) r]) (simp_all add: y(2) d)
  then show ?thesis using r i(1) y(2) d by (intro exI [of _ y] exI [of _ ?v]) auto
qed

end
