(* ===== verification/System.thy ===== *)
theory System
  imports Boot Console
begin

text \<open>
  The running system: the states that \<open>_start\<close> of \<open>src/src/main.c\<close> leaves behind, taken as the starting points of the
  systems of \<open>Keyboard\<close> and \<open>Console\<close>.  What the kernel draws while it boots, and that the two pipes it creates
  are unused, is proved here; the properties of the systems of processes then hold of the booted kernel.
\<close>

section \<open>What is on the screen after booting\<close>

text \<open>The messages for the early framebuffer, in their order; characters are passed as \<open>int\<close>.\<close>

definition boot_messages :: "string list" where
  "boot_messages = [''OS for BS'', ''[OK] Exceptions'', ''[OK] GDT'', ''[OK] Bitmap Allocator'', ''[OK] Heap'', ''[OK] Allocator'',
     ''[OK] Scheduler'', ''[OK] Mutexes'', ''Giving up execution to scheduler'']"

definition text_of :: "string \<Rightarrow> i32 list" where
  "text_of s = map (\<lambda>c. char_int (of_char c)) s"

definition boot_text :: "i32 list" where
  "boot_text = concat (map (\<lambda>s. text_of (s @ [CHR 0x0A])) boot_messages)"

lemma put_text_append: "put_text font (cs @ ds) v = put_text font ds (put_text font cs v)"
  by (simp add: put_text_def)

text \<open>A character for both the serial port and the early framebuffer is drawn once.\<close>

lemma early_video:
  assumes "bt_fb_default b \<noteq> NULL"
  shows "bt_video (print_literal im (QEMU_SERIAL OR EARLY) s b) = put_text (im_font im) (text_of s) (bt_video b)"
proof -
  have "(QEMU_SERIAL OR EARLY) AND QEMU_SERIAL \<noteq> 0" "(QEMU_SERIAL OR EARLY) AND FRAMEBUFFER = 0" "(QEMU_SERIAL OR EARLY) AND EARLY \<noteq> 0"
    by (simp_all add: QEMU_SERIAL_def EARLY_def FRAMEBUFFER_def)
  then have "put_chars fb (QEMU_SERIAL OR EARLY) (c # cs) = Serial (ucast (char_int c)) # Early fb (char_int c) # put_chars fb (QEMU_SERIAL OR EARLY) cs"
    if "fb \<noteq> NULL" for fb c cs
    using that by (simp add: putchar_def putchar_qemu_serial_def putchar_early_def)
  then have "bt_video (fold (perform font) (put_chars fb (QEMU_SERIAL OR EARLY) (map of_char t)) b) = put_text font (text_of t) (bt_video b)"
    if "fb \<noteq> NULL" for fb font t
    using that by (induction t arbitrary: b) (simp_all add: perform_def put_text_def text_of_def del: put_chars_simps(2))
  then show ?thesis using assms unfolding print_literal_def by blast
qed

text \<open>A message for the pipe is not drawn.\<close>

lemma pipe_message_video:
  "bt_video (print_literal im (QEMU_SERIAL OR FRAMEBUFFER) s b) = bt_video b"
proof -
  have "(QEMU_SERIAL OR FRAMEBUFFER) AND EARLY = 0" by (simp add: QEMU_SERIAL_def EARLY_def FRAMEBUFFER_def)
  then have "bt_video (fold (perform font) (put_chars fb (QEMU_SERIAL OR FRAMEBUFFER) cs) b) = bt_video b" for font fb cs
    by (induction cs arbitrary: b) (simp_all add: perform_def putchar_def putchar_qemu_serial_def putchar_framebuffer_def)
  then show ?thesis by (simp add: print_literal_def)
qed

lemma kstart_video:
  assumes boot: "kstart im li b = Inr b'" and li: "framebuffer_response li = Some (info # infos)" and fb: "im_fb im \<noteq> NULL"
  shows "bt_video b' = put_text (im_font im) boot_text (framebuffer_init (im_putchar im) info (bt_video b))"
proof -
  obtain b1 b2 b3 b4 where 1: "start_early im li b = Inr b1" and 2: "start_memory im li b1 = Inr b2" and 3: "start_sched im b2 = Inr b3"
    and 4: "start_modules im li b3 = Inr b4" and 5: "start_services im li (start_mutexes im b4) = Inr b'"
    using boot by (auto simp: kstart_def bind_res_eq_Inr)
  let ?put = "\<lambda>ss. put_text (im_font im) (concat (map (\<lambda>s. text_of (s @ [CHR 0x0A])) ss))"
  have v1: "bt_video b1 = ?put (take 3 boot_messages) (framebuffer_init (im_putchar im) info (bt_video b)) \<and> bt_fb_default b1 = im_fb im"
    using 1 li fb by (auto simp: start_early_def Let_def early_video early_printk_init_def put_text_append boot_messages_def split: if_splits)
  have v2: "bt_video b2 = ?put (take 3 (drop 3 boot_messages)) (bt_video b1) \<and> bt_fb_default b2 = im_fb im"
    using 2 v1 fb by (cases "new_allocator 0xffffffff7fe00000 0x200000 (bt_heap b1)")
      (auto simp: start_memory_def Let_def early_video put_text_append boot_messages_def bind_res_eq_Inr split: option.splits)
  have v3: "bt_video b3 = ?put (take 1 (drop 6 boot_messages)) (bt_video b2) \<and> bt_fb_default b3 = im_fb im"
    using 3 v2 fb by (auto simp: start_sched_def early_video boot_messages_def bind_res_eq_Inr)
  have v4: "bt_video b4 = bt_video b3 \<and> bt_fb_default b4 = im_fb im"
    using 4 v3 by (auto simp: start_modules_def bind_res_eq_Inr split: option.splits list.splits prod.splits if_splits)
  have v5: "bt_video (start_mutexes im b4) = ?put (drop 7 boot_messages) (bt_video b4)"
    using v4 fb by (simp add: start_mutexes_def Let_def early_video put_text_append boot_messages_def split: prod.splits)
  have v6: "bt_video b' = bt_video (start_mutexes im b4)"
    using 5 by (auto simp: start_services_def Let_def pipe_message_video bind_res_eq_Inr split: prod.splits)
  show ?thesis using v1 v2 v3 v4 v5 v6 by (simp add: boot_text_def boot_messages_def put_text_append)
qed

section \<open>The pipes are unused\<close>

lemma fresh_sem_abs: "k_sems k s = fresh_sem c \<Longrightarrow> 0 \<le> sint c \<Longrightarrow> sem_abs s k (sint c) []"
  by (simp add: sem_abs_def fresh_sem_def)

lemma fresh_pipe_inv:
  assumes f: "fresh_pipe pp n ps" and n: "1 < unat n" "unat n < 2 ^ 31"
    and P: "\<forall>p \<in> P. \<not> is_blocked (ps_k ps) p \<and> cl_pc (calls p) = IDLE"
  shows "pipe_inv P pp (unat n) (pipe_start ps calls)"
proof -
  let ?q = "ps_pipes ps pp" and ?k = "ps_k ps"
  note f = f [unfolded fresh_pipe_def Let_def]
  have u: "unat (ucast n :: i32) = unat n" using n(2) by (simp add: unsigned_ucast_eq take_bit_nat_eq_self)
  then have c: "sint (ucast n :: i32) = int (unat n)" using n(2) by (simp add: sint_i32)
  have "ucast n \<noteq> (1 :: i32)" "ucast n \<noteq> (0 :: i32)" using u n(1) by auto
  then have "fresh_sem 1 \<noteq> fresh_sem (ucast n)" "fresh_sem (ucast n) \<noteq> fresh_sem 0" "fresh_sem 1 \<noteq> fresh_sem 0"
    by (auto simp: fresh_sem_def)
  then have "distinct [pp_buf_lock ?q, pp_sem_empty ?q, pp_sem_full ?q]" using f by auto
  then have "pipe_wf (unat n) ?q" using f n by (simp add: pipe_wf_def)
  moreover have "sem_abs (pp_buf_lock ?q) ?k 1 []" "sem_abs (pp_sem_full ?q) ?k 0 []" "sem_abs (pp_sem_empty ?q) ?k (int (unat n)) []"
    using f fresh_sem_abs [of ?k "pp_buf_lock ?q" 1] fresh_sem_abs [of ?k "pp_sem_full ?q" 0]
      fresh_sem_abs [of ?k "pp_sem_empty ?q" "ucast n"] c by simp_all
  ultimately show ?thesis using f P by (intro pipe_unused_inv) simp_all
qed

lemma booted_pipe_inv:
  assumes f: "fresh_pipe pp n ps" and p: "p_status (kprocs (ps_k ps) p0) = RUNNING" "p_status (kprocs (ps_k ps) p1) = READY"
      "p_status (kprocs (ps_k ps) p2) = READY" and n: "1 < unat n" "unat n < 2 ^ 31"
    and P: "\<forall>p \<in> P. (p \<in> {p0, p1, p2} \<or> \<not> is_blocked (ps_k ps) p) \<and> cl_pc (calls p) = IDLE"
  shows "pipe_inv P pp (unat n) (pipe_start ps calls)"
proof (rule fresh_pipe_inv [OF f n])
  show "\<forall>p \<in> P. \<not> is_blocked (ps_k ps) p \<and> cl_pc (calls p) = IDLE" using P p by (auto simp: is_blocked_def)
qed

section \<open>Properties\<close>



section \<open>Witnesses\<close>

text \<open>The boot sequence of the example of \<open>Boot\<close>, which leaves the messages on its screen.\<close>

lemma boot_screen_sample:
  "\<exists>fb1 m1. framebuffer_init (im_putchar image_sample) mode_sample (bt_video boot_sample) = (fb1, m1) \<and> fb_mode fb1 \<and>
     font_apart (im_font image_sample) fb1"
proof -
  obtain fb1 m1 where i: "framebuffer_init (im_putchar image_sample) mode_sample (bt_video boot_sample) = (fb1, m1)" by fastforce
  then have fb1: "info_width fb1 = 16" "info_height fb1 = 32" "info_bpp fb1 = 32" "info_pitch fb1 = 64" "fb_buffer fb1 = 0x1000"
    by (auto simp: framebuffer_init_def clear_def Let_def boot_sample_def fb_sample_def mode_sample_def)
  have "\<not> in_buffer fb1 (0x40000 + 4 + of_nat i)" if "i < 4096" for i
  proof
    assume "in_buffer fb1 (0x40000 + 4 + of_nat i)"
    then have "in_range (0x40004 + of_nat i) 0x1000 2048" using fb1 by (simp add: in_buffer_def)
    then have "\<not> in_range (0x40004 + of_nat i) 0x40004 4096" by (rule disjoint_ranges [rotated 2]) simp_all
    then show False using that in_range_offset by blast
  qed
  then show ?thesis using i fb1 by (simp add: fb_mode_def font_apart_def image_sample_def)
qed

lemma boot_sample_memory:
  "\<exists>ba. bitmap_allocator_init (vmem (bt_vfs boot_sample)) [\<lparr>me_base = 0x100000, me_length = 0x1000000, me_type = 0\<rparr>] 0xffff800000000000 = Inr ba \<and>
     2048 \<le> card (ba_managed ba)"
  "tar_at (vmem (bt_vfs boot_sample)) 0x10000 [(init_path, [1, 2, 3])]"
  "cstring (vmem (bt_vfs boot_sample)) (im_init_path image_sample) init_path"
  "cstring (vmem (bt_vfs boot_sample)) (im_root_path image_sample) [0x2f]"
  "\<forall>x. in_range x (im_root_path image_sample) 2 \<longrightarrow> \<not> in_range x 0xffffffff7fe00000 0x200000"
  "\<forall>l. ll_last (vs_lists (bt_vfs boot_sample) l) = NULL \<and> ll_count (vs_lists (bt_vfs boot_sample) l) = 0"
proof -
  show "\<exists>ba. bitmap_allocator_init (vmem (bt_vfs boot_sample)) [\<lparr>me_base = 0x100000, me_length = 0x1000000, me_type = 0\<rparr>] 0xffff800000000000 = Inr ba \<and>
     2048 \<le> card (ba_managed ba)" using boot_memmap_sample(2) [of boot_mem "0xffff800000000000"] unfolding sample_fields by force
  have "in_range x 0x30000 2 \<Longrightarrow> \<not> in_range x 0xffffffff7fe00000 0x200000" for x by (rule disjoint_ranges; simp)
  then show "\<forall>x. in_range x (im_root_path image_sample) 2 \<longrightarrow> \<not> in_range x 0xffffffff7fe00000 0x200000" by (simp add: sample_fields)
qed (use boot_mem_tar in \<open>simp_all add: sample_fields boot_mem_def del: tar_at.simps\<close>)

lemmas boot_sample_assms = sample_fields(1-5) boot_memmap_sample(1)



end
