(* ===== verification/InterruptEntry.thy ===== *)
theory InterruptEntry
  imports Keyboard Syscall
begin

text \<open>
  The assembly entry points of \<open>src/src/interrupt_handler.asm\<close> and \<open>src/src/exception_handler.asm\<close> as
  instruction lists on a small model of the processor: registers, memory through the loaded page tables,
  the delivery of an interrupt, \<open>iretq\<close>, \<open>syscall\<close> and \<open>sysret\<close>.  They call C functions under the System V
  calling convention; what such a call leaves in the registers and in the stack below it is up to the compiler
  and is a parameter.  Memory is read and written in quadwords, which is all that the entry code does; the
  translation of addresses by the page tables is the parameter \<open>tr\<close>.
\<close>

section \<open>The processor\<close>

datatype reg = RAX | RBX | RCX | RDX | RBP | RSI | RDI | R8 | R9 | R10 | R11 | R12 | R13 | R14 | R15 | RSP

text \<open>The state of the C part of the kernel is \<open>m_sys\<close>; \<open>m_mem\<close> holds the stacks, by physical address.\<close>

record 's machine =
  m_regs :: "reg \<Rightarrow> u64"
  m_rip :: u64
  m_cs :: u64
  m_flags :: u64
  m_ss :: u64
  m_cr3 :: u64
  m_mem :: "u64 \<Rightarrow> u64"
  m_in :: "u16 \<Rightarrow> u8"
  m_out :: "(u16 \<times> u8) list"
  m_sys :: 's

type_synonym translation = "u64 \<Rightarrow> u64 \<Rightarrow> u64"

abbreviation set_reg :: "reg \<Rightarrow> u64 \<Rightarrow> 's machine \<Rightarrow> 's machine" where
  "set_reg r v m \<equiv> m\<lparr>m_regs := (m_regs m)(r := v)\<rparr>"

definition load :: "translation \<Rightarrow> 's machine \<Rightarrow> u64 \<Rightarrow> u64" where
  "load tr m a = m_mem m (tr (m_cr3 m) a)"

definition store :: "translation \<Rightarrow> u64 \<Rightarrow> u64 \<Rightarrow> 's machine \<Rightarrow> 's machine" where
  "store tr a v m = m\<lparr>m_mem := (m_mem m)(tr (m_cr3 m) a := v)\<rparr>"

definition push :: "translation \<Rightarrow> u64 \<Rightarrow> 's machine \<Rightarrow> 's machine" where
  "push tr v m = (let sp = m_regs m RSP - 8 in store tr sp v (set_reg RSP sp m))"

definition pop :: "translation \<Rightarrow> reg \<Rightarrow> 's machine \<Rightarrow> 's machine" where
  "pop tr r m = (let sp = m_regs m RSP in set_reg r (load tr m sp) (set_reg RSP (sp + 8) m))"

section \<open>Calls of C functions\<close>

datatype callee = SCHEDULE | GET_CURRENT_PROCESS | KEYBOARD_HANDLER | SYSCALL_HANDLER | EXCEPTION_HANDLER

primrec arity :: "callee \<Rightarrow> nat" where
  "arity SCHEDULE = 1"
| "arity GET_CURRENT_PROCESS = 0"
| "arity KEYBOARD_HANDLER = 1"
| "arity SYSCALL_HANDLER = 7"
| "arity EXCEPTION_HANDLER = 3"

text \<open>
  The C code: the effect of each function on the state of the kernel, given its arguments and the memory
  it can read; the first quadword of an object of the kernel; and, for each function, the number of quadwords of
  stack it uses and what it leaves there, in the flags and in the registers that it need not preserve.
\<close>

record 's ccode =
  cc_fun :: "callee \<Rightarrow> u64 list \<Rightarrow> (u64 \<Rightarrow> u64) \<Rightarrow> 's \<Rightarrow> 's \<times> u64 res"
  cc_peek :: "'s \<Rightarrow> u64 \<Rightarrow> u64"
  cc_frame :: "callee \<Rightarrow> nat"
  cc_stack :: "callee \<Rightarrow> 's machine \<Rightarrow> u64 list"
  cc_regs :: "callee \<Rightarrow> 's machine \<Rightarrow> reg \<Rightarrow> u64"
  cc_flags :: "callee \<Rightarrow> 's machine \<Rightarrow> u64"

definition callee_saved :: "reg list" where
  "callee_saved = [RBX, RBP, RSP, R12, R13, R14, R15]"

definition arguments :: "translation \<Rightarrow> 's machine \<Rightarrow> u64 list" where
  "arguments tr m = map (m_regs m) [RDI, RSI, RDX, RCX, R8, R9] @ [load tr m (m_regs m RSP)]"

text \<open>\<open>push_all\<close> pushes values in order; a call pushes the return address and its frame, and drops them.\<close>

definition push_all :: "translation \<Rightarrow> u64 list \<Rightarrow> 's machine \<Rightarrow> 's machine" where
  "push_all tr vs m = fold (push tr) vs m"

definition call_c :: "translation \<Rightarrow> 's ccode \<Rightarrow> callee \<Rightarrow> 's machine \<Rightarrow> 's machine \<times> unit res" where
  "call_c tr cc f m =
     (let (s, r) = cc_fun cc f (take (arity f) (arguments tr m)) (load tr m) (m_sys m);
          m' = push_all tr (take (cc_frame cc f) (cc_stack cc f m)) m;
          m' = m'\<lparr>m_sys := s, m_flags := cc_flags cc f m,
             m_regs := (\<lambda>r. if r \<in> set callee_saved then m_regs m r else cc_regs cc f m r)\<rparr>
      in case r of Inl e \<Rightarrow> (m', Inl e) | Inr v \<Rightarrow> (set_reg RAX v m', Inr ()))"

section \<open>Instructions\<close>

datatype instr = PUSH reg | POP reg | MOV reg reg | MOV_IMM reg u64 | MOV_AL u8 | OUT_AL u16 | IN_AL u16
  | MOVZX_AL reg | XOR_SELF reg | MOV_FROM_CR3 reg | MOV_TO_CR3 reg | MOV_INDIRECT reg reg | CMP reg reg | JE nat
  | CALL callee | STI | IRETQ | SYSRET

definition set_al :: "u8 \<Rightarrow> 's machine \<Rightarrow> 's machine" where
  "set_al v m = set_reg RAX ((m_regs m RAX AND NOT 0xff) OR ucast v) m"

text \<open>Of the flags, the comparison is modelled by the zero flag, bit 6, which is the only one tested.\<close>

definition set_zf :: "bool \<Rightarrow> 's machine \<Rightarrow> 's machine" where
  "set_zf b m = m\<lparr>m_flags := (if b then m_flags m OR 0x40 else m_flags m AND NOT 0x40)\<rparr>"

definition iretq :: "translation \<Rightarrow> 's machine \<Rightarrow> 's machine" where
  "iretq tr m =
     (let sp = m_regs m RSP in
      set_reg RSP (load tr m (sp + 24)) (m\<lparr>m_rip := load tr m sp, m_cs := load tr m (sp + 8),
        m_flags := load tr m (sp + 16), m_ss := load tr m (sp + 32)\<rparr>))"

text \<open>The selectors come from the register that \<open>syscall_init\<close> sets to \<open>(0x8 << 32) | (0x20 << 48)\<close>.\<close>

definition sysret :: "'s machine \<Rightarrow> 's machine" where
  "sysret m = m\<lparr>m_rip := m_regs m RCX, m_flags := (m_regs m R11 AND 0x3C7FD7) OR 2, m_cs := (0x20 + 16) OR 3, m_ss := (0x20 + 8) OR 3\<rparr>"

fun exec :: "translation \<Rightarrow> 's ccode \<Rightarrow> instr list \<Rightarrow> 's machine \<Rightarrow> 's machine \<times> unit res" where
  "exec tr cc [] m = (m, Inr ())"
| "exec tr cc (PUSH r # is) m = exec tr cc is (push tr (m_regs m r) m)"
| "exec tr cc (POP r # is) m = exec tr cc is (pop tr r m)"
| "exec tr cc (MOV d r # is) m = exec tr cc is (set_reg d (m_regs m r) m)"
| "exec tr cc (MOV_IMM d v # is) m = exec tr cc is (set_reg d v m)"
| "exec tr cc (MOV_AL v # is) m = exec tr cc is (set_al v m)"
| "exec tr cc (OUT_AL p # is) m = exec tr cc is (m\<lparr>m_out := m_out m @ [(p, ucast (m_regs m RAX))]\<rparr>)"
| "exec tr cc (IN_AL p # is) m = exec tr cc is (set_al (m_in m p) m)"
| "exec tr cc (MOVZX_AL d # is) m = exec tr cc is (set_reg d (m_regs m RAX AND 0xff) m)"
| "exec tr cc (XOR_SELF r # is) m = exec tr cc is (set_zf True (set_reg r (m_regs m r XOR m_regs m r) m))"
| "exec tr cc (MOV_FROM_CR3 d # is) m = exec tr cc is (set_reg d (m_cr3 m) m)"
| "exec tr cc (MOV_TO_CR3 r # is) m = exec tr cc is (m\<lparr>m_cr3 := m_regs m r\<rparr>)"
| "exec tr cc (MOV_INDIRECT d r # is) m = exec tr cc is (set_reg d (cc_peek cc (m_sys m) (m_regs m r)) m)"
| "exec tr cc (CMP a b # is) m = exec tr cc is (set_zf (m_regs m a = m_regs m b) m)"
| "exec tr cc (JE n # is) m = exec tr cc (if m_flags m AND 0x40 \<noteq> 0 then drop n is else is) m"
| "exec tr cc (CALL f # is) m = (case call_c tr cc f m of (m', Inl e) \<Rightarrow> (m', Inl e) | (m', Inr _) \<Rightarrow> exec tr cc is m')"
| "exec tr cc (STI # is) m = exec tr cc is (m\<lparr>m_flags := m_flags m OR 0x200\<rparr>)"
| "exec tr cc (IRETQ # is) m = (iretq tr m, Inr ())"
| "exec tr cc (SYSRET # is) m = (sysret m, Inr ())"

section \<open>The entry points\<close>

definition acknowledge :: "instr list" where
  "acknowledge = [PUSH RAX, MOV_AL 0x20, OUT_AL 0x20, POP RAX]"

definition saved_regs :: "reg list" where
  "saved_regs = [RAX, RBX, RCX, RDX, RBP, RSI, RDI, R8, R9, R10, R11, R12, R13, R14, R15]"

definition restored_regs :: "reg list" where
  "restored_regs = [R15, R14, R13, R12, R11, R10, R9, R8, RDI, RSI, RBP, RDX, RCX, RBX, RAX]"

definition timer_int_handler :: "instr list" where
  "timer_int_handler = acknowledge @ map PUSH saved_regs @
     [MOV RDI RSP, CALL SCHEDULE, MOV R15 RAX,
      CALL GET_CURRENT_PROCESS, MOV_FROM_CR3 RCX, CMP RAX RCX, JE 2,
      MOV_INDIRECT RCX RAX, MOV_TO_CR3 RCX,
      MOV RSP R15] @ map POP restored_regs @ [IRETQ]"

definition keyboard_stub :: "instr list" where
  "keyboard_stub = acknowledge @ map PUSH saved_regs @
     [IN_AL 0x60, MOVZX_AL RDI, CALL KEYBOARD_HANDLER] @ map POP restored_regs @ [IRETQ]"

definition syscall_stub :: "instr list" where
  "syscall_stub = [STI] @ map PUSH [RBP, R15, R14, R13, R12, R11, RCX] @
     [PUSH R9, MOV R9 R8, MOV R8 R10, MOV RCX RDX, MOV RDX RSI, MOV RSI RDI, MOV RDI RAX,
      CALL SYSCALL_HANDLER, POP R9] @ map POP [RCX, R11, R12, R13, R14, R15, RBP] @ [SYSRET]"

definition isr_err_stub :: "nat \<Rightarrow> instr list" where
  "isr_err_stub n = [MOV_IMM RDI (of_nat n), POP RSI, MOV RDX RSP, CALL EXCEPTION_HANDLER, IRETQ]"

definition isr_no_err_stub :: "nat \<Rightarrow> instr list" where
  "isr_no_err_stub n = [MOV_IMM RDI (of_nat n), XOR_SELF RSI, MOV RDX RSP, CALL EXCEPTION_HANDLER, IRETQ]"

definition isr_stub :: "nat \<Rightarrow> instr list" where
  "isr_stub n = (if n \<in> {8, 10, 11, 12, 13, 14, 17, 30} then isr_err_stub n else isr_no_err_stub n)"

section \<open>Interrupt delivery\<close>

text \<open>
  The processor takes the stack from the interrupt stack table if the gate names one, from the task state
  segment if it comes from user mode, and goes on with the current one otherwise; it aligns the stack, pushes
  the state of the interrupted program and enters the handler of the gate with interrupts disabled.
\<close>

definition from_user :: "'s machine \<Rightarrow> bool" where
  "from_user m \<longleftrightarrow> m_cs m AND 3 = 3"

definition entry_stack :: "tss \<Rightarrow> idt_entry \<Rightarrow> 's machine \<Rightarrow> u64" where
  "entry_stack t gate m =
     (if idt_ist gate \<noteq> 0 then tss_ist t ! (unat (idt_ist gate) - 1)
      else if from_user m then tss_rsp0 t else m_regs m RSP) AND NOT 0xf"

definition deliver :: "translation \<Rightarrow> tss \<Rightarrow> idt_entry \<Rightarrow> u64 list \<Rightarrow> 's machine \<Rightarrow> 's machine" where
  "deliver tr t gate err m =
     (push_all tr ([m_ss m, m_regs m RSP, m_flags m, m_cs m, m_rip m] @ err) (set_reg RSP (entry_stack t gate m) m))
       \<lparr>m_rip := idt_handler gate, m_cs := ucast (kernel_cs gate),
        m_ss := (if from_user m then 0 else m_ss m), m_flags := m_flags m AND NOT 0x14300\<rparr>"

definition interrupt :: "translation \<Rightarrow> 's ccode \<Rightarrow> tss \<Rightarrow> idt_entry \<Rightarrow> u64 list \<Rightarrow> instr list \<Rightarrow> 's machine \<Rightarrow> 's machine \<times> unit res" where
  "interrupt tr cc t gate err code m = exec tr cc code (deliver tr t gate err m)"

text \<open>The instruction \<open>syscall\<close>, with the registers that \<open>syscall_init\<close> has set; \<open>m_rip\<close> is the address behind it.\<close>

definition syscall_instr :: "control \<Rightarrow> 's machine \<Rightarrow> 's machine" where
  "syscall_instr c m =
     (let star = drop_bit 32 (rdmsr 0xC0000081 c) AND 0xfffc in
      m\<lparr>m_regs := (m_regs m)(RCX := m_rip m, R11 := m_flags m), m_rip := rdmsr 0xC0000082 c,
        m_flags := m_flags m AND NOT (rdmsr 0xC0000084 c), m_cs := star, m_ss := star + 8\<rparr>)"

section \<open>Stacks\<close>

text \<open>The physical places of the \<open>n\<close> quadwords below an address, and that they are different.\<close>

definition slot :: "translation \<Rightarrow> u64 \<Rightarrow> u64 \<Rightarrow> nat \<Rightarrow> u64" where
  "slot tr cr3 sp i = tr cr3 (sp - 8 * of_nat (Suc i))"

definition stack_room :: "translation \<Rightarrow> u64 \<Rightarrow> u64 \<Rightarrow> nat \<Rightarrow> bool" where
  "stack_room tr cr3 sp n \<longleftrightarrow> inj_on (slot tr cr3 sp) {..<n}"

abbreviation stack_slots :: "translation \<Rightarrow> u64 \<Rightarrow> u64 \<Rightarrow> nat \<Rightarrow> u64 set" where
  "stack_slots tr cr3 sp n \<equiv> slot tr cr3 sp ` {..<n}"

named_theorems entry_simps "evaluation of the instructions that do not touch the stack"

lemma push_fields [simp]:
  "m_regs (push tr v m) = (m_regs m)(RSP := m_regs m RSP - 8)"
  "m_rip (push tr v m) = m_rip m" "m_cs (push tr v m) = m_cs m" "m_flags (push tr v m) = m_flags m"
  "m_ss (push tr v m) = m_ss m" "m_cr3 (push tr v m) = m_cr3 m" "m_in (push tr v m) = m_in m"
  "m_out (push tr v m) = m_out m" "m_sys (push tr v m) = m_sys m"
  "m_mem (push tr v m) = (m_mem m)(slot tr (m_cr3 m) (m_regs m RSP) 0 := v)"
  by (simp_all add: push_def store_def slot_def Let_def)

lemma push_all_simps [simp]:
  "push_all tr [] m = m" "push_all tr (v # vs) m = push_all tr vs (push tr v m)"
  by (simp_all add: push_all_def)

lemma push_all_fields [simp]:
  "m_regs (push_all tr vs m) = (m_regs m)(RSP := m_regs m RSP - 8 * of_nat (length vs))"
  "m_rip (push_all tr vs m) = m_rip m" "m_cs (push_all tr vs m) = m_cs m" "m_flags (push_all tr vs m) = m_flags m"
  "m_ss (push_all tr vs m) = m_ss m" "m_cr3 (push_all tr vs m) = m_cr3 m" "m_in (push_all tr vs m) = m_in m"
  "m_out (push_all tr vs m) = m_out m" "m_sys (push_all tr vs m) = m_sys m"
  by (induction vs arbitrary: m) (simp_all add: algebra_simps)

lemma slot_shift: "slot tr cr3 (sp - 8 * of_nat k) i = slot tr cr3 sp (k + i)"
  by (simp add: slot_def algebra_simps)

lemma slot_shift_8 [simp]: "slot tr cr3 (sp - 8) i = slot tr cr3 sp (Suc i)"
  using slot_shift [of tr cr3 sp 1 i] by simp

lemma stack_room_shift: "stack_room tr cr3 sp (k + n) \<Longrightarrow> stack_room tr cr3 (sp - 8 * of_nat k) n"
  unfolding stack_room_def slot_shift [abs_def] inj_on_def by (metis add_left_cancel add_less_cancel_left lessThan_iff)

lemma stack_room_mono: "stack_room tr cr3 sp n \<Longrightarrow> k \<le> n \<Longrightarrow> stack_room tr cr3 sp k"
  unfolding stack_room_def by (auto intro: inj_on_subset)

text \<open>Pushing writes the slots of the values, the first one highest, and nothing else.\<close>

lemma push_all_outside:
  "a \<notin> stack_slots tr (m_cr3 m) (m_regs m RSP) (length vs) \<Longrightarrow> m_mem (push_all tr vs m) a = m_mem m a"
proof (induction vs arbitrary: m)
  case (Cons v vs)
  have "a \<notin> slot tr (m_cr3 m) (m_regs m RSP - 8) ` {..<length vs}" "a \<noteq> slot tr (m_cr3 m) (m_regs m RSP) 0"
    using Cons.prems by auto
  then show ?case using Cons.IH [of "push tr v m"] by simp
qed simp

lemma push_all_mem:
  "stack_room tr (m_cr3 m) (m_regs m RSP) (length vs) \<Longrightarrow> i < length vs \<Longrightarrow>
     m_mem (push_all tr vs m) (slot tr (m_cr3 m) (m_regs m RSP) i) = vs ! i"
proof (induction vs arbitrary: m i)
  case (Cons v vs)
  have room: "stack_room tr (m_cr3 m) (m_regs m RSP - 8) (length vs)"
    using stack_room_shift [of tr "m_cr3 m" "m_regs m RSP" 1] Cons.prems(1) by simp
  show ?case
  proof (cases i)
    case 0
    have "slot tr (m_cr3 m) (m_regs m RSP) 0 \<notin> stack_slots tr (m_cr3 m) (m_regs m RSP - 8) (length vs)"
      using Cons.prems(1) by (auto simp: stack_room_def inj_on_def)
    then show ?thesis using 0 push_all_outside [of _ tr "push tr v m" vs] by simp
  next
    case (Suc j)
    then show ?thesis using Cons.IH [of "push tr v m" j] Cons.prems(2) room by simp
  qed
qed simp

text \<open>Popping a list of registers.\<close>

definition pop_all :: "translation \<Rightarrow> reg list \<Rightarrow> 's machine \<Rightarrow> 's machine" where
  "pop_all tr rs m = fold (pop tr) rs m"

lemma pop_fields [simp]:
  "m_rip (pop tr r m) = m_rip m" "m_cs (pop tr r m) = m_cs m" "m_flags (pop tr r m) = m_flags m"
  "m_ss (pop tr r m) = m_ss m" "m_cr3 (pop tr r m) = m_cr3 m" "m_in (pop tr r m) = m_in m"
  "m_out (pop tr r m) = m_out m" "m_sys (pop tr r m) = m_sys m" "m_mem (pop tr r m) = m_mem m"
  "m_regs (pop tr r m) = (m_regs m)(RSP := m_regs m RSP + 8, r := load tr m (m_regs m RSP))"
  by (simp_all add: pop_def Let_def load_def)

lemma pop_all_simps [simp]:
  "pop_all tr [] m = m" "pop_all tr (r # rs) m = pop_all tr rs (pop tr r m)"
  by (simp_all add: pop_all_def)

lemma pop_all_fields [simp]:
  "m_rip (pop_all tr rs m) = m_rip m" "m_cs (pop_all tr rs m) = m_cs m" "m_flags (pop_all tr rs m) = m_flags m"
  "m_ss (pop_all tr rs m) = m_ss m" "m_cr3 (pop_all tr rs m) = m_cr3 m" "m_in (pop_all tr rs m) = m_in m"
  "m_out (pop_all tr rs m) = m_out m" "m_sys (pop_all tr rs m) = m_sys m" "m_mem (pop_all tr rs m) = m_mem m"
  by (induction rs arbitrary: m) simp_all

lemma pop_all_rsp: "RSP \<notin> set rs \<Longrightarrow> m_regs (pop_all tr rs m) RSP = m_regs m RSP + 8 * of_nat (length rs)"
  by (induction rs arbitrary: m) (auto simp: algebra_simps)

lemma pop_all_other: "RSP \<notin> set rs \<Longrightarrow> r \<notin> set rs \<Longrightarrow> r \<noteq> RSP \<Longrightarrow> m_regs (pop_all tr rs m) r = m_regs m r"
  by (induction rs arbitrary: m) auto

lemma pop_all_nth:
  "RSP \<notin> set rs \<Longrightarrow> distinct rs \<Longrightarrow> i < length rs \<Longrightarrow>
     m_regs (pop_all tr rs m) (rs ! i) = load tr m (m_regs m RSP + 8 * of_nat i)"
proof (induction rs arbitrary: m i)
  case (Cons r rs)
  show ?case
  proof (cases i)
    case 0
    then show ?thesis using Cons.prems pop_all_other [of rs r tr "pop tr r m"] by auto
  next
    case (Suc j)
    then have "m_regs (pop_all tr rs (pop tr r m)) (rs ! j) = load tr (pop tr r m) (m_regs (pop tr r m) RSP + 8 * of_nat j)"
      using Cons by simp
    then show ?thesis using Suc Cons.prems by (auto simp: load_def algebra_simps)
  qed
qed simp

lemma pop_all_map:
  "RSP \<notin> set rs \<Longrightarrow> distinct rs \<Longrightarrow>
     map (m_regs (pop_all tr rs m)) rs = map (\<lambda>i. load tr m (m_regs m RSP + 8 * of_nat i)) [0..<length rs]"
  by (rule nth_equalityI) (simp_all add: pop_all_nth)

lemma exec_push_all:
  "RSP \<notin> set rs \<Longrightarrow> exec tr cc (map PUSH rs @ is) m = exec tr cc is (push_all tr (map (m_regs m) rs) m)"
proof (induction rs arbitrary: m)
  case (Cons r rs)
  then have "map (m_regs (push tr (m_regs m r) m)) rs = map (m_regs m) rs" by (intro map_cong) auto
  then show ?case using Cons by simp
qed simp

lemma exec_pop_all: "exec tr cc (map POP rs @ is) m = exec tr cc is (pop_all tr rs m)"
  by (induction rs arbitrary: m) simp_all

text \<open>The quadwords above a stack pointer are its slots seen from below.\<close>

lemma load_above:
  assumes "i < k" and "sp' = sp - 8 * of_nat k"
  shows "tr cr3 (sp' + 8 * of_nat i) = slot tr cr3 sp (k - Suc i)"
proof -
  have "(of_nat (k - i) :: u64) = of_nat k - of_nat i" using assms(1) by simp
  then have "sp' + 8 * of_nat i = sp - 8 * of_nat (k - i)" using assms(2) by (simp only: right_diff_distrib) simp
  moreover have "Suc (k - Suc i) = k - i" using assms(1) by simp
  ultimately show ?thesis by (simp only: slot_def)
qed

section \<open>Saved contexts\<close>

text \<open>
  The structure \<open>cpu_status\<close> of \<open>src/include/sched.h\<close>: the order of its registers, the state of the processor
  as such a structure, and the structure that is in memory at an address.
\<close>

definition cpu_status_regs :: "reg list" where
  "cpu_status_regs = [R15, R14, R13, R12, R11, R10, R9, R8, RDI, RSI, RBP, RDX, RCX, RBX, RAX]"

definition status_of :: "'s machine \<Rightarrow> cpu_status" where
  "status_of m = \<lparr>st_regs = map (m_regs m) cpu_status_regs, st_rip = m_rip m, st_cs = m_cs m, st_flags = m_flags m,
     st_rsp = m_regs m RSP, st_ss = m_ss m\<rparr>"

definition status_from :: "(nat \<Rightarrow> u64) \<Rightarrow> cpu_status" where
  "status_from q = \<lparr>st_regs = map q [0..<15], st_rip = q 15, st_cs = q 16, st_flags = q 17, st_rsp = q 18, st_ss = q 19\<rparr>"

definition status_at :: "translation \<Rightarrow> u64 \<Rightarrow> (u64 \<Rightarrow> u64) \<Rightarrow> u64 \<Rightarrow> cpu_status" where
  "status_at tr cr3 mem a = status_from (\<lambda>i. mem (tr cr3 (a + 8 * of_nat i)))"

lemma status_from_cong: "(\<And>i. i < 20 \<Longrightarrow> q i = q' i) \<Longrightarrow> status_from q = status_from q'"
  by (simp add: status_from_def)

lemma status_at_cong:
  assumes "\<And>i. i < 20 \<Longrightarrow> mem' (tr cr3' (a' + 8 * of_nat i)) = mem (tr cr3 (a + 8 * of_nat i))"
  shows "status_at tr cr3' mem' a' = status_at tr cr3 mem a"
  unfolding status_at_def using assms by (rule status_from_cong)

lemma status_regs_eq: "status_of m' = status_of m \<Longrightarrow> m_regs m' = m_regs m"
proof (rule ext)
  fix r
  assume "status_of m' = status_of m"
  then show "m_regs m' r = m_regs m r" by (cases r) (simp_all add: status_of_def cpu_status_regs_def)
qed

lemma status_rip_eq: "status_of m' = status_of m \<Longrightarrow> m_rip m' = m_rip m"
  by (drule arg_cong [of _ _ st_rip]) (simp add: status_of_def)

text \<open>The frame that is in the slots below a stack pointer.\<close>

lemma status_at_frame:
  assumes mem: "\<And>i. i < 20 \<Longrightarrow> mem (slot tr cr3 sp i) = vs ! i"
    and vs: "vs = [m_ss m, m_regs m RSP, m_flags m, m_cs m, m_rip m] @ map (m_regs m) saved_regs"
  shows "status_at tr cr3 mem (sp - 160) = status_of m"
proof -
  have q: "mem (tr cr3 (sp - 160 + 8 * of_nat i)) = vs ! (19 - i)" if "i < 20" for i
    using mem [of "19 - i"] load_above [OF that, of "sp - 160" sp tr cr3] by simp
  have "status_at tr cr3 mem (sp - 160) = status_from (\<lambda>i. vs ! (19 - i))"
    unfolding status_at_def using q by (rule status_from_cong)
  then show ?thesis
    by (simp add: status_from_def vs status_of_def cpu_status_regs_def saved_regs_def upt_rec)
qed

section \<open>Common parts of the entry points\<close>

lemma al_of_set_al:
  "ucast (m_regs (set_al v m) RAX) = v" "m_regs (set_al v m) RAX AND 0xff = ucast v"
proof -
  have m8: "(0xff :: u64) = mask 8" by (simp add: mask_eq_exp_minus_1)
  show "ucast (m_regs (set_al v m) RAX) = v"
    unfolding set_al_def m8 by (simp, rule bit_word_eqI) (simp add: bit_simps)
  show "m_regs (set_al v m) RAX AND 0xff = ucast v"
    unfolding set_al_def m8 by (simp, rule bit_word_eqI) (auto simp: bit_simps dest: bit_imp_le_length)
qed

lemma exec_acknowledge:
  "exec tr cc (acknowledge @ is) m = exec tr cc is (m\<lparr>m_mem := (m_mem m)(slot tr (m_cr3 m) (m_regs m RSP) 0 := m_regs m RAX),
     m_out := m_out m @ [(0x20, 0x20)]\<rparr>)"
proof -
  have al: "ucast (m_regs m RAX AND - 256 OR 0x20) = (0x20 :: u8)"
    using al_of_set_al(1) [of "0x20" m] by (simp add: set_al_def)
  have "slot tr (m_cr3 m) (m_regs m RSP) 0 = tr (m_cr3 m) (m_regs m RSP - 8)" by (simp add: slot_def)
  moreover have "(m_regs m)(RSP := m_regs m RSP, RAX := m_regs m RAX) = m_regs m" by simp
  ultimately show ?thesis
    using al by (simp add: acknowledge_def set_al_def pop_def push_def store_def load_def Let_def fun_upd_twist)
qed

text \<open>
  The state after the entry: the frame of the interrupted program is complete below the entry stack, the
  registers are still those of the program, and the interrupt is acknowledged.
\<close>

definition entered :: "translation \<Rightarrow> tss \<Rightarrow> idt_entry \<Rightarrow> 's machine \<Rightarrow> 's machine \<Rightarrow> bool" where
  "entered tr t gate m e \<longleftrightarrow> (let sp = entry_stack t gate m in
     m_regs e = (m_regs m)(RSP := sp - 160) \<and> m_cr3 e = m_cr3 m \<and> m_in e = m_in m \<and> m_sys e = m_sys m \<and>
     m_out e = m_out m @ [(0x20, 0x20)] \<and> (\<forall>a. a \<notin> stack_slots tr (m_cr3 m) sp 20 \<longrightarrow> m_mem e a = m_mem m a) \<and>
     status_at tr (m_cr3 m) (m_mem e) (sp - 160) = status_of m)"

lemma push_overwrites: "push tr v (m\<lparr>m_mem := (m_mem m)(slot tr (m_cr3 m) (m_regs m RSP) 0 := w)\<rparr>) = push tr v m"
  by (simp add: push_def store_def Let_def slot_def)

lemma push_all_overwrites:
  "vs \<noteq> [] \<Longrightarrow> push_all tr vs (m\<lparr>m_mem := (m_mem m)(slot tr (m_cr3 m) (m_regs m RSP) 0 := w)\<rparr>) = push_all tr vs m"
  by (cases vs) (simp_all add: push_overwrites)

lemma push_all_memory:
  "m_mem m' = m_mem m \<Longrightarrow> m_cr3 m' = m_cr3 m \<Longrightarrow> m_regs m' RSP = m_regs m RSP \<Longrightarrow>
     m_mem (push_all tr vs m') = m_mem (push_all tr vs m)"
  by (induction vs arbitrary: m m') simp_all

lemma exec_entry:
  assumes room: "stack_room tr (m_cr3 m) (entry_stack t gate m) 20"
  shows "\<exists>e. interrupt tr cc t gate [] (acknowledge @ map PUSH saved_regs @ is) m = exec tr cc is e \<and> entered tr t gate m e"
proof -
  let ?sp = "entry_stack t gate m" and ?c = "m_cr3 m"
  let ?f = "[m_ss m, m_regs m RSP, m_flags m, m_cs m, m_rip m]" and ?s = "map (m_regs m) saved_regs"
  let ?b = "set_reg RSP ?sp m"
  define d where "d = deliver tr t gate [] m"
  define a where "a = d\<lparr>m_mem := (m_mem d)(slot tr (m_cr3 d) (m_regs d RSP) 0 := m_regs d RAX),
     m_out := m_out d @ [(0x20, 0x20)]\<rparr>"
  define e where "e = push_all tr (map (m_regs a) saved_regs) a"
  have d: "m_regs d = (m_regs m)(RSP := ?sp - 40)" "m_cr3 d = ?c" "m_in d = m_in m" "m_sys d = m_sys m" "m_out d = m_out m"
      "m_mem d = m_mem (push_all tr ?f ?b)"
    by (simp_all add: d_def deliver_def)
  let ?d = "d\<lparr>m_out := m_out d @ [(0x20, 0x20)]\<rparr>"
  have s: "map (m_regs a) saved_regs = ?s" by (simp add: a_def d saved_regs_def)
  have a: "a = ?d\<lparr>m_mem := (m_mem ?d)(slot tr (m_cr3 ?d) (m_regs ?d RSP) 0 := m_regs d RAX)\<rparr>"
    by (cases d) (simp add: a_def)
  have "m_mem e = m_mem (push_all tr ?s ?d)"
    unfolding e_def s by (subst a) (rule arg_cong [OF push_all_overwrites], simp add: saved_regs_def)
  also have "\<dots> = m_mem (push_all tr ?s (push_all tr ?f ?b))" by (rule push_all_memory) (simp_all add: d)
  finally have mem: "m_mem e = m_mem (push_all tr (?f @ ?s) ?b)" by (simp add: push_all_def)
  have len: "length (?f @ ?s) = 20" by (simp add: saved_regs_def)
  have "m_mem e (slot tr ?c ?sp i) = (?f @ ?s) ! i" if "i < 20" for i
    unfolding mem using push_all_mem [of tr ?b "?f @ ?s" i] room that len by simp
  then have "status_at tr ?c (m_mem e) (?sp - 160) = status_of m" by (intro status_at_frame [OF _ refl]) blast
  moreover have "m_mem e x = m_mem m x" if "x \<notin> stack_slots tr ?c ?sp 20" for x
    unfolding mem using push_all_outside [of x tr ?b "?f @ ?s"] that len by simp
  ultimately have "entered tr t gate m e"
    by (auto simp: entered_def e_def a_def d saved_regs_def simp del: push_all_simps)
  moreover have "interrupt tr cc t gate [] (acknowledge @ map PUSH saved_regs @ is) m = exec tr cc is e"
    unfolding interrupt_def exec_acknowledge d_def [symmetric] a_def [symmetric] e_def
    by (rule exec_push_all) (simp add: saved_regs_def)
  ultimately show ?thesis by blast
qed

text \<open>The return: the processor continues with the structure that the stack pointer points to.\<close>

lemma exec_restore:
  "\<exists>m'. exec tr cc (map POP restored_regs @ [IRETQ]) m = (m', Inr ()) \<and>
     status_of m' = status_at tr (m_cr3 m) (m_mem m) (m_regs m RSP) \<and>
     m_cr3 m' = m_cr3 m \<and> m_mem m' = m_mem m \<and> m_in m' = m_in m \<and> m_out m' = m_out m \<and> m_sys m' = m_sys m"
proof -
  let ?p = "pop_all tr restored_regs m" and ?q = "\<lambda>i. m_mem m (tr (m_cr3 m) (m_regs m RSP + 8 * of_nat i))"
  have rs: "length restored_regs = 15" "distinct restored_regs" "RSP \<notin> set restored_regs" by (simp_all add: restored_regs_def)
  have sp: "m_regs ?p RSP = m_regs m RSP + 120" using pop_all_rsp [OF rs(3), of tr m] by (simp add: rs(1))
  from rs have "map (m_regs ?p) restored_regs = map ?q [0..<15]"
    using pop_all_map [OF rs(3,2), of tr m] by (simp only: load_def)
  moreover have "restored_regs = cpu_status_regs" by (simp add: restored_regs_def cpu_status_regs_def)
  moreover have "map (m_regs (iretq tr ?p)) cpu_status_regs = map (m_regs ?p) cpu_status_regs"
    by (simp add: iretq_def Let_def cpu_status_regs_def)
  ultimately have regs: "map (m_regs (iretq tr ?p)) cpu_status_regs = map ?q [0..<15]" by metis
  have "status_of (iretq tr ?p) = status_from ?q"
    unfolding status_of_def status_from_def regs by (simp add: iretq_def Let_def load_def sp add.commute)
  then show ?thesis
    by (simp add: exec_pop_all status_at_def iretq_def Let_def)
qed

text \<open>What a call leaves as it was.\<close>

definition call_keeps :: "translation \<Rightarrow> nat \<Rightarrow> 's machine \<Rightarrow> 's machine \<Rightarrow> bool" where
  "call_keeps tr n m m' \<longleftrightarrow> (\<forall>r \<in> set callee_saved. m_regs m' r = m_regs m r) \<and> m_cr3 m' = m_cr3 m \<and>
     m_in m' = m_in m \<and> m_out m' = m_out m \<and> m_cs m' = m_cs m \<and> m_ss m' = m_ss m \<and>
     (\<forall>a. a \<notin> stack_slots tr (m_cr3 m) (m_regs m RSP) n \<longrightarrow> m_mem m' a = m_mem m a)"

lemma call_c_returns:
  assumes "cc_fun cc f (take (arity f) (arguments tr m)) (load tr m) (m_sys m) = (s, Inr v)" and "cc_frame cc f \<le> n"
  shows "\<exists>m'. call_c tr cc f m = (m', Inr ()) \<and> m_sys m' = s \<and> m_regs m' RAX = v \<and> call_keeps tr n m m'"
proof -
  let ?vs = "take (cc_frame cc f) (cc_stack cc f m)"
  have "m_mem (push_all tr ?vs m) a = m_mem m a" if "a \<notin> stack_slots tr (m_cr3 m) (m_regs m RSP) n" for a
    using that assms(2) push_all_outside [of a tr m ?vs] by force
  then show ?thesis
    using assms(1) by (simp add: call_c_def call_keeps_def callee_saved_def del: push_all_simps)
qed

lemma call_keeps_regs:
  assumes "call_keeps tr n m m'"
  shows "m_regs m' RBX = m_regs m RBX" "m_regs m' RBP = m_regs m RBP" "m_regs m' RSP = m_regs m RSP"
    "m_regs m' R12 = m_regs m R12" "m_regs m' R13 = m_regs m R13" "m_regs m' R14 = m_regs m R14" "m_regs m' R15 = m_regs m R15"
    "m_cr3 m' = m_cr3 m" "m_in m' = m_in m" "m_out m' = m_out m"
  using assms by (simp_all add: call_keeps_def callee_saved_def)

lemma call_keeps_memory:
  "call_keeps tr n m m' \<Longrightarrow> a \<notin> stack_slots tr (m_cr3 m) (m_regs m RSP) n \<Longrightarrow> m_mem m' a = m_mem m a"
  by (simp add: call_keeps_def)

section \<open>The timer interrupt\<close>

text \<open>The C functions that the timer handler calls; the first field of a process is its \<open>cr3\<close>.\<close>

definition timer_fun :: "callee \<Rightarrow> u64 list \<Rightarrow> (u64 \<Rightarrow> u64) \<Rightarrow> sched \<Rightarrow> sched \<times> u64 res" where
  "timer_fun f args view s =
     (case f of
        SCHEDULE \<Rightarrow> (case schedule (args ! 0) s of Inl e \<Rightarrow> (s, Inl e) | Inr (context, s') \<Rightarrow> (s', Inr context))
      | GET_CURRENT_PROCESS \<Rightarrow> (s, Inr (get_current_process s))
      | _ \<Rightarrow> (s, Inl Halted))"

definition timer_code :: "nat \<Rightarrow> sched ccode \<Rightarrow> bool" where
  "timer_code n cc \<longleftrightarrow> cc_fun cc = timer_fun \<and> cc_peek cc = (\<lambda>s p. p_cr3 (procs s p)) \<and>
     cc_frame cc SCHEDULE \<le> n \<and> cc_frame cc GET_CURRENT_PROCESS \<le> n"

lemma zf_set_zf: "m_flags (set_zf b m) AND 0x40 \<noteq> 0 \<longleftrightarrow> b"
proof -
  have "(w OR 2 ^ 6) AND 2 ^ 6 \<noteq> 0" "(w AND NOT (2 ^ 6)) AND 2 ^ 6 = 0" for w :: u64
    by (simp_all only: and_exp_eq_0_iff_not_bit bit_or_iff bit_and_iff bit_not_iff bit_exp_iff) simp_all
  from this [of "m_flags m"] show ?thesis by (simp add: set_zf_def)
qed

lemma set_zf_fields [simp]:
  "m_regs (set_zf b m) = m_regs m" "m_cr3 (set_zf b m) = m_cr3 m" "m_in (set_zf b m) = m_in m" "m_out (set_zf b m) = m_out m"
  "m_sys (set_zf b m) = m_sys m" "m_mem (set_zf b m) = m_mem m"
  by (simp_all add: set_zf_def)

lemma timer_body:
  assumes cc: "timer_code n cc" and sch: "schedule (m_regs e RSP) (m_sys e) = Inr (context, s')"
    and ptr: "current_process s' \<noteq> m_cr3 e"
  shows "\<exists>x. exec tr cc ([MOV RDI RSP, CALL SCHEDULE, MOV R15 RAX, CALL GET_CURRENT_PROCESS, MOV_FROM_CR3 RCX, CMP RAX RCX, JE 2,
      MOV_INDIRECT RCX RAX, MOV_TO_CR3 RCX, MOV RSP R15] @ is) e = exec tr cc is x \<and>
    m_regs x RSP = context \<and> m_cr3 x = p_cr3 (procs s' (current_process s')) \<and> m_sys x = s' \<and> m_in x = m_in e \<and>
    m_out x = m_out e \<and> (\<forall>a. a \<notin> stack_slots tr (m_cr3 e) (m_regs e RSP) n \<longrightarrow> m_mem x a = m_mem e a)"
proof -
  let ?e1 = "set_reg RDI (m_regs e RSP) e"
  obtain a where a: "call_c tr cc SCHEDULE ?e1 = (a, Inr ())" "m_sys a = s'" "m_regs a RAX = context" "call_keeps tr n ?e1 a"
    using call_c_returns [of cc SCHEDULE tr ?e1 s' "context" n] cc sch
    by (auto simp: timer_code_def timer_fun_def arguments_def)
  let ?a1 = "set_reg R15 context a"
  obtain b where b: "call_c tr cc GET_CURRENT_PROCESS ?a1 = (b, Inr ())" "m_sys b = s'"
      "m_regs b RAX = current_process s'" "call_keeps tr n ?a1 b"
    using call_c_returns [of cc GET_CURRENT_PROCESS tr ?a1 s' "current_process s'" n] cc a(2)
    by (auto simp: timer_code_def timer_fun_def get_current_process_def)
  let ?c = "set_zf False (set_reg RCX (m_cr3 b) b)"
  let ?x = "set_reg RSP context (?c\<lparr>m_regs := (m_regs ?c)(RCX := p_cr3 (procs s' (current_process s'))),
     m_cr3 := p_cr3 (procs s' (current_process s'))\<rparr>)"
  note k = call_keeps_regs [OF a(4)] call_keeps_regs [OF b(4)]
  have "m_mem b y = m_mem e y" if "y \<notin> stack_slots tr (m_cr3 e) (m_regs e RSP) n" for y
    using call_keeps_memory [OF b(4), of y] call_keeps_memory [OF a(4), of y] that k by simp
  moreover have "exec tr cc ([MOV RDI RSP, CALL SCHEDULE, MOV R15 RAX, CALL GET_CURRENT_PROCESS, MOV_FROM_CR3 RCX, CMP RAX RCX,
      JE 2, MOV_INDIRECT RCX RAX, MOV_TO_CR3 RCX, MOV RSP R15] @ is) e = exec tr cc is ?x"
    using cc ptr k zf_set_zf [of False "set_reg RCX (m_cr3 b) b"]
    by (simp add: a b timer_code_def)
  ultimately show ?thesis using b(2) k by (intro exI [of _ ?x]) simp
qed

definition timer_switch :: "translation \<Rightarrow> tss \<Rightarrow> idt_entry \<Rightarrow> nat \<Rightarrow> u64 \<Rightarrow> sched machine \<Rightarrow> sched machine \<Rightarrow> bool" where
  "timer_switch tr t gate n context m m' \<longleftrightarrow> (let sp = entry_stack t gate m in
     m_cr3 m' = p_cr3 (procs (m_sys m') (current_process (m_sys m'))) \<and>
     status_at tr (m_cr3 m) (m_mem m') (sp - 160) = status_of m \<and>
     status_of m' = status_at tr (m_cr3 m') (m_mem m') context \<and>
     m_in m' = m_in m \<and> m_out m' = m_out m @ [(0x20, 0x20)] \<and>
     (\<forall>a. a \<notin> stack_slots tr (m_cr3 m) sp (20 + n) \<longrightarrow> m_mem m' a = m_mem m a))"

lemma timer_effect:
  assumes cc: "timer_code n cc" and room: "stack_room tr (m_cr3 m) (entry_stack t gate m) (20 + n)"
    and sch: "schedule (entry_stack t gate m - 160) (m_sys m) = Inr (context, s')" and ptr: "current_process s' \<noteq> m_cr3 m"
  shows "\<exists>m'. interrupt tr cc t gate [] timer_int_handler m = (m', Inr ()) \<and> m_sys m' = s' \<and> timer_switch tr t gate n context m m'"
proof -
  let ?sp = "entry_stack t gate m" and ?c = "m_cr3 m"
  let ?tail = "map POP restored_regs @ [IRETQ]"
  let ?mid = "[MOV RDI RSP, CALL SCHEDULE, MOV R15 RAX, CALL GET_CURRENT_PROCESS, MOV_FROM_CR3 RCX, CMP RAX RCX, JE 2,
      MOV_INDIRECT RCX RAX, MOV_TO_CR3 RCX, MOV RSP R15]"
  obtain e where e: "interrupt tr cc t gate [] (acknowledge @ map PUSH saved_regs @ ?mid @ ?tail) m = exec tr cc (?mid @ ?tail) e"
      "entered tr t gate m e"
    using exec_entry [OF stack_room_mono [OF room], of cc "?mid @ ?tail"] by auto
  then have ef: "m_regs e RSP = ?sp - 160" "m_cr3 e = ?c" "m_in e = m_in m" "m_sys e = m_sys m" "m_out e = m_out m @ [(0x20, 0x20)]"
      "\<And>a. a \<notin> stack_slots tr ?c ?sp 20 \<Longrightarrow> m_mem e a = m_mem m a" "status_at tr ?c (m_mem e) (?sp - 160) = status_of m"
    by (simp_all add: entered_def Let_def)
  obtain x where x: "exec tr cc (?mid @ ?tail) e = exec tr cc ?tail x" "m_regs x RSP = context"
      "m_cr3 x = p_cr3 (procs s' (current_process s'))" "m_sys x = s'" "m_in x = m_in e" "m_out x = m_out e"
      "\<And>a. a \<notin> stack_slots tr ?c (?sp - 160) n \<Longrightarrow> m_mem x a = m_mem e a"
    using timer_body [OF cc, of e "context" s' tr ?tail] sch ptr by (auto simp: ef)
  obtain m' where m': "exec tr cc ?tail x = (m', Inr ())" "status_of m' = status_at tr (m_cr3 x) (m_mem x) (m_regs x RSP)"
      "m_cr3 m' = m_cr3 x" "m_mem m' = m_mem x" "m_in m' = m_in x" "m_out m' = m_out x" "m_sys m' = m_sys x"
    using exec_restore by blast
  have shift: "slot tr ?c (?sp - 160) i = slot tr ?c ?sp (20 + i)" for i using slot_shift [of tr ?c ?sp 20 i] by simp
  have "m_mem x a = m_mem m a" if "a \<notin> stack_slots tr ?c ?sp (20 + n)" for a
    using that by (intro trans [OF x(7) ef(6)]) (auto simp: shift)
  moreover have "m_mem x (slot tr ?c ?sp i) = m_mem e (slot tr ?c ?sp i)" if "i < 20" for i
  proof (rule x(7))
    have "slot tr ?c ?sp i \<noteq> slot tr ?c ?sp (20 + j)" if "j < n" for j
      using room \<open>i < 20\<close> that by (auto simp: stack_room_def dest!: inj_onD [of _ _ i "20 + j"])
    then show "slot tr ?c ?sp i \<notin> stack_slots tr ?c (?sp - 160) n" by (auto simp: shift)
  qed
  then have "status_at tr ?c (m_mem x) (?sp - 160) = status_at tr ?c (m_mem e) (?sp - 160)"
    by (intro status_at_cong) (simp add: load_above [where k = 20 and sp = ?sp])
  ultimately have "timer_switch tr t gate n context m m'"
    using ef x m' by (simp add: timer_switch_def Let_def)
  then show ?thesis using e x m' by (simp add: timer_int_handler_def)
qed

text \<open>What \<open>schedule\<close> does to the contexts and the address spaces of the processes.\<close>

lemma schedule_contexts:
  assumes "schedule c s = Inr (r, s')"
  shows "r = p_context (procs s' (current_process s'))"
    "p_context (procs s' p) = (if p = current_process s then c else p_context (procs s p))"
    "p_cr3 (procs s' p) = p_cr3 (procs s p)"
  using assms by (auto simp: schedule_def Let_def upd_def split: if_splits)

lemma status_at_kept:
  assumes "timer_switch tr t gate n c m m'"
    and "\<forall>j<20. tr cr3 (a + 8 * of_nat j) \<notin> stack_slots tr (m_cr3 m) (entry_stack t gate m) (20 + n)"
  shows "status_at tr cr3 (m_mem m') a = status_at tr cr3 (m_mem m) a"
  using assms by (intro status_at_cong) (simp add: timer_switch_def Let_def)

text \<open>
  (C6) The timer interrupt switches processes: with room on the stack, and when the saved context of the next
  process is not where the handler writes, the handler ends.  The first process behind the current one, in
  cyclic order, that can run continues in its own address space with exactly the registers, flags, stack and
  instruction pointer of its saved context; the state of the interrupted process is stored in full below the
  entry stack, as the structure that \<open>schedule\<close> was given; nothing else is written; and the interrupt is
  acknowledged.
\<close>

theorem timer_interrupt_switches:
  assumes cc: "timer_code n cc" and room: "stack_room tr (m_cr3 m) (entry_stack t gate m) (20 + n)"
    and list: "proc_chain (m_sys m) xs" "i < length xs" "current_process (m_sys m) = xs ! i"
    and d: "runnable (m_sys m) (ahead xs i d)" "\<forall>e<d. \<not> runnable (m_sys m) (ahead xs i e)"
    and p: "p = ahead xs i d" "p \<noteq> m_cr3 m" and cr3: "p_cr3 (procs (m_sys m) (xs ! i)) = m_cr3 m"
    and ctx: "\<forall>j<20. tr (p_cr3 (procs (m_sys m) p)) (p_context (procs (m_sys m) p) + 8 * of_nat j)
      \<notin> stack_slots tr (m_cr3 m) (entry_stack t gate m) (20 + n)"
  shows "\<exists>m'. interrupt tr cc t gate [] timer_int_handler m = (m', Inr ()) \<and> current_process (m_sys m') = p \<and>
    m_cr3 m' = p_cr3 (procs (m_sys m) p) \<and>
    status_of m' = (if p = xs ! i then status_of m
      else status_at tr (p_cr3 (procs (m_sys m) p)) (m_mem m) (p_context (procs (m_sys m) p))) \<and>
    p_context (procs (m_sys m') (xs ! i)) = entry_stack t gate m - 160 \<and>
    status_at tr (m_cr3 m) (m_mem m') (entry_stack t gate m - 160) = status_of m \<and>
    (\<forall>a. a \<notin> stack_slots tr (m_cr3 m) (entry_stack t gate m) (20 + n) \<longrightarrow> m_mem m' a = m_mem m a) \<and>
    m_out m' = m_out m @ [(0x20, 0x20)]"
proof -
  let ?ctx = "entry_stack t gate m - 160"
  obtain s' where s': "schedule ?ctx (m_sys m) = Inr (if p = xs ! i then ?ctx else p_context (procs (m_sys m) p), s')"
      "current_process s' = p"
    using schedule_effect [OF list d, of ?ctx] list(3) p(1) by auto
  obtain m' where m': "interrupt tr cc t gate [] timer_int_handler m = (m', Inr ())" "m_sys m' = s'"
      "timer_switch tr t gate n (if p = xs ! i then ?ctx else p_context (procs (m_sys m) p)) m m'"
    using timer_effect [OF cc room s'(1)] s'(2) p(2) by auto
  note kept = status_at_kept [OF m'(3) ctx]
  have "p_cr3 (procs s' p) = p_cr3 (procs (m_sys m) p)" "p_context (procs s' (xs ! i)) = ?ctx"
    using schedule_contexts [OF s'(1)] list(3) by simp_all
  then show ?thesis using m' s'(2) cr3 kept by (auto simp: timer_switch_def Let_def)
qed

text \<open>
  (C7) A process that is interrupted and later scheduled again does not notice: if its frame, its saved
  context and its address space are left alone in the meantime, and the stack of the second interrupt is a different
  one, it continues with exactly the registers, flags and stack it was interrupted with, in its address space.
\<close>

theorem interrupted_process_resumes:
  assumes cc: "timer_code n cc" and room: "stack_room tr (m_cr3 m) (entry_stack t gate m) (20 + n)"
    and first: "schedule (entry_stack t gate m - 160) (m_sys m) = Inr (c1, s1)" "current_process s1 \<noteq> m_cr3 m"
      "interrupt tr cc t gate [] timer_int_handler m = (m1, Inr ())"
    and room2: "stack_room tr (m_cr3 m2) (entry_stack t gate m2) (20 + n)"
    and again: "schedule (entry_stack t gate m2 - 160) (m_sys m2) = Inr (c2, s2)" "current_process s2 \<noteq> m_cr3 m2"
      "p = current_process (m_sys m)" "current_process s2 = p" "p \<noteq> current_process (m_sys m2)"
    and kept: "p_context (procs (m_sys m2) p) = p_context (procs (m_sys m1) p)" "p_cr3 (procs (m_sys m2) p) = m_cr3 m"
      "\<forall>j<20. m_mem m2 (slot tr (m_cr3 m) (entry_stack t gate m) j) = m_mem m1 (slot tr (m_cr3 m) (entry_stack t gate m) j)"
    and apart: "stack_slots tr (m_cr3 m) (entry_stack t gate m) 20 \<inter>
      stack_slots tr (m_cr3 m2) (entry_stack t gate m2) (20 + n) = {}"
  shows "\<exists>m3. interrupt tr cc t gate [] timer_int_handler m2 = (m3, Inr ()) \<and> status_of m3 = status_of m \<and>
    m_regs m3 = m_regs m \<and> m_cr3 m3 = m_cr3 m"
proof -
  let ?sp = "entry_stack t gate m"
  have m1: "m_sys m1 = s1" "timer_switch tr t gate n c1 m m1" using timer_effect [OF cc room first(1,2)] first(3) by auto
  obtain m3 where m3: "interrupt tr cc t gate [] timer_int_handler m2 = (m3, Inr ())" "m_sys m3 = s2"
      "timer_switch tr t gate n c2 m2 m3"
    using timer_effect [OF cc room2 again(1,2)] by auto
  have c2: "c2 = ?sp - 160" "p_cr3 (procs s2 p) = m_cr3 m"
    using schedule_contexts [OF again(1)] schedule_contexts [OF first(1)] again kept m1(1) by auto
  have frame: "tr (m_cr3 m) (?sp - 160 + 8 * of_nat j) = slot tr (m_cr3 m) ?sp (19 - j)" if "j < 20" for j
    using load_above [OF that, of "?sp - 160" ?sp] by simp
  have "tr (m_cr3 m) (?sp - 160 + 8 * of_nat j) \<notin> stack_slots tr (m_cr3 m2) (entry_stack t gate m2) (20 + n)" if "j < 20" for j
  proof -
    have "slot tr (m_cr3 m) ?sp (19 - j) \<in> stack_slots tr (m_cr3 m) ?sp 20" using that by (intro imageI) simp
    then show ?thesis using apart unfolding frame [OF that] by blast
  qed
  note frame_kept = status_at_kept [OF m3(3), of "m_cr3 m" "?sp - 160"] this
  have "status_of m3 = status_at tr (m_cr3 m) (m_mem m3) (?sp - 160)"
    using m3 c2 again(4) by (simp add: timer_switch_def Let_def)
  also have "\<dots> = status_at tr (m_cr3 m) (m_mem m2) (?sp - 160)" using frame_kept by blast
  also have "\<dots> = status_at tr (m_cr3 m) (m_mem m1) (?sp - 160)"
    using kept(3) by (intro status_at_cong) (simp add: frame)
  also have "\<dots> = status_of m" using m1(2) by (simp add: timer_switch_def Let_def)
  finally have "status_of m3 = status_of m" .
  then show ?thesis using m3 c2 again(4) status_regs_eq [of m3 m] by (simp add: timer_switch_def Let_def)
qed

text \<open>
  All processes that are interrupted in user mode share one stack, the one in the task state segment,
  which no code changes: if a process is interrupted in user mode while another one is still waiting with its state
  saved there, the frame is overwritten, and the waiting process continues with the registers and the
  instruction pointer of the other one, in its own address space.
\<close>

theorem user_contexts_collide:
  assumes cc: "timer_code n cc" and gate: "idt_ist gate = 0"
    and user: "from_user m" "from_user m2"
    and kernel: "\<forall>j<20 + n. slot tr (m_cr3 m2) (tss_rsp0 t AND NOT 0xf) j = slot tr (m_cr3 m) (tss_rsp0 t AND NOT 0xf) j"
    and room: "stack_room tr (m_cr3 m) (tss_rsp0 t AND NOT 0xf) (20 + n)"
    and first: "schedule (entry_stack t gate m - 160) (m_sys m) = Inr (c1, s1)"
    and again: "schedule (entry_stack t gate m2 - 160) (m_sys m2) = Inr (c2, s2)" "current_process s2 \<noteq> m_cr3 m2"
      "p = current_process (m_sys m)" "current_process s2 = p" "p \<noteq> current_process (m_sys m2)"
    and kept: "p_context (procs (m_sys m2) p) = p_context (procs s1 p)" "p_cr3 (procs (m_sys m2) p) = m_cr3 m"
  shows "\<exists>m3. interrupt tr cc t gate [] timer_int_handler m2 = (m3, Inr ()) \<and> status_of m3 = status_of m2 \<and>
    m_regs m3 = m_regs m2 \<and> m_rip m3 = m_rip m2 \<and> m_cr3 m3 = m_cr3 m"
proof -
  define sp where "sp = tss_rsp0 t AND NOT 0xf"
  note room = room [folded sp_def] and kernel = kernel [folded sp_def]
  have sp: "entry_stack t gate m = sp" "entry_stack t gate m2 = sp" using user gate by (simp_all add: entry_stack_def sp_def)
  have "stack_room tr (m_cr3 m2) sp (20 + n)"
    using room kernel inj_on_cong [of "{..<20 + n}" "slot tr (m_cr3 m2) sp" "slot tr (m_cr3 m) sp"]
    by (simp add: stack_room_def)
  then obtain m3 where m3: "interrupt tr cc t gate [] timer_int_handler m2 = (m3, Inr ())" "m_sys m3 = s2"
      "timer_switch tr t gate n c2 m2 m3"
    using timer_effect [OF cc _ again(1,2)] sp by auto
  have c2: "c2 = sp - 160" "p_cr3 (procs s2 p) = m_cr3 m"
    using schedule_contexts [OF again(1)] schedule_contexts [OF first] again kept sp by auto
  have frame: "tr c (sp - 160 + 8 * of_nat j) = slot tr c sp (19 - j)" if "j < 20" for c j
    using load_above [OF that, of "sp - 160" sp] by simp
  have "status_of m3 = status_at tr (m_cr3 m) (m_mem m3) (sp - 160)"
    using m3 c2 again(4) by (simp add: timer_switch_def Let_def)
  also have "\<dots> = status_at tr (m_cr3 m2) (m_mem m3) (sp - 160)"
    using kernel by (intro status_at_cong) (simp add: frame)
  also have "\<dots> = status_of m2" using m3(3) sp by (simp add: timer_switch_def Let_def)
  finally have "status_of m3 = status_of m2" .
  then show ?thesis
    using m3 c2 again(4) status_regs_eq [of m3 m2] status_rip_eq [of m3 m2] by (simp add: timer_switch_def Let_def)
qed

section \<open>Code that returns with the stack as it was\<close>

text \<open>
  The interface of the middle part of an entry point: if it ends, the stack pointer and the loaded tables are as
  before, and at most \<open>n\<close> quadwords below the stack pointer have changed.  Then what was pushed around it is
  popped unchanged, and a frame above it is still complete.
\<close>

locale stack_neutral =
  fixes tr :: translation and body :: "'s machine \<Rightarrow> 's machine \<times> unit res" and n :: nat
  assumes keeps: "body m = (m', Inr ()) \<Longrightarrow> m_regs m' RSP = m_regs m RSP \<and> m_cr3 m' = m_cr3 m \<and>
    (\<forall>a. a \<notin> stack_slots tr (m_cr3 m) (m_regs m RSP) n \<longrightarrow> m_mem m' a = m_mem m a)"
begin

lemma above_kept:
  assumes room: "stack_room tr (m_cr3 m) sp (k + n)" and sp: "m_regs m RSP = sp - 8 * of_nat k"
    and run: "body m = (m', Inr ())" and i: "i < k"
  shows "m_mem m' (slot tr (m_cr3 m) sp i) = m_mem m (slot tr (m_cr3 m) sp i)"
proof -
  have "slot tr (m_cr3 m) sp i \<noteq> slot tr (m_cr3 m) sp (k + j)" if "j < n" for j
    using room i that by (auto simp: stack_room_def dest!: inj_onD [of _ _ i "k + j"])
  then have "slot tr (m_cr3 m) sp i \<notin> stack_slots tr (m_cr3 m) (m_regs m RSP) n"
    unfolding sp slot_shift [abs_def] by auto
  then show ?thesis using keeps [OF run] by blast
qed

lemma frame_kept:
  assumes room: "stack_room tr (m_cr3 m) sp (20 + n)" and sp: "m_regs m RSP = sp - 160" and run: "body m = (m', Inr ())"
  shows "status_at tr (m_cr3 m) (m_mem m') (sp - 160) = status_at tr (m_cr3 m) (m_mem m) (sp - 160)"
proof (rule status_at_cong)
  fix i :: nat
  assume i: "i < 20"
  then have "tr (m_cr3 m) (sp - 160 + 8 * of_nat i) = slot tr (m_cr3 m) sp (19 - i)"
    using load_above [OF i, of "sp - 160" sp] by simp
  moreover have "m_mem m' (slot tr (m_cr3 m) sp (19 - i)) = m_mem m (slot tr (m_cr3 m) sp (19 - i))"
    using above_kept [OF room _ run, of "19 - i"] sp by simp
  ultimately show "m_mem m' (tr (m_cr3 m) (sp - 160 + 8 * of_nat i)) = m_mem m (tr (m_cr3 m) (sp - 160 + 8 * of_nat i))"
    by simp
qed

lemma bracket:
  assumes rs: "RSP \<notin> set rs" "distinct rs" and room: "stack_room tr (m_cr3 m) (m_regs m RSP) (length rs + n)"
    and run: "body (push_all tr (map (m_regs m) rs) m) = (m', Inr ())" and x: "x = pop_all tr (rev rs) m'"
  shows "m_regs x RSP = m_regs m RSP \<and> (\<forall>r \<in> set rs. m_regs x r = m_regs m r) \<and>
    (\<forall>r. r \<notin> set rs \<longrightarrow> r \<noteq> RSP \<longrightarrow> m_regs x r = m_regs m' r) \<and>
    (\<forall>a. a \<notin> stack_slots tr (m_cr3 m) (m_regs m RSP) (length rs + n) \<longrightarrow> m_mem x a = m_mem m a)"
proof -
  let ?sp = "m_regs m RSP" and ?c = "m_cr3 m" and ?p = "push_all tr (map (m_regs m) rs) m"
  have k: "m_regs m' RSP = ?sp - 8 * of_nat (length rs)" "m_cr3 m' = ?c"
      "\<And>a. a \<notin> stack_slots tr ?c (?sp - 8 * of_nat (length rs)) n \<Longrightarrow> m_mem m' a = m_mem ?p a"
    using keeps [OF run] by simp_all
  have "m_regs x (rs ! i) = m_regs m (rs ! i)" if i: "i < length rs" for i
  proof -
    have "m_regs x (rs ! i) = m_regs x (rev rs ! (length rs - Suc i))" using i by (simp add: rev_nth)
    also have "\<dots> = m_mem m' (tr ?c (m_regs m' RSP + 8 * of_nat (length rs - Suc i)))"
      unfolding x using pop_all_nth [of "rev rs" "length rs - Suc i" tr m'] rs i k(2) by (simp add: load_def)
    also have "\<dots> = m_mem m' (slot tr ?c ?sp i)"
      using load_above [of "length rs - Suc i" "length rs" "m_regs m' RSP" ?sp tr ?c] i k(1) by simp
    also have "\<dots> = m_mem ?p (slot tr ?c ?sp i)" using above_kept [of ?p ?sp "length rs" m' i] room run i by simp
    also have "\<dots> = m_regs m (rs ! i)"
      using push_all_mem [of tr m "map (m_regs m) rs" i] stack_room_mono [OF room] i by simp
    finally show ?thesis .
  qed
  then have "\<forall>r \<in> set rs. m_regs x r = m_regs m r" by (auto simp: in_set_conv_nth)
  moreover have "m_regs x RSP = ?sp" unfolding x using pop_all_rsp [of "rev rs" tr m'] rs k(1) by simp
  moreover have "m_mem x a = m_mem m a" if "a \<notin> stack_slots tr ?c ?sp (length rs + n)" for a
  proof -
    have "a \<notin> stack_slots tr ?c (?sp - 8 * of_nat (length rs)) n" "a \<notin> stack_slots tr ?c ?sp (length rs)"
      using that unfolding slot_shift [abs_def] by auto
    then show ?thesis using k(3) [of a] push_all_outside [of a tr m "map (m_regs m) rs"] by (simp add: x)
  qed
  ultimately show ?thesis using pop_all_other [of "rev rs"] rs x by auto
qed

end

section \<open>The keyboard interrupt\<close>

definition keyboard_body :: "instr list" where
  "keyboard_body = [IN_AL 0x60, MOVZX_AL RDI, CALL KEYBOARD_HANDLER]"

lemma keyboard_body_exec:
  "exec tr cc keyboard_body m = (case call_c tr cc KEYBOARD_HANDLER (set_reg RDI (ucast (m_in m 0x60)) (set_al (m_in m 0x60) m)) of
     (m', Inl e) \<Rightarrow> (m', Inl e) | (m', Inr _) \<Rightarrow> (m', Inr ()))"
  by (simp add: keyboard_body_def al_of_set_al)

lemma call_c_neutral:
  assumes "call_c tr cc f m = (m', Inr ())"
  shows "m_regs m' RSP = m_regs m RSP \<and> m_cr3 m' = m_cr3 m \<and>
    (\<forall>a. a \<notin> stack_slots tr (m_cr3 m) (m_regs m RSP) (cc_frame cc f) \<longrightarrow> m_mem m' a = m_mem m a)"
proof -
  obtain s r where r: "cc_fun cc f (take (arity f) (arguments tr m)) (load tr m) (m_sys m) = (s, r)" by fastforce
  with assms obtain v where "r = Inr v" by (cases r) (auto simp: call_c_def)
  then show ?thesis
    using call_c_returns [of cc f tr m s v "cc_frame cc f"] r assms call_keeps_regs(3,8) by (auto simp: call_keeps_def)
qed

interpretation kbd: stack_neutral tr "exec tr cc keyboard_body" "cc_frame cc KEYBOARD_HANDLER" for tr cc
proof unfold_locales
  fix m m'
  assume "exec tr cc keyboard_body m = (m', Inr ())"
  then have "call_c tr cc KEYBOARD_HANDLER (set_reg RDI (ucast (m_in m 0x60)) (set_al (m_in m 0x60) m)) = (m', Inr ())"
    by (auto simp: keyboard_body_exec split: prod.splits sum.splits)
  from call_c_neutral [OF this]
  show "m_regs m' RSP = m_regs m RSP \<and> m_cr3 m' = m_cr3 m \<and>
    (\<forall>a. a \<notin> stack_slots tr (m_cr3 m) (m_regs m RSP) (cc_frame cc KEYBOARD_HANDLER) \<longrightarrow> m_mem m' a = m_mem m a)"
    by (simp add: set_al_def)
qed

lemma ucast_u8_u64: "ucast (ucast (b :: u8) :: u64) = b"
  by (rule bit_word_eqI) (simp add: bit_simps)

definition keyboard_code :: "u64 \<Rightarrow> pstate ccode \<Rightarrow> bool" where
  "keyboard_code g_keyboard_pipe cc \<longleftrightarrow> (\<forall>args view st. \<exists>v.
     cc_fun cc KEYBOARD_HANDLER args view st = (keyboard_handler g_keyboard_pipe (ucast (args ! 0)) st, Inr v))"


section \<open>System calls\<close>

definition syscall_saved :: "reg list" where
  "syscall_saved = [RBP, R15, R14, R13, R12, R11, RCX, R9]"

definition syscall_body :: "instr list" where
  "syscall_body = [MOV R9 R8, MOV R8 R10, MOV RCX RDX, MOV RDX RSI, MOV RSI RDI, MOV RDI RAX, CALL SYSCALL_HANDLER]"

lemma syscall_stub_parts:
  "syscall_stub = STI # map PUSH syscall_saved @ syscall_body @ map POP (rev syscall_saved) @ [SYSRET]"
  by (simp add: syscall_stub_def syscall_saved_def syscall_body_def)

lemma syscall_saved_facts: "RSP \<notin> set syscall_saved" "distinct syscall_saved" "length syscall_saved = 8"
    "set syscall_saved = {RBP, R15, R14, R13, R12, R11, RCX, R9}"
  by (simp_all add: syscall_saved_def)

text \<open>The registers at the call: the arguments are shifted by one register, the last one is on the stack.\<close>

definition shuffled :: "'s machine \<Rightarrow> 's machine" where
  "shuffled m = m\<lparr>m_regs := (m_regs m)(R9 := m_regs m R8, R8 := m_regs m R10, RCX := m_regs m RDX, RDX := m_regs m RSI,
     RSI := m_regs m RDI, RDI := m_regs m RAX)\<rparr>"

lemma shuffled_fields [simp]:
  "m_regs (shuffled m) RSP = m_regs m RSP" "m_regs (shuffled m) RBX = m_regs m RBX" "m_cr3 (shuffled m) = m_cr3 m"
  "m_mem (shuffled m) = m_mem m" "m_sys (shuffled m) = m_sys m"
  by (simp_all add: shuffled_def)

lemma syscall_body_exec:
  "exec tr cc (syscall_body @ is) m = (case call_c tr cc SYSCALL_HANDLER (shuffled m) of
     (m', Inl e) \<Rightarrow> (m', Inl e) | (m', Inr _) \<Rightarrow> exec tr cc is m')"
  by (simp add: syscall_body_def shuffled_def)

lemma shuffled_arguments:
  "arguments tr (shuffled m) = map (m_regs m) [RAX, RDI, RSI, RDX, R10, R8] @ [load tr m (m_regs m RSP)]"
  by (simp add: arguments_def shuffled_def load_def)

interpretation sysc: stack_neutral tr "exec tr cc syscall_body" "cc_frame cc SYSCALL_HANDLER" for tr cc
proof unfold_locales
  fix m m'
  assume "exec tr cc syscall_body m = (m', Inr ())"
  then have "call_c tr cc SYSCALL_HANDLER (shuffled m) = (m', Inr ())"
    using syscall_body_exec [of tr cc "[]" m] by (auto split: prod.splits sum.splits)
  from call_c_neutral [OF this]
  show "m_regs m' RSP = m_regs m RSP \<and> m_cr3 m' = m_cr3 m \<and>
    (\<forall>a. a \<notin> stack_slots tr (m_cr3 m) (m_regs m RSP) (cc_frame cc SYSCALL_HANDLER) \<longrightarrow> m_mem m' a = m_mem m a)"
    by simp
qed

definition syscall_code :: "environment \<Rightarrow> kernel ccode \<Rightarrow> bool" where
  "syscall_code env cc \<longleftrightarrow> (\<forall>args view k v k'.
     syscall_handler env (args ! 0) (args ! 1) (args ! 2) (args ! 3) k = Inr (Returned v, k') \<longrightarrow>
     cc_fun cc SYSCALL_HANDLER args view k = (k', Inr v))"

text \<open>Reading and writing a machine-specific register in two halves is reading and writing it.\<close>

lemma word_halves:
  "push_bit 32 (ucast (ucast (drop_bit 32 w) :: u32)) OR ucast (ucast w :: u32) = (w :: u64)"
proof (rule bit_word_eqI)
  fix n
  assume "n < LENGTH(64)"
  then show "bit (push_bit 32 (ucast (ucast (drop_bit 32 w) :: u32)) OR ucast (ucast w :: u32) :: u64) n = bit w n"
    by (cases "n < 32") (auto simp: bit_simps)
qed

lemma msr_access: "rdmsr r c = msrs c r" "wrmsr r v c = c\<lparr>msrs := (msrs c)(r := v)\<rparr>"
  by (simp_all only: rdmsr_def wrmsr_def Let_def word_halves)

lemma syscall_msrs:
  "rdmsr 0xC0000081 (syscall_init stub c) = 0x20000800000000"
  "rdmsr 0xC0000082 (syscall_init stub c) = stub"
  "rdmsr 0xC0000084 (syscall_init stub c) = 0x40700"
  by (simp_all add: syscall_init_def msr_access Let_def)

lemma syscall_stub_effect:
  assumes room: "stack_room tr (m_cr3 m) (m_regs m RSP) (8 + cc_frame cc SYSCALL_HANDLER)"
    and run: "\<And>view. cc_fun cc SYSCALL_HANDLER (map (m_regs m) [RAX, RDI, RSI, RDX, R10, R8, R9]) view (m_sys m) = (s', Inr v)"
  shows "\<exists>m'. exec tr cc syscall_stub m = (m', Inr ()) \<and> m_sys m' = s' \<and> m_regs m' RAX = v \<and>
    (\<forall>r \<in> {RBX, RBP, RSP, RCX, R9, R11, R12, R13, R14, R15}. m_regs m' r = m_regs m r) \<and>
    m_rip m' = m_regs m RCX \<and> m_flags m' = (m_regs m R11 AND 0x3C7FD7) OR 2 \<and> m_cs m' = 0x33 \<and> m_ss m' = 0x2b \<and>
    m_cr3 m' = m_cr3 m \<and>
    (\<forall>a. a \<notin> stack_slots tr (m_cr3 m) (m_regs m RSP) (8 + cc_frame cc SYSCALL_HANDLER) \<longrightarrow> m_mem m' a = m_mem m a)"
proof -
  let ?rs = syscall_saved and ?sp = "m_regs m RSP"
  define i where "i = m\<lparr>m_flags := m_flags m OR 0x200\<rparr>"
  define q where "q = push_all tr (map (m_regs i) ?rs) i"
  have i: "m_regs i = m_regs m" "m_cr3 i = m_cr3 m" "m_mem i = m_mem m" "m_sys i = m_sys m" by (simp_all add: i_def)
  have q: "m_regs q = (m_regs m)(RSP := ?sp - 64)" "m_cr3 q = m_cr3 m" "m_sys q = m_sys m"
    by (simp_all add: q_def i syscall_saved_facts)
  have "load tr q (?sp - 64) = m_mem q (slot tr (m_cr3 m) ?sp 7)" by (simp add: load_def q slot_def)
  also have "\<dots> = map (m_regs m) ?rs ! 7"
    using push_all_mem [of tr i "map (m_regs i) ?rs" 7] stack_room_mono [OF room] by (simp add: q_def i syscall_saved_facts)
  finally have "take (arity SYSCALL_HANDLER) (arguments tr (shuffled q)) = map (m_regs m) [RAX, RDI, RSI, RDX, R10, R8, R9]"
    by (simp add: shuffled_arguments q syscall_saved_def)
  then obtain b where b: "call_c tr cc SYSCALL_HANDLER (shuffled q) = (b, Inr ())" "m_sys b = s'" "m_regs b RAX = v"
      "call_keeps tr (cc_frame cc SYSCALL_HANDLER) (shuffled q) b"
    using call_c_returns [of cc SYSCALL_HANDLER tr "shuffled q" s' v] run q(3) by auto
  define x where "x = pop_all tr (rev ?rs) b"
  have body: "exec tr cc syscall_body q = (b, Inr ())" using syscall_body_exec [of tr cc "[]" q] b(1) by simp
  have x: "m_regs x RSP = ?sp" "\<forall>r \<in> set ?rs. m_regs x r = m_regs m r" "\<forall>r. r \<notin> set ?rs \<longrightarrow> r \<noteq> RSP \<longrightarrow> m_regs x r = m_regs b r"
      "\<forall>a. a \<notin> stack_slots tr (m_cr3 m) ?sp (8 + cc_frame cc SYSCALL_HANDLER) \<longrightarrow> m_mem x a = m_mem m a"
    using sysc.bracket [OF syscall_saved_facts(1,2), of tr i cc b x] room body by (simp_all add: i q_def x_def syscall_saved_facts(3))
  have "exec tr cc syscall_stub m = exec tr cc (syscall_body @ map POP (rev ?rs) @ [SYSRET]) q"
    using exec_push_all [OF syscall_saved_facts(1), of tr cc "syscall_body @ map POP (rev ?rs) @ [SYSRET]" i]
    by (simp add: syscall_stub_parts i_def q_def)
  also have "\<dots> = exec tr cc (map POP (rev ?rs) @ [SYSRET]) b" by (simp add: syscall_body_exec b(1))
  also have "\<dots> = (sysret x, Inr ())" unfolding exec_pop_all x_def by simp
  finally have "exec tr cc syscall_stub m = (sysret x, Inr ())" .
  moreover have "m_regs x RAX = v" "m_regs x RBX = m_regs m RBX"
    using x(3) b(3) call_keeps_regs(1) [OF b(4)] by (simp_all add: q syscall_saved_facts(4))
  moreover have "m_cr3 x = m_cr3 m" "m_sys x = s'" using call_keeps_regs(8) [OF b(4)] b(2) by (simp_all add: x_def q)
  ultimately show ?thesis using x by (simp add: sysret_def syscall_saved_facts(4))
qed

text \<open>
  (C17) A system call as the calling program sees it: the program executes \<open>syscall\<close> with the number in
  \<open>rax\<close> and the arguments in \<open>rdi\<close>, \<open>rsi\<close> and \<open>rdx\<close>.  If the call returns, the program continues behind the
  instruction in user mode, in its address space, with the result in \<open>rax\<close>; its stack pointer, \<open>rbx\<close>, \<open>rbp\<close>, \<open>r9\<close>
  and \<open>r12\<close> to \<open>r15\<close> are as before, and so is its memory, but for what the call itself does and for the stack below
  its stack pointer, which the kernel uses.
\<close>

theorem syscall_returns_to_user:
  assumes cc: "syscall_code env cc" and room: "stack_room tr (m_cr3 m) (m_regs m RSP) (8 + cc_frame cc SYSCALL_HANDLER)"
    and call: "syscall_handler env (m_regs m RAX) (m_regs m RDI) (m_regs m RSI) (m_regs m RDX) (m_sys m) = Inr (Returned v, k')"
  shows "\<exists>m'. exec tr cc syscall_stub (syscall_instr (syscall_init stub c) m) = (m', Inr ()) \<and> m_sys m' = k' \<and>
    m_regs m' RAX = v \<and> (\<forall>r \<in> {RBX, RBP, RSP, R9, R12, R13, R14, R15}. m_regs m' r = m_regs m r) \<and>
    m_rip m' = m_rip m \<and> m_flags m' = (m_flags m AND 0x3C7FD7) OR 2 \<and> from_user m' \<and> m_cr3 m' = m_cr3 m \<and>
    (\<forall>a. a \<notin> stack_slots tr (m_cr3 m) (m_regs m RSP) (8 + cc_frame cc SYSCALL_HANDLER) \<longrightarrow> m_mem m' a = m_mem m a)"
proof -
  let ?e = "syscall_instr (syscall_init stub c) m"
  have e: "m_regs ?e = (m_regs m)(RCX := m_rip m, R11 := m_flags m)" "m_cr3 ?e = m_cr3 m" "m_mem ?e = m_mem m" "m_sys ?e = m_sys m"
    by (simp_all add: syscall_instr_def Let_def)
  have "cc_fun cc SYSCALL_HANDLER (map (m_regs ?e) [RAX, RDI, RSI, RDX, R10, R8, R9]) view (m_sys ?e) = (k', Inr v)" for view
    using cc call by (simp add: syscall_code_def e)
  from syscall_stub_effect [OF _ this, of tr] show ?thesis using room by (auto simp: e from_user_def)
qed

text \<open>The instruction enters the kernel at the stub, in kernel mode and with interrupts disabled.\<close>

lemma syscall_enters_kernel:
  "m_rip (syscall_instr (syscall_init stub c) m) = stub" "m_cs (syscall_instr (syscall_init stub c) m) = 8"
  "m_ss (syscall_instr (syscall_init stub c) m) = 0x10" "m_flags (syscall_instr (syscall_init stub c) m) AND 0x200 = 0"
  by (simp_all add: syscall_instr_def syscall_msrs Let_def and.assoc)

section \<open>Exceptions\<close>

text \<open>The exceptions for which the processor pushes an error code.\<close>

definition pushes_error_code :: "nat \<Rightarrow> bool" where
  "pushes_error_code n \<longleftrightarrow> n \<in> {8, 10, 11, 12, 13, 14, 17, 21, 29, 30}"

definition exception_code :: "u64 \<Rightarrow> u64 \<Rightarrow> koutput list ccode \<Rightarrow> bool" where
  "exception_code fb cr2 cc \<longleftrightarrow> (\<forall>num err frame view log. cc_fun cc EXCEPTION_HANDLER [num, err, frame] view log =
     (let (log', r) = exception_handler fb cr2 num err \<lparr>f_rip = view frame, f_cs = view (frame + 8), f_flags = view (frame + 16),
        f_rsp = view (frame + 24), f_ss = view (frame + 32)\<rparr> log in (log', bind_res r (\<lambda>_. Inr 0))))"

definition iret_of :: "'s machine \<Rightarrow> iret_frame" where
  "iret_of m = \<lparr>f_rip = m_rip m, f_cs = m_cs m, f_flags = m_flags m, f_rsp = m_regs m RSP, f_ss = m_ss m\<rparr>"

lemma delivered_frame:
  assumes room: "stack_room tr (m_cr3 m) (entry_stack t gate m) (5 + length err)" and sp: "sp = entry_stack t gate m - 40"
  shows "\<lparr>f_rip = load tr (deliver tr t gate err m) sp, f_cs = load tr (deliver tr t gate err m) (sp + 8),
      f_flags = load tr (deliver tr t gate err m) (sp + 16), f_rsp = load tr (deliver tr t gate err m) (sp + 24),
      f_ss = load tr (deliver tr t gate err m) (sp + 32)\<rparr> = iret_of m"
proof -
  let ?vs = "[m_ss m, m_regs m RSP, m_flags m, m_cs m, m_rip m] @ err" and ?b = "set_reg RSP (entry_stack t gate m) m"
  have mem: "m_mem (deliver tr t gate err m) = m_mem (push_all tr ?vs ?b)" "m_cr3 (deliver tr t gate err m) = m_cr3 m"
    by (simp_all add: deliver_def)
  have q: "load tr (deliver tr t gate err m) (sp + 8 * of_nat i) = ?vs ! (4 - i)" if "i < 5" for i
  proof -
    have "tr (m_cr3 m) (sp + 8 * of_nat i) = slot tr (m_cr3 m) (entry_stack t gate m) (4 - i)"
      using load_above [OF that, of sp "entry_stack t gate m"] sp by simp
    moreover have "stack_room tr (m_cr3 ?b) (m_regs ?b RSP) (length ?vs)" using room by (simp add: eval_nat_numeral)
    from push_all_mem [OF this, of "4 - i"] have "m_mem (push_all tr ?vs ?b) (slot tr (m_cr3 m) (entry_stack t gate m) (4 - i)) = ?vs ! (4 - i)"
      by simp
    ultimately show ?thesis unfolding load_def mem by simp
  qed
  show ?thesis using q [of 0] q [of 1] q [of 2] q [of 3] q [of 4] by (simp add: iret_of_def)
qed

lemma call_exception_handler:
  assumes cc: "exception_code fb cr2 cc" and sp: "m_regs x RDX = sp"
    and f: "\<lparr>f_rip = load tr x sp, f_cs = load tr x (sp + 8), f_flags = load tr x (sp + 16), f_rsp = load tr x (sp + 24), f_ss = load tr x (sp + 32)\<rparr> = frame"
  shows "\<exists>m'. call_c tr cc EXCEPTION_HANDLER x = (m', Inl Halted) \<and>
    m_sys m' = fst (exception_handler fb cr2 (m_regs x RDI) (m_regs x RSI) frame (m_sys x))"
proof -
  obtain log' where log': "exception_handler fb cr2 (m_regs x RDI) (m_regs x RSI) frame (m_sys x) = (log', Inl Halted)"
    by (simp add: exception_handler_def Let_def)
  have "take (arity EXCEPTION_HANDLER) (arguments tr x) = [m_regs x RDI, m_regs x RSI, sp]" using sp by (simp add: arguments_def)
  moreover have "cc_fun cc EXCEPTION_HANDLER [m_regs x RDI, m_regs x RSI, sp] (load tr x) (m_sys x) = (log', Inl Halted)"
    using cc unfolding exception_code_def by (simp only: f log') simp
  ultimately show ?thesis using log' by (simp only: call_c_def) simp
qed

text \<open>
  (C34) Every exception is reported with its own data: for each of the 32 vectors but 21 and 29, the stub calls
  \<open>exception_handler\<close> with the number of the vector, the error code of the processor or 0 if there is none, and
  a pointer to the frame of the interrupted program, so that the log shows where the exception happened; then the
  machine halts.  For vectors 21 and 29, where newer processors push an error code, the stubs expect none.
\<close>

theorem exception_reported:
  assumes cc: "exception_code fb cr2 cc" and n: "n < 32" "n \<noteq> 21" "n \<noteq> 29"
    and room: "stack_room tr (m_cr3 m) (entry_stack t gate m) 6"
  shows "\<exists>m'. interrupt tr cc t gate (if pushes_error_code n then [err] else []) (isr_stub n) m = (m', Inl Halted) \<and>
    m_sys m' = fst (exception_handler fb cr2 (of_nat n) (if pushes_error_code n then err else 0) (iret_of m) (m_sys m))"
proof -
  let ?e = "if pushes_error_code n then [err] else []"
  let ?d = "deliver tr t gate ?e m" and ?sp = "entry_stack t gate m"
  have stub: "isr_stub n = (if pushes_error_code n then isr_err_stub n else isr_no_err_stub n)"
    using n by (auto simp: isr_stub_def pushes_error_code_def)
  have d: "m_regs ?d RSP = ?sp - 8 * of_nat (5 + length ?e)" "m_cr3 ?d = m_cr3 m" "m_sys ?d = m_sys m"
    by (simp_all add: deliver_def)
  have f: "\<lparr>f_rip = load tr ?d (?sp - 40), f_cs = load tr ?d (?sp - 40 + 8), f_flags = load tr ?d (?sp - 40 + 16),
      f_rsp = load tr ?d (?sp - 40 + 24), f_ss = load tr ?d (?sp - 40 + 32)\<rparr> = iret_of m"
    by (rule delivered_frame [OF stack_room_mono [OF room] refl]) simp
  have call: "\<exists>m'. call_c tr cc EXCEPTION_HANDLER x = (m', Inl Halted) \<and>
      m_sys m' = fst (exception_handler fb cr2 (of_nat n) (m_regs x RSI) (iret_of m) (m_sys m))"
    if x: "m_regs x RDI = of_nat n" "m_regs x RDX = ?sp - 40" "m_mem x = m_mem ?d" "m_cr3 x = m_cr3 m" "m_sys x = m_sys m" for x
  proof -
    have "load tr x = load tr ?d" using x by (simp add: load_def [abs_def] d)
    then show ?thesis using call_exception_handler [OF cc x(2), of tr "iret_of m"] f x(1,5) by simp
  qed
  show ?thesis
  proof (cases "pushes_error_code n")
    case True
    let ?x = "set_reg RDX (m_regs ?d RSP + 8) (pop tr RSI (set_reg RDI (of_nat n) ?d))"
    have top: "load tr ?d (m_regs ?d RSP) = err" using True by (simp add: deliver_def load_def slot_def)
    have rsi: "m_regs ?x RSI = err" using top by (simp add: load_def)
    obtain m' where "call_c tr cc EXCEPTION_HANDLER ?x = (m', Inl Halted)"
        "m_sys m' = fst (exception_handler fb cr2 (of_nat n) err (iret_of m) (m_sys m))"
      using call [of ?x] rsi d True by auto
    then show ?thesis using True by (simp add: interrupt_def stub isr_err_stub_def)
  next
    case False
    let ?x = "set_reg RDX (m_regs ?d RSP) (set_zf True (set_reg RSI 0 (set_reg RDI (of_nat n) ?d)))"
    obtain m' where "call_c tr cc EXCEPTION_HANDLER ?x = (m', Inl Halted)"
        "m_sys m' = fst (exception_handler fb cr2 (of_nat n) 0 (iret_of m) (m_sys m))"
      using call [of ?x] d False by auto
    then show ?thesis using False by (simp add: interrupt_def stub isr_no_err_stub_def)
  qed
qed

section \<open>Examples\<close>

text \<open>A machine whose memory is mapped one to one, a task state segment and a gate, and C functions with small frames.\<close>

definition flat :: translation where
  "flat cr3 a = a"

definition machine_sample :: "u64 \<Rightarrow> u64 \<Rightarrow> 's \<Rightarrow> 's machine" where
  "machine_sample cs sp s = \<lparr>m_regs = (\<lambda>r. if r = RSP then sp else if r = RAX then 7 else cs + 0x11), m_rip = 0x401000, m_cs = cs,
     m_flags = 0x202, m_ss = 0x10, m_cr3 = 0, m_mem = (\<lambda>_. 0), m_in = (\<lambda>_. 0x1e), m_out = [], m_sys = s\<rparr>"

definition tss_sample :: tss where
  "tss_sample = \<lparr>tss_rsp0 = 0x6000, tss_ist = replicate 7 0\<rparr>"

definition gate_sample :: idt_entry where
  "gate_sample = \<lparr>isr_low = 0, kernel_cs = 8, idt_ist = 0, idt_attr = 0x8e, isr_mid = 7, isr_high = 0, idt_reserved = 0\<rparr>"

definition ccode_sample :: "(callee \<Rightarrow> u64 list \<Rightarrow> (u64 \<Rightarrow> u64) \<Rightarrow> 's \<Rightarrow> 's \<times> u64 res) \<Rightarrow> ('s \<Rightarrow> u64 \<Rightarrow> u64) \<Rightarrow> 's ccode" where
  "ccode_sample f pk = \<lparr>cc_fun = f, cc_peek = pk, cc_frame = (\<lambda>_. 4), cc_stack = (\<lambda>_ _. [1, 2, 3, 4]), cc_regs = (\<lambda>_ _ _. 9),
     cc_flags = (\<lambda>_ _. 2)\<rparr>"

lemma flat_room: "n < 2 ^ 32 \<Longrightarrow> stack_room flat c sp n"
proof -
  assume n: "n < 2 ^ 32"
  have "i = j" if "i < n" "j < n" "slot flat c sp i = slot flat c sp j" for i j
  proof -
    have "(of_nat (8 * Suc i) :: u64) = of_nat (8 * Suc j)" using that(3) by (simp add: slot_def flat_def)
    then have "8 * Suc i = 8 * Suc j" using that n by (subst (asm) of_nat_u64_inj) simp_all
    then show ?thesis by simp
  qed
  then show ?thesis by (simp add: stack_room_def inj_on_def)
qed

lemma sample_stacks:
  "entry_stack tss_sample gate_sample (machine_sample 8 0x8000 s) = 0x8000"
  "entry_stack tss_sample gate_sample (machine_sample 8 0xa000 s) = 0xa000"
  "entry_stack tss_sample gate_sample (machine_sample 0x33 sp s) = 0x6000"
  by (simp_all add: entry_stack_def machine_sample_def gate_sample_def tss_sample_def from_user_def)

abbreviation timer_sample :: "sched ccode" where
  "timer_sample \<equiv> ccode_sample timer_fun (\<lambda>s p. p_cr3 (procs s p))"

lemma timer_sample_code: "timer_code 4 timer_sample"
  by (simp add: timer_code_def ccode_sample_def)

text \<open>The places below an address that lie apart from the structure at another one.\<close>

lemma flat_apart:
  assumes "unat sp < 2 ^ 32" "8 * n \<le> unat sp" "unat sp \<le> unat a \<or> unat a + 160 + 8 * n \<le> unat sp" "unat a < 2 ^ 32" "j < 20"
  shows "a + 8 * of_nat j \<notin> stack_slots flat c sp n"
proof
  assume "a + 8 * of_nat j \<in> stack_slots flat c sp n"
  then obtain i where "i < n" "a + of_nat (8 * j) = sp - of_nat (8 * Suc i)" by (auto simp: slot_def flat_def)
  then obtain k where k: "0 < k" "k \<le> 8 * n" "a + of_nat (8 * j) = sp - of_nat k"
    by (metis Suc_leI mult_le_mono2 nat_0_less_mult_iff zero_less_Suc zero_less_numeral)
  have "unat (of_nat k :: u64) = k" using k assms(1,2) by (intro unat_of_nat_u64) simp
  then have "unat (sp - of_nat k) = unat sp - k" using k(2) assms(2) by (simp add: unat_sub_u64 word_le_nat_alt)
  moreover have "unat (a + of_nat (8 * j)) = unat a + 8 * j" using assms by (intro unat_add_of_nat_u64) simp
  ultimately show False using assms k by auto
qed

text \<open>The scheduler of the example goes from the first process to the third and back.\<close>

definition sched_second :: "u64 \<Rightarrow> sched" where
  "sched_second c = set_proc 0x3000 (\<lambda>p. p\<lparr>p_status := RUNNING\<rparr>) (saved c sched_sample)\<lparr>current_process := 0x3000\<rparr>"

lemma sched_second:
  "schedule c sched_sample = Inr (0x9000, sched_second c)"
  "p_context (procs (sched_second c) 0x1000) = c" "p_cr3 (procs (sched_second c) 0x1000) = 0" "current_process (sched_second c) = 0x3000"
proof -
  have a: "ahead [0x1000, 0x2000, 0x3000] 0 1 = (0x3000 :: u64)" by (simp add: ahead_def)
  have "schedule c sched_sample = Inr (p_context (procs (saved c sched_sample) 0x3000), sched_second c)"
    using schedule_found [OF sched_sample_chain _ _ sched_sample_runnable, of c] unfolding a sched_second_def
    by (simp add: sched_sample_def)
  then show "schedule c sched_sample = Inr (0x9000, sched_second c)"
    by (simp add: saved_def upd_def sched_sample_def zero_process_def)
qed (simp_all add: sched_second_def saved_def upd_def sched_sample_def zero_process_def)

lemma sched_third:
  "\<exists>s. schedule c' (sched_second c) = Inr (c, s) \<and> current_process s = 0x1000"
proof -
  have r: "runnable (sched_second c) (ahead [0x1000, 0x2000, 0x3000] 2 0)"
    by (simp add: ahead_def sched_second_def saved_def upd_def sched_sample_def zero_process_def runnable_def not_runnable_def)
  have "proc_chain (sched_second c) [0x1000, 0x2000, 0x3000]"
    by (simp add: sched_second_def saved_def upd_def sched_sample_def zero_process_def)
  from schedule_effect [OF this _ _ r, of c'] show ?thesis using sched_second(2,4) [of c] by (auto simp: ahead_def)
qed

theorem timer_interrupt_switches_witness:
  "\<exists>m'. interrupt flat timer_sample tss_sample gate_sample [] timer_int_handler (machine_sample 8 0x8000 sched_sample) = (m', Inr ()) \<and>
     current_process (m_sys m') = 0x3000 \<and> m_out m' = [(0x20, 0x20)] \<and> status_of m' = status_from (\<lambda>_. 0)"
proof -
  let ?m = "machine_sample 8 0x8000 sched_sample"
  have a: "(0x3000 :: u64) = ahead [0x1000, 0x2000, 0x3000] 0 1" by (simp add: ahead_def)
  have "\<exists>m'. interrupt flat timer_sample tss_sample gate_sample [] timer_int_handler ?m = (m', Inr ()) \<and>
    current_process (m_sys m') = 0x3000 \<and> m_cr3 m' = p_cr3 (procs (m_sys ?m) 0x3000) \<and>
    status_of m' = (if 0x3000 = [0x1000, 0x2000, 0x3000 :: u64] ! 0 then status_of ?m
      else status_at flat (p_cr3 (procs (m_sys ?m) 0x3000)) (m_mem ?m) (p_context (procs (m_sys ?m) 0x3000))) \<and>
    p_context (procs (m_sys m') ([0x1000, 0x2000, 0x3000] ! 0)) = entry_stack tss_sample gate_sample ?m - 160 \<and>
    status_at flat (m_cr3 ?m) (m_mem m') (entry_stack tss_sample gate_sample ?m - 160) = status_of ?m \<and>
    (\<forall>a. a \<notin> stack_slots flat (m_cr3 ?m) (entry_stack tss_sample gate_sample ?m) (20 + 4) \<longrightarrow> m_mem m' a = m_mem ?m a) \<and>
    m_out m' = m_out ?m @ [(0x20, 0x20)]"
  proof (rule timer_interrupt_switches [OF timer_sample_code _ _ _ _ _ _ a])
    show "\<forall>j<20. flat (p_cr3 (procs (m_sys ?m) 0x3000)) (p_context (procs (m_sys ?m) 0x3000) + 8 * of_nat j)
        \<notin> stack_slots flat (m_cr3 ?m) (entry_stack tss_sample gate_sample ?m) (20 + 4)"
      using flat_apart [of "0x8000" 24 "0x9000"] unfolding sample_stacks
      by (simp add: flat_def machine_sample_def sched_sample_def zero_process_def)
  qed (use sched_sample_chain sched_sample_runnable in
      \<open>simp_all add: flat_room machine_sample_def sched_sample_def zero_process_def\<close>)
  then show ?thesis
    by (auto simp: machine_sample_def status_at_def)
qed

text \<open>The second interrupt of the examples, of the process that the first one has switched to.\<close>

definition second_interrupted :: "u64 \<Rightarrow> u64 \<Rightarrow> (u64 \<Rightarrow> u64) \<Rightarrow> sched \<Rightarrow> sched machine" where
  "second_interrupted cs sp mem s = (machine_sample cs sp s)\<lparr>m_mem := mem\<rparr>"

lemma second_interrupted_fields [simp]:
  "m_cr3 (second_interrupted cs sp mem s) = 0" "m_sys (second_interrupted cs sp mem s) = s" "m_mem (second_interrupted cs sp mem s) = mem"
  "entry_stack tss_sample gate_sample (second_interrupted cs sp mem s) = entry_stack tss_sample gate_sample (machine_sample cs sp s)"
  "from_user (second_interrupted cs sp mem s) = from_user (machine_sample cs sp s)"
  by (simp_all add: second_interrupted_def machine_sample_def entry_stack_def from_user_def)

theorem interrupted_process_resumes_witness:
  "\<exists>m1 m3. interrupt flat timer_sample tss_sample gate_sample [] timer_int_handler (machine_sample 8 0x8000 sched_sample) = (m1, Inr ()) \<and>
     interrupt flat timer_sample tss_sample gate_sample [] timer_int_handler
       (second_interrupted 8 0xa000 (m_mem m1) (m_sys m1)) = (m3, Inr ()) \<and>
     status_of m3 = status_of (machine_sample 8 0x8000 sched_sample)"
proof -
  let ?m = "machine_sample 8 0x8000 sched_sample" and ?c = "0x8000 - 160 :: u64"
  have f: "m_sys ?m = sched_sample" "m_cr3 ?m = 0" "current_process sched_sample = 0x1000"
    by (simp_all add: machine_sample_def sched_sample_def)
  have sch: "schedule (entry_stack tss_sample gate_sample ?m - 160) (m_sys ?m) = Inr (0x9000, sched_second ?c)"
    unfolding sample_stacks f by (rule sched_second(1))
  obtain m1 where m1: "interrupt flat timer_sample tss_sample gate_sample [] timer_int_handler ?m = (m1, Inr ())" "m_sys m1 = sched_second ?c"
    using timer_effect [OF timer_sample_code flat_room sch] by (auto simp: f sched_second)
  let ?m2 = "second_interrupted 8 0xa000 (m_mem m1) (m_sys m1)"
  obtain s2 where s2: "schedule (entry_stack tss_sample gate_sample ?m2 - 160) (m_sys ?m2) = Inr (?c, s2)" "current_process s2 = 0x1000"
    using sched_third [of _ ?c] m1(2) by fastforce
  have "x \<notin> stack_slots flat 0 0xa000 24" if x: "x \<in> stack_slots flat 0 0x8000 20" for x
  proof -
    obtain i where i: "i < 20" "x = 0x8000 - 8 * of_nat (Suc i)" using x by (force simp: slot_def flat_def)
    then have "x = 0x8000 - 160 + 8 * of_nat (19 - i)" using load_above [of "19 - i" 20 "0x8000 - 160" "0x8000" flat 0]
      by (simp add: flat_def slot_def)
    then show ?thesis using flat_apart [of "0xa000" 24 "0x8000 - 160" "19 - i"] by simp
  qed
  then have apart: "stack_slots flat 0 0x8000 20 \<inter> stack_slots flat 0 0xa000 24 = {}" by blast
  have "\<exists>m3. interrupt flat timer_sample tss_sample gate_sample [] timer_int_handler ?m2 = (m3, Inr ()) \<and> status_of m3 = status_of ?m \<and>
    m_regs m3 = m_regs ?m \<and> m_cr3 m3 = m_cr3 ?m"
    by (rule interrupted_process_resumes [OF timer_sample_code flat_room sch _ m1(1) flat_room s2(1) _ _ s2(2)])
      (use m1(2) s2(2) apart in \<open>simp_all add: f sched_second sample_stacks\<close>)
  then show ?thesis using m1(1) by blast
qed

theorem user_contexts_collide_witness:
  "\<exists>m3. interrupt flat timer_sample tss_sample gate_sample [] timer_int_handler
       (second_interrupted 0x33 0x300000 (\<lambda>_. 0) (sched_second (0x6000 - 160))) = (m3, Inr ()) \<and>
     current_process (sched_second (0x6000 - 160)) = 0x3000 \<and>
     status_of m3 = status_of (second_interrupted 0x33 0x300000 (\<lambda>_. 0) (sched_second (0x6000 - 160)))"
proof -
  let ?m = "machine_sample 0x33 0x200000 sched_sample" and ?c = "0x6000 - 160 :: u64"
  let ?m2 = "second_interrupted 0x33 0x300000 (\<lambda>_. 0) (sched_second ?c)"
  have f: "m_sys ?m = sched_sample" "m_cr3 ?m = 0" "current_process sched_sample = 0x1000" "from_user ?m" "from_user ?m2"
    by (simp_all add: machine_sample_def sched_sample_def from_user_def second_interrupted_def)
  have sch: "schedule (entry_stack tss_sample gate_sample ?m - 160) (m_sys ?m) = Inr (0x9000, sched_second ?c)"
    unfolding sample_stacks f by (rule sched_second(1))
  obtain s2 where s2: "schedule (entry_stack tss_sample gate_sample ?m2 - 160) (m_sys ?m2) = Inr (?c, s2)" "current_process s2 = 0x1000"
    using sched_third [of _ ?c] by fastforce
  have "\<exists>m3. interrupt flat timer_sample tss_sample gate_sample [] timer_int_handler ?m2 = (m3, Inr ()) \<and> status_of m3 = status_of ?m2 \<and>
    m_regs m3 = m_regs ?m2 \<and> m_rip m3 = m_rip ?m2 \<and> m_cr3 m3 = m_cr3 ?m"
    by (rule user_contexts_collide [OF timer_sample_code _ f(4,5) _ flat_room sch s2(1) _ _ s2(2)])
      (use s2(2) in \<open>simp_all add: f sched_second gate_sample_def\<close>)
  then show ?thesis using sched_second(4) by blast
qed


text \<open>C code that runs the system calls that return at once.\<close>

definition syscall_fun :: "environment \<Rightarrow> callee \<Rightarrow> u64 list \<Rightarrow> (u64 \<Rightarrow> u64) \<Rightarrow> kernel \<Rightarrow> kernel \<times> u64 res" where
  "syscall_fun env f args view k =
     (case syscall_handler env (args ! 0) (args ! 1) (args ! 2) (args ! 3) k of
        Inr (Returned v, k') \<Rightarrow> (k', Inr v) | _ \<Rightarrow> (k, Inl Hang))"

text \<open>A program asks for system call 7, which does not exist, and gets \<open>-1\<close>.\<close>

theorem syscall_returns_to_user_witness:
  "\<exists>m'. exec flat (ccode_sample (syscall_fun environment_sample) (\<lambda>_ _. 0)) syscall_stub
       (syscall_instr (syscall_init 0x70200 \<lparr>msrs = (\<lambda>_. 0), ctl_cr0 = 0, ctl_cr4 = 0\<rparr>) (machine_sample 0x33 0x300000 kernel_sample)) = (m', Inr ()) \<and>
     m_regs m' RAX = - 1 \<and> m_regs m' RSP = 0x300000 \<and> m_rip m' = 0x401000 \<and> from_user m'"
proof -
  let ?cc = "ccode_sample (syscall_fun environment_sample) (\<lambda>_ _. 0)" and ?m = "machine_sample 0x33 0x300000 kernel_sample"
  have c: "syscall_code environment_sample ?cc" "cc_frame ?cc SYSCALL_HANDLER = 4"
    by (simp_all add: syscall_code_def ccode_sample_def syscall_fun_def)
  have m: "m_regs ?m RAX = 7" "m_regs ?m RSP = 0x300000" "m_rip ?m = 0x401000" by (simp_all add: machine_sample_def)
  have "syscall_handler environment_sample (m_regs ?m RAX) (m_regs ?m RDI) (m_regs ?m RSI) (m_regs ?m RDX) (m_sys ?m) =
      Inr (Returned (- 1), m_sys ?m)"
    unfolding m by (simp add: syscall_handler_def)
  from syscall_returns_to_user [OF c(1) _ this, of flat "0x70200" "\<lparr>msrs = (\<lambda>_. 0), ctl_cr0 = 0, ctl_cr4 = 0\<rparr>"]
  show ?thesis using flat_room c(2) by (auto simp: m)
qed

definition exception_fun :: "callee \<Rightarrow> u64 list \<Rightarrow> (u64 \<Rightarrow> u64) \<Rightarrow> koutput list \<Rightarrow> koutput list \<times> u64 res" where
  "exception_fun f args view log =
     (let (log', r) = exception_handler 0 0x123 (args ! 0) (args ! 1) \<lparr>f_rip = view (args ! 2), f_cs = view (args ! 2 + 8),
        f_flags = view (args ! 2 + 16), f_rsp = view (args ! 2 + 24), f_ss = view (args ! 2 + 32)\<rparr> log in (log', bind_res r (\<lambda>_. Inr 0)))"

text \<open>A page fault, with error code 6, of a user program.\<close>

theorem exception_reported_witness:
  "\<exists>m'. interrupt flat (ccode_sample exception_fun (\<lambda>_ _. 0)) tss_sample gate_sample [6] (isr_stub 14) (machine_sample 0x33 0x300000 []) =
       (m', Inl Halted) \<and>
     m_sys m' = fst (exception_handler 0 0x123 14 6 \<lparr>f_rip = 0x401000, f_cs = 0x33, f_flags = 0x202, f_rsp = 0x300000, f_ss = 0x10\<rparr> [])"
proof -
  let ?cc = "ccode_sample exception_fun (\<lambda>_ _. 0)" and ?m = "machine_sample 0x33 0x300000 ([] :: koutput list)"
  have cc: "exception_code 0 0x123 ?cc" unfolding exception_code_def ccode_sample_def exception_fun_def by simp
  have p: "pushes_error_code 14" by (simp add: pushes_error_code_def)
  have "iret_of ?m = \<lparr>f_rip = 0x401000, f_cs = 0x33, f_flags = 0x202, f_rsp = 0x300000, f_ss = 0x10\<rparr>" "m_sys ?m = []"
    by (simp_all add: iret_of_def machine_sample_def)
  then show ?thesis
    using exception_reported [OF cc, of 14 flat ?m tss_sample gate_sample 6] flat_room p by simp
qed

end
