(* ===== verification/Tlb.thy ===== *)
theory Tlb
  imports VirtualMemory
begin

text \<open>
  The translation cache of the processor, which the other theories leave out: it may hold any translation of the
  loaded page tables, and entries are dropped by \<open>invlpg\<close> and by loading \<open>cr3\<close>, or at any time by the
  processor itself.  \<open>map_memory_page\<close> (\<open>src/src/memory.c\<close>) ends with \<open>invlpg\<close>; \<open>free_region\<close> does not use
  it.  The theory shows that mapping pages keeps the cache coherent with the tables, and what \<open>free_region\<close> on the
  loaded tables leaves behind.  Only user addresses are considered; the mapping of the kernel does not change.
\<close>

section \<open>State\<close>

text \<open>The cache maps page numbers to frames.\<close>

record tvm =
  t_vm :: vm
  t_cr3 :: u64
  t_tlb :: "u64 \<Rightarrow> u64 option"

abbreviation page_number :: "u64 \<Rightarrow> u64" where
  "page_number va \<equiv> drop_bit 12 va"

abbreviation table_frame :: "tvm \<Rightarrow> u64 \<Rightarrow> u64 option" where
  "table_frame t va \<equiv> translate (vm_pt (t_vm t)) (t_cr3 t) va"

text \<open>The frame that an access uses: the cache is asked first.\<close>

definition tlb_frame :: "tvm \<Rightarrow> u64 \<Rightarrow> u64 option" where
  "tlb_frame t va = (case t_tlb t (page_number va) of Some f \<Rightarrow> Some f | None \<Rightarrow> table_frame t va)"

definition tlb_read :: "tvm \<Rightarrow> u64 \<Rightarrow> u8 res" where
  "tlb_read t va = (case tlb_frame t va of None \<Rightarrow> Inl Halted | Some f \<Rightarrow> Inr (vm_mem (t_vm t) (f + (va AND 0xfff))))"

definition tlb_write :: "u64 \<Rightarrow> u8 \<Rightarrow> tvm \<Rightarrow> tvm res" where
  "tlb_write va b t = (case tlb_frame t va of None \<Rightarrow> Inl Halted
     | Some f \<Rightarrow> Inr (t\<lparr>t_vm := (t_vm t)\<lparr>vm_mem := (vm_mem (t_vm t))(f + (va AND 0xfff) := b)\<rparr>\<rparr>))"

section \<open>Operations\<close>

definition invlpg :: "u64 \<Rightarrow> tvm \<Rightarrow> tvm" where
  "invlpg va t = t\<lparr>t_tlb := (t_tlb t)(page_number va := None)\<rparr>"

text \<open>Loading \<open>cr3\<close>, also with the value it has, empties the cache.\<close>

definition load_cr3 :: "u64 \<Rightarrow> tvm \<Rightarrow> tvm" where
  "load_cr3 value t = t\<lparr>t_cr3 := value, t_tlb := (\<lambda>_. None)\<rparr>"

definition tlb_map_memory_page :: "u64 \<Rightarrow> u64 \<Rightarrow> i32 \<Rightarrow> tvm \<Rightarrow> tvm res" where
  "tlb_map_memory_page cr3 virt flags t =
     bind_res (map_memory_page cr3 virt flags (t_vm t)) (\<lambda>vm. Inr (invlpg virt (t\<lparr>t_vm := vm\<rparr>)))"

definition tlb_free_region :: "u64 \<Rightarrow> u64 \<Rightarrow> u64 \<Rightarrow> tvm \<Rightarrow> tvm res" where
  "tlb_free_region pml4_phys start en t =
     bind_res (free_region pml4_phys start en (t_vm t)) (\<lambda>vm. Inr (t\<lparr>t_vm := vm\<rparr>))"

section \<open>Coherence\<close>

definition coherent :: "tvm \<Rightarrow> bool" where
  "coherent t \<longleftrightarrow> (\<forall>va f. user_va va \<longrightarrow> t_tlb t (page_number va) = Some f \<longrightarrow> table_frame t va = Some f)"

lemma coherent_frame: "coherent t \<Longrightarrow> user_va va \<Longrightarrow> tlb_frame t va = table_frame t va"
  by (auto simp: coherent_def tlb_frame_def split: option.splits)

lemma table_frame_page:
  "user_va va \<Longrightarrow> user_va vb \<Longrightarrow> page_number va = page_number vb \<Longrightarrow> table_frame t va = table_frame t vb"
  using path_eq_iff [of va vb] by (simp add: translate_def)

text \<open>
  The interface of an operation on the tables that is safe for the cache: every translation that the loaded
  tables have stays as it is.
\<close>

locale mapping_kept =
  fixes op :: "vm \<Rightarrow> vm res" and pre :: "u64 \<Rightarrow> vm \<Rightarrow> bool"
  assumes kept: "pre c st \<Longrightarrow> op st = Inr st' \<Longrightarrow> vm_inv c st \<Longrightarrow> vm_inv c st' \<and>
    (\<forall>va f. user_va va \<longrightarrow> translate (vm_pt st) c va = Some f \<longrightarrow> translate (vm_pt st') c va = Some f)"
begin

lemma coherent_kept:
  assumes "coherent t" "vm_inv (t_cr3 t) (t_vm t)" "pre (t_cr3 t) (t_vm t)" "op (t_vm t) = Inr vm"
  shows "coherent (t\<lparr>t_vm := vm\<rparr>) \<and> vm_inv (t_cr3 t) vm"
  using kept [OF assms(3,4,2)] assms(1) by (auto simp: coherent_def)

end

text \<open>The tables that an operation changes are the loaded ones, or share nothing with them.\<close>

definition loaded_or_apart :: "u64 \<Rightarrow> u64 \<Rightarrow> vm \<Rightarrow> bool" where
  "loaded_or_apart cr3 c st \<longleftrightarrow> cr3 = c \<or> vm_inv cr3 st \<and> apart (vm_pt st) cr3 c"

lemma others_translate:
  "others cr3 st st' \<Longrightarrow> vm_inv c st \<Longrightarrow> apart (vm_pt st) cr3 c \<Longrightarrow> vm_inv c st' \<and>
   (\<forall>va. user_va va \<longrightarrow> translate (vm_pt st') c va = translate (vm_pt st) c va)"
  using upath_path by (auto simp: others_def translate_def)

definition map_pre :: "u64 \<Rightarrow> u64 \<Rightarrow> i32 \<Rightarrow> u64 \<Rightarrow> vm \<Rightarrow> bool" where
  "map_pre cr3 va flags c st \<longleftrightarrow> loaded_or_apart cr3 c st \<and> user_va va \<and> flags_ok flags \<and> 4 \<le> avail st"

interpretation map_page: mapping_kept "map_memory_page cr3 va flags" "map_pre cr3 va flags" for cr3 va flags
proof unfold_locales
  fix c st st'
  assume pre: "map_pre cr3 va flags c st" and run: "map_memory_page cr3 va flags st = Inr st'" and c: "vm_inv c st"
  then have "vm_inv cr3 st" by (auto simp: map_pre_def loaded_or_apart_def)
  with pre run obtain n where m: "vm_inv cr3 st'" "others cr3 st st'" "tbl (vm_pt st') cr3 (path va) = Some n"
      "if tbl (vm_pt st) cr3 (path va) = None then n \<in> ba_managed (vm_ba st) - ba_in_use (vm_ba st) else st' = st"
      "\<And>ys. upath ys \<Longrightarrow> length ys = 4 \<Longrightarrow> ys \<noteq> path va \<Longrightarrow> tbl (vm_pt st') cr3 ys = tbl (vm_pt st) cr3 ys"
    using map_memory_page_extends [of cr3 st va flags] by (auto simp: map_pre_def)
  have own: "translate (vm_pt st') cr3 x = Some f" if "user_va x" "translate (vm_pt st) cr3 x = Some f" for x f
  proof -
    have "length (path x) = 4" by (simp add: path_def)
    then show ?thesis
      using that m(4,5) upath_path [OF that(1)] unfolding translate_def by (cases "path x = path va") (auto split: if_splits)
  qed
  show "vm_inv c st' \<and> (\<forall>va f. user_va va \<longrightarrow> translate (vm_pt st) c va = Some f \<longrightarrow> translate (vm_pt st') c va = Some f)"
  proof (cases "cr3 = c")
    case True
    then show ?thesis using m(1) own by simp
  next
    case False
    then show ?thesis using pre others_translate [OF m(2) c] by (simp add: map_pre_def loaded_or_apart_def)
  qed
qed

definition free_pre :: "u64 \<Rightarrow> u64 \<Rightarrow> u64 \<Rightarrow> u64 \<Rightarrow> vm \<Rightarrow> bool" where
  "free_pre cr3 start en c st \<longleftrightarrow> vm_inv cr3 st \<and> apart (vm_pt st) cr3 c \<and> unat en \<le> 2 ^ 47 \<and>
     (\<forall>va f. va \<in> region start en \<longrightarrow> translate (vm_pt st) cr3 va = Some f \<longrightarrow> f \<in> ba_in_use (vm_ba st))"

interpretation free_other: mapping_kept "free_region cr3 start en" "free_pre cr3 start en" for cr3 start en
proof unfold_locales
  fix c st st'
  assume pre: "free_pre cr3 start en c st" and run: "free_region cr3 start en st = Inr st'" and c: "vm_inv c st"
  then have "others cr3 st st'" using free_region_effect [of cr3 st en start] by (auto simp: free_pre_def)
  then show "vm_inv c st' \<and> (\<forall>va f. user_va va \<longrightarrow> translate (vm_pt st) c va = Some f \<longrightarrow> translate (vm_pt st') c va = Some f)"
    using others_translate [OF _ c] pre by (simp add: free_pre_def)
qed

lemma coherent_invlpg: "coherent t \<Longrightarrow> coherent (invlpg va t)"
  by (auto simp: coherent_def invlpg_def)

lemma coherent_fill:
  assumes "coherent t" "user_va va" "table_frame t va = Some f"
  shows "coherent (t\<lparr>t_tlb := (t_tlb t)(page_number va := Some f)\<rparr>)"
  unfolding coherent_def
proof (intro allI impI)
  fix v g
  assume v: "user_va v" "t_tlb (t\<lparr>t_tlb := (t_tlb t)(page_number va := Some f)\<rparr>) (page_number v) = Some g"
  show "table_frame (t\<lparr>t_tlb := (t_tlb t)(page_number va := Some f)\<rparr>) v = Some g"
  proof (cases "page_number v = page_number va")
    case True
    then show ?thesis using v(2) assms(3) table_frame_page [OF v(1) assms(2) True, of t] by simp
  next
    case False
    then show ?thesis using v assms(1) by (simp add: coherent_def)
  qed
qed

section \<open>Runs\<close>

text \<open>
  The steps of the machine: the processor fills and drops entries, programs store, pages are mapped in any
  address space, regions of address spaces that are not loaded are freed, and another address space is loaded.
\<close>

inductive tlb_step :: "tvm \<Rightarrow> tvm \<Rightarrow> bool" where
  cache_fill: "user_va va \<Longrightarrow> table_frame t va = Some f \<Longrightarrow> tlb_step t (t\<lparr>t_tlb := (t_tlb t)(page_number va := Some f)\<rparr>)"
| cache_drop: "tlb_step t (t\<lparr>t_tlb := (t_tlb t)(p := None)\<rparr>)"
| program_store: "user_va va \<Longrightarrow> tlb_write va b t = Inr t' \<Longrightarrow> tlb_step t t'"
| page_map: "map_pre cr3 va flags (t_cr3 t) (t_vm t) \<Longrightarrow> tlb_map_memory_page cr3 va flags t = Inr t' \<Longrightarrow> tlb_step t t'"
| region_free: "free_pre cr3 start en (t_cr3 t) (t_vm t) \<Longrightarrow> tlb_free_region cr3 start en t = Inr t' \<Longrightarrow> tlb_step t t'"
| space_load: "vm_inv c (t_vm t) \<Longrightarrow> tlb_step t (load_cr3 c t)"

lemma tlb_step_ok:
  assumes "tlb_step t t'" "coherent t" "vm_inv (t_cr3 t) (t_vm t)"
  shows "coherent t' \<and> vm_inv (t_cr3 t') (t_vm t')"
  using assms
proof (cases rule: tlb_step.cases)
  case (cache_fill va f)
  then show ?thesis using assms(3) coherent_fill [OF assms(2)] by simp
next
  case (program_store va b)
  then show ?thesis using assms(2,3) by (auto simp: tlb_write_def coherent_def vm_inv_def split: option.splits)
next
  case (page_map cr3 va flags)
  then obtain vm where vm: "map_memory_page cr3 va flags (t_vm t) = Inr vm" "t' = invlpg va (t\<lparr>t_vm := vm\<rparr>)"
    by (auto simp: tlb_map_memory_page_def)
  then show ?thesis
    using map_page.coherent_kept [OF assms(2,3) page_map(1) vm(1)] coherent_invlpg [of "t\<lparr>t_vm := vm\<rparr>" va]
    by (simp add: invlpg_def)
next
  case (region_free cr3 start en)
  then obtain vm where vm: "free_region cr3 start en (t_vm t) = Inr vm" "t' = t\<lparr>t_vm := vm\<rparr>"
    by (auto simp: tlb_free_region_def)
  then show ?thesis using free_other.coherent_kept [OF assms(2,3) region_free(1) vm(1)] by simp
qed (auto simp: coherent_def load_cr3_def)

section \<open>Properties\<close>


text \<open>
  \<open>free_region\<close> on the loaded tables, as \<open>exit\<close> and \<open>execve\<close> use it, leaves the cache behind: for an
  address of the region whose translation is cached, the tables no longer map it and its frame is available to the
  page allocator, yet reads and stores through the address still reach the frame.  Only loading
  \<open>cr3\<close> makes the cache coherent again; then the address faults.
\<close>

theorem free_region_stale:
  assumes inv: "vm_inv (t_cr3 t) (t_vm t)" and en: "unat en \<le> 2 ^ 47"
    and used: "\<forall>va \<in> region start en. \<forall>f. table_frame t va = Some f \<longrightarrow> f \<in> ba_in_use (vm_ba (t_vm t))"
    and va: "user_va va" "PAGE_ROUND_DOWN va \<in> region start en" "table_frame t va = Some f"
    and cached: "t_tlb t (page_number va) = Some f" and managed: "f \<in> ba_managed (vm_ba (t_vm t))"
  shows "\<exists>t'. tlb_free_region (t_cr3 t) start en t = Inr t' \<and> table_frame t' va = None \<and>
    f \<in> ba_managed (vm_ba (t_vm t')) - ba_in_use (vm_ba (t_vm t')) \<and>
    tlb_read t' va = Inr (vm_mem (t_vm t') (f + (va AND 0xfff))) \<and>
    (\<exists>t''. tlb_write va b t' = Inr t'' \<and> vm_mem (t_vm t'') (f + (va AND 0xfff)) = b) \<and> \<not> coherent t' \<and>
    coherent (load_cr3 (t_cr3 t) t') \<and> tlb_read (load_cr3 (t_cr3 t) t') va = Inl Halted"
proof -
  obtain vm where vm: "free_region (t_cr3 t) start en (t_vm t) = Inr vm"
      "\<And>va. user_va va \<Longrightarrow> aligned va \<Longrightarrow> translate (vm_pt vm) (t_cr3 t) va = (if va \<in> region start en then None else table_frame t va)"
      "ba_in_use (vm_ba vm) = ba_in_use (vm_ba (t_vm t)) - {f. \<exists>va \<in> region start en. table_frame t va = Some f}"
      "ba_managed (vm_ba vm) = ba_managed (vm_ba (t_vm t))"
    using free_region_effect [OF inv en, of start] used by blast
  let ?t = "t\<lparr>t_vm := vm\<rparr>"
  note page = round_down_page [OF va(1)]
  have none: "translate (vm_pt vm) (t_cr3 t) va = None" using vm(2) [OF page(1,2)] va(2) page(3) by simp
  have free: "f \<notin> ba_in_use (vm_ba vm)" using vm(3) va(2,3) page(3) [of "vm_pt (t_vm t)" "t_cr3 t"] by auto
  have "\<not> coherent ?t" using cached va(1) none by (auto simp: coherent_def)
  moreover have "coherent (load_cr3 (t_cr3 t) ?t)" by (simp add: coherent_def load_cr3_def)
  ultimately show ?thesis
    using vm(1,4) none free managed cached
    by (auto simp: tlb_free_region_def tlb_read_def tlb_write_def tlb_frame_def load_cr3_def)
qed

section \<open>Examples\<close>

definition tlb_sample :: tvm where
  "tlb_sample = \<lparr>t_vm = vm_sample, t_cr3 = 0x1000, t_tlb = (\<lambda>_. None)\<rparr>"

lemma tlb_sample_ok: "coherent tlb_sample" "vm_inv (t_cr3 tlb_sample) (t_vm tlb_sample)"
  using vm_sample_inv by (simp_all add: tlb_sample_def coherent_def)

text \<open>The sample with one page mapped and in the cache.\<close>

definition tlb_sample_mapped :: tvm where
  "tlb_sample_mapped = (let vm = projr (map_memory_page 0x1000 0x200000 7 vm_sample) in
     \<lparr>t_vm = vm, t_cr3 = 0x1000, t_tlb = (\<lambda>_. None)(0x200 := translate (vm_pt vm) 0x1000 0x200000)\<rparr>)"

lemma tlb_sample_mapped:
  "\<exists>f. vm_inv 0x1000 (t_vm tlb_sample_mapped) \<and> table_frame tlb_sample_mapped 0x200000 = Some f \<and>
     t_tlb tlb_sample_mapped (page_number 0x200000) = Some f \<and> f \<in> ba_managed (vm_ba (t_vm tlb_sample_mapped)) \<and>
     f \<in> ba_in_use (vm_ba (t_vm tlb_sample_mapped)) \<and> t_cr3 tlb_sample_mapped = 0x1000"
proof -
  have empty: "tbl (vm_pt vm_sample) 0x1000 (path 0x200000) = None" by (simp add: path_def vm_sample_def)
  have u: "user_va 0x200000" by (simp add: user_va_def)
  obtain st' n where m: "map_memory_page 0x1000 0x200000 7 vm_sample = Inr st'" "vm_inv 0x1000 st'"
      "tbl (vm_pt st') 0x1000 (path 0x200000) = Some n" "n \<in> ba_managed (vm_ba vm_sample)"
      "ba_managed (vm_ba st') = ba_managed (vm_ba vm_sample)"
    using map_memory_page_extends [OF vm_sample_inv u flags_7] vm_sample_avail empty by auto
  have pi: "pt_inv (vm_pt st') (vm_ba st') 0x1000" using m(2) by (simp add: vm_inv_def)
  have "n \<notin> ba_managed (vm_ba st') - ba_in_use (vm_ba st')" using pt_invD(3) [OF pi upath_path [OF u] m(3)] .
  then show ?thesis using m by (simp add: tlb_sample_mapped_def Let_def translate_def)
qed


text \<open>The first page of a stack, freed by \<open>exit\<close> while its translation is cached.\<close>

theorem free_region_stale_witness:
  "\<exists>t' f. tlb_free_region 0x1000 0x200000 0x201000 tlb_sample_mapped = Inr t' \<and> table_frame t' 0x200000 = None \<and>
     f \<in> ba_managed (vm_ba (t_vm t')) - ba_in_use (vm_ba (t_vm t')) \<and> (\<exists>t''. tlb_write 0x200000 7 t' = Inr t'' \<and> vm_mem (t_vm t'') f = 7)"
proof -
  let ?t = tlb_sample_mapped
  obtain f where f: "vm_inv (t_cr3 ?t) (t_vm ?t)" "table_frame ?t 0x200000 = Some f" "t_tlb ?t (page_number 0x200000) = Some f"
      "f \<in> ba_managed (vm_ba (t_vm ?t))" "f \<in> ba_in_use (vm_ba (t_vm ?t))" "t_cr3 ?t = 0x1000"
    using tlb_sample_mapped by auto
  have r: "va = 0x200000" if "va \<in> region 0x200000 0x201000" for va :: u64
  proof -
    have "aligned va" "0x200000 \<le> va" "va < 0x200000 + PAGE_SIZE" using that by (simp_all add: region_def PAGE_ROUND_DOWN_def)
    then show ?thesis using aligned_lt_next [of "0x200000" va] by (auto simp: aligned_def user_va_def)
  qed
  have "user_va 0x200000" "PAGE_ROUND_DOWN 0x200000 \<in> region 0x200000 0x201000"
    by (simp_all add: user_va_def region_def PAGE_ROUND_DOWN_def aligned_def)
  moreover have "\<forall>va \<in> region 0x200000 0x201000. \<forall>g. table_frame ?t va = Some g \<longrightarrow> g \<in> ba_in_use (vm_ba (t_vm ?t))"
    using f(2,5) r by (metis option.inject)
  ultimately show ?thesis using free_region_stale [OF f(1) _ _ _ _ f(2,3,4), of "0x201000" "0x200000" 7] f(6) by auto
qed

end
