(* ===== verification/Layout.thy ===== *)
theory Layout
  imports InterruptEntry Boot
begin

text \<open>
  The layout of the structures of the kernel in memory.  The other theories use records, sizes and offsets; here
  the declarations of the structures, field by field, are laid out by the rules of the C implementation for
  64-bit machines (each field at the next multiple of its alignment, or at once in a packed structure), and the
  numbers that the model, the assembly code and the hardware rely on are compared with the result.
\<close>

section \<open>Layout of C types\<close>

datatype cty = Scalar nat | Array cty nat | Struct bool "(string \<times> cty) list"

definition round_up :: "nat \<Rightarrow> nat \<Rightarrow> nat" where
  "round_up n a = (n + a - 1) div a * a"

fun align_c :: "cty \<Rightarrow> nat" and align_fields :: "(string \<times> cty) list \<Rightarrow> nat" where
  "align_c (Scalar n) = n"
| "align_c (Array t n) = align_c t"
| "align_c (Struct packed fs) = (if packed then 1 else align_fields fs)"
| "align_fields [] = 1"
| "align_fields ((x, t) # fs) = max (align_c t) (align_fields fs)"

definition place :: "bool \<Rightarrow> nat \<Rightarrow> cty \<Rightarrow> nat" where
  "place packed off t = (if packed then off else round_up off (align_c t))"

fun size_c :: "cty \<Rightarrow> nat" and end_fields :: "bool \<Rightarrow> nat \<Rightarrow> (string \<times> cty) list \<Rightarrow> nat" where
  "size_c (Scalar n) = n"
| "size_c (Array t n) = n * size_c t"
| "size_c (Struct packed fs) = round_up (end_fields packed 0 fs) (align_c (Struct packed fs))"
| "end_fields packed off [] = off"
| "end_fields packed off ((x, t) # fs) = end_fields packed (place packed off t + size_c t) fs"

fun field_places :: "bool \<Rightarrow> nat \<Rightarrow> (string \<times> cty) list \<Rightarrow> nat list" where
  "field_places packed off [] = []"
| "field_places packed off ((x, t) # fs) = place packed off t # field_places packed (place packed off t + size_c t) fs"

primrec offset_of :: "cty \<Rightarrow> string \<Rightarrow> nat option" where
  "offset_of (Scalar n) f = None"
| "offset_of (Array t n) f = None"
| "offset_of (Struct packed fs) f = map_of (zip (map fst fs) (field_places packed 0 fs)) f"

abbreviation cu8 :: cty where "cu8 \<equiv> Scalar 1"
abbreviation cu16 :: cty where "cu16 \<equiv> Scalar 2"
abbreviation cu32 :: cty where "cu32 \<equiv> Scalar 4"
abbreviation cu64 :: cty where "cu64 \<equiv> Scalar 8"
abbreviation cint :: cty where "cint \<equiv> Scalar 4"
abbreviation cenum :: cty where "cenum \<equiv> Scalar 4"
abbreviation cptr :: cty where "cptr \<equiv> Scalar 8"

section \<open>The structures\<close>

definition c_heap_node :: cty where
  "c_heap_node = Struct False [(''size'', cu64), (''status'', cenum), (''prev'', cptr), (''next'', cptr)]"

definition c_allocator :: cty where
  "c_allocator = Struct False [(''first'', cptr), (''addr'', cu64), (''size'', cu64)]"

definition c_ll_node_t :: cty where
  "c_ll_node_t = Struct False [(''content'', cptr), (''next'', cptr), (''prev'', cptr)]"

definition c_ll_t :: cty where
  "c_ll_t = Struct False [(''first'', cptr), (''last'', cptr), (''size'', cu64)]"

definition c_semaphore :: cty where
  "c_semaphore = Struct False [(''count'', cint), (''wait_head'', cptr), (''wait_tail'', cptr)]"

definition c_mutex_type :: cty where
  "c_mutex_type = Struct False [(''data'', cptr), (''lock'', cptr)]"

definition c_pipe :: cty where
  "c_pipe = Struct False [(''buffer'', cptr), (''buffer_len'', cu64), (''read_pos'', cu64), (''write_pos'', cu64),
     (''read_refs'', cint), (''write_refs'', cint), (''buf_lock'', cptr), (''sem_empty'', cptr), (''sem_full'', cptr)]"

definition c_resource :: cty where
  "c_resource = Struct False [(''type'', cenum), (''res'', cptr)]"

definition c_iret :: cty where
  "c_iret = Struct False [(''rip'', cu64), (''cs'', cu64), (''flags'', cu64), (''rsp'', cu64), (''ss'', cu64)]"

definition c_cpu_status :: cty where
  "c_cpu_status = Struct False [(''r15'', cu64), (''r14'', cu64), (''r13'', cu64), (''r12'', cu64), (''r11'', cu64),
     (''r10'', cu64), (''r9'', cu64), (''r8'', cu64), (''rdi'', cu64), (''rsi'', cu64), (''rbp'', cu64), (''rdx'', cu64),
     (''rcx'', cu64), (''rbx'', cu64), (''rax'', cu64), (''iret'', c_iret)]"

definition c_process :: cty where
  "c_process = Struct False [(''cr3'', cu64), (''status'', cenum), (''context'', cptr), (''next'', cptr), (''wait_next'', cptr),
     (''pid'', cint), (''kernel_stack'', cptr), (''resources'', cptr), (''resources_cap'', cint),
     (''anon_allocate_end'', cu64), (''elf_end'', cu32)]"

definition c_area :: cty where
  "c_area = Struct False [(''first_page'', cptr), (''pages_count'', cu64), (''used'', cu64), (''data'', Array cu8 0)]"

definition c_bitmap_allocator :: cty where
  "c_bitmap_allocator = Struct False [(''areas_count'', cu64), (''areas'', Array cptr 0x100)]"

definition c_elf_header :: cty where
  "c_elf_header = Struct True [(''e_ident'', Array cu8 16), (''e_type'', cu16), (''e_machine'', cu16), (''e_version'', cu32),
     (''e_entry'', cu64), (''e_phoff'', cu64), (''e_shoff'', cu64), (''e_flags'', cu32), (''e_ehsize'', cu16),
     (''e_phentsize'', cu16), (''e_phnum'', cu16), (''e_shentsize'', cu16), (''e_shnum'', cu16), (''e_shstrndx'', cu16)]"

definition c_elf_program :: cty where
  "c_elf_program = Struct True [(''p_type'', cu32), (''p_flags'', cu32), (''p_offset'', cu64), (''p_vaddr'', cu64),
     (''p_paddr'', cu64), (''p_filesz'', cu64), (''p_memsz'', cu64), (''p_align'', cu64)]"

definition c_idt_entry :: cty where
  "c_idt_entry = Struct True [(''isr_low'', cu16), (''kernel_cs'', cu16), (''ist'', cu8), (''attr'', cu8), (''isr_mid'', cu16),
     (''isr_high'', cu32), (''reserved'', cu32)]"

definition c_idt_register :: cty where
  "c_idt_register = Struct True [(''size'', cu16), (''idt'', cptr)]"

definition c_tss :: cty where
  "c_tss = Struct True [(''reserved0'', cu32), (''rsp'', Array cu64 3), (''reserved1'', cu64), (''ist'', Array cu64 7),
     (''reserved2'', cu64), (''reserved3'', cu16), (''iopb'', cu16)]"

definition c_gdt_entry :: cty where
  "c_gdt_entry = Struct True [(''limit_low'', cu16), (''base_low'', cu16), (''base_mid'', cu8), (''access'', cu8),
     (''granularity'', cu8), (''base_high'', cu8)]"

definition c_gdt_tss_entry :: cty where
  "c_gdt_tss_entry = Struct True [(''limit_low'', cu16), (''base_low'', cu16), (''base_mid1'', cu8), (''access'', cu8),
     (''granularity'', cu8), (''base_mid2'', cu8), (''base_high'', cu32), (''reserved'', cu32)]"

definition c_gdt :: cty where
  "c_gdt = Struct True [(''null'', c_gdt_entry), (''kernel_code'', c_gdt_entry), (''kernel_data'', c_gdt_entry),
     (''tss'', c_gdt_tss_entry), (''user_data'', c_gdt_entry), (''user_code'', c_gdt_entry)]"

definition c_gdt_register :: cty where
  "c_gdt_register = Struct True [(''size'', cu16), (''gdt'', cptr)]"

definition c_file_t :: cty where
  "c_file_t = Struct False [(''path'', cptr), (''offset'', cu64), (''filesz'', cu64)]"

definition c_fs_operations_t :: cty where
  "c_fs_operations_t = Struct False [(''open'', cptr), (''read'', cptr), (''write'', cptr), (''close'', cptr)]"

definition c_mountpoint_t :: cty where
  "c_mountpoint_t = Struct False [(''device'', cptr), (''path'', cptr), (''operations'', cptr)]"

definition c_PSF1_header :: cty where
  "c_PSF1_header = Struct False [(''magic'', cu16), (''font_mode'', cu8), (''char_size'', cu8)]"

definition c_framebuffer :: cty where
  "c_framebuffer = Struct False [(''info'', Struct False [(''width'', cu64), (''height'', cu64), (''bpp'', cu64), (''pitch'', cu64)]),
     (''x_pos'', cu64), (''y_pos'', cu64), (''buffer'', cptr), (''putchar'', cptr)]"

lemmas kernel_structs = c_heap_node_def c_allocator_def c_ll_node_t_def c_ll_t_def c_semaphore_def c_mutex_type_def c_pipe_def
  c_resource_def c_iret_def c_cpu_status_def c_process_def c_area_def c_bitmap_allocator_def c_elf_header_def c_elf_program_def
  c_idt_entry_def c_idt_register_def c_tss_def c_gdt_entry_def c_gdt_tss_entry_def c_gdt_def c_gdt_register_def c_file_t_def
  c_fs_operations_t_def c_mountpoint_t_def c_PSF1_header_def c_framebuffer_def

section \<open>Soundness of the layout\<close>

text \<open>Types whose scalars have a size.\<close>

fun sized :: "cty \<Rightarrow> bool" and sized_fields :: "(string \<times> cty) list \<Rightarrow> bool" where
  "sized (Scalar n) = (0 < n)"
| "sized (Array t n) = sized t"
| "sized (Struct packed fs) = sized_fields fs"
| "sized_fields [] = True"
| "sized_fields ((x, t) # fs) = (sized t \<and> sized_fields fs)"

lemma round_up_bounds:
  assumes "0 < a"
  shows "n \<le> round_up n a" "round_up n a mod a = 0" "round_up n a < n + a"
proof -
  define q r where "q = (n + a - 1) div a" and "r = (n + a - 1) mod a"
  have e: "a * q + r = n + a - 1" unfolding q_def r_def by (rule mult_div_mod_eq)
  have "r < a" using assms by (simp add: r_def)
  then show "n \<le> round_up n a" "round_up n a < n + a"
    using assms e unfolding round_up_def q_def [symmetric] by (simp_all add: mult.commute)
  show "round_up n a mod a = 0" by (simp add: round_up_def)
qed

lemma align_pos: "sized t \<Longrightarrow> 0 < align_c t" "sized_fields fs \<Longrightarrow> 0 < align_fields fs"
  by (induction t and fs rule: align_c_align_fields.induct) auto

lemma place_bounds:
  "sized t \<Longrightarrow> off \<le> place packed off t" "sized t \<Longrightarrow> \<not> packed \<Longrightarrow> place packed off t mod align_c t = 0"
  using round_up_bounds [OF align_pos(1), of t off] by (auto simp: place_def)

lemma end_fields_grow: "sized_fields fs \<Longrightarrow> off \<le> end_fields packed off fs"
proof (induction fs arbitrary: off)
  case (Cons f fs)
  obtain x t where f: "f = (x, t)" by fastforce
  have "place packed off t + size_c t \<le> end_fields packed off (f # fs)" using Cons by (simp add: f)
  then show ?case using place_bounds(1) [of t off packed] Cons.prems by (simp add: f)
qed simp

lemma length_field_places [simp]: "length (field_places packed off fs) = length fs"
  by (induction packed off fs rule: field_places.induct) simp_all

lemma field_places_bounds:
  "sized_fields fs \<Longrightarrow> i < length fs \<Longrightarrow>
     off \<le> field_places packed off fs ! i \<and> field_places packed off fs ! i + size_c (snd (fs ! i)) \<le> end_fields packed off fs \<and>
     (\<not> packed \<longrightarrow> field_places packed off fs ! i mod align_c (snd (fs ! i)) = 0)"
proof (induction fs arbitrary: off i)
  case (Cons f fs)
  obtain x t where f: "f = (x, t)" by fastforce
  have t: "sized t" "sized_fields fs" using Cons.prems(1) by (simp_all add: f)
  show ?case
  proof (cases i)
    case 0
    then show ?thesis
      using place_bounds [OF t(1)] end_fields_grow [OF t(2), of "place packed off t + size_c t" packed] by (simp add: f)
  next
    case (Suc j)
    then show ?thesis
      using Cons.IH [OF t(2), of j "place packed off t + size_c t"] Cons.prems(2) place_bounds(1) [OF t(1), of off packed]
      by (auto simp: f)
  qed
qed simp

lemma field_places_disjoint:
  "sized_fields fs \<Longrightarrow> i < j \<Longrightarrow> j < length fs \<Longrightarrow>
     field_places packed off fs ! i + size_c (snd (fs ! i)) \<le> field_places packed off fs ! j"
proof (induction fs arbitrary: off i j)
  case (Cons f fs)
  obtain x t k where f: "f = (x, t)" "j = Suc k" using Cons.prems(2) by (cases f; cases j) auto
  then have t: "sized t" "sized_fields fs" "k < length fs" using Cons.prems by simp_all
  show ?case
    using field_places_bounds [OF t(2,3), of "place packed off t + size_c t" packed] Cons.IH [OF t(2), of "i - 1" k] Cons.prems t(3)
    by (cases i) (simp_all add: f)
qed simp

text \<open>
  The layout is sound: the fields of a structure follow one another without overlap, lie inside it and, unless it
  is packed, are aligned; its size is a multiple of its alignment, so that the elements of an array are aligned too.
\<close>

theorem layout_sound:
  assumes "sized_fields fs" "i < length fs"
  shows "field_places packed 0 fs ! i + size_c (snd (fs ! i)) \<le> size_c (Struct packed fs) \<and>
    (\<forall>j<i. field_places packed 0 fs ! j + size_c (snd (fs ! j)) \<le> field_places packed 0 fs ! i) \<and>
    (\<not> packed \<longrightarrow> field_places packed 0 fs ! i mod align_c (snd (fs ! i)) = 0) \<and>
    size_c (Struct packed fs) mod align_c (Struct packed fs) = 0"
proof -
  have a: "0 < align_c (Struct packed fs)" using align_pos(1) [of "Struct packed fs"] assms(1) by simp
  show ?thesis
    using round_up_bounds [OF a, of "end_fields packed 0 fs"] field_places_bounds [OF assms, of 0 packed]
      field_places_disjoint [OF assms(1) _ assms(2), of _ packed 0]
    by (auto simp del: align_c.simps)
qed

lemma kernel_structs_sized:
  "list_all sized [c_heap_node, c_allocator, c_ll_node_t, c_ll_t, c_semaphore, c_mutex_type, c_pipe, c_resource, c_iret, c_cpu_status,
     c_process, c_area, c_bitmap_allocator, c_elf_header, c_elf_program, c_idt_entry, c_idt_register, c_tss, c_gdt_entry,
     c_gdt_tss_entry, c_gdt, c_gdt_register, c_file_t, c_fs_operations_t, c_mountpoint_t, c_PSF1_header, c_framebuffer]"
  by (simp add: kernel_structs)

section \<open>The numbers the kernel relies on\<close>

lemma size_PSF1_header: "size_c c_PSF1_header = 4"
  by code_simp


text \<open>The name of a register as a field of \<open>cpu_status\<close>.\<close>

primrec reg_field :: "reg \<Rightarrow> string" where
  "reg_field RAX = ''rax''" | "reg_field RBX = ''rbx''" | "reg_field RCX = ''rcx''" | "reg_field RDX = ''rdx''"
| "reg_field RBP = ''rbp''" | "reg_field RSI = ''rsi''" | "reg_field RDI = ''rdi''" | "reg_field R8 = ''r8''"
| "reg_field R9 = ''r9''" | "reg_field R10 = ''r10''" | "reg_field R11 = ''r11''" | "reg_field R12 = ''r12''"
| "reg_field R13 = ''r13''" | "reg_field R14 = ''r14''" | "reg_field R15 = ''r15''" | "reg_field RSP = ''rsp''"

lemma cpu_status_places:
  "map (\<lambda>r. offset_of c_cpu_status (reg_field r)) cpu_status_regs = map (\<lambda>i. Some (8 * i)) [0..<15]"
  "offset_of c_cpu_status ''iret'' = Some 120"
  by (simp_all add: kernel_structs place_def round_up_def cpu_status_regs_def upt_rec)



text \<open>
  The segment selectors are the offsets of the descriptors in the table: those that \<open>gdt_init\<close> loads and the
  interrupt gates and \<open>syscall\<close> use select the kernel segments and the task state segment, and \<open>sysret\<close> loads those
  of the user segments with privilege level 3.  The stacks are where the processor looks for them in the task state
  segment, and the loaded limit of the interrupt table is that of 256 gates.
\<close>

theorem selectors_are_offsets:
  "Some (unat (sg_code (gdt_init ks ds tss_addr))) = offset_of c_gdt ''kernel_code'' \<and>
   Some (unat (sg_data (gdt_init ks ds tss_addr))) = offset_of c_gdt ''kernel_data'' \<and>
   Some (unat (sg_task (gdt_init ks ds tss_addr))) = offset_of c_gdt ''tss'' \<and>
   Some (unat (kernel_cs (c_idt (idt_set_descriptor e isr fl ist c) e))) = offset_of c_gdt ''kernel_code'' \<and>
   Some (unat (m_cs (syscall_instr (syscall_init stub ctl) m))) = offset_of c_gdt ''kernel_code'' \<and>
   Some (unat (m_ss (syscall_instr (syscall_init stub ctl) m))) = offset_of c_gdt ''kernel_data'' \<and>
   Some (unat (m_cs (sysret m) AND NOT 3)) = offset_of c_gdt ''user_code'' \<and> m_cs (sysret m) AND 3 = 3 \<and>
   Some (unat (m_ss (sysret m) AND NOT 3)) = offset_of c_gdt ''user_data'' \<and> m_ss (sysret m) AND 3 = 3 \<and>
   offset_of c_tss ''rsp'' = Some 4 \<and> offset_of c_tss ''ist'' = Some 36 \<and> size_c c_idt_entry = 16 \<and>
   c_idtr (exceptions_init stubs c) = Some (of_nat (0x100 * size_c c_idt_entry - 1), c_idt (exceptions_init stubs c))"
proof -
  have "c_idtr (exceptions_init stubs c) = Some (0xfff, c_idt (exceptions_init stubs c))"
    by (simp add: exceptions_init_def Let_def)
  then show ?thesis
    by (simp add: gdt_init_def idt_set_descriptor_def syscall_enters_kernel sysret_def kernel_structs place_def round_up_def)
qed

end
