(* ===== verification/Limine.thy ===== *)
theory Limine
  imports Layout
begin

text \<open>
  The boot protocol as the kernel sees it, \<open>src/include/limine.h\<close> and the requests of \<open>src/src/main.c\<close>.  The kernel image
  holds the requests as static objects; the boot loader, which is not part of the repository, finds them by their
  identifiers and enters pointers to its responses.  Objects are laid out in byte memory by the rules of \<open>Layout\<close>;
  what \<open>_start\<close> reads of them is the value of type \<open>limine_responses\<close> that the boot sequence is a function of.
\<close>

section \<open>Objects in memory\<close>

text \<open>Little-endian bytes, and loads and stores of the fields of a structure.\<close>

primrec le_bytes :: "nat \<Rightarrow> u64 \<Rightarrow> u8 list" where
  "le_bytes 0 w = []"
| "le_bytes (Suc n) w = ucast w # le_bytes n (drop_bit 8 w)"

definition put_bytes :: "u64 \<Rightarrow> u8 list \<Rightarrow> mem \<Rightarrow> mem" where
  "put_bytes a bs m = (\<lambda>x. if unat (x - a) < length bs then bs ! unat (x - a) else m x)"

primrec size_of_field :: "cty \<Rightarrow> string \<Rightarrow> nat" where
  "size_of_field (Scalar n) f = 0"
| "size_of_field (Array t n) f = 0"
| "size_of_field (Struct packed fs) f = (case map_of fs f of None \<Rightarrow> 0 | Some t \<Rightarrow> size_c t)"

definition get_field :: "mem \<Rightarrow> cty \<Rightarrow> u64 \<Rightarrow> string \<Rightarrow> u64" where
  "get_field m t a f = le_value (bytes_at m (a + of_nat (the (offset_of t f))) (size_of_field t f))"

fun put_fields :: "bool \<Rightarrow> nat \<Rightarrow> (string \<times> cty) list \<Rightarrow> u64 \<Rightarrow> (string \<Rightarrow> u64) \<Rightarrow> mem \<Rightarrow> mem" where
  "put_fields packed off [] a v m = m"
| "put_fields packed off ((f, t) # fs) a v m =
     (let p = place packed off t
      in put_fields packed (p + size_c t) fs a v (put_bytes (a + of_nat p) (le_bytes (size_c t) (v f)) m))"

primrec put_object :: "cty \<Rightarrow> u64 \<Rightarrow> (string \<Rightarrow> u64) \<Rightarrow> mem \<Rightarrow> mem" where
  "put_object (Scalar n) a v m = m"
| "put_object (Array t n) a v m = m"
| "put_object (Struct packed fs) a v m = put_fields packed 0 fs a v m"

lemma length_le_bytes [simp]: "length (le_bytes n w) = n"
  by (induction n arbitrary: w) simp_all

lemma le_value_bytes: "le_value (le_bytes n w) = take_bit (8 * n) w"
proof (induction n arbitrary: w)
  case (Suc n)
  show ?case by (rule bit_eqI) (auto simp: Suc.IH bit_simps)
qed simp

text \<open>A store of bytes that do not wrap around the end of memory.\<close>

lemma put_bytes_at:
  assumes "length bs < 2 ^ 64"
  shows "bytes_at (put_bytes a bs m) a (length bs) = bs"
  using assms by (intro nth_equalityI) (simp_all add: put_bytes_def unat_of_nat)

lemma put_bytes_outside: "\<not> in_range x a (length bs) \<Longrightarrow> put_bytes a bs m x = m x"
  by (auto simp: put_bytes_def in_range_def)

lemma put_fields_outside:
  assumes "sized_fields fs" "\<forall>i. off \<le> i \<and> i < end_fields packed off fs \<longrightarrow> x \<noteq> a + of_nat i"
  shows "put_fields packed off fs a v m x = m x"
  using assms
proof (induction packed off fs a v m rule: put_fields.induct)
  case (2 packed off f t fs a v m)
  let ?p = "place packed off t"
  have s: "sized t" "sized_fields fs" using 2(2) by simp_all
  have b: "off \<le> ?p" "?p + size_c t \<le> end_fields packed (?p + size_c t) fs" using place_bounds(1) [OF s(1)] end_fields_grow [OF s(2)] by auto
  have "put_fields packed (?p + size_c t) fs a v (put_bytes (a + of_nat ?p) (le_bytes (size_c t) (v f)) m) x =
      put_bytes (a + of_nat ?p) (le_bytes (size_c t) (v f)) m x"
    using 2(3) b by (intro 2(1) [OF refl s(2)]) auto
  moreover have "\<not> in_range x (a + of_nat ?p) (size_c t)"
  proof
    assume "in_range x (a + of_nat ?p) (size_c t)"
    then obtain i where "i < size_c t" "x = a + of_nat (?p + i)" by (auto simp: in_range_def)
    then show False using 2(3) b by (auto dest!: spec [of _ "?p + i"])
  qed
  ultimately show ?case using put_bytes_outside [of x "a + of_nat ?p" "le_bytes (size_c t) (v f)" m] by (simp add: Let_def)
qed simp

lemma put_fields_at:
  assumes "sized_fields fs" "unat a + end_fields packed off fs < 2 ^ 64" "i < length fs"
  shows "bytes_at (put_fields packed off fs a v m) (a + of_nat (field_places packed off fs ! i)) (size_c (snd (fs ! i))) =
    le_bytes (size_c (snd (fs ! i))) (v (fst (fs ! i)))"
  using assms
proof (induction packed off fs a v m arbitrary: i rule: put_fields.induct)
  case (2 packed off f t fs a v m)
  let ?p = "place packed off t"
  have s: "sized t" "sized_fields fs" using 2(2) by simp_all
  have e: "?p + size_c t \<le> end_fields packed (?p + size_c t) fs" by (rule end_fields_grow [OF s(2)])
  show ?case
  proof (cases i)
    case 0
    have "put_fields packed (?p + size_c t) fs a v m' (a + of_nat ?p + of_nat j) = m' (a + of_nat ?p + of_nat j)" if "j < size_c t" for j m'
    proof (rule put_fields_outside [OF s(2)], intro allI impI notI)
      fix k assume k: "?p + size_c t \<le> k \<and> k < end_fields packed (?p + size_c t) fs" "a + of_nat ?p + of_nat j = a + of_nat k"
      then have "of_nat (?p + j) = (of_nat k :: u64)" by simp
      moreover have "unat (of_nat (?p + j) :: u64) = ?p + j" "unat (of_nat k :: u64) = k"
        using k(1) 2(3) e that by (simp_all add: unat_of_nat del: of_nat_add)
      ultimately have "?p + j = k" by metis
      then show False using k(1) that by simp
    qed
    then have "bytes_at (put_fields packed off ((f, t) # fs) a v m) (a + of_nat ?p) (size_c t) =
        bytes_at (put_bytes (a + of_nat ?p) (le_bytes (size_c t) (v f)) m) (a + of_nat ?p) (size_c t)"
      by (intro bytes_at_cong) (simp add: Let_def)
    also have "\<dots> = le_bytes (size_c t) (v f)" using put_bytes_at [of "le_bytes (size_c t) (v f)"] 2(3) e by simp
    finally show ?thesis using 0 by simp
  next
    case (Suc j)
    then show ?thesis using 2(1) [OF refl s(2), of j] 2(3,4) by (simp add: Let_def)
  qed
qed simp

lemma map_of_zip_places:
  "distinct (map fst fs) \<Longrightarrow> i < length fs \<Longrightarrow>
     map_of (zip (map fst fs) (field_places packed off fs)) (fst (fs ! i)) = Some (field_places packed off fs ! i)"
  using map_of_zip_nth [of "map fst fs" "field_places packed off fs" i] by simp

section \<open>The structures of the protocol\<close>

definition c_limine_uuid :: cty where
  "c_limine_uuid = Struct False [(''a'', cu32), (''b'', cu16), (''c'', cu16), (''d'', Array cu8 8)]"

definition c_limine_file :: cty where
  "c_limine_file = Struct False [(''revision'', cu64), (''address'', cptr), (''size'', cu64), (''path'', cptr), (''string'', cptr),
     (''media_type'', cu32), (''unused'', cu32), (''tftp_ip'', cu32), (''tftp_port'', cu32), (''partition_index'', cu32),
     (''mbr_disk_id'', cu32), (''gpt_disk_uuid'', c_limine_uuid), (''gpt_part_uuid'', c_limine_uuid), (''part_uuid'', c_limine_uuid)]"

definition c_limine_hhdm_response :: cty where
  "c_limine_hhdm_response = Struct False [(''revision'', cu64), (''offset'', cu64)]"

definition c_limine_framebuffer :: cty where
  "c_limine_framebuffer = Struct False [(''address'', cptr), (''width'', cu64), (''height'', cu64), (''pitch'', cu64), (''bpp'', cu16),
     (''memory_model'', cu8), (''red_mask_size'', cu8), (''red_mask_shift'', cu8), (''green_mask_size'', cu8), (''green_mask_shift'', cu8),
     (''blue_mask_size'', cu8), (''blue_mask_shift'', cu8), (''unused'', Array cu8 7), (''edid_size'', cu64), (''edid'', cptr),
     (''mode_count'', cu64), (''modes'', cptr)]"

definition c_limine_framebuffer_response :: cty where
  "c_limine_framebuffer_response = Struct False [(''revision'', cu64), (''framebuffer_count'', cu64), (''framebuffers'', cptr)]"

definition c_limine_memmap_entry :: cty where
  "c_limine_memmap_entry = Struct False [(''base'', cu64), (''length'', cu64), (''type'', cu64)]"

definition c_limine_memmap_response :: cty where
  "c_limine_memmap_response = Struct False [(''revision'', cu64), (''entry_count'', cu64), (''entries'', cptr)]"

definition c_limine_module_response :: cty where
  "c_limine_module_response = Struct False [(''revision'', cu64), (''module_count'', cu64), (''modules'', cptr)]"

text \<open>The requests for the framebuffer, the memory map and the direct mapping have the same fields.\<close>

definition c_limine_request :: cty where
  "c_limine_request = Struct False [(''id'', Array cu64 4), (''revision'', cu64), (''response'', cptr)]"

definition c_limine_module_request :: cty where
  "c_limine_module_request = Struct False [(''id'', Array cu64 4), (''revision'', cu64), (''response'', cptr),
     (''internal_module_count'', cu64), (''internal_modules'', cptr)]"

lemmas limine_structs = c_limine_uuid_def c_limine_file_def c_limine_hhdm_response_def c_limine_framebuffer_def
  c_limine_framebuffer_response_def c_limine_memmap_entry_def c_limine_memmap_response_def c_limine_module_response_def
  c_limine_request_def c_limine_module_request_def

section \<open>The requests in the image\<close>

definition LIMINE_COMMON_MAGIC :: "u64 list" where
  "LIMINE_COMMON_MAGIC = [0xc7b1dd30df4c8b88, 0x0a82e883a194f07b]"

definition LIMINE_BASE_REVISION :: "u64 \<Rightarrow> u64 list" where
  "LIMINE_BASE_REVISION n = [0xf9562b2d5c95a6c8, 0x6a7b384944536bdc, n]"

definition LIMINE_FRAMEBUFFER_REQUEST_ID :: "u64 list" where
  "LIMINE_FRAMEBUFFER_REQUEST_ID = LIMINE_COMMON_MAGIC @ [0x9d5827dcd881dd75, 0xa3148604f6fab11b]"

definition LIMINE_MEMMAP_REQUEST_ID :: "u64 list" where
  "LIMINE_MEMMAP_REQUEST_ID = LIMINE_COMMON_MAGIC @ [0x67cf3d9d378a806f, 0xe304acdfc50c3c62]"

definition LIMINE_HHDM_REQUEST_ID :: "u64 list" where
  "LIMINE_HHDM_REQUEST_ID = LIMINE_COMMON_MAGIC @ [0x48dcf1cb8ad2b852, 0x63984e959a98244b]"

definition LIMINE_MODULE_REQUEST_ID :: "u64 list" where
  "LIMINE_MODULE_REQUEST_ID = LIMINE_COMMON_MAGIC @ [0x3e7e279702be32af, 0xca1c4f3bd1280cee]"

text \<open>
  The static objects of \<open>main.c\<close>: their addresses, and the words that they are initialised with (fields without an initialiser
  are zero, among them the pointers to the responses).
\<close>

record limine_requests =
  limine_base_revision :: u64
  framebuffer_request :: u64
  memory_map_request :: u64
  hhdm_request :: u64
  module_request :: u64

definition words_at :: "mem \<Rightarrow> u64 \<Rightarrow> u64 list \<Rightarrow> bool" where
  "words_at m a ws \<longleftrightarrow> bytes_at m a (8 * length ws) = concat (map (le_bytes 8) ws)"

definition request_words :: "u64 list \<Rightarrow> u64 list" where
  "request_words request_id = request_id @ [0, 0]"

section \<open>What the kernel reads\<close>

definition LIMINE_BASE_REVISION_SUPPORTED :: "mem \<Rightarrow> u64 \<Rightarrow> bool" where
  "LIMINE_BASE_REVISION_SUPPORTED m var \<longleftrightarrow> le_value (bytes_at m (var + 2 * 8) 8) = 0"

definition pointer_at :: "mem \<Rightarrow> u64 \<Rightarrow> nat \<Rightarrow> u64" where
  "pointer_at m a i = le_value (bytes_at m (a + of_nat (8 * i)) 8)"

definition read_framebuffer :: "mem \<Rightarrow> u64 \<Rightarrow> limine_framebuffer" where
  "read_framebuffer m p = (let get = get_field m c_limine_framebuffer p in
     \<lparr>lf_address = get ''address'', lf_width = get ''width'', lf_height = get ''height'', lf_pitch = get ''pitch'', lf_bpp = ucast (get ''bpp'')\<rparr>)"

definition read_memmap_entry :: "mem \<Rightarrow> u64 \<Rightarrow> limine_memmap_entry" where
  "read_memmap_entry m p = (let get = get_field m c_limine_memmap_entry p in
     \<lparr>me_base = get ''base'', me_length = get ''length'', me_type = get ''type''\<rparr>)"

definition read_array :: "mem \<Rightarrow> (u64 \<Rightarrow> 'a) \<Rightarrow> u64 \<Rightarrow> u64 \<Rightarrow> 'a list" where
  "read_array m elem n a = map (\<lambda>i. elem (pointer_at m a i)) [0..<unat n]"

definition read_response :: "mem \<Rightarrow> cty \<Rightarrow> u64 \<Rightarrow> (u64 \<Rightarrow> 'a) \<Rightarrow> 'a option" where
  "read_response m t request rd = (let r = get_field m t request ''response'' in if r = NULL then None else Some (rd r))"

definition read_responses :: "mem \<Rightarrow> limine_requests \<Rightarrow> limine_responses" where
  "read_responses m rq =
     \<lparr>base_revision_supported = LIMINE_BASE_REVISION_SUPPORTED m (limine_base_revision rq),
      framebuffer_response = read_response m c_limine_request (framebuffer_request rq) (\<lambda>r.
        let get = get_field m c_limine_framebuffer_response r in read_array m (read_framebuffer m) (get ''framebuffer_count'') (get ''framebuffers'')),
      memmap_response = read_response m c_limine_request (memory_map_request rq) (\<lambda>r.
        let get = get_field m c_limine_memmap_response r in read_array m (read_memmap_entry m) (get ''entry_count'') (get ''entries'')),
      hhdm_response = read_response m c_limine_request (hhdm_request rq) (\<lambda>r. get_field m c_limine_hhdm_response r ''offset''),
      module_response = read_response m c_limine_module_request (module_request rq) (\<lambda>r.
        let get = get_field m c_limine_module_response r
        in read_array m (\<lambda>p. get_field m c_limine_file p ''address'') (get ''module_count'') (get ''modules''))\<rparr>"

definition start_image :: "image \<Rightarrow> limine_requests \<Rightarrow> boot \<Rightarrow> boot res" where
  "start_image im rq b = kstart im (read_responses (vmem (bt_vfs b)) rq) b"

section \<open>Words\<close>

lemma bytes_at_add: "bytes_at m a (i + j) = bytes_at m a i @ bytes_at m (a + of_nat i) j"
  by (rule nth_equalityI) (auto simp: nth_append)

lemma words_at_nth:
  assumes "words_at m a ws" "i < length ws"
  shows "le_value (bytes_at m (a + of_nat (8 * i)) 8) = ws ! i"
  using assms
proof (induction ws arbitrary: a i)
  case (Cons w ws)
  have "bytes_at m a (8 + 8 * length ws) = le_bytes 8 w @ concat (map (le_bytes 8) ws)" using Cons.prems(1) by (simp add: words_at_def)
  then have w: "bytes_at m a 8 = le_bytes 8 w" "words_at m (a + 8) ws" unfolding bytes_at_add words_at_def by simp_all
  show ?case
  proof (cases i)
    case 0
    then show ?thesis using w(1) le_value_bytes [of 8 w] take_bit_length_eq [of w] by simp
  next
    case (Suc j)
    then show ?thesis using Cons.IH [OF w(2), of j] Cons.prems(2) by (simp add: algebra_simps)
  qed
qed simp

lemma request_fields [simp]:
  "get_field m c_limine_request a ''response'' = le_value (bytes_at m (a + 40) 8)"
  "get_field m c_limine_module_request a ''response'' = le_value (bytes_at m (a + 40) 8)"
  by (simp_all add: get_field_def limine_structs place_def round_up_def)

lemma response_fields:
  "get_field m c_limine_framebuffer_response a ''framebuffer_count'' = le_value (bytes_at m (a + 8) 8)"
  "get_field m c_limine_framebuffer_response a ''framebuffers'' = le_value (bytes_at m (a + 16) 8)"
  "get_field m c_limine_memmap_response a ''entry_count'' = le_value (bytes_at m (a + 8) 8)"
  "get_field m c_limine_memmap_response a ''entries'' = le_value (bytes_at m (a + 16) 8)"
  "get_field m c_limine_module_response a ''module_count'' = le_value (bytes_at m (a + 8) 8)"
  "get_field m c_limine_module_response a ''modules'' = le_value (bytes_at m (a + 16) 8)"
  "get_field m c_limine_hhdm_response a ''offset'' = le_value (bytes_at m (a + 8) 8)"
  "get_field m c_limine_file a ''address'' = le_value (bytes_at m (a + 8) 8)"
  "get_field m c_limine_memmap_entry a ''base'' = le_value (bytes_at m a 8)"
  "get_field m c_limine_memmap_entry a ''length'' = le_value (bytes_at m (a + 8) 8)"
  "get_field m c_limine_memmap_entry a ''type'' = le_value (bytes_at m (a + 16) 8)"
  "get_field m c_limine_framebuffer a ''address'' = le_value (bytes_at m a 8)"
  "get_field m c_limine_framebuffer a ''width'' = le_value (bytes_at m (a + 8) 8)"
  "get_field m c_limine_framebuffer a ''height'' = le_value (bytes_at m (a + 16) 8)"
  "get_field m c_limine_framebuffer a ''pitch'' = le_value (bytes_at m (a + 24) 8)"
  "get_field m c_limine_framebuffer a ''bpp'' = le_value (bytes_at m (a + 32) 2)"
  by (simp_all add: get_field_def limine_structs place_def round_up_def)

lemma unanswered:
  assumes "words_at m a (request_words r)"
    "r \<in> {LIMINE_FRAMEBUFFER_REQUEST_ID, LIMINE_MEMMAP_REQUEST_ID, LIMINE_HHDM_REQUEST_ID}"
  shows "read_response m c_limine_request a rd = None"
proof -
  have "length r = 4" using assms(2)
    by (auto simp: LIMINE_FRAMEBUFFER_REQUEST_ID_def LIMINE_MEMMAP_REQUEST_ID_def LIMINE_HHDM_REQUEST_ID_def LIMINE_COMMON_MAGIC_def)
  then show ?thesis using words_at_nth [OF assms(1), of 5] by (simp add: read_response_def request_words_def nth_append)
qed

section \<open>Properties\<close>

text \<open>
  Structures in memory: storing an object field by field, at the places that the layout of its type gives, and loading a
  field returns the stored value (cut to the width of the field), whatever the other fields are; nothing outside the
  object changes.
\<close>

theorem object_load_store:
  assumes "sized_fields fs" "distinct (map fst fs)" "unat a + size_c (Struct packed fs) < 2 ^ 64" "(f, t) \<in> set fs"
  shows "get_field (put_object (Struct packed fs) a v m) (Struct packed fs) a f = take_bit (8 * size_c t) (v f) \<and>
    (\<forall>x. \<not> in_range x a (size_c (Struct packed fs)) \<longrightarrow> put_object (Struct packed fs) a v m x = m x)"
proof -
  obtain i where i: "i < length fs" "fs ! i = (f, t)" using assms(4) by (auto simp: in_set_conv_nth)
  have "0 < align_c (Struct packed fs)" using align_pos(1) [of "Struct packed fs"] assms(1) by simp
  then have e: "end_fields packed 0 fs \<le> size_c (Struct packed fs)" using round_up_bounds(1) by simp
  have "offset_of (Struct packed fs) f = Some (field_places packed 0 fs ! i)" "map_of fs f = Some t"
    using map_of_zip_places [OF assms(2) i(1), of packed 0] map_of_is_SomeI [OF assms(2,4)] i(2) by simp_all
  then have "get_field (put_object (Struct packed fs) a v m) (Struct packed fs) a f = take_bit (8 * size_c t) (v f)"
    using put_fields_at [OF assms(1) _ i(1), of a packed 0 v m] assms(3) e i(2) by (simp add: get_field_def le_value_bytes)
  moreover have "put_object (Struct packed fs) a v m x = m x" if "\<not> in_range x a (size_c (Struct packed fs))" for x
    using put_fields_outside [OF assms(1), of 0 packed x a v m] that e by (auto simp: in_range_def)
  ultimately show ?thesis by blast
qed

text \<open>
  (C35) The kernel does not run on answers that it has not got: if the boot loader has left the protocol revision, the request
  for a framebuffer, for the memory map or for the direct mapping as the compiler has laid it out, \<open>_start\<close> halts; in
  particular no response is read through a null pointer.
\<close>

theorem unanswered_request_halts:
  assumes "words_at (vmem (bt_vfs b)) (limine_base_revision rq) (LIMINE_BASE_REVISION 4) \<or>
    words_at (vmem (bt_vfs b)) (framebuffer_request rq) (request_words LIMINE_FRAMEBUFFER_REQUEST_ID) \<or>
    words_at (vmem (bt_vfs b)) (memory_map_request rq) (request_words LIMINE_MEMMAP_REQUEST_ID) \<or>
    words_at (vmem (bt_vfs b)) (hhdm_request rq) (request_words LIMINE_HHDM_REQUEST_ID)"
  shows "start_image im rq b = Inl Halted"
proof -
  let ?m = "vmem (bt_vfs b)"
  have "\<not> LIMINE_BASE_REVISION_SUPPORTED ?m a" if "words_at ?m a (LIMINE_BASE_REVISION 4)" for a
    using words_at_nth [OF that, of 2] by (simp add: LIMINE_BASE_REVISION_SUPPORTED_def LIMINE_BASE_REVISION_def)
  then have "\<not> base_revision_supported (read_responses ?m rq) \<or> framebuffer_response (read_responses ?m rq) = None \<or>
      memmap_response (read_responses ?m rq) = None \<or> hhdm_response (read_responses ?m rq) = None"
    using assms by (auto simp: read_responses_def unanswered [where r = LIMINE_FRAMEBUFFER_REQUEST_ID]
        unanswered [where r = LIMINE_MEMMAP_REQUEST_ID] unanswered [where r = LIMINE_HHDM_REQUEST_ID])
  then show ?thesis unfolding start_image_def by (intro kstart_halts) auto
qed

section \<open>Witnesses\<close>

theorem object_load_store_witness:
  "get_field (put_object c_limine_memmap_entry 0x1000 (\<lambda>f. if f = ''length'' then 0x3000 else 0xffff) (\<lambda>_. 7)) c_limine_memmap_entry 0x1000 ''length'' = 0x3000 \<and>
   put_object c_limine_memmap_entry 0x1000 (\<lambda>f. if f = ''length'' then 0x3000 else 0xffff) (\<lambda>_. 7) 0x2000 = 7"
proof -
  let ?fs = "[(''base'', cu64), (''length'', cu64), (''type'', cu64)]" and ?v = "\<lambda>f. if f = ''length'' then 0x3000 else 0xffff :: u64"
  have size: "size_c (Struct False ?fs) = 24" by (simp add: place_def round_up_def)
  have "\<not> in_range 0x2000 0x1000 24" using disjoint_ranges [of "0x1000" 24 "0x2000" 1 "0x2000"] in_range_offset [of 0 1 "0x2000"] by auto
  then show ?thesis
    using object_load_store [of ?fs "0x1000" False "''length''" cu64 ?v "\<lambda>_. 7"] size by (simp add: c_limine_memmap_entry_def del: size_c.simps(3) put_fields.simps)
qed

text \<open>An image of which the boot loader has not taken notice.\<close>

definition untouched_mem :: mem where
  "untouched_mem = put_bytes 0x80000 (concat (map (le_bytes 8) (LIMINE_BASE_REVISION 4))) boot_mem"

definition requests_sample :: limine_requests where
  "requests_sample = \<lparr>limine_base_revision = 0x80000, framebuffer_request = 0x80020, memory_map_request = 0x80050, hhdm_request = 0x80080,
     module_request = 0x800b0\<rparr>"

theorem unanswered_request_halts_witness:
  "start_image image_sample requests_sample (boot_sample\<lparr>bt_vfs := vfs_blank\<lparr>vs_fs := (vs_fs vfs_blank)\<lparr>fs_mem := untouched_mem\<rparr>\<rparr>\<rparr>) = Inl Halted"
proof (rule unanswered_request_halts, rule disjI1)
  have "length (concat (map (le_bytes 8) (LIMINE_BASE_REVISION 4))) = 24" by (simp add: LIMINE_BASE_REVISION_def)
  then show "words_at (vmem (bt_vfs (boot_sample\<lparr>bt_vfs := vfs_blank\<lparr>vs_fs := (vs_fs vfs_blank)\<lparr>fs_mem := untouched_mem\<rparr>\<rparr>\<rparr>)))
      (limine_base_revision requests_sample) (LIMINE_BASE_REVISION 4)"
    using put_bytes_at [of "concat (map (le_bytes 8) (LIMINE_BASE_REVISION 4))" "0x80000" boot_mem]
    by (simp add: words_at_def untouched_mem_def requests_sample_def LIMINE_BASE_REVISION_def del: le_bytes.simps)
qed

text \<open>
  An image whose requests are answered: the responses, the arrays of pointers and the objects they point to are those of
  the example of \<open>Boot\<close>.
\<close>

definition answered_words :: "(u64 \<times> u64) list" where
  "answered_words =
     [(0x80048, 0x90000), (0x80078, 0x90020), (0x800a8, 0x90040), (0x800d8, 0x90060),
      (0x90008, 1), (0x90010, 0x90100), (0x90028, 1), (0x90030, 0x90108), (0x90048, 0xffff800000000000), (0x90068, 1), (0x90070, 0x90110),
      (0x90100, 0x90200), (0x90108, 0x90300), (0x90110, 0x90400),
      (0x90200, 0x1000), (0x90208, 16), (0x90210, 32), (0x90218, 64), (0x90220, 32), (0x90300, 0x100000), (0x90308, 0x1000000), (0x90408, 0x10000)]"

definition answered_mem :: mem where
  "answered_mem = (\<lambda>x. case map_of answered_words (of_nat (8 * (unat x div 8))) of None \<Rightarrow> 0
     | Some w \<Rightarrow> ucast (drop_bit (8 * (unat x mod 8)) w))"

lemma nth_le_bytes: "i < n \<Longrightarrow> le_bytes n w ! i = ucast (drop_bit (8 * i) w)"
proof (induction n arbitrary: i w)
  case (Suc n)
  then show ?case by (cases i) (simp_all add: drop_bit_drop_bit add.commute)
qed simp

lemma answered_bytes:
  assumes "map_of answered_words a = Some w" "a mod 8 = 0" "a < 0x100000" "n \<le> 8"
  shows "le_value (bytes_at answered_mem a n) = take_bit (8 * n) w"
proof -
  have "unat (a mod 8) = unat a mod 8" by (simp add: unat_mod)
  then have a: "unat a mod 8 = 0" "unat a + 8 < 2 ^ 64" using assms(2,3) by (simp_all add: word_less_nat_alt)
  have "bytes_at answered_mem a n = le_bytes n w"
  proof (rule nth_equalityI)
    fix i assume i: "i < length (bytes_at answered_mem a n)"
    then have "unat (a + of_nat i) = unat a + i" using a(2) assms(4) by (intro unat_add_of_nat_u64) simp
    moreover have "(unat a + i) div 8 = unat a div 8" "(unat a + i) mod 8 = i" using i a(1) assms(4) by auto
    moreover have "of_nat (8 * (unat a div 8)) = a" using a(1) using mult_div_mod_eq [of 8 "unat a"] by (simp del: of_nat_mult)
    ultimately show "bytes_at answered_mem a n ! i = le_bytes n w ! i" using i assms(1) by (simp add: answered_mem_def nth_le_bytes)
  qed simp
  then show ?thesis by (simp add: le_value_bytes)
qed

lemma answered_zero: "le_value (bytes_at answered_mem 0x80010 8) = 0" "le_value (bytes_at answered_mem 0x90310 8) = 0"
  by (simp_all add: bytes_at_def upt_rec answered_mem_def answered_words_def)

lemma answered_sample: "read_responses answered_mem requests_sample = responses_sample"
proof -
  have "list_all (\<lambda>(a, w). map_of answered_words a = Some w \<and> a mod 8 = 0 \<and> a < 0x100000) answered_words" by code_simp
  then have "list_all (\<lambda>(a, w). le_value (bytes_at answered_mem a 8) = w) answered_words"
    using answered_bytes [of _ _ 8] take_bit_length_eq [where 'a = 64] by (fastforce simp: list_all_iff)
  note w = this [unfolded answered_words_def list.pred_inject prod.case]
  have "le_value (bytes_at answered_mem 0x90220 2) = 32" using answered_bytes [of "0x90220" 32 2] by (simp add: answered_words_def)
  then show ?thesis
    by (simp add: read_responses_def read_response_def read_array_def read_framebuffer_def read_memmap_entry_def pointer_at_def
        LIMINE_BASE_REVISION_SUPPORTED_def requests_sample_def responses_sample_def mode_sample_def Let_def response_fields answered_zero w)
qed

end
