(* ===== verification/Spec2Isabelle.thy ===== *)
theory Spec2Isabelle
  imports Prelude CString Printk HeapAlloc LinkedList PageAlloc Paging Machine Sched Semaphore Pipe Initramfs Vfs
    Framebuffer Keyboard VirtualMemory Elf Syscall Fork Execve Isolation UserInit Boot Console System
    InterruptEntry Tlb Layout Limine
begin

text \<open>
  \<^bold>\<open>The program.\<close>  The repository is the kernel of a small 64-bit operating system in C.  The boot loader
  hands it a memory map, a framebuffer and a tar archive.  The kernel manages physical pages with
  bitmaps, virtual memory with four-level page tables, its own objects on a heap, and processes in a
  linked list that the timer interrupt schedules round robin.  Processes wait on semaphores, exchange
  bytes over pipes (the keyboard interrupt writes into one, the console process reads another), read
  files of the archive through a virtual file system, and enter the kernel with system calls.

  \<^bold>\<open>Conventions of the model.\<close>  Machine integers are words of the width the C types have
  (\<open>u8\<close>, \<open>u32\<close>, \<open>u64\<close>, \<open>i32\<close>), so that wrap-around and sign extension are those of the machine.
  A structure is a record; objects of one structure type that are reached through pointers are a
  function from addresses to records.  A function that can fail returns \<open>fault + 'a\<close>: \<open>NullDeref\<close>,
  \<open>OutOfBounds\<close>, \<open>Halted\<close> (the code executes \<open>hlt\<close>, or the processor faults) and \<open>Hang\<close> (a loop that
  never ends).  Loops over lists are \<open>while_option\<close> or \<open>partial_function (option)\<close>: that they
  end on well-formed lists is part of what is proved.  Counted loops are \<open>for_loop\<close> and \<open>for_res\<close>.
  Sections with interrupts disabled and operations on the global allocators under their mutex are
  atomic; pipes, whose code blocks in the middle, are modelled one statement at a time.

  \<^bold>\<open>Theories, sources and results.\<close>

  \<^item> \<open>Prelude\<close>: result type, faults, chains of nodes (\<open>chain\<close>), search loops, words.
  \<^item> \<open>CString\<close> (\<open>src/src/string.c\<close>): memory and string routines on a byte memory; copying with
    overlap, and the copy, length and comparison of strings.
  \<^item> \<open>Printk\<close> (\<open>src/src/printk.c\<close>): the formatter and its outputs; it prints the rendering of the
    format string, hexadecimal numbers read back to their value.
  \<^item> \<open>HeapAlloc\<close> (\<open>src/src/alloc.c\<close>): the block list of the kernel heap.  \<open>alloc\<close> and \<open>free\<close> refine
    first-fit allocation and release on a list of blocks, keep the heap well-formed, hand out disjoint
    blocks, and are inverse to each other.  The locale of a heap with live blocks is interpreted on them
    and used by the theories below.
  \<^item> \<open>LinkedList\<close> (\<open>src/src/ll.c\<close>): lists on that heap.
  \<^item> \<open>PageAlloc\<close> (\<open>src/src/memory.c\<close>): the page allocator.  Initialisation establishes its
    invariant, allocation returns an unused managed page, release returns exactly that page.
  \<^item> \<open>Paging\<close> (\<open>src/src/memory.c\<close>): page tables as a tree in physical memory; mapping extends the
    translation at one page, regions are mapped, unmapped and copied, and \<open>walk\<close> computes the
    translation of the processor.
  \<^item> \<open>Machine\<close> (\<open>io.c\<close>, \<open>interrupts.c\<close>, \<open>gdt.c\<close>): ports, flags, the descriptor tables.
  \<^item> \<open>Sched\<close> (\<open>src/src/sched.c\<close>): the process list, round-robin scheduling and its fairness,
    process creation, the tables of resources.
  \<^item> \<open>Semaphore\<close> (\<open>src/src/sem.c\<close>) and \<open>Pipe\<close> (\<open>src/src/pipe.c\<close>): counting semaphores with a queue;
    pipes as transition systems of any number of readers and writers and the interrupt, with
    first-in-first-out order and justified waiting as invariants by rule induction.
  \<^item> \<open>Initramfs\<close>, \<open>Vfs\<close> (\<open>src/src/fs/\<close>): lookup in the archive, mount points, open and read.  A file
    system is a record of operations; its contract is a locale, interpreted on the archive.
  \<^item> \<open>Framebuffer\<close> (\<open>src/src/framebuffer.c\<close>): the text console on memory refines an abstract
    screen, and writes only into the buffer.  \<open>Console\<close> adds the process that prints what it reads from
    its pipe: the screen shows what the other processes have written, in order.
  \<^item> \<open>Keyboard\<close> (\<open>src/src/keyboard.c\<close>): scancodes and the interrupt handler; what is read from the
    pipe is the sequence of accepted keys.
  \<^item> \<open>VirtualMemory\<close>: memory accesses through the page tables, with faults; memory as a view of bytes, and
    isolation: an operation on one address space leaves the memory of all others as it was.
  \<^item> \<open>Elf\<close> (\<open>src/src/elf.c\<close>): the loader, which maps pages into the address space it copies to.
  \<^item> \<open>Syscall\<close> (\<open>src/src/syscall.c\<close>): the dispatcher and all system calls on the combined state of
    processes, page tables and files.  \<open>Fork\<close> and \<open>Execve\<close> hold what \<open>fork\<close> and \<open>execve\<close> achieve across these
    components: the child runs on a copy of the memory of its parent that shares no frame with any other
    process, and a program of the archive replaces that of the caller.
  \<^item> \<open>Isolation\<close>: stores of user programs, all system calls and switches as steps of one system; over any
    sequence of them the address spaces stay separated, and a process that does not act keeps its memory.
    The argument is a locale of systems whose steps have one actor, interpreted on the steps of the kernel.
  \<^item> \<open>UserInit\<close> (\<open>enter_ring_3_init\<close> of \<open>src/src/main.c\<close>): the first process, its stack, program and
    descriptors, up to the jump to user mode.
  \<^item> \<open>Boot\<close> (\<open>_start\<close> of \<open>src/src/main.c\<close>): the initialisation of all components in order, which ends in the
    states that the other theories start from, or halts when the boot loader does not provide what it needs.
  \<^item> \<open>System\<close>: the state after booting as the start of the systems of \<open>Keyboard\<close> and \<open>Console\<close>.  The screen shows the boot
    messages followed by what processes write; readers of the keyboard get the keys in order.
  \<^item> \<open>InterruptEntry\<close> (\<open>src/src/interrupt_handler.asm\<close>, \<open>src/src/exception_handler.asm\<close>): the assembly code, instruction by
    instruction, on a machine with registers, flags, a stack and \<open>cr3\<close>, with the delivery of interrupts and the calls of the C
    functions of \<open>Sched\<close>, \<open>Keyboard\<close>, \<open>Syscall\<close> and \<open>Machine\<close>.  The timer saves the interrupted context as a \<open>cpu_status\<close> and
    continues the process that \<open>schedule\<close> chose; an interrupted process resumes with all its registers; the keyboard interrupt is
    invisible to the program it interrupts; a system call passes its arguments on and returns behind the instruction; an
    exception is reported with its number, error code and frame.  The argument for code that leaves the stack as it
    was is a locale, interpreted on the keyboard and the system call entry.
  \<^item> \<open>Tlb\<close> (\<open>invlpg\<close>, \<open>map_memory_page\<close>, \<open>free_region\<close> of \<open>src/src/memory.c\<close>, \<open>write_cr3\<close>): the translation cache beside the page tables.  The
    cache agrees with the tables as long as regions are freed only in address spaces that are not loaded; what happens
    otherwise is a defect that is stated.  Operations that keep the translations are a locale.
  \<^item> \<open>Layout\<close>: the declarations of all structures, laid out by the rules of C, against the sizes, offsets, selectors and the
    push order that code, assembly and hardware rely on.
  \<^item> \<open>Limine\<close> (\<open>src/include/limine.h\<close>, the requests of \<open>main.c\<close>): requests and responses as objects in byte memory; what is
    read of them is the input of \<open>Boot\<close>, and unanswered requests halt the kernel.

  Theorems whose text describes a defect (among them \<open>ll_add_back_unlinked\<close>,
  \<open>calc_header_pages_hangs\<close>, \<open>pipe_try_write_race\<close>, \<open>vfs_mount_second\<close>, \<open>clear_ignores_pitch\<close>,
  \<open>map_elf_unaligned\<close>, \<open>fork_list_cycle\<close>, \<open>user_contexts_collide\<close>, \<open>free_region_stale\<close>) state what the code does where it does not do what it
  means to.

  \<^bold>\<open>Bounds.\<close>  The loop over program headers runs at most \<open>0x10000\<close> times, because their number is a
  16-bit field; no other loop has a bound that the code does not have.

  \<^bold>\<open>Parameters.\<close>  The addresses of the assembly entry points and of static objects, the address of
  the font, the bytes read from ports, the mapping of the kernel half of the address space
  (\<open>kmap\<close>), the registers saved by the inline assembly of \<open>fork\<close>, the translation of addresses and what
  compiled C code leaves in scratch registers and below its stack pointer (\<open>ccode\<close>, in \<open>InterruptEntry\<close>), and, for system calls on pipes, the
  operations on pipes, because those are sequences of steps that other processes interleave with.

  \<^bold>\<open>Not modelled.\<close>  The endless loop at the end of \<open>_start\<close>, which does nothing; the requests of the boot protocol that the kernel does
  not make, and the boot loader; the headers that only name types or declare functions; the linker script, the
  build files and the font, which is data in memory.

  \<^bold>\<open>Assumptions of the composed systems.\<close>  The steps of \<open>Isolation\<close> that allocate are taken when there are
  enough free pages, because the code does not test for their lack; pointers that a process passes lie in its
  own memory, because the code does not check them.  In \<open>Console\<close> only the console process reads the pipe
  and draws.
\<close>

end
